(* ===== verification/Prelude.thy ===== *)
theory Prelude
  imports Main "HOL-Library.Word"
begin

text \<open>
  Shared vocabulary of the development: machine integers, the result type that carries the
  error paths of the Rust code, the atomic read-modify-write operations of
  \<open>std::sync::atomic\<close> that the crate uses, and generic list lemmas.

  Every shared-memory access of the crate that matters for its correctness is a single atomic
  access; the step relations of the other theories interleave those accesses, and give them the
  sequentially consistent meaning (the code asks for \<open>SeqCst\<close> on the counters of the
  lockout and on all marks).
\<close>

unbundle bit_operations_syntax

type_synonym u64 = "64 word"
type_synonym usize = "64 word"

named_theorems frame_simps \<open>what an operation leaves unchanged\<close>
named_theorems weight_simps \<open>sums of thread weights after one thread has moved\<close>

subsection \<open>Results\<close>

text \<open>
  \<open>Panic\<close>: an \<open>assert!\<close>, \<open>panic!\<close> or \<open>expect\<close> of the source fires.
  \<open>Blocked\<close>: the calling thread would sleep on something only another thread can release.
  \<open>Undefined\<close>: the code would read memory that is uninitialised or already released.
  \<open>Abort\<close>: the process ends, as when a destructor panics while another panic unwinds.
\<close>

datatype gc_error = Panic | Blocked | Undefined | Abort

type_synonym 'a result = "gc_error + 'a"

definition res_bind :: "'a result \<Rightarrow> ('a \<Rightarrow> 'b result) \<Rightarrow> 'b result" where
  "res_bind r f = (case r of Inl e \<Rightarrow> Inl e | Inr a \<Rightarrow> f a)"

lemma res_bind_simps [simp]:
  "res_bind (Inl e) f = Inl e"
  "res_bind (Inr a) f = f a"
  by (simp_all add: res_bind_def)

lemma res_bind_eq_Inr: "res_bind r f = Inr b \<longleftrightarrow> (\<exists>a. r = Inr a \<and> f a = Inr b)"
  by (cases r) simp_all

text \<open>A loop whose body may fail: it stops at the first failing element.\<close>

primrec fold_res :: "('a \<Rightarrow> 's \<Rightarrow> 's result) \<Rightarrow> 'a list \<Rightarrow> 's \<Rightarrow> 's result" where
  "fold_res f [] s = Inr s"
| "fold_res f (x # xs) s = res_bind (f x s) (fold_res f xs)"

lemma fold_res_append:
  "fold_res f (xs @ ys) s = res_bind (fold_res f xs s) (fold_res f ys)"
  by (induction xs arbitrary: s) (simp_all add: res_bind_def split: sum.split)

text \<open>
  If an invariant makes every body succeed with the value of a pure function, the loop is the
  plain fold of that function; the invariant holds at the end.
\<close>

lemma fold_res_pure:
  assumes "I s"
    and "\<And>x s. x \<in> set xs \<Longrightarrow> I s \<Longrightarrow> f x s = Inr (g x s) \<and> I (g x s)"
  shows "fold_res f xs s = Inr (fold g xs s) \<and> I (fold g xs s)"
  using assms by (induction xs arbitrary: s) auto

lemma fold_inv:
  assumes "I s" and "\<And>x s. x \<in> set xs \<Longrightarrow> I s \<Longrightarrow> I (g x s)"
  shows "I (fold g xs s)"
  using assms by (induction xs arbitrary: s) auto

subsection \<open>Atomic operations\<close>

text \<open>
  \<open>compare_exchange cur expected new\<close> is the pair of what the call returns (\<open>Inr\<close> of the
  old value on success, \<open>Inl\<close> of the value found on failure) and the new content of the cell.
\<close>

definition compare_exchange :: "'a \<Rightarrow> 'a \<Rightarrow> 'a \<Rightarrow> ('a + 'a) \<times> 'a" where
  "compare_exchange cur expected new = (if cur = expected then (Inr cur, new) else (Inl cur, cur))"

definition is_ok :: "'e + 'a \<Rightarrow> bool" where
  "is_ok r = (case r of Inl _ \<Rightarrow> False | Inr _ \<Rightarrow> True)"

lemma is_ok_simps [simp]: "is_ok (Inr a)" "\<not> is_ok (Inl e)"
  by (simp_all add: is_ok_def)

lemma compare_exchange_simps [simp]:
  "is_ok (fst (compare_exchange cur expected new)) \<longleftrightarrow> cur = expected"
  "snd (compare_exchange cur expected new) = (if cur = expected then new else cur)"
  by (simp_all add: compare_exchange_def)

subsection \<open>Counters on machine words\<close>

lemma unat_Suc_word:
  fixes c :: u64
  assumes "unat c + 1 < 2 ^ 64"
  shows "unat (c + 1) = unat c + 1"
  using assms by (simp add: unat_word_ariths)

lemma unat_pred_word:
  fixes c :: u64
  assumes "0 < c"
  shows "unat (c - 1) = unat c - 1"
  using assms by (simp add: unat_minus_one word_gt_0)

lemma pos_word_iff: "0 < (c :: u64) \<longleftrightarrow> 0 < unat c"
  by (simp add: word_gt_0 unat_gt_0)

subsection \<open>Lists of thread states\<close>

text \<open>
  The thread models keep the program counters of the threads in a list and count the threads in
  some phase as a sum of weights. Moving one thread changes one summand.
\<close>

definition weight :: "('a \<Rightarrow> nat) \<Rightarrow> 'a list \<Rightarrow> nat" where
  "weight f xs = sum_list (map f xs)"

lemma weight_update [weight_simps]:
  assumes "i < length xs"
  shows "weight f (xs[i := x]) = weight f xs - f (xs ! i) + f x"
proof -
  have "weight f xs = weight f (take i xs) + f (xs ! i) + weight f (drop (Suc i) xs)"
    using assms by (subst id_take_nth_drop [of i xs]) (simp_all add: weight_def)
  then show ?thesis
    using assms by (simp add: weight_def upd_conv_take_nth_drop)
qed

lemma weight_ge: "i < length xs \<Longrightarrow> f (xs ! i) \<le> weight f xs"
  by (simp add: weight_def member_le_sum_list)

lemma weight_pos: "i < length xs \<Longrightarrow> 0 < f (xs ! i) \<Longrightarrow> 0 < weight f xs"
  using weight_ge [of i xs f] by linarith

lemma weight_map [weight_simps]: "(\<And>x. f (g x) = f x) \<Longrightarrow> weight f (map g xs) = weight f xs"
  by (simp add: weight_def comp_def)

lemma weight_replicate: "f x = 0 \<Longrightarrow> weight f (replicate n x) = 0"
  by (simp add: weight_def)

lemma weight_zeroD: "weight f xs = 0 \<Longrightarrow> i < length xs \<Longrightarrow> f (xs ! i) = 0"
  using weight_ge [of i xs f] by simp

lemma weight_pos_ex:
  assumes "0 < weight f xs"
  shows "\<exists>i < length xs. 0 < f (xs ! i)"
proof (rule ccontr)
  assume "\<not> ?thesis"
  then have "\<forall>x \<in> set xs. f x = 0" by (auto simp: in_set_conv_nth)
  then have "weight f xs = 0" by (simp add: weight_def)
  with assms show False by simp
qed

subsection \<open>Updating many elements of an arena\<close>

text \<open>
  A parallel loop that updates the objects of a set, each by the same function: its result is this,
  whatever the order.
\<close>

definition upd_all :: "('a \<Rightarrow> 'a) \<Rightarrow> nat set \<Rightarrow> 'a list \<Rightarrow> 'a list" where
  "upd_all f D xs = map (\<lambda>i. if i \<in> D then f (xs ! i) else xs ! i) [0..<length xs]"

lemma length_upd_all [simp]: "length (upd_all f D xs) = length xs"
  by (simp add: upd_all_def)

lemma nth_upd_all [simp]: "i < length xs \<Longrightarrow> upd_all f D xs ! i = (if i \<in> D then f (xs ! i) else xs ! i)"
  by (simp add: upd_all_def)

lemma upd_all_empty [simp]: "upd_all f {} xs = xs"
  by (simp add: list_eq_iff_nth_eq)

lemma upd_all_insert:
  "i < length xs \<Longrightarrow> i \<notin> D \<Longrightarrow> (upd_all f D xs)[i := f (xs ! i)] = upd_all f (insert i D) xs"
  by (simp add: list_eq_iff_nth_eq nth_list_update)

lemma upd_all_insert_idem:
  "i < length xs \<Longrightarrow> (\<And>x. f (f x) = f x) \<Longrightarrow>
     (upd_all f D xs)[i := f (upd_all f D xs ! i)] = upd_all f (insert i D) xs"
  by (simp add: list_eq_iff_nth_eq nth_list_update)

lemma upd_all_Un: "(\<And>x. f (f x) = f x) \<Longrightarrow> upd_all f D (upd_all f E xs) = upd_all f (D \<union> E) xs"
  by (simp add: list_eq_iff_nth_eq)

text \<open>A loop whose state after each prefix of the list is known.\<close>

lemma fold_res_prefix:
  assumes "\<And>ps p qs. xs = ps @ p # qs \<Longrightarrow> f p (S ps) = Inr (S (ps @ [p]))"
  shows "fold_res f xs (S []) = Inr (S xs)"
proof -
  have "fold_res f qs (S ps) = Inr (S (ps @ qs))" if "xs = ps @ qs" for ps qs
    using that
  proof (induction qs arbitrary: ps)
    case (Cons q qs)
    then show ?case using assms [of ps q qs] Cons.IH [of "ps @ [q]"] by simp
  qed simp
  from this [of "[]" xs] show ?thesis by simp
qed

end
