(* ===== verification/Locking.thy ===== *)
theory Locking
  imports Prelude
begin

text \<open>
  The interface the collector uses for its two reader-writer locks: the lockout of each piece of
  data (\<open>src/concurrency/lockout.rs\<close>) and the spinlock that keeps atomics still during a
  collection (\<open>src/concurrency/atomic_protection.rs\<close>). \<open>readers\<close> and \<open>writer\<close> read
  the state of the lock; \<open>room\<close> bounds the number of readers the state can count.
\<close>

locale rw_lock =
  fixes fresh :: "'l"
    and acquire :: "'l \<Rightarrow> 'l result"
    and try_exclusive :: "'l \<Rightarrow> 'l option"
    and release :: "'l \<Rightarrow> 'l result"
    and release_exclusive :: "'l \<Rightarrow> 'l result"
    and readers :: "'l \<Rightarrow> nat"
    and writer :: "'l \<Rightarrow> bool"
    and room :: "'l \<Rightarrow> bool"
  assumes fresh_free: "readers fresh = 0" "\<not> writer fresh"
    and writer_alone: "writer l \<Longrightarrow> readers l = 0"
    and acquire_free: "\<not> writer l \<Longrightarrow> room l \<Longrightarrow>
          \<exists>l'. acquire l = Inr l' \<and> readers l' = readers l + 1 \<and> \<not> writer l'"
    and acquire_busy: "writer l \<Longrightarrow> acquire l = Inl Blocked"
    and try_free: "\<not> writer l \<Longrightarrow> readers l = 0 \<Longrightarrow> \<exists>l'. try_exclusive l = Some l' \<and> writer l'"
    and try_busy: "writer l \<or> 0 < readers l \<Longrightarrow> try_exclusive l = None"
    and release_held: "0 < readers l \<Longrightarrow>
          \<exists>l'. release l = Inr l' \<and> readers l' = readers l - 1 \<and> \<not> writer l'"
    and release_exclusive_held: "writer l \<Longrightarrow>
          \<exists>l'. release_exclusive l = Inr l' \<and> readers l' = 0 \<and> \<not> writer l'"
begin

lemma try_exclusive_iff:
  "try_exclusive l \<noteq> None \<longleftrightarrow> \<not> writer l \<and> readers l = 0"
  by (cases "writer l \<or> 0 < readers l") (use try_free [of l] try_busy [of l] in auto)

lemma exclusive_shuts_out:
  assumes "try_exclusive l = Some l'"
  shows "acquire l' = Inl Blocked" and "try_exclusive l' = None"
proof -
  have "writer l'"
    using assms try_free [of l] try_exclusive_iff [of l] by auto
  then show "acquire l' = Inl Blocked" and "try_exclusive l' = None"
    using acquire_busy try_busy by blast+
qed

lemma shared_shuts_out:
  assumes "acquire l = Inr l'" and "room l"
  shows "try_exclusive l' = None"
proof -
  have "\<not> writer l" using assms(1) acquire_busy by fastforce
  then have "0 < readers l'" using acquire_free [of l] assms by auto
  then show ?thesis by (simp add: try_busy)
qed

lemma acquire_release:
  assumes "\<not> writer l" and "room l"
  shows "\<exists>l'. res_bind (acquire l) release = Inr l' \<and> readers l' = readers l \<and> \<not> writer l'"
proof -
  obtain l1 where l1: "acquire l = Inr l1" "readers l1 = readers l + 1"
    using acquire_free [OF assms] by blast
  then show ?thesis using release_held [of l1] by auto
qed

lemma exclusive_cycle:
  assumes "\<not> writer l" and "readers l = 0"
  shows "\<exists>l1 l2. try_exclusive l = Some l1 \<and> release_exclusive l1 = Inr l2 \<and>
           readers l2 = 0 \<and> \<not> writer l2"
proof -
  obtain l1 where "try_exclusive l = Some l1" "writer l1"
    using try_free [OF assms] by blast
  then show ?thesis using release_exclusive_held [of l1] by blast
qed

end

text \<open>A lock whose destructors check that there is something to release.\<close>

locale warrant_lock = rw_lock +
  assumes release_none: "readers l = 0 \<Longrightarrow> release l = Inl Panic"
    and release_exclusive_none: "\<not> writer l \<Longrightarrow> release_exclusive l = Inl Panic"
begin

lemma release_iff: "(\<exists>l'. release l = Inr l') \<longleftrightarrow> 0 < readers l"
  by (cases "readers l = 0") (use release_held [of l] release_none [of l] in auto)

lemma release_exclusive_iff: "(\<exists>l'. release_exclusive l = Inr l') \<longleftrightarrow> writer l"
  by (cases "writer l") (use release_exclusive_held [of l] release_exclusive_none [of l] in auto)

text \<open>A destructor run twice panics instead of releasing somebody else's warrant.\<close>

lemma no_double_release:
  assumes "readers l = 1" "release l = Inr l'"
  shows "release l' = Inl Panic"
  using release_held [of l] assms by (intro release_none) auto

lemma no_double_release_exclusive:
  assumes "release_exclusive l = Inr l'"
  shows "release_exclusive l' = Inl Panic"
proof (rule release_exclusive_none)
  show "\<not> writer l'"
    using assms release_exclusive_held [of l] release_exclusive_none [of l] by fastforce
qed

end

end
