(* ===== verification/Lockout.thy ===== *)
theory Lockout
  imports Locking
begin

text \<open>
  The lockout of \<open>src/concurrency/lockout.rs\<close>: a counter that is either the number of
  shared warrants or the signpost \<open>!0\<close> of the one exclusive warrant. This theory holds the
  operations as they run when no other thread interferes, as an instance of \<open>warrant_lock\<close>; \<open>Lockout_Threads\<close> interleaves the
  individual atomic accesses of any number of threads.
\<close>

record lockout =
  lk_count :: u64

definition EXCLUSIVE_SIGNPOST :: u64 where
  "EXCLUSIVE_SIGNPOST = NOT 0"

definition lockout_new :: lockout where
  "lockout_new = \<lparr>lk_count = 0\<rparr>"

text \<open>
  The slow path of \<open>get_warrant\<close>, one turn of its loop, with the mutex held. A signposted
  counter makes the thread sleep on the condition variable.
\<close>

definition get_warrant_slow :: "lockout \<Rightarrow> lockout result" where
  "get_warrant_slow lk =
     (let value = lk_count lk
      in if value = EXCLUSIVE_SIGNPOST then Inl Blocked
         else let (swap_result, c) = compare_exchange (lk_count lk) value (value + 1)
              in if is_ok swap_result then Inr (lk\<lparr>lk_count := c\<rparr>) else Inl Blocked)"

definition get_warrant :: "lockout \<Rightarrow> lockout result" where
  "get_warrant lk =
     (let starting_count = lk_count lk
      in if starting_count \<noteq> EXCLUSIVE_SIGNPOST
         then let (swap_result, c) = compare_exchange (lk_count lk) starting_count (starting_count + 1)
              in if is_ok swap_result then Inr (lk\<lparr>lk_count := c\<rparr>) else get_warrant_slow lk
         else get_warrant_slow lk)"

definition get_exclusive_warrant :: "lockout \<Rightarrow> lockout option" where
  "get_exclusive_warrant lk =
     (let (swap_result, c) = compare_exchange (lk_count lk) 0 EXCLUSIVE_SIGNPOST
      in if is_ok swap_result then Some (lk\<lparr>lk_count := c\<rparr>) else None)"

definition drop_warrant :: "lockout \<Rightarrow> lockout result" where
  "drop_warrant lk =
     (let count = lk_count lk
      in if 0 < count \<and> count \<noteq> EXCLUSIVE_SIGNPOST
         then Inr (lk\<lparr>lk_count := snd (compare_exchange (lk_count lk) count (count - 1))\<rparr>)
         else Inl Panic)"

definition drop_exclusive_warrant :: "lockout \<Rightarrow> lockout result" where
  "drop_exclusive_warrant lk =
     (let (swap_result, c) = compare_exchange (lk_count lk) EXCLUSIVE_SIGNPOST 0
      in if is_ok swap_result then Inr (lk\<lparr>lk_count := c\<rparr>) else Inl Panic)"

subsection \<open>The two readings of the counter\<close>

definition lk_exclusive :: "lockout \<Rightarrow> bool" where
  "lk_exclusive lk \<longleftrightarrow> lk_count lk = EXCLUSIVE_SIGNPOST"

definition lk_warrants :: "lockout \<Rightarrow> nat" where
  "lk_warrants lk = (if lk_exclusive lk then 0 else unat (lk_count lk))"

text \<open>One more warrant still leaves the counter below the signpost.\<close>

definition lk_room :: "lockout \<Rightarrow> bool" where
  "lk_room lk \<longleftrightarrow> lk_warrants lk + 1 < unat EXCLUSIVE_SIGNPOST"

lemma signpost_nz [simp]: "EXCLUSIVE_SIGNPOST \<noteq> 0" "0 \<noteq> EXCLUSIVE_SIGNPOST"
  by (simp_all add: EXCLUSIVE_SIGNPOST_def)

lemma unat_signpost: "unat EXCLUSIVE_SIGNPOST = 2 ^ 64 - 1"
  by (simp add: EXCLUSIVE_SIGNPOST_def unsigned_minus_1_eq_mask mask_eq_exp_minus_1)

lemma signpost_eq_unat: "c = EXCLUSIVE_SIGNPOST \<longleftrightarrow> unat c = 2 ^ 64 - 1"
  by (metis unat_signpost unsigned_word_eqI)

lemma get_warrant_eq:
  "get_warrant lk = (if lk_exclusive lk then Inl Blocked else Inr (lk\<lparr>lk_count := lk_count lk + 1\<rparr>))"
  by (simp add: get_warrant_def get_warrant_slow_def lk_exclusive_def compare_exchange_def)

lemma get_exclusive_warrant_eq:
  "get_exclusive_warrant lk =
     (if lk_count lk = 0 then Some (lk\<lparr>lk_count := EXCLUSIVE_SIGNPOST\<rparr>) else None)"
  by (simp add: get_exclusive_warrant_def compare_exchange_def)

lemma drop_warrant_eq:
  "drop_warrant lk =
     (if 0 < lk_count lk \<and> \<not> lk_exclusive lk then Inr (lk\<lparr>lk_count := lk_count lk - 1\<rparr>)
      else Inl Panic)"
  by (simp add: drop_warrant_def lk_exclusive_def compare_exchange_def Let_def)

lemma drop_exclusive_warrant_eq:
  "drop_exclusive_warrant lk =
     (if lk_exclusive lk then Inr (lk\<lparr>lk_count := 0\<rparr>) else Inl Panic)"
  by (simp add: drop_exclusive_warrant_def lk_exclusive_def compare_exchange_def)

subsection \<open>The lockout is a warrant lock\<close>

interpretation lk: warrant_lock lockout_new get_warrant get_exclusive_warrant drop_warrant
  drop_exclusive_warrant lk_warrants lk_exclusive lk_room
proof (unfold_locales, goal_cases)
  case (4 l)
  have lt: "unat (lk_count l) + 1 < unat EXCLUSIVE_SIGNPOST"
    using 4 by (simp add: lk_room_def lk_warrants_def)
  then have "unat (lk_count l + 1) = unat (lk_count l) + 1"
    by (intro unat_Suc_word) (simp add: unat_signpost)
  with 4 lt show ?case
    by (auto simp: get_warrant_eq lk_warrants_def lk_exclusive_def)
next
  case (8 l)
  then have pos: "0 < lk_count l" "lk_count l \<noteq> EXCLUSIVE_SIGNPOST"
    by (auto simp: lk_warrants_def lk_exclusive_def unat_gt_0 word_gt_0 split: if_splits)
  have "unat (lk_count l) \<noteq> 2 ^ 64 - 1" using pos signpost_eq_unat by blast
  moreover have "unat (lk_count l) < 2 ^ 64" using unsigned_less [of "lk_count l"] by simp
  ultimately have "unat (lk_count l - 1) \<noteq> 2 ^ 64 - 1"
    using pos unat_pred_word [of "lk_count l"] by linarith
  with pos show ?case
    by (auto simp: drop_warrant_eq lk_warrants_def lk_exclusive_def unat_pred_word signpost_eq_unat)
next
  case (10 l)
  then show ?case
    by (auto simp: drop_warrant_eq lk_warrants_def lk_exclusive_def unat_eq_zero split: if_splits)
qed (auto simp: lockout_new_def lk_exclusive_def lk_warrants_def get_warrant_eq
      get_exclusive_warrant_eq drop_exclusive_warrant_eq drop_warrant_eq unat_eq_zero
      split: if_splits)

end
