(* ===== verification/Lockout_Threads.thy ===== *)
theory Lockout_Threads
  imports Lockout
begin

text \<open>
  Any number of threads inside the lockout of \<open>src/concurrency/lockout.rs\<close>, interleaved at
  every atomic access of the counter, every lock and unlock of the mutex, and every wait and
  notification of the condition variable. A program counter names the point a thread has reached;
  \<open>lk_advance\<close> is the code between two such points.
\<close>

datatype lk_pc =
    LkIdle
  | GwLoaded u64        \<comment> \<open>\<open>get_warrant\<close>: the fast path has loaded \<open>starting_count\<close>\<close>
  | GwSlow              \<comment> \<open>about to lock \<open>lockout_mutex\<close>\<close>
  | GwLocked            \<comment> \<open>mutex held, top of the loop\<close>
  | GwMustWait          \<comment> \<open>mutex held, the value loaded was the signpost\<close>
  | GwWaiting           \<comment> \<open>asleep on the condition variable, mutex released\<close>
  | GwNotified          \<comment> \<open>woken, has to take the mutex again\<close>
  | GwSlowLoaded u64    \<comment> \<open>mutex held, the value loaded was not the signpost\<close>
  | GwUnlock            \<comment> \<open>warrant taken, mutex still held\<close>
  | DwStart             \<comment> \<open>\<open>Warrant::drop\<close>, top of the loop\<close>
  | DwLoaded u64
  | DxStart             \<comment> \<open>\<open>ExclusiveWarrant::drop\<close>, about to lock the mutex\<close>
  | DxLocked
  | DxSwapped           \<comment> \<open>counter is reset, \<open>notify_all\<close> still to come\<close>
  | DxUnlock
  | LkPanicked          \<comment> \<open>one of the assertions in the two destructors has failed\<close>

text \<open>What an idle thread may start.\<close>

datatype lk_call = GetWarrant | GetExclusive | DropWarrant | DropExclusive

text \<open>
  \<open>lk_held\<close> and \<open>lk_xheld\<close> count the \<open>Warrant\<close> and \<open>ExclusiveWarrant\<close> values that
  client code owns; a destructor takes one of them.
\<close>

record lk_sys =
  lk_shared :: lockout
  lk_mutex :: "nat option"
  lk_pcs :: "lk_pc list"
  lk_held :: nat
  lk_xheld :: nat

definition lk_init :: "nat \<Rightarrow> lk_sys" where
  "lk_init n = \<lparr>lk_shared = lockout_new, lk_mutex = None, lk_pcs = replicate n LkIdle,
                lk_held = 0, lk_xheld = 0\<rparr>"

abbreviation lk_val :: "lk_sys \<Rightarrow> u64" where
  "lk_val s \<equiv> lk_count (lk_shared s)"

definition lk_goto :: "nat \<Rightarrow> lk_pc \<Rightarrow> lk_sys \<Rightarrow> lk_sys" where
  "lk_goto i pc s = s\<lparr>lk_pcs := (lk_pcs s)[i := pc]\<rparr>"

definition lk_store :: "u64 \<Rightarrow> lk_sys \<Rightarrow> lk_sys" where
  "lk_store c s = s\<lparr>lk_shared := (lk_shared s)\<lparr>lk_count := c\<rparr>\<rparr>"

definition lk_wake :: "lk_pc \<Rightarrow> lk_pc" where
  "lk_wake pc = (if pc = GwWaiting then GwNotified else pc)"

text \<open>Threads that are inside \<open>get_warrant\<close> without a warrant yet, and warrants in a destructor.\<close>

fun gw_weight :: "lk_pc \<Rightarrow> nat" where
  "gw_weight (GwLoaded _) = 1"
| "gw_weight GwSlow = 1"
| "gw_weight GwLocked = 1"
| "gw_weight GwMustWait = 1"
| "gw_weight GwWaiting = 1"
| "gw_weight GwNotified = 1"
| "gw_weight (GwSlowLoaded _) = 1"
| "gw_weight _ = 0"

fun dw_weight :: "lk_pc \<Rightarrow> nat" where
  "dw_weight DwStart = 1"
| "dw_weight (DwLoaded _) = 1"
| "dw_weight _ = 0"

fun dx_weight :: "lk_pc \<Rightarrow> nat" where
  "dx_weight DxStart = 1"
| "dx_weight DxLocked = 1"
| "dx_weight _ = 0"

definition lk_readers :: "lk_sys \<Rightarrow> nat" where
  "lk_readers s = lk_held s + weight dw_weight (lk_pcs s)"

definition lk_writers :: "lk_sys \<Rightarrow> nat" where
  "lk_writers s = lk_xheld s + weight dx_weight (lk_pcs s)"

definition lk_entering :: "lk_sys \<Rightarrow> nat" where
  "lk_entering s = weight gw_weight (lk_pcs s)"

text \<open>
  A thread starts a call. \<open>cap\<close> bounds the warrants that exist or are being taken: a warrant
  holds an \<open>Arc\<close>, so the address space bounds their number far below the signpost.
\<close>

fun lk_start :: "nat \<Rightarrow> lk_call \<Rightarrow> nat \<Rightarrow> lk_sys \<Rightarrow> lk_sys option" where
  "lk_start cap GetWarrant i s =
     (if lk_readers s + lk_entering s < cap
      then let starting_count = lk_val s
           in Some (lk_goto i (if starting_count \<noteq> EXCLUSIVE_SIGNPOST
                                then GwLoaded starting_count else GwSlow) s)
      else None)"
| "lk_start cap GetExclusive i s =
     (let (swap_result, c) = compare_exchange (lk_val s) 0 EXCLUSIVE_SIGNPOST
      in Some (if is_ok swap_result then lk_store c (s\<lparr>lk_xheld := lk_xheld s + 1\<rparr>) else s))"
| "lk_start cap DropWarrant i s =
     (if 0 < lk_held s then Some (lk_goto i DwStart (s\<lparr>lk_held := lk_held s - 1\<rparr>)) else None)"
| "lk_start cap DropExclusive i s =
     (if 0 < lk_xheld s then Some (lk_goto i DxStart (s\<lparr>lk_xheld := lk_xheld s - 1\<rparr>)) else None)"

text \<open>A thread inside a call goes on to its next point; \<open>None\<close>: it has to wait.\<close>

fun lk_advance :: "lk_pc \<Rightarrow> nat \<Rightarrow> lk_sys \<Rightarrow> lk_sys option" where
  "lk_advance (GwLoaded v) i s =
     (let (swap_result, c) = compare_exchange (lk_val s) v (v + 1)
      in if is_ok swap_result
         then Some (lk_goto i LkIdle (lk_store c (s\<lparr>lk_held := lk_held s + 1\<rparr>)))
         else Some (lk_goto i GwSlow s))"
| "lk_advance GwSlow i s =
     (if lk_mutex s = None then Some (lk_goto i GwLocked (s\<lparr>lk_mutex := Some i\<rparr>)) else None)"
| "lk_advance GwLocked i s =
     (let value = lk_val s
      in Some (lk_goto i (if value = EXCLUSIVE_SIGNPOST then GwMustWait else GwSlowLoaded value) s))"
| "lk_advance GwMustWait i s = Some (lk_goto i GwWaiting (s\<lparr>lk_mutex := None\<rparr>))"
| "lk_advance GwWaiting i s = None"
| "lk_advance GwNotified i s =
     (if lk_mutex s = None then Some (lk_goto i GwLocked (s\<lparr>lk_mutex := Some i\<rparr>)) else None)"
| "lk_advance (GwSlowLoaded v) i s =
     (let (swap_result, c) = compare_exchange (lk_val s) v (v + 1)
      in if is_ok swap_result
         then Some (lk_goto i GwUnlock (lk_store c (s\<lparr>lk_held := lk_held s + 1\<rparr>)))
         else Some (lk_goto i GwLocked s))"
| "lk_advance GwUnlock i s = Some (lk_goto i LkIdle (s\<lparr>lk_mutex := None\<rparr>))"
| "lk_advance DwStart i s =
     (let count = lk_val s
      in Some (lk_goto i (if 0 < count \<and> count \<noteq> EXCLUSIVE_SIGNPOST
                           then DwLoaded count else LkPanicked) s))"
| "lk_advance (DwLoaded v) i s =
     (let (swap_result, c) = compare_exchange (lk_val s) v (v - 1)
      in if is_ok swap_result then Some (lk_goto i LkIdle (lk_store c s))
         else Some (lk_goto i DwStart s))"
| "lk_advance DxStart i s =
     (if lk_mutex s = None then Some (lk_goto i DxLocked (s\<lparr>lk_mutex := Some i\<rparr>)) else None)"
| "lk_advance DxLocked i s =
     (let (swap_result, c) = compare_exchange (lk_val s) EXCLUSIVE_SIGNPOST 0
      in if is_ok swap_result then Some (lk_goto i DxSwapped (lk_store c s))
         else Some (lk_goto i LkPanicked (s\<lparr>lk_mutex := None\<rparr>)))"
| "lk_advance DxSwapped i s =
     Some (lk_goto i DxUnlock (s\<lparr>lk_pcs := map lk_wake (lk_pcs s)\<rparr>))"
| "lk_advance DxUnlock i s = Some (lk_goto i LkIdle (s\<lparr>lk_mutex := None\<rparr>))"
| "lk_advance LkIdle i s = None"
| "lk_advance LkPanicked i s = None"

inductive lk_step :: "nat \<Rightarrow> lk_sys \<Rightarrow> lk_sys \<Rightarrow> bool" for cap where
  start: "i < length (lk_pcs s) \<Longrightarrow> lk_pcs s ! i = LkIdle \<Longrightarrow> lk_start cap call i s = Some t \<Longrightarrow>
            lk_step cap s t"
| advance: "i < length (lk_pcs s) \<Longrightarrow> lk_advance (lk_pcs s ! i) i s = Some t \<Longrightarrow> lk_step cap s t"

inductive lk_reachable :: "nat \<Rightarrow> nat \<Rightarrow> lk_sys \<Rightarrow> bool" for cap n where
  init: "lk_reachable cap n (lk_init n)"
| step: "lk_reachable cap n s \<Longrightarrow> lk_step cap s t \<Longrightarrow> lk_reachable cap n t"

subsection \<open>The invariant\<close>

fun lk_in_mutex :: "lk_pc \<Rightarrow> bool" where
  "lk_in_mutex GwLocked = True"
| "lk_in_mutex GwMustWait = True"
| "lk_in_mutex (GwSlowLoaded _) = True"
| "lk_in_mutex GwUnlock = True"
| "lk_in_mutex DxLocked = True"
| "lk_in_mutex DxSwapped = True"
| "lk_in_mutex DxUnlock = True"
| "lk_in_mutex _ = False"

text \<open>The counter is the signpost exactly while the one exclusive warrant exists.\<close>

definition lk_count_inv :: "nat \<Rightarrow> lk_sys \<Rightarrow> bool" where
  "lk_count_inv cap s \<longleftrightarrow>
     lk_readers s + lk_entering s \<le> cap \<and>
     (lk_val s = EXCLUSIVE_SIGNPOST \<and> lk_writers s = 1 \<and> lk_readers s = 0 \<or>
      lk_writers s = 0 \<and> unat (lk_val s) = lk_readers s)"

definition lk_mutex_inv :: "lk_sys \<Rightarrow> bool" where
  "lk_mutex_inv s \<longleftrightarrow>
     (\<forall>i < length (lk_pcs s). lk_in_mutex (lk_pcs s ! i) \<longleftrightarrow> lk_mutex s = Some i) \<and>
     (\<forall>i. lk_mutex s = Some i \<longrightarrow> i < length (lk_pcs s))"

text \<open>What the program counter of a thread says about the counter it has read.\<close>

fun lk_pc_ok :: "u64 \<Rightarrow> lk_pc \<Rightarrow> bool" where
  "lk_pc_ok c (GwLoaded v) = (v \<noteq> EXCLUSIVE_SIGNPOST)"
| "lk_pc_ok c (GwSlowLoaded v) = (v \<noteq> EXCLUSIVE_SIGNPOST)"
| "lk_pc_ok c GwMustWait = (c = EXCLUSIVE_SIGNPOST)"
| "lk_pc_ok c LkPanicked = False"
| "lk_pc_ok c _ = True"

definition lk_local_inv :: "lk_sys \<Rightarrow> bool" where
  "lk_local_inv s \<longleftrightarrow> (\<forall>i < length (lk_pcs s). lk_pc_ok (lk_val s) (lk_pcs s ! i))"

text \<open>
  No wake-up is lost: a thread sleeps only while the counter is signposted or another thread
  stands right before \<open>notify_all\<close>.
\<close>

definition lk_wait_inv :: "lk_sys \<Rightarrow> bool" where
  "lk_wait_inv s \<longleftrightarrow>
     (GwWaiting \<in> set (lk_pcs s) \<longrightarrow>
        lk_val s = EXCLUSIVE_SIGNPOST \<or> DxSwapped \<in> set (lk_pcs s))"

definition lk_inv :: "nat \<Rightarrow> lk_sys \<Rightarrow> bool" where
  "lk_inv cap s \<longleftrightarrow> lk_count_inv cap s \<and> lk_mutex_inv s \<and> lk_local_inv s \<and> lk_wait_inv s"


lemmas lk_count_defs = lk_count_inv_def lk_readers_def lk_writers_def lk_entering_def

lemma wake_simps [simp]:
  "gw_weight (lk_wake pc) = gw_weight pc" "dw_weight (lk_wake pc) = dw_weight pc"
  "dx_weight (lk_wake pc) = dx_weight pc" "lk_in_mutex (lk_wake pc) = lk_in_mutex pc"
  "lk_pc_ok c (lk_wake pc) = lk_pc_ok c pc" "lk_wake pc \<noteq> GwWaiting" "GwWaiting \<noteq> lk_wake pc"
  by (cases pc; simp add: lk_wake_def)+

subsubsection \<open>The counter\<close>

lemma lk_goto_frame [frame_simps]:
  "lk_val (lk_goto i pc s) = lk_val s" "lk_mutex (lk_goto i pc s) = lk_mutex s"
  "lk_held (lk_goto i pc s) = lk_held s" "lk_xheld (lk_goto i pc s) = lk_xheld s"
  "lk_pcs (lk_goto i pc s) = (lk_pcs s)[i := pc]"
  "lk_val (lk_store c s) = c" "lk_mutex (lk_store c s) = lk_mutex s"
  "lk_pcs (lk_store c s) = lk_pcs s" "lk_held (lk_store c s) = lk_held s"
  "lk_xheld (lk_store c s) = lk_xheld s"
  by (simp_all add: lk_goto_def lk_store_def)

text \<open>The three counts are functions of the fields that can change them.\<close>

lemma lk_counts_frame [frame_simps]:
  "lk_readers (lk_store c s) = lk_readers s" "lk_writers (lk_store c s) = lk_writers s"
  "lk_entering (lk_store c s) = lk_entering s"
  "lk_readers (s\<lparr>lk_mutex := m\<rparr>) = lk_readers s" "lk_writers (s\<lparr>lk_mutex := m\<rparr>) = lk_writers s"
  "lk_entering (s\<lparr>lk_mutex := m\<rparr>) = lk_entering s"
  "lk_readers (s\<lparr>lk_xheld := n\<rparr>) = lk_readers s" "lk_writers (s\<lparr>lk_held := n\<rparr>) = lk_writers s"
  "lk_entering (s\<lparr>lk_xheld := n\<rparr>) = lk_entering s" "lk_entering (s\<lparr>lk_held := n\<rparr>) = lk_entering s"
  "lk_readers (s\<lparr>lk_pcs := map lk_wake (lk_pcs s)\<rparr>) = lk_readers s"
  "lk_writers (s\<lparr>lk_pcs := map lk_wake (lk_pcs s)\<rparr>) = lk_writers s"
  "lk_entering (s\<lparr>lk_pcs := map lk_wake (lk_pcs s)\<rparr>) = lk_entering s"
  by (simp_all add: lk_readers_def lk_writers_def lk_entering_def frame_simps weight_simps)

lemma lk_counts_held:
  "lk_readers (s\<lparr>lk_held := Suc (lk_held s)\<rparr>) = Suc (lk_readers s)"
  "0 < lk_held s \<Longrightarrow> lk_readers (s\<lparr>lk_held := lk_held s - Suc 0\<rparr>) = lk_readers s - Suc 0"
  "lk_writers (s\<lparr>lk_xheld := Suc (lk_xheld s)\<rparr>) = Suc (lk_writers s)"
  "0 < lk_xheld s \<Longrightarrow> lk_writers (s\<lparr>lk_xheld := lk_xheld s - Suc 0\<rparr>) = lk_writers s - Suc 0"
  by (simp_all add: lk_readers_def lk_writers_def)

lemma lk_counts_goto:
  assumes "i < length (lk_pcs s)"
  shows "lk_readers (lk_goto i pc s) = lk_readers s + dw_weight pc - dw_weight (lk_pcs s ! i)"
    and "lk_writers (lk_goto i pc s) = lk_writers s + dx_weight pc - dx_weight (lk_pcs s ! i)"
    and "lk_entering (lk_goto i pc s) = lk_entering s + gw_weight pc - gw_weight (lk_pcs s ! i)"
  using weight_ge [OF assms, of dw_weight] weight_ge [OF assms, of dx_weight]
    weight_ge [OF assms, of gw_weight] assms
  by (simp_all add: lk_readers_def lk_writers_def lk_entering_def frame_simps weight_simps)

lemma lk_counts_ge:
  assumes "i < length (lk_pcs s)"
  shows "dw_weight (lk_pcs s ! i) \<le> lk_readers s" "dx_weight (lk_pcs s ! i) \<le> lk_writers s"
    "gw_weight (lk_pcs s ! i) \<le> lk_entering s"
  using weight_ge [OF assms, of dw_weight] weight_ge [OF assms, of dx_weight]
    weight_ge [OF assms, of gw_weight]
  by (simp_all add: lk_readers_def lk_writers_def lk_entering_def)

lemma lk_held_ge: "lk_held s \<le> lk_readers s" "lk_xheld s \<le> lk_writers s"
  by (simp_all add: lk_readers_def lk_writers_def)

lemmas lk_counts = lk_counts_goto lk_counts_held frame_simps

lemma count_cong:
  assumes "lk_count_inv cap s" "lk_val t = lk_val s" "lk_readers t = lk_readers s"
    "lk_writers t = lk_writers s" "lk_entering t \<le> lk_entering s"
  shows "lk_count_inv cap t"
  using assms by (auto simp: lk_count_inv_def)

lemma count_start:
  assumes "i < length (lk_pcs s)" "lk_pcs s ! i = LkIdle" "lk_count_inv cap s"
    and "lk_start cap call i s = Some t"
  shows "lk_count_inv cap t"
proof (cases call)
  case GetExclusive
  then show ?thesis
    using assms by (auto simp: lk_count_inv_def compare_exchange_def lk_counts split: if_splits)
next
  case GetWarrant
  then show ?thesis
    using assms by (auto simp: lk_count_inv_def Let_def lk_counts split: if_splits)
qed (rule count_cong [of cap s]; use assms lk_held_ge [of s] in
     \<open>auto simp: lk_counts split: if_splits\<close>)+

lemma readers_val:
  assumes "lk_count_inv cap s" "cap < 2 ^ 64 - 1" "0 < lk_readers s"
  shows "0 < lk_val s" and "lk_val s \<noteq> EXCLUSIVE_SIGNPOST"
  using assms by (auto simp: lk_count_inv_def unat_gt_0 word_gt_0 signpost_eq_unat)

lemma dw_start_ok:
  assumes "i < length (lk_pcs s)" "lk_count_inv cap s" "cap < 2 ^ 64 - 1" "lk_pcs s ! i = DwStart"
  shows "0 < lk_val s" and "lk_val s \<noteq> EXCLUSIVE_SIGNPOST"
  using readers_val [OF assms(2,3)] lk_counts_ge(1) [OF assms(1)] assms(4) by auto

lemma dx_locked_ok:
  assumes "i < length (lk_pcs s)" "lk_count_inv cap s" "lk_pcs s ! i = DxLocked"
  shows "lk_val s = EXCLUSIVE_SIGNPOST"
  using lk_counts_ge(2) [OF assms(1)] assms by (auto simp: lk_count_inv_def)

text \<open>A successful increment turns an entering thread into a reader.\<close>

lemma count_enter:
  assumes "lk_count_inv cap s" "cap < 2 ^ 64 - 1" "lk_val s \<noteq> EXCLUSIVE_SIGNPOST"
    "0 < lk_entering s" "lk_val t = lk_val s + 1" "lk_readers t = Suc (lk_readers s)"
    "lk_writers t = lk_writers s" "lk_entering t = lk_entering s - 1"
  shows "lk_count_inv cap t"
proof -
  have "unat (lk_val s + 1) = unat (lk_val s) + 1"
    using assms(1-4) by (intro unat_Suc_word) (auto simp: lk_count_inv_def)
  then show ?thesis using assms by (auto simp: lk_count_inv_def)
qed

lemma count_leave:
  assumes "lk_count_inv cap s" "0 < lk_readers s" "lk_val t = lk_val s - 1"
    "lk_readers t = lk_readers s - 1" "lk_writers t = lk_writers s" "lk_entering t = lk_entering s"
  shows "lk_count_inv cap t"
proof -
  have "0 < lk_val s" using assms(1,2) by (auto simp: lk_count_inv_def unat_gt_0 word_gt_0)
  then show ?thesis using assms by (auto simp: lk_count_inv_def unat_pred_word)
qed

lemma count_reset:
  assumes "lk_count_inv cap s" "0 < lk_writers s" "lk_val t = 0" "lk_readers t = lk_readers s"
    "lk_writers t = lk_writers s - 1" "lk_entering t = lk_entering s"
  shows "lk_count_inv cap t"
  using assms by (auto simp: lk_count_inv_def)

lemma count_advance:
  assumes "i < length (lk_pcs s)" "lk_count_inv cap s" "lk_pc_ok (lk_val s) (lk_pcs s ! i)"
    "cap < 2 ^ 64 - 1" and "lk_advance (lk_pcs s ! i) i s = Some t"
  shows "lk_count_inv cap t"
proof -
  note G = lk_counts_ge [OF assms(1)]
  note D = lk_counts compare_exchange_def Let_def
  note eq = assms(5)
  show ?thesis
  proof (cases "lk_pcs s ! i")
    case (GwLoaded v)
    show ?thesis
    proof (cases "lk_val s = v")
      case True
      show ?thesis
        by (rule count_enter [of cap s]) (use True GwLoaded assms G(3) in \<open>auto simp: D\<close>)
    qed (rule count_cong [of cap s]; use GwLoaded assms in \<open>auto simp: D\<close>)+
  next
    case (GwSlowLoaded v)
    show ?thesis
    proof (cases "lk_val s = v")
      case True
      show ?thesis
        by (rule count_enter [of cap s]) (use True GwSlowLoaded assms G(3) in \<open>auto simp: D\<close>)
    qed (rule count_cong [of cap s]; use GwSlowLoaded assms in \<open>auto simp: D\<close>)+
  next
    case (DwLoaded v)
    show ?thesis
    proof (cases "lk_val s = v")
      case True
      show ?thesis
        by (rule count_leave [of cap s]) (use True DwLoaded assms G(1) in \<open>auto simp: D\<close>)
    qed (rule count_cong [of cap s]; use DwLoaded assms in \<open>auto simp: D\<close>)+
  next
    case DwStart
    show ?thesis
      by (rule count_cong [of cap s]) (use DwStart assms dw_start_ok [of i s cap] in \<open>auto simp: D\<close>)
  next
    case DxLocked
    show ?thesis
      by (rule count_reset [of cap s])
        (use DxLocked assms dx_locked_ok [of i s cap] G(2) in \<open>auto simp: D\<close>)
  qed (rule count_cong [of cap s]; use assms in \<open>auto simp: D split: if_splits\<close>)+
qed

lemma mutex_goto:
  assumes "lk_mutex_inv s" "i < length (lk_pcs s)" "lk_in_mutex pc = lk_in_mutex (lk_pcs s ! i)"
  shows "lk_mutex_inv (lk_goto i pc s)"
  using assms by (simp add: lk_mutex_inv_def frame_simps nth_list_update)

lemma mutex_take:
  assumes "lk_mutex_inv s" "i < length (lk_pcs s)" "lk_mutex s = None" "lk_in_mutex pc"
  shows "lk_mutex_inv (lk_goto i pc (s\<lparr>lk_mutex := Some i\<rparr>))"
  using assms by (auto simp: lk_mutex_inv_def frame_simps nth_list_update)

lemma mutex_give:
  assumes "lk_mutex_inv s" "i < length (lk_pcs s)" "lk_in_mutex (lk_pcs s ! i)" "\<not> lk_in_mutex pc"
  shows "lk_mutex_inv (lk_goto i pc (s\<lparr>lk_mutex := None\<rparr>))"
  using assms by (auto simp: lk_mutex_inv_def frame_simps nth_list_update)

lemma mutex_frame [frame_simps]:
  "lk_mutex_inv (lk_store c s) = lk_mutex_inv s" "lk_mutex_inv (s\<lparr>lk_held := n\<rparr>) = lk_mutex_inv s"
  "lk_mutex_inv (s\<lparr>lk_xheld := n\<rparr>) = lk_mutex_inv s"
  by (simp_all add: lk_mutex_inv_def frame_simps)

lemma mutex_wake: "lk_mutex_inv s \<Longrightarrow> lk_mutex_inv (s\<lparr>lk_pcs := map lk_wake (lk_pcs s)\<rparr>)"
  by (simp add: lk_mutex_inv_def)

lemma mutex_start:
  assumes "i < length (lk_pcs s)" "lk_pcs s ! i = LkIdle" "lk_mutex_inv s"
    and "lk_start cap call i s = Some t"
  shows "lk_mutex_inv t"
  using assms
  by (cases call)
    (auto simp: Let_def compare_exchange_def frame_simps intro!: mutex_goto split: if_splits)

lemma mutex_advance:
  assumes "i < length (lk_pcs s)" "lk_mutex_inv s" and "lk_advance (lk_pcs s ! i) i s = Some t"
  shows "lk_mutex_inv t"
  using assms
  by (cases "lk_pcs s ! i")
    (auto simp: Let_def compare_exchange_def frame_simps mutex_wake mutex_goto mutex_take mutex_give
      split: if_splits)

lemma local_goto:
  assumes "lk_local_inv s" "lk_pc_ok (lk_val s) pc"
  shows "lk_local_inv (lk_goto i pc s)"
  using assms by (cases "i < length (lk_pcs s)")
    (auto simp: lk_local_inv_def frame_simps nth_list_update list_update_beyond)

lemma local_store:
  assumes "lk_local_inv s" "\<And>j. j < length (lk_pcs s) \<Longrightarrow> lk_pcs s ! j \<noteq> GwMustWait"
  shows "lk_local_inv (lk_store c s)"
proof -
  have "lk_pc_ok c pc" if "pc \<noteq> GwMustWait" "lk_pc_ok (lk_val s) pc" for pc
    using that by (cases pc) auto
  then show ?thesis using assms by (simp add: lk_local_inv_def frame_simps)
qed

lemma no_must_wait:
  "lk_local_inv s \<Longrightarrow> lk_val s \<noteq> EXCLUSIVE_SIGNPOST \<Longrightarrow> j < length (lk_pcs s) \<Longrightarrow>
     lk_pcs s ! j \<noteq> GwMustWait"
  by (auto simp: lk_local_inv_def)

lemma no_must_wait_mutex:
  "lk_mutex_inv s \<Longrightarrow> i < length (lk_pcs s) \<Longrightarrow> lk_pcs s ! i = DxLocked \<Longrightarrow> j < length (lk_pcs s) \<Longrightarrow>
     lk_pcs s ! j \<noteq> GwMustWait"
  unfolding lk_mutex_inv_def by (metis lk_in_mutex.simps(2,5) lk_pc.distinct option.inject)

lemma local_frame [frame_simps]:
  "lk_local_inv (s\<lparr>lk_mutex := m\<rparr>) = lk_local_inv s" "lk_local_inv (s\<lparr>lk_held := n\<rparr>) = lk_local_inv s"
  "lk_local_inv (s\<lparr>lk_xheld := n\<rparr>) = lk_local_inv s"
  "lk_local_inv (s\<lparr>lk_pcs := map lk_wake (lk_pcs s)\<rparr>) = lk_local_inv s"
  by (simp_all add: lk_local_inv_def)

lemma local_start:
  assumes "lk_local_inv s" and "lk_start cap call i s = Some t"
  shows "lk_local_inv t"
  using assms no_must_wait [OF assms(1)]
  by (cases call)
    (auto simp: Let_def compare_exchange_def frame_simps intro!: local_goto local_store
      split: if_splits)

lemma local_advance:
  assumes "i < length (lk_pcs s)" "lk_local_inv s" "lk_mutex_inv s" "lk_count_inv cap s"
    "cap < 2 ^ 64 - 1" and "lk_advance (lk_pcs s ! i) i s = Some t"
  shows "lk_local_inv t"
proof (cases "lk_pcs s ! i")
  case DxLocked
  then show ?thesis
    using assms dx_locked_ok [of i s cap] no_must_wait_mutex [OF assms(3,1)]
    by (auto simp: compare_exchange_def frame_simps intro!: local_goto local_store)
next
  case DwStart
  then show ?thesis
    using assms dw_start_ok [of i s cap] by (auto intro!: local_goto)
next
  case (DwLoaded v)
  then have "lk_val s \<noteq> EXCLUSIVE_SIGNPOST"
    using readers_val [OF assms(4,5)] lk_counts_ge(1) [OF assms(1)] by simp
  with DwLoaded show ?thesis
    using assms no_must_wait [OF assms(2)]
    by (auto simp: compare_exchange_def frame_simps intro!: local_goto local_store
      split: if_splits)
qed (use assms no_must_wait [OF assms(2)] in
  \<open>force simp: Let_def compare_exchange_def frame_simps lk_local_inv_def [of s] intro!: local_goto local_store
      split: if_splits\<close>)+


text \<open>
  Wait invariant. The premise on \<open>pc\<close> and on the point being left cover all steps but the three
  that sleep, swap and notify.
\<close>

lemma wait_goto:
  assumes "lk_wait_inv s" "i < length (lk_pcs s)" "pc \<noteq> GwWaiting" "lk_pcs s ! i \<noteq> DxSwapped"
  shows "lk_wait_inv (lk_goto i pc s)"
proof -
  have "DxSwapped \<in> set ((lk_pcs s)[i := pc])" if d: "DxSwapped \<in> set (lk_pcs s)"
  proof -
    obtain j where j: "j < length (lk_pcs s)" "lk_pcs s ! j = DxSwapped"
      using d by (auto simp: in_set_conv_nth)
    with assms(4) have "(lk_pcs s)[i := pc] ! j = DxSwapped" by (metis nth_list_update_neq)
    with j show ?thesis by (metis length_list_update nth_mem)
  qed
  moreover have "GwWaiting \<in> set (lk_pcs s)" if "GwWaiting \<in> set ((lk_pcs s)[i := pc])"
    using that assms(3) set_update_subset_insert [of "lk_pcs s" i pc] by auto
  ultimately show ?thesis using assms(1) by (auto simp: lk_wait_inv_def frame_simps)
qed

lemma wait_signposted: "lk_val s = EXCLUSIVE_SIGNPOST \<Longrightarrow> lk_wait_inv s"
  by (simp add: lk_wait_inv_def)

lemma wait_store: "lk_wait_inv s \<Longrightarrow> lk_val s \<noteq> EXCLUSIVE_SIGNPOST \<Longrightarrow> lk_wait_inv (lk_store c s)"
  by (auto simp: lk_wait_inv_def frame_simps)

lemma wait_swapped: "i < length (lk_pcs s) \<Longrightarrow> lk_wait_inv (lk_goto i DxSwapped s)"
  by (simp add: lk_wait_inv_def frame_simps set_update_memI)

lemma wait_woken:
  assumes "pc \<noteq> GwWaiting"
  shows "lk_wait_inv (lk_goto i pc (s\<lparr>lk_pcs := map lk_wake (lk_pcs s)\<rparr>))"
proof -
  have "GwWaiting \<notin> set (map lk_wake (lk_pcs s))"
    by auto
  then show ?thesis
    using assms set_update_subset_insert [of "map lk_wake (lk_pcs s)" i pc]
    by (auto simp: lk_wait_inv_def frame_simps)
qed

lemma wait_frame [frame_simps]:
  "lk_wait_inv (s\<lparr>lk_mutex := m\<rparr>) = lk_wait_inv s" "lk_wait_inv (s\<lparr>lk_held := n\<rparr>) = lk_wait_inv s"
  "lk_wait_inv (s\<lparr>lk_xheld := n\<rparr>) = lk_wait_inv s"
  by (simp_all add: lk_wait_inv_def)

lemma wait_start:
  assumes "i < length (lk_pcs s)" "lk_pcs s ! i = LkIdle" "lk_wait_inv s"
    and "lk_start cap call i s = Some t"
  shows "lk_wait_inv t"
  using assms
  by (cases call)
    (auto simp: Let_def compare_exchange_def frame_simps intro!: wait_goto wait_store
      split: if_splits)

lemma wait_advance:
  assumes "i < length (lk_pcs s)" "lk_wait_inv s" "lk_pc_ok (lk_val s) (lk_pcs s ! i)"
    "lk_count_inv cap s" "cap < 2 ^ 64 - 1" and "lk_advance (lk_pcs s ! i) i s = Some t"
  shows "lk_wait_inv t"
proof (cases "lk_pcs s ! i")
  case GwMustWait
  then show ?thesis using assms by (auto simp: frame_simps intro!: wait_signposted)
next
  case (DwLoaded v)
  then have "lk_val s \<noteq> EXCLUSIVE_SIGNPOST"
    using readers_val [OF assms(4,5)] lk_counts_ge(1) [OF assms(1)] by simp
  with DwLoaded show ?thesis
    using assms
    by (auto simp: compare_exchange_def frame_simps intro!: wait_goto wait_store split: if_splits)
next
  case DxSwapped
  then show ?thesis using assms(6) wait_woken [of DxUnlock] by auto
next
  case DxLocked
  then show ?thesis
    using assms(1,6) wait_swapped dx_locked_ok [OF assms(1,4)]
    by (auto simp: compare_exchange_def frame_simps)
qed (use assms in \<open>auto simp: Let_def compare_exchange_def frame_simps
      intro!: wait_goto wait_store split: if_splits\<close>)

theorem lk_inv_step:
  assumes "lk_step cap s t" "lk_inv cap s" "cap < 2 ^ 64 - 1"
  shows "lk_inv cap t"
  using assms(1)
proof cases
  case (start i call)
  then show ?thesis
    using assms(2) count_start mutex_start local_start wait_start unfolding lk_inv_def by blast
next
  case (advance i)
  have "lk_pc_ok (lk_val s) (lk_pcs s ! i)"
    using advance assms(2) by (simp add: lk_inv_def lk_local_inv_def)
  then show ?thesis
    using advance assms(2,3) count_advance mutex_advance local_advance wait_advance
    unfolding lk_inv_def by blast
qed

lemma lk_inv_init: "lk_inv cap (lk_init n)"
  by (auto simp: lk_inv_def lk_init_def lk_count_inv_def lk_mutex_inv_def lk_local_inv_def
      lk_wait_inv_def lk_readers_def lk_writers_def lk_entering_def lockout_new_def
      weight_replicate)

theorem lk_reachable_inv:
  assumes "lk_reachable cap n s" "cap < 2 ^ 64 - 1"
  shows "lk_inv cap s"
  using assms by (induction rule: lk_reachable.induct) (auto intro: lk_inv_init lk_inv_step)


subsection \<open>Progress\<close>

lemma mutex_holder_advances:
  assumes "lk_in_mutex pc"
  shows "\<exists>t. lk_advance pc i s = Some t"
  using assms by (cases pc) (auto simp: Let_def compare_exchange_def)

theorem lk_progress:
  assumes "lk_inv cap s" and "i < length (lk_pcs s)" and "lk_pcs s ! i \<noteq> LkIdle"
    and "lk_xheld s = 0" and "cap < 2 ^ 64 - 1"
  shows "\<exists>j t. j < length (lk_pcs s) \<and> lk_pcs s ! j \<noteq> LkIdle \<and> lk_advance (lk_pcs s ! j) j s = Some t"
proof (cases "lk_mutex s")
  case (Some j)
  then have "j < length (lk_pcs s)" "lk_in_mutex (lk_pcs s ! j)"
    using assms(1) by (auto simp: lk_inv_def lk_mutex_inv_def)
  then show ?thesis using mutex_holder_advances by fastforce
next
  case None
  then have nomutex: "\<not> lk_in_mutex (lk_pcs s ! k)" if "k < length (lk_pcs s)" for k
    using assms(1) that by (simp add: lk_inv_def lk_mutex_inv_def)
  show ?thesis
  proof (cases "lk_pcs s ! i = GwWaiting")
    case True
    have "DxSwapped \<notin> set (lk_pcs s)"
      using nomutex by (metis in_set_conv_nth lk_in_mutex.simps(6))
    moreover have "GwWaiting \<in> set (lk_pcs s)" using True assms(2) by (metis nth_mem)
    ultimately have "lk_val s = EXCLUSIVE_SIGNPOST"
      using assms(1) by (auto simp: lk_inv_def lk_wait_inv_def)
    then have "lk_writers s = 1"
      using assms(1) readers_val [of cap s] assms(5)
      by (auto simp: lk_inv_def lk_count_inv_def signpost_eq_unat)
    then have "0 < weight dx_weight (lk_pcs s)" using assms(4) by (simp add: lk_writers_def)
    then obtain k where k: "k < length (lk_pcs s)" "0 < dx_weight (lk_pcs s ! k)"
      using weight_pos_ex by blast
    then have "lk_pcs s ! k = DxStart" using nomutex [of k] by (cases "lk_pcs s ! k") auto
    with k None show ?thesis by (intro exI [of _ k]) auto
  next
    case False
    moreover have "lk_pcs s ! i \<noteq> LkPanicked"
      using assms(1,2) by (auto simp: lk_inv_def lk_local_inv_def)
    ultimately have "\<exists>t. lk_advance (lk_pcs s ! i) i s = Some t"
      using None assms(3) by (cases "lk_pcs s ! i") (auto simp: Let_def compare_exchange_def)
    then show ?thesis using assms(2,3) by blast
  qed
qed

subsection \<open>A thread that runs alone performs the operations of \<open>Lockout\<close>\<close>

primrec lk_solo :: "nat \<Rightarrow> nat \<Rightarrow> lk_sys \<Rightarrow> lk_sys option" where
  "lk_solo 0 i s = Some s"
| "lk_solo (Suc n) i s = Option.bind (lk_advance (lk_pcs s ! i) i s) (lk_solo n i)"

lemma lk_advance_length: "lk_advance pc i s = Some t \<Longrightarrow> length (lk_pcs t) = length (lk_pcs s)"
  by (cases pc) (auto simp: Let_def compare_exchange_def frame_simps split: if_splits)

lemma lk_solo_steps:
  assumes "i < length (lk_pcs s)" "lk_solo n i s = Some t"
  shows "(lk_step cap)\<^sup>*\<^sup>* s t"
  using assms
proof (induction n arbitrary: s)
  case (Suc n)
  then obtain u where u: "lk_advance (lk_pcs s ! i) i s = Some u" "lk_solo n i u = Some t"
    by (auto simp: Option.bind_eq_Some_conv)
  then have "(lk_step cap)\<^sup>*\<^sup>* u t"
    using Suc lk_advance_length [OF u(1)] by simp
  then show ?case
    using lk_step.advance [OF Suc.prems(1) u(1)] by (rule converse_rtranclp_into_rtranclp [rotated])
qed simp

text \<open>A call by an idle thread \<open>i\<close>, run without interruption for \<open>n\<close> further accesses.\<close>

definition lk_call_solo :: "nat \<Rightarrow> lk_call \<Rightarrow> nat \<Rightarrow> nat \<Rightarrow> lk_sys \<Rightarrow> lk_sys option" where
  "lk_call_solo cap call n i s = Option.bind (lk_start cap call i s) (lk_solo n i)"

lemmas solo_simps = lk_call_solo_def numeral_2_eq_2 numeral_3_eq_3 lk_goto_def lk_store_def
  compare_exchange_def Let_def

lemma idle_woken:
  assumes "i < length (lk_pcs s)" "lk_pcs s ! i = LkIdle"
  shows "(map lk_wake (lk_pcs s))[i := LkIdle] = map lk_wake (lk_pcs s)"
proof -
  have "map lk_wake (lk_pcs s) ! i = LkIdle" using assms by (simp add: lk_wake_def)
  then show ?thesis by (metis list_update_id)
qed

lemma idle_self: "lk_pcs s ! i = LkIdle \<Longrightarrow> (lk_pcs s)[i := LkIdle] = lk_pcs s"
  by (metis list_update_id)

theorem get_warrant_solo:
  assumes "i < length (lk_pcs s)" "lk_pcs s ! i = LkIdle" "lk_readers s + lk_entering s < cap"
  shows "get_warrant (lk_shared s) = Inr l \<Longrightarrow>
           lk_call_solo cap GetWarrant 1 i s = Some (s\<lparr>lk_shared := l, lk_held := lk_held s + 1\<rparr>)"
    and "get_warrant (lk_shared s) = Inl Blocked \<Longrightarrow> lk_mutex s = None \<Longrightarrow>
           lk_call_solo cap GetWarrant 3 i s = Some (lk_goto i GwWaiting s)"
  using assms
  by (auto simp: get_warrant_eq lk_exclusive_def solo_simps idle_self split: if_splits)

theorem get_exclusive_solo:
  assumes "i < length (lk_pcs s)" "lk_pcs s ! i = LkIdle"
  shows "lk_call_solo cap GetExclusive 0 i s =
           Some (case get_exclusive_warrant (lk_shared s) of
                   None \<Rightarrow> s
                 | Some l \<Rightarrow> s\<lparr>lk_shared := l, lk_xheld := lk_xheld s + 1\<rparr>)"
  using assms by (auto simp: get_exclusive_warrant_eq solo_simps split: if_splits)

theorem drop_warrant_solo:
  assumes "i < length (lk_pcs s)" "lk_pcs s ! i = LkIdle" "0 < lk_held s"
    and "drop_warrant (lk_shared s) = Inr l"
  shows "lk_call_solo cap DropWarrant 2 i s = Some (s\<lparr>lk_shared := l, lk_held := lk_held s - 1\<rparr>)"
  using assms
  by (auto simp: drop_warrant_eq lk_exclusive_def solo_simps idle_self split: if_splits)

theorem drop_exclusive_solo:
  assumes "i < length (lk_pcs s)" "lk_pcs s ! i = LkIdle" "0 < lk_xheld s" "lk_mutex s = None"
    and "drop_exclusive_warrant (lk_shared s) = Inr l"
  shows "lk_call_solo cap DropExclusive 4 i s =
           Some (s\<lparr>lk_shared := l, lk_xheld := lk_xheld s - 1, lk_pcs := map lk_wake (lk_pcs s)\<rparr>)"
  using assms
  by (auto simp: drop_exclusive_warrant_eq lk_exclusive_def solo_simps idle_woken map_update
      eval_nat_numeral split: if_splits)


subsection \<open>Schedules\<close>

text \<open>
  A schedule names the thread that moves next and, where that thread is idle, the call it starts.
\<close>

fun lk_run :: "nat \<Rightarrow> (nat \<times> lk_call) list \<Rightarrow> lk_sys \<Rightarrow> lk_sys option" where
  "lk_run cap [] s = Some s"
| "lk_run cap ((i, call) # sched) s =
     (if i < length (lk_pcs s)
      then Option.bind (if lk_pcs s ! i = LkIdle then lk_start cap call i s
                        else lk_advance (lk_pcs s ! i) i s) (lk_run cap sched)
      else None)"

lemma lk_run_reachable:
  "lk_reachable cap n s \<Longrightarrow> lk_run cap sched s = Some t \<Longrightarrow> lk_reachable cap n t"
proof (induction sched arbitrary: s)
  case (Cons a sched)
  obtain i call where a: "a = (i, call)" by (cases a)
  then obtain u where "lk_step cap s u" "lk_run cap sched u = Some t"
    using Cons.prems(2)
    by (auto simp: Option.bind_eq_Some_conv split: if_splits intro: lk_step.intros)
  then show ?case using Cons by (blast intro: lk_reachable.step)
qed simp

text \<open>
  Two threads: thread 0 takes the exclusive warrant, thread 1 asks for a shared one and goes to
  sleep; thread 0 then drops the warrant up to the point before the notification.
\<close>

definition lk_asleep :: lk_sys where
  "lk_asleep = \<lparr>lk_shared = \<lparr>lk_count = EXCLUSIVE_SIGNPOST\<rparr>, lk_mutex = None,
                 lk_pcs = [LkIdle, GwWaiting], lk_held = 0, lk_xheld = 1\<rparr>"

definition lk_releasing :: lk_sys where
  "lk_releasing = \<lparr>lk_shared = \<lparr>lk_count = 0\<rparr>, lk_mutex = Some 0,
                    lk_pcs = [DxSwapped, GwWaiting], lk_held = 0, lk_xheld = 0\<rparr>"

lemmas lk_example_defs = lk_init_def lockout_new_def lk_goto_def lk_store_def
  compare_exchange_def Let_def lk_readers_def lk_writers_def lk_entering_def weight_def

lemma lk_asleep_reachable: "lk_reachable 5 2 lk_asleep"
proof (rule lk_run_reachable [OF lk_reachable.init])
  show "lk_run 5 [(0, GetExclusive), (1, GetWarrant), (1, GetWarrant), (1, GetWarrant),
          (1, GetWarrant)] (lk_init 2) = Some lk_asleep"
    by (simp add: lk_example_defs lk_asleep_def numeral_2_eq_2)
qed

lemma lk_releasing_reachable: "lk_reachable 5 2 lk_releasing"
proof (rule lk_run_reachable [OF lk_asleep_reachable])
  show "lk_run 5 [(0, DropExclusive), (0, DropExclusive), (0, DropExclusive)] lk_asleep
          = Some lk_releasing"
    by (simp add: lk_example_defs lk_asleep_def lk_releasing_def)
qed

subsection \<open>Properties\<close>

text \<open>
  C15: However the threads interleave, at most one exclusive warrant exists, it never coexists with
  a shared warrant, and the counter is exactly what its comment says: the signpost while the
  exclusive warrant exists, and otherwise the number of shared warrants.
\<close>

theorem lockout_mutual_exclusion:
  assumes "lk_reachable cap n s" and "cap < 2 ^ 64 - 1"
  shows "lk_writers s \<le> 1 \<and> (lk_writers s = 1 \<longrightarrow> lk_readers s = 0) \<and>
         (lk_val s = EXCLUSIVE_SIGNPOST \<longleftrightarrow> lk_writers s = 1) \<and>
         (lk_writers s = 0 \<longrightarrow> unat (lk_val s) = lk_readers s)"
proof -
  have c: "lk_count_inv cap s" using lk_reachable_inv [OF assms] by (simp add: lk_inv_def)
  then have "lk_readers s \<le> cap" by (simp add: lk_count_inv_def)
  with assms(2) have "lk_readers s \<noteq> 2 ^ 64 - 1" by simp
  with c show ?thesis by (auto simp: lk_count_inv_def signpost_eq_unat)
qed

theorem lockout_mutual_exclusion_witness:
  "lk_writers lk_asleep = 1 \<and> lk_readers lk_asleep = 0 \<and> lk_val lk_asleep = EXCLUSIVE_SIGNPOST"
proof -
  have "lk_writers lk_asleep = 1" by (simp add: lk_asleep_def lk_example_defs)
  then show ?thesis using lockout_mutual_exclusion [OF lk_asleep_reachable] by simp
qed

text \<open>
  C16: No wake-up is lost, and the assertions of both destructors hold: in every reachable state a
  thread that sleeps in \<open>get_warrant\<close> is owed a notification (the counter is still signposted, or
  the releasing thread is about to call \<open>notify_all\<close>), and no thread has panicked.
\<close>

theorem lockout_no_lost_wakeup:
  assumes "lk_reachable cap n s" and "cap < 2 ^ 64 - 1"
  shows "LkPanicked \<notin> set (lk_pcs s) \<and>
         (GwWaiting \<in> set (lk_pcs s) \<longrightarrow> lk_writers s = 1 \<or> DxSwapped \<in> set (lk_pcs s))"
proof -
  have inv: "lk_inv cap s" by (rule lk_reachable_inv [OF assms])
  then have "LkPanicked \<notin> set (lk_pcs s)"
    by (auto simp: lk_inv_def lk_local_inv_def in_set_conv_nth)
  moreover have "lk_writers s = 1" if "lk_val s = EXCLUSIVE_SIGNPOST"
    using that inv readers_val [of cap s] assms(2)
    by (auto simp: lk_inv_def lk_count_inv_def signpost_eq_unat)
  ultimately show ?thesis using inv by (auto simp: lk_inv_def lk_wait_inv_def)
qed

theorem lockout_no_lost_wakeup_witness:
  "GwWaiting \<in> set (lk_pcs lk_releasing) \<and> lk_writers lk_releasing = 0 \<and>
   DxSwapped \<in> set (lk_pcs lk_releasing)"
proof -
  have w: "GwWaiting \<in> set (lk_pcs lk_releasing)" "lk_writers lk_releasing = 0"
    by (simp_all add: lk_releasing_def lk_example_defs)
  then show ?thesis using lockout_no_lost_wakeup [OF lk_releasing_reachable] by simp
qed

text \<open>
  C17: The lockout never deadlocks: in a reachable state in which client code owns no exclusive
  warrant, if some thread is inside an operation then some thread inside an operation can go on.
\<close>

theorem lockout_deadlock_free:
  assumes "lk_reachable cap n s" and "cap < 2 ^ 64 - 1" and "lk_xheld s = 0"
    and "i < length (lk_pcs s)" and "lk_pcs s ! i \<noteq> LkIdle"
  shows "\<exists>j t. j < length (lk_pcs s) \<and> lk_pcs s ! j \<noteq> LkIdle \<and>
           lk_advance (lk_pcs s ! j) j s = Some t"
  using lk_progress [OF lk_reachable_inv [OF assms(1,2)] assms(4,5,3,2)] .

theorem lockout_deadlock_free_witness:
  "\<exists>j t. j < length (lk_pcs lk_releasing) \<and> lk_pcs lk_releasing ! j \<noteq> LkIdle \<and>
     lk_advance (lk_pcs lk_releasing ! j) j lk_releasing = Some t"
  by (rule lockout_deadlock_free [OF lk_releasing_reachable, of 1]) (simp_all add: lk_releasing_def)

end
