(* ===== verification/Spinlock.thy ===== *)
theory Spinlock
  imports Locking
begin

text \<open>
  The spinlock of \<open>src/concurrency/atomic_protection.rs\<close>, which keeps every \<open>AtomicGc\<close>
  operation out of a running collection, with the two functions of
  \<open>src/collector/mod.rs\<close> that use it around the collection mutex: \<open>collect\<close> (through
  \<open>do_collect\<close>) and \<open>get_collection_blocker_spinlock\<close>. First the operations as they run
  undisturbed, then all interleavings of any number of threads.
\<close>

record ap_lock =
  tracker :: u64

definition SENTINEL_VALUE :: u64 where
  "SENTINEL_VALUE = push_bit 60 1"

definition ap_new :: ap_lock where
  "ap_new = \<lparr>tracker = 0\<rparr>"

text \<open>One turn of the loop of \<open>lock_exclusive\<close>; \<open>None\<close>: yield and try again.\<close>

definition lock_exclusive :: "ap_lock \<Rightarrow> ap_lock option" where
  "lock_exclusive l =
     (let current_value = tracker l
      in if current_value = 0
         then let (swap_result, c) = compare_exchange (tracker l) 0 SENTINEL_VALUE
              in if is_ok swap_result then Some (l\<lparr>tracker := c\<rparr>) else None
         else None)"

text \<open>The increment happens whether or not the guard is granted.\<close>

definition lock_inclusive :: "ap_lock \<Rightarrow> bool \<times> ap_lock" where
  "lock_inclusive l =
     (let old_value = tracker l
      in (old_value < SENTINEL_VALUE, l\<lparr>tracker := old_value + 1\<rparr>))"

definition drop_exclusive_guard :: "ap_lock \<Rightarrow> ap_lock" where
  "drop_exclusive_guard l = l\<lparr>tracker := 0\<rparr>"

definition drop_inclusive_guard :: "ap_lock \<Rightarrow> ap_lock" where
  "drop_inclusive_guard l = l\<lparr>tracker := tracker l - 1\<rparr>"

text \<open>
  \<open>get_collection_blocker_spinlock\<close> by a thread that runs alone: if a collection holds the lock,
  the loop goes on until another thread releases it.
\<close>

definition get_collection_blocker_spinlock :: "ap_lock \<Rightarrow> ap_lock result" where
  "get_collection_blocker_spinlock l =
     (let (granted, l') = lock_inclusive l in if granted then Inr l' else Inl Blocked)"

definition ap_readers :: "ap_lock \<Rightarrow> nat" where
  "ap_readers l = (if tracker l < SENTINEL_VALUE then unat (tracker l) else 0)"

definition ap_writer :: "ap_lock \<Rightarrow> bool" where
  "ap_writer l \<longleftrightarrow> SENTINEL_VALUE \<le> tracker l"

definition ap_room :: "ap_lock \<Rightarrow> bool" where
  "ap_room l \<longleftrightarrow> ap_readers l + 1 < 2 ^ 60"

lemma unat_sentinel: "unat SENTINEL_VALUE = 2 ^ 60"
  by (simp add: SENTINEL_VALUE_def push_bit_eq_mult)

lemma sentinel_nz [simp]: "SENTINEL_VALUE \<noteq> 0" "0 < SENTINEL_VALUE" "\<not> SENTINEL_VALUE \<le> 0"
  by (simp_all add: SENTINEL_VALUE_def push_bit_eq_mult)

lemma ap_less_unat: "v < SENTINEL_VALUE \<longleftrightarrow> unat v < 2 ^ 60"
  by (simp add: word_less_nat_alt unat_sentinel)

interpretation ap: rw_lock ap_new get_collection_blocker_spinlock lock_exclusive
  "\<lambda>l. Inr (drop_inclusive_guard l)" "\<lambda>l. Inr (drop_exclusive_guard l)" ap_readers ap_writer ap_room
proof (unfold_locales, goal_cases)
  case (4 l)
  then have lt: "unat (tracker l) + 1 < 2 ^ 60"
    by (auto simp: ap_writer_def ap_room_def ap_readers_def not_le)
  then have "unat (tracker l + 1) = unat (tracker l) + 1" by (intro unat_Suc_word) simp
  with lt show ?case
    by (simp add: get_collection_blocker_spinlock_def lock_inclusive_def ap_readers_def
        ap_writer_def not_le ap_less_unat)
next
  case (8 l)
  then have "0 < unat (tracker l)" "unat (tracker l) < 2 ^ 60"
    by (auto simp: ap_readers_def ap_less_unat split: if_splits)
  then show ?case
    by (simp add: drop_inclusive_guard_def ap_readers_def ap_writer_def not_le ap_less_unat
        unat_pred_word pos_word_iff)
qed (auto simp: ap_new_def ap_readers_def ap_writer_def lock_exclusive_def compare_exchange_def
      drop_exclusive_guard_def get_collection_blocker_spinlock_def lock_inclusive_def unat_eq_zero
      not_le Let_def split: if_splits)

end
