(* ===== verification/Spinlock_Threads.thy ===== *)
theory Spinlock_Threads
  imports Spinlock
begin

text \<open>
  Threads that run \<open>AtomicGc\<close> operations (\<open>get_collection_blocker_spinlock\<close>, then a critical
  section, then the guard's destructor) against threads that run \<open>collect\<close> (the collection
  mutex, \<open>lock_exclusive\<close>, the collection, \<open>drop(gc_guard)\<close>, and last the destructor of the
  spinlock guard). Every access of the counter and of the mutex is one step.
\<close>

datatype ap_pc =
    ApIdle
  | GbTop         \<comment> \<open>\<open>get_collection_blocker_spinlock\<close>, top of the loop\<close>
  | GbWaitGc      \<comment> \<open>no guard: about to block on \<open>gc_lock\<close>\<close>
  | GbHasGc       \<comment> \<open>\<open>gc_lock\<close> taken, about to be dropped again\<close>
  | GbHolding     \<comment> \<open>inclusive guard held: the \<open>AtomicGc\<close> operation itself\<close>
  | CoWaitGc      \<comment> \<open>\<open>collect\<close>: about to lock \<open>gc_lock\<close>\<close>
  | LxTop         \<comment> \<open>\<open>lock_exclusive\<close>, top of the loop, \<open>gc_lock\<close> held\<close>
  | LxLoaded      \<comment> \<open>the value loaded was zero\<close>
  | CoCritical    \<comment> \<open>the collection: exclusive guard and \<open>gc_lock\<close> held\<close>
  | CoTail        \<comment> \<open>\<open>gc_lock\<close> dropped, exclusive guard still held\<close>

datatype ap_call = AtomicOperation | CollectCall

text \<open>\<open>ap_failed\<close> counts the refused increments since the exclusive guard was taken.\<close>

record ap_sys =
  ap_shared :: ap_lock
  ap_gc :: "nat option"
  ap_pcs :: "ap_pc list"
  ap_failed :: nat

definition ap_init :: "nat \<Rightarrow> ap_sys" where
  "ap_init n = \<lparr>ap_shared = ap_new, ap_gc = None, ap_pcs = replicate n ApIdle, ap_failed = 0\<rparr>"

abbreviation ap_val :: "ap_sys \<Rightarrow> u64" where
  "ap_val s \<equiv> tracker (ap_shared s)"

definition ap_goto :: "nat \<Rightarrow> ap_pc \<Rightarrow> ap_sys \<Rightarrow> ap_sys" where
  "ap_goto i pc s = s\<lparr>ap_pcs := (ap_pcs s)[i := pc]\<rparr>"

fun ap_start :: "ap_call \<Rightarrow> nat \<Rightarrow> ap_sys \<Rightarrow> ap_sys" where
  "ap_start AtomicOperation i s = ap_goto i GbTop s"
| "ap_start CollectCall i s = ap_goto i CoWaitGc s"

text \<open>
  \<open>cap\<close> bounds the refused increments during one collection (a refused thread next blocks on
  \<open>gc_lock\<close>, which the collection holds until its last statement).
\<close>

fun ap_advance :: "nat \<Rightarrow> ap_pc \<Rightarrow> nat \<Rightarrow> ap_sys \<Rightarrow> ap_sys option" where
  "ap_advance cap GbTop i s =
     (let (granted, l) = lock_inclusive (ap_shared s)
      in if granted then Some (ap_goto i GbHolding (s\<lparr>ap_shared := l\<rparr>))
         else if ap_failed s < cap
         then Some (ap_goto i GbWaitGc (s\<lparr>ap_shared := l, ap_failed := ap_failed s + 1\<rparr>))
         else None)"
| "ap_advance cap GbWaitGc i s =
     (if ap_gc s = None then Some (ap_goto i GbHasGc (s\<lparr>ap_gc := Some i\<rparr>)) else None)"
| "ap_advance cap GbHasGc i s = Some (ap_goto i GbTop (s\<lparr>ap_gc := None\<rparr>))"
| "ap_advance cap GbHolding i s =
     Some (ap_goto i ApIdle (s\<lparr>ap_shared := drop_inclusive_guard (ap_shared s)\<rparr>))"
| "ap_advance cap CoWaitGc i s =
     (if ap_gc s = None then Some (ap_goto i LxTop (s\<lparr>ap_gc := Some i\<rparr>)) else None)"
| "ap_advance cap LxTop i s = Some (ap_goto i (if ap_val s = 0 then LxLoaded else LxTop) s)"
| "ap_advance cap LxLoaded i s =
     (let (swap_result, c) = compare_exchange (ap_val s) 0 SENTINEL_VALUE
      in if is_ok swap_result
         then Some (ap_goto i CoCritical
                (s\<lparr>ap_shared := (ap_shared s)\<lparr>tracker := c\<rparr>, ap_failed := 0\<rparr>))
         else Some (ap_goto i LxTop s))"
| "ap_advance cap CoCritical i s = Some (ap_goto i CoTail (s\<lparr>ap_gc := None\<rparr>))"
| "ap_advance cap CoTail i s =
     Some (ap_goto i ApIdle (s\<lparr>ap_shared := drop_exclusive_guard (ap_shared s)\<rparr>))"
| "ap_advance cap ApIdle i s = None"

inductive ap_step :: "nat \<Rightarrow> ap_sys \<Rightarrow> ap_sys \<Rightarrow> bool" for cap where
  start: "i < length (ap_pcs s) \<Longrightarrow> ap_pcs s ! i = ApIdle \<Longrightarrow> ap_step cap s (ap_start call i s)"
| advance: "i < length (ap_pcs s) \<Longrightarrow> ap_advance cap (ap_pcs s ! i) i s = Some t \<Longrightarrow> ap_step cap s t"

inductive ap_reachable :: "nat \<Rightarrow> nat \<Rightarrow> ap_sys \<Rightarrow> bool" for cap n where
  init: "ap_reachable cap n (ap_init n)"
| step: "ap_reachable cap n s \<Longrightarrow> ap_step cap s t \<Longrightarrow> ap_reachable cap n t"

fun ap_run :: "nat \<Rightarrow> (nat \<times> ap_call) list \<Rightarrow> ap_sys \<Rightarrow> ap_sys option" where
  "ap_run cap [] s = Some s"
| "ap_run cap ((i, call) # sched) s =
     (if i < length (ap_pcs s)
      then Option.bind (if ap_pcs s ! i = ApIdle then Some (ap_start call i s)
                        else ap_advance cap (ap_pcs s ! i) i s) (ap_run cap sched)
      else None)"

subsection \<open>The invariant\<close>

fun incl_weight :: "ap_pc \<Rightarrow> nat" where
  "incl_weight GbHolding = 1"
| "incl_weight _ = 0"

fun excl_weight :: "ap_pc \<Rightarrow> nat" where
  "excl_weight CoCritical = 1"
| "excl_weight CoTail = 1"
| "excl_weight _ = 0"

definition ap_inclusive :: "ap_sys \<Rightarrow> nat" where
  "ap_inclusive s = weight incl_weight (ap_pcs s)"

definition ap_exclusive :: "ap_sys \<Rightarrow> nat" where
  "ap_exclusive s = weight excl_weight (ap_pcs s)"

fun ap_in_gc :: "ap_pc \<Rightarrow> bool" where
  "ap_in_gc GbHasGc = True"
| "ap_in_gc LxTop = True"
| "ap_in_gc LxLoaded = True"
| "ap_in_gc CoCritical = True"
| "ap_in_gc _ = False"

definition ap_mutex_inv :: "ap_sys \<Rightarrow> bool" where
  "ap_mutex_inv s \<longleftrightarrow>
     (\<forall>i < length (ap_pcs s). ap_in_gc (ap_pcs s ! i) \<longleftrightarrow> ap_gc s = Some i)"

definition ap_count_inv :: "nat \<Rightarrow> ap_sys \<Rightarrow> bool" where
  "ap_count_inv cap s \<longleftrightarrow>
     ap_exclusive s = 0 \<and> unat (ap_val s) = ap_inclusive s \<or>
     ap_exclusive s = 1 \<and> ap_inclusive s = 0 \<and>
       unat (ap_val s) = 2 ^ 60 + ap_failed s \<and> ap_failed s \<le> cap"

definition ap_inv :: "nat \<Rightarrow> nat \<Rightarrow> ap_sys \<Rightarrow> bool" where
  "ap_inv cap n s \<longleftrightarrow> length (ap_pcs s) = n \<and> ap_mutex_inv s \<and> ap_count_inv cap s"

lemma ap_goto_frame [frame_simps]:
  "ap_shared (ap_goto i pc s) = ap_shared s" "ap_gc (ap_goto i pc s) = ap_gc s"
  "ap_failed (ap_goto i pc s) = ap_failed s" "ap_pcs (ap_goto i pc s) = (ap_pcs s)[i := pc]"
  by (simp_all add: ap_goto_def)

lemma ap_counts_goto:
  assumes "i < length (ap_pcs s)"
  shows "ap_inclusive (ap_goto i pc s) =
           ap_inclusive s + incl_weight pc - incl_weight (ap_pcs s ! i)"
    and "ap_exclusive (ap_goto i pc s) =
           ap_exclusive s + excl_weight pc - excl_weight (ap_pcs s ! i)"
  using weight_ge [OF assms, of incl_weight] weight_ge [OF assms, of excl_weight] assms
  by (simp_all add: ap_inclusive_def ap_exclusive_def frame_simps weight_simps)

lemma ap_counts_ge:
  assumes "i < length (ap_pcs s)"
  shows "incl_weight (ap_pcs s ! i) \<le> ap_inclusive s" "excl_weight (ap_pcs s ! i) \<le> ap_exclusive s"
  using weight_ge [OF assms, of incl_weight] weight_ge [OF assms, of excl_weight]
  by (simp_all add: ap_inclusive_def ap_exclusive_def)

lemma ap_counts_frame [frame_simps]:
  "ap_inclusive (s\<lparr>ap_shared := l\<rparr>) = ap_inclusive s" "ap_exclusive (s\<lparr>ap_shared := l\<rparr>) = ap_exclusive s"
  "ap_inclusive (s\<lparr>ap_gc := g\<rparr>) = ap_inclusive s" "ap_exclusive (s\<lparr>ap_gc := g\<rparr>) = ap_exclusive s"
  "ap_inclusive (s\<lparr>ap_failed := k\<rparr>) = ap_inclusive s" "ap_exclusive (s\<lparr>ap_failed := k\<rparr>) = ap_exclusive s"
  by (simp_all add: ap_inclusive_def ap_exclusive_def)

lemma incl_weight_le: "incl_weight pc \<le> 1"
  by (cases pc) simp_all

lemma ap_inclusive_le: "ap_inclusive s \<le> length (ap_pcs s)"
  using incl_weight_le sum_list_mono [of "ap_pcs s" incl_weight "\<lambda>_. 1"]
  by (simp add: ap_inclusive_def weight_def sum_list_triv)

lemma ap_inclusive_less:
  assumes "i < length (ap_pcs s)" "incl_weight (ap_pcs s ! i) = 0"
  shows "ap_inclusive s < length (ap_pcs s)"
proof -
  have "ap_inclusive (ap_goto i GbHolding s) = ap_inclusive s + 1"
    using assms by (simp add: ap_counts_goto)
  then show ?thesis using ap_inclusive_le [of "ap_goto i GbHolding s"] by (simp add: frame_simps)
qed

lemmas ap_counts = ap_counts_goto frame_simps

lemma ap_mutex_goto:
  assumes "ap_mutex_inv s" "i < length (ap_pcs s)" "ap_in_gc pc = ap_in_gc (ap_pcs s ! i)"
  shows "ap_mutex_inv (ap_goto i pc s)"
  using assms by (simp add: ap_mutex_inv_def frame_simps nth_list_update)

lemma ap_mutex_take:
  assumes "ap_mutex_inv s" "i < length (ap_pcs s)" "ap_gc s = None" "ap_in_gc pc"
  shows "ap_mutex_inv (ap_goto i pc (s\<lparr>ap_gc := Some i\<rparr>))"
  using assms by (auto simp: ap_mutex_inv_def frame_simps nth_list_update)

lemma ap_mutex_give:
  assumes "ap_mutex_inv s" "i < length (ap_pcs s)" "ap_in_gc (ap_pcs s ! i)" "\<not> ap_in_gc pc"
  shows "ap_mutex_inv (ap_goto i pc (s\<lparr>ap_gc := None\<rparr>))"
  using assms by (auto simp: ap_mutex_inv_def frame_simps nth_list_update)

lemma ap_mutex_frame [frame_simps]:
  "ap_mutex_inv (s\<lparr>ap_shared := l\<rparr>) = ap_mutex_inv s"
  "ap_mutex_inv (s\<lparr>ap_failed := k\<rparr>) = ap_mutex_inv s"
  by (simp_all add: ap_mutex_inv_def)

lemma ap_mutex_advance:
  assumes "i < length (ap_pcs s)" "ap_mutex_inv s" "ap_advance cap (ap_pcs s ! i) i s = Some t"
  shows "ap_mutex_inv t"
  using assms
  by (cases "ap_pcs s ! i")
    (auto simp: Let_def compare_exchange_def lock_inclusive_def frame_simps ap_mutex_goto
      ap_mutex_take ap_mutex_give split: if_splits)

lemma ap_count_advance:
  assumes "i < length (ap_pcs s)" "ap_count_inv cap s" "ap_advance cap (ap_pcs s ! i) i s = Some t"
    and "length (ap_pcs s) < 2 ^ 60" "cap < 2 ^ 64 - 2 ^ 60"
  shows "ap_count_inv cap t"
proof (cases "ap_pcs s ! i")
  case GbTop
  have less: "ap_inclusive s < length (ap_pcs s)"
    using GbTop assms(1) by (intro ap_inclusive_less) auto
  show ?thesis
  proof (cases "ap_val s < SENTINEL_VALUE")
    case True
    then have "ap_exclusive s = 0" "unat (ap_val s) = ap_inclusive s"
      using assms(2) by (auto simp: ap_count_inv_def ap_less_unat)
    moreover from this have "unat (ap_val s + 1) = unat (ap_val s) + 1"
      using less assms(4) by (intro unat_Suc_word) simp
    ultimately show ?thesis
      using True GbTop assms(1,3)
      by (auto simp: lock_inclusive_def ap_count_inv_def ap_counts)
  next
    case False
    then have "\<not> unat (ap_val s) < 2 ^ 60" by (simp add: ap_less_unat)
    then have e: "ap_exclusive s = 1" "ap_inclusive s = 0" "unat (ap_val s) = 2 ^ 60 + ap_failed s"
      using assms(2,4) less by (auto simp: ap_count_inv_def)
    moreover have "ap_failed s < cap"
      using False GbTop assms(3) by (auto simp: lock_inclusive_def split: if_splits)
    moreover from this have "unat (ap_val s + 1) = unat (ap_val s) + 1"
      using e assms(5) by (intro unat_Suc_word) simp
    ultimately show ?thesis
      using False GbTop assms(1,3)
      by (auto simp: lock_inclusive_def ap_count_inv_def ap_counts)
  qed
next
  case GbHolding
  then have "0 < ap_inclusive s" using ap_counts_ge(1) [OF assms(1)] by simp
  then have e: "ap_exclusive s = 0" "unat (ap_val s) = ap_inclusive s" "0 < ap_val s"
    using assms(2) by (auto simp: ap_count_inv_def pos_word_iff)
  then show ?thesis
    using GbHolding assms(1,3)
    by (auto simp: drop_inclusive_guard_def ap_count_inv_def ap_counts unat_pred_word)
next
  case CoTail
  then have "ap_exclusive s = 1" "ap_inclusive s = 0"
    using ap_counts_ge(2) [OF assms(1)] assms(2) by (auto simp: ap_count_inv_def)
  then show ?thesis
    using CoTail assms(1,3) by (auto simp: drop_exclusive_guard_def ap_count_inv_def ap_counts)
next
  case LxLoaded
  show ?thesis
  proof (cases "ap_val s = 0")
    case True
    then have "ap_exclusive s = 0" "ap_inclusive s = 0"
      using assms(2) by (auto simp: ap_count_inv_def)
    with True LxLoaded show ?thesis
      using assms(1,3)
      by (auto simp: compare_exchange_def ap_count_inv_def ap_counts unat_sentinel)
  qed (use LxLoaded assms in \<open>auto simp: compare_exchange_def ap_count_inv_def ap_counts\<close>)
qed (use assms in \<open>auto simp: ap_count_inv_def ap_counts split: if_splits\<close>)

lemma ap_inv_step:
  assumes "ap_step cap s t" "ap_inv cap n s" "n < 2 ^ 60" "cap < 2 ^ 64 - 2 ^ 60"
  shows "ap_inv cap n t"
  using assms(1)
proof cases
  case (start i call)
  then show ?thesis
    using assms(2)
    by (cases call) (auto simp: ap_inv_def ap_counts ap_mutex_goto ap_count_inv_def)
next
  case (advance i)
  then have "length (ap_pcs t) = length (ap_pcs s)"
    by (cases "ap_pcs s ! i")
      (auto simp: Let_def compare_exchange_def lock_inclusive_def frame_simps split: if_splits)
  moreover have "ap_mutex_inv t"
    using ap_mutex_advance [OF advance(1) _ advance(2)] assms(2) by (simp add: ap_inv_def)
  moreover have "ap_count_inv cap t"
    using ap_count_advance [OF advance(1) _ advance(2)] assms(2-4) by (simp add: ap_inv_def)
  ultimately show ?thesis using assms(2) by (simp add: ap_inv_def)
qed

lemma ap_inv_init: "ap_inv cap n (ap_init n)"
  by (simp add: ap_inv_def ap_init_def ap_mutex_inv_def ap_count_inv_def ap_exclusive_def
      ap_inclusive_def weight_replicate ap_new_def)

theorem ap_reachable_inv:
  assumes "ap_reachable cap n s" "n < 2 ^ 60" "cap < 2 ^ 64 - 2 ^ 60"
  shows "ap_inv cap n s"
  using assms by (induction rule: ap_reachable.induct) (auto intro: ap_inv_init ap_inv_step)

lemma ap_run_reachable:
  "ap_reachable cap n s \<Longrightarrow> ap_run cap sched s = Some t \<Longrightarrow> ap_reachable cap n t"
proof (induction sched arbitrary: s)
  case (Cons a sched)
  obtain i call where a: "a = (i, call)" by (cases a)
  then obtain u where "ap_step cap s u" "ap_run cap sched u = Some t"
    using Cons.prems(2)
    by (auto simp: Option.bind_eq_Some_conv split: if_splits intro: ap_step.intros)
  then show ?case using Cons by (blast intro: ap_reachable.step)
qed simp

text \<open>
  Two threads: a collection starts, and an atomic operation is refused meanwhile; then the
  collection ends, and the atomic operation gets its guard.
\<close>

definition ap_collecting :: ap_sys where
  "ap_collecting = \<lparr>ap_shared = \<lparr>tracker = SENTINEL_VALUE + 1\<rparr>, ap_gc = Some 0,
                     ap_pcs = [CoCritical, GbWaitGc], ap_failed = 1\<rparr>"

definition ap_resumed :: ap_sys where
  "ap_resumed = \<lparr>ap_shared = \<lparr>tracker = 1\<rparr>, ap_gc = None,
                  ap_pcs = [ApIdle, GbHolding], ap_failed = 1\<rparr>"

lemmas ap_example_defs = ap_init_def ap_new_def ap_goto_def lock_inclusive_def
  compare_exchange_def drop_exclusive_guard_def Let_def numeral_2_eq_2

lemma ap_collecting_reachable: "ap_reachable 7 2 ap_collecting"
proof (rule ap_run_reachable [OF ap_reachable.init])
  show "ap_run 7 [(0, CollectCall), (1, AtomicOperation), (0, CollectCall), (0, CollectCall),
          (0, CollectCall), (1, AtomicOperation)] (ap_init 2) = Some ap_collecting"
    by (simp add: ap_example_defs ap_collecting_def)
qed

lemma ap_resumed_reachable: "ap_reachable 7 2 ap_resumed"
proof (rule ap_run_reachable [OF ap_collecting_reachable])
  show "ap_run 7 [(0, CollectCall), (0, CollectCall), (1, AtomicOperation), (1, AtomicOperation),
          (1, AtomicOperation)] ap_collecting = Some ap_resumed"
    by (simp add: ap_example_defs ap_collecting_def ap_resumed_def)
qed

subsection \<open>Properties\<close>

text \<open>
  C27: While a collection runs, from the moment \<open>lock_exclusive\<close> returns until its guard is
  dropped, no thread is inside an \<open>AtomicGc\<close> operation and no second collection runs; and
  whenever no exclusive guard exists the tracker is exactly the number of inclusive guards, so the
  increments of refused threads are never lost or counted twice.
\<close>

theorem atomics_still_during_collection:
  assumes "ap_reachable cap n s" and "n < 2 ^ 60" and "cap < 2 ^ 64 - 2 ^ 60"
    and "i < n" and "ap_pcs s ! i = CoCritical \<or> ap_pcs s ! i = CoTail"
  shows "(\<forall>j < n. ap_pcs s ! j \<noteq> GbHolding) \<and> SENTINEL_VALUE \<le> ap_val s \<and>
         (\<forall>j < n. j \<noteq> i \<longrightarrow> ap_pcs s ! j \<noteq> CoCritical \<and> ap_pcs s ! j \<noteq> CoTail)"
proof -
  have inv: "ap_inv cap n s" by (rule ap_reachable_inv [OF assms(1-3)])
  then have len: "length (ap_pcs s) = n" by (simp add: ap_inv_def)
  have "1 \<le> ap_exclusive s" using ap_counts_ge(2) [of i s] assms(4,5) len by auto
  then have e: "ap_exclusive s = 1" "ap_inclusive s = 0" "\<not> unat (ap_val s) < 2 ^ 60"
    using inv by (auto simp: ap_inv_def ap_count_inv_def)
  have "ap_pcs s ! j \<noteq> GbHolding" if "j < n" for j
    using ap_counts_ge(1) [of j s] that len e(2) by auto
  moreover have "ap_pcs s ! j \<noteq> CoCritical \<and> ap_pcs s ! j \<noteq> CoTail" if "j < n" "j \<noteq> i" for j
  proof -
    have "ap_exclusive (ap_goto i ApIdle s) = 0"
      using ap_counts_goto(2) [of i s ApIdle] assms(4,5) len e(1) by auto
    then have "excl_weight (ap_pcs (ap_goto i ApIdle s) ! j) = 0"
      using ap_counts_ge(2) [of j "ap_goto i ApIdle s"] that len by (simp add: frame_simps)
    with that show ?thesis by (auto simp: frame_simps)
  qed
  moreover have "SENTINEL_VALUE \<le> ap_val s" using e(3) by (simp add: ap_less_unat flip: not_less)
  ultimately show ?thesis by blast
qed

theorem atomics_still_during_collection_witness:
  "ap_pcs ap_collecting ! 0 = CoCritical \<and> ap_pcs ap_collecting ! 1 \<noteq> GbHolding"
proof -
  have c: "ap_pcs ap_collecting ! 0 = CoCritical" by (simp add: ap_collecting_def)
  moreover have "\<forall>j < 2. ap_pcs ap_collecting ! j \<noteq> GbHolding"
    by (rule conjunct1 [OF atomics_still_during_collection [OF ap_collecting_reachable, of 0]])
      (simp_all add: c)
  ultimately show ?thesis by simp
qed

text \<open>
  Once no thread holds the exclusive guard, the tracker counts the inclusive guards exactly,
  whatever increments were refused before.
\<close>

theorem tracker_counts_inclusive:
  assumes "ap_reachable cap n s" and "n < 2 ^ 60" and "cap < 2 ^ 64 - 2 ^ 60"
    and "CoCritical \<notin> set (ap_pcs s)" and "CoTail \<notin> set (ap_pcs s)"
  shows "unat (ap_val s) = length (filter (\<lambda>pc. pc = GbHolding) (ap_pcs s))"
proof -
  have inv: "ap_inv cap n s" by (rule ap_reachable_inv [OF assms(1-3)])
  have "excl_weight pc = (if pc = CoCritical \<or> pc = CoTail then 1 else 0)" for pc
    by (cases pc) auto
  then have "excl_weight pc = 0" if "pc \<in> set (ap_pcs s)" for pc
    using that assms(4,5) by auto
  then have "ap_exclusive s = 0" by (simp add: ap_exclusive_def weight_def)
  then have "unat (ap_val s) = ap_inclusive s" using inv by (auto simp: ap_inv_def ap_count_inv_def)
  moreover have "incl_weight pc = (if pc = GbHolding then 1 else 0)" for pc
    by (cases pc) auto
  then have "weight incl_weight xs = length (filter (\<lambda>pc. pc = GbHolding) xs)" for xs
    by (induction xs) (auto simp: weight_def)
  ultimately show ?thesis by (simp add: ap_inclusive_def)
qed

theorem tracker_counts_inclusive_witness:
  "unat (ap_val ap_resumed) = length (filter (\<lambda>pc. pc = GbHolding) (ap_pcs ap_resumed)) \<and>
   GbHolding \<in> set (ap_pcs ap_resumed)"
proof -
  have "CoCritical \<notin> set (ap_pcs ap_resumed)" "CoTail \<notin> set (ap_pcs ap_resumed)"
    "GbHolding \<in> set (ap_pcs ap_resumed)"
    by (simp_all add: ap_resumed_def)
  then show ?thesis using tracker_counts_inclusive [OF ap_resumed_reachable] by simp
qed

end
