(* ===== verification/Slots.thy ===== *)
theory Slots
  imports Prelude "HOL-Library.Multiset"
begin

text \<open>
  The contract between \<open>src/concurrency/chunked_ll.rs\<close> and its client, the collector: a store that
  hands out an item for each pointer put in, takes a pointer out again when shown its item, ignores
  an item whose pointer has left, and can be walked. A state \<open>l\<close> is a partial map \<open>lookup l\<close>
  from keys to pointers; an item names a key and a pointer.
\<close>

locale slot_store =
  fixes invar :: "'l \<Rightarrow> bool"
    and lookup :: "'l \<Rightarrow> 'k \<Rightarrow> 'p option"
    and empty_store :: "'l"
    and put :: "'p \<Rightarrow> 'l \<Rightarrow> 'i \<times> 'l"
    and take_out :: "'i \<Rightarrow> 'l \<Rightarrow> 'l"
    and items :: "'l \<Rightarrow> 'p list"
    and count :: "'l \<Rightarrow> usize"
    and key :: "'i \<Rightarrow> 'k"
    and pointer :: "'i \<Rightarrow> 'p"
  assumes empty_invar: "invar empty_store"
    and empty_lookup: "lookup empty_store = Map.empty"
    and put_law: "invar l \<Longrightarrow> put v l = (it, l') \<Longrightarrow>
      invar l' \<and> pointer it = v \<and> lookup l (key it) = None \<and> lookup l' = (lookup l)(key it \<mapsto> v)"
    and take_invar: "invar l \<Longrightarrow> invar (take_out it l)"
    and take_lookup: "invar l \<Longrightarrow> lookup (take_out it l) =
      (if lookup l (key it) = Some (pointer it) then (lookup l)(key it := None) else lookup l)"
    and lookup_finite: "invar l \<Longrightarrow> finite (dom (lookup l))"
    and items_law: "invar l \<Longrightarrow> mset (items l) = image_mset (the \<circ> lookup l) (mset_set (dom (lookup l)))"
    and count_law: "invar l \<Longrightarrow> count l = of_nat (length (items l))"
begin

lemma items_iff:
  assumes "invar l"
  shows "p \<in> set (items l) \<longleftrightarrow> (\<exists>k. lookup l k = Some p)"
proof -
  have "p \<in> set (items l) \<longleftrightarrow> p \<in># mset (items l)" by simp
  also have "\<dots> \<longleftrightarrow> (\<exists>k. lookup l k = Some p)"
    using lookup_finite [OF assms] by (force simp: items_law [OF assms])
  finally show ?thesis .
qed

lemma empty_items: "items empty_store = []"
  using items_law [OF empty_invar] by (simp add: empty_lookup)

lemma put_items:
  assumes inv: "invar l" and run: "put v l = (it, l')"
  shows "mset (items l') = add_mset v (mset (items l))"
proof -
  note law = put_law [OF inv run]
  have "image_mset (the \<circ> lookup l') (mset_set (dom (lookup l))) =
        image_mset (the \<circ> lookup l) (mset_set (dom (lookup l)))"
    by (rule image_mset_cong) (use law in \<open>auto simp: lookup_finite [OF inv]\<close>)
  moreover have "dom (lookup l') = insert (key it) (dom (lookup l))" using law by auto
  moreover have "key it \<notin> dom (lookup l)" using law by auto
  ultimately show ?thesis
    using law lookup_finite [OF inv] by (simp add: items_law inv)
qed

lemma take_items:
  assumes inv: "invar l" and held: "lookup l (key it) = Some (pointer it)"
  shows "mset (items l) = add_mset (pointer it) (mset (items (take_out it l)))"
proof -
  let ?D = "dom (lookup l)"
  have law: "lookup (take_out it l) = (lookup l)(key it := None)"
    using take_lookup [OF inv] held by simp
  have "image_mset (the \<circ> lookup (take_out it l)) (mset_set (?D - {key it})) =
        image_mset (the \<circ> lookup l) (mset_set (?D - {key it}))"
    by (rule image_mset_cong) (auto simp: law lookup_finite [OF inv])
  moreover have "mset_set ?D = add_mset (key it) (mset_set (?D - {key it}))"
    using held lookup_finite [OF inv] by (intro mset_set.remove) auto
  moreover have "dom (lookup (take_out it l)) = ?D - {key it}" by (simp add: law)
  ultimately show ?thesis
    using held by (simp add: items_law [OF inv] items_law [OF take_invar [OF inv]])
qed

lemma take_stale:
  "invar l \<Longrightarrow> lookup l (key it) \<noteq> Some (pointer it) \<Longrightarrow> lookup (take_out it l) = lookup l"
  by (simp add: take_lookup)

lemma take_twice: "invar l \<Longrightarrow> lookup (take_out it (take_out it l)) = lookup (take_out it l)"
  by (simp add: take_lookup take_invar)

lemma put_take: "invar l \<Longrightarrow> put v l = (it, l') \<Longrightarrow> lookup (take_out it l') = lookup l"
  using put_law [of l v it l'] by (auto simp: take_lookup)

text \<open>A pointer that is put in once is under one key.\<close>

lemma lookup_inj:
  assumes inv: "invar l" and dist: "distinct (items l)" and k: "lookup l k = Some p" and k': "lookup l k' = Some p"
  shows "k = k'"
proof (rule ccontr)
  assume ne: "k \<noteq> k'"
  let ?D = "dom (lookup l)"
  have fin: "finite ?D" by (rule lookup_finite [OF inv])
  have "mset_set {k, k'} \<subseteq># mset_set ?D" using k k' fin by (intro subset_imp_msubset_mset_set) auto
  from image_mset_subseteq_mono [OF this, of "the \<circ> lookup l"]
  have "{#p, p#} \<subseteq># mset (items l)" using ne k k' by (simp add: items_law [OF inv])
  from mset_subset_eq_count [OF this, of p] have "2 \<le> Multiset.count (mset (items l)) p" by simp
  moreover have "Multiset.count (mset (items l)) p \<le> 1" using dist by (metis distinct_count_atmost_1 order_refl zero_le_one)
  ultimately show False by simp
qed

text \<open>An item stays good until it is itself taken out.\<close>

lemma held_put:
  "invar l \<Longrightarrow> put v l = (it, l') \<Longrightarrow> lookup l (key j) = Some (pointer j) \<Longrightarrow>
     lookup l' (key j) = Some (pointer j)"
  using put_law [of l v it l'] by (auto)

lemma held_take:
  "invar l \<Longrightarrow> lookup l (key j) = Some (pointer j) \<Longrightarrow> key it \<noteq> key j \<or> pointer it \<noteq> pointer j \<Longrightarrow>
     lookup (take_out it l) (key j) = Some (pointer j)"
  by (auto simp: take_lookup)

end

end
