(* ===== verification/Chunked_LL.thy ===== *)
theory Chunked_LL
  imports Slots
begin

text \<open>
  The list of chunks with a free queue of \<open>src/concurrency/chunked_ll.rs\<close>, in which the collector
  keeps its data and its handles. The stored \<open>Arc\<close>s are pointers of any type \<open>'p\<close>, compared by
  equality as \<open>Arc::as_ptr\<close> is. A chunk is the struct of the source, its \<open>next\<close> pointer
  being the chunk behind it; chunks are never moved or freed, so an address names one for good.

  The operations here run undisturbed. \<open>rayon::join\<close> runs its two closures in any order or at
  once; the model takes the order of the source text, and the clients in \<open>Mark\<close> show that
  their loop bodies do not depend on the order of the visits.
\<close>

definition CHUNK_SIZE :: nat where
  "CHUNK_SIZE = 1024"

datatype 'p chunk = Chunk (chunk_addr: nat) (chunk_values: "'p option list") (chunk_next: "'p chunk option")

record 'p cll =
  free_entries :: "(nat \<times> nat) list"
  cll_head :: "'p chunk"
  estimated_len :: usize

record 'p cll_item =
  item_v :: 'p
  item_from :: nat
  item_idx :: nat

definition initialize_values :: "'p option list" where
  "initialize_values = replicate CHUNK_SIZE None"

definition cll_new :: "'p cll" where
  "cll_new = \<lparr>free_entries = map (Pair 0) [0..<CHUNK_SIZE],
              cll_head = Chunk 0 initialize_values None, estimated_len = 0\<rparr>"

definition cll_expand :: "'p cll \<Rightarrow> 'p cll" where
  "cll_expand l =
     (let old_head = cll_head l;
          new_head = Chunk (Suc (chunk_addr old_head)) initialize_values (Some old_head)
      in l\<lparr>cll_head := new_head,
           free_entries := free_entries l @ map (Pair (chunk_addr new_head)) [0..<CHUNK_SIZE]\<rparr>)"

text \<open>Reading and writing one slot through a pointer to its chunk.\<close>

fun chunk_slot :: "'p chunk \<Rightarrow> nat \<Rightarrow> nat \<Rightarrow> 'p option" where
  "chunk_slot (Chunk a vs nx) b i =
     (if a = b then (if i < length vs then vs ! i else None)
      else case nx of None \<Rightarrow> None | Some c \<Rightarrow> chunk_slot c b i)"

fun chunk_store :: "'p chunk \<Rightarrow> nat \<Rightarrow> nat \<Rightarrow> 'p option \<Rightarrow> 'p chunk" where
  "chunk_store (Chunk a vs nx) b i v =
     (if a = b then Chunk a (vs[i := v]) nx
      else Chunk a vs (case nx of None \<Rightarrow> None | Some c \<Rightarrow> Some (chunk_store c b i v)))"

lemma CHUNK_SIZE_pos [simp]: "0 < CHUNK_SIZE"
  by (simp add: CHUNK_SIZE_def)

text \<open>
  The loop of \<open>insert\<close>: the second turn, after \<open>expand\<close>, always finds a free entry. That is its
  termination proof.
\<close>

function cll_insert :: "'p \<Rightarrow> 'p cll \<Rightarrow> 'p cll_item \<times> 'p cll" where
  "cll_insert v l =
     (case free_entries l of
        (b, i) # rest \<Rightarrow>
          (\<lparr>item_v = v, item_from = b, item_idx = i\<rparr>,
           l\<lparr>free_entries := rest, cll_head := chunk_store (cll_head l) b i (Some v),
             estimated_len := estimated_len l + 1\<rparr>)
      | [] \<Rightarrow> cll_insert v (cll_expand l))"
  by pat_completeness auto
termination
  by (relation "measure (\<lambda>(v, l). if free_entries l = [] then 1 else 0)")
    (auto simp: cll_expand_def Let_def)

declare cll_insert.simps [simp del]

definition cll_remove :: "'p cll_item \<Rightarrow> 'p cll \<Rightarrow> 'p cll" where
  "cll_remove it l =
     (let b = item_from it; i = item_idx it;
          prev = chunk_slot (cll_head l) b i
      in if prev = Some (item_v it)
         then l\<lparr>cll_head := chunk_store (cll_head l) b i None,
                estimated_len := estimated_len l - 1,
                free_entries := free_entries l @ [(b, i)]\<rparr>
         else l)"

text \<open>The closure of \<open>par_iter\<close> sees the occupied slots of each chunk in turn.\<close>

definition iter_this :: "'p option list \<Rightarrow> 'p list" where
  "iter_this vs = List.map_filter (\<lambda>v. v) vs"

fun par_iter_rest :: "'p chunk \<Rightarrow> 'p list" where
  "par_iter_rest (Chunk a vs None) = iter_this vs"
| "par_iter_rest (Chunk a vs (Some c)) = iter_this vs @ par_iter_rest c"

definition par_iter :: "'p cll \<Rightarrow> 'p list" where
  "par_iter l = par_iter_rest (cll_head l)"

text \<open>
  The predicate of \<open>par_retain\<close> is a closure with side effects, so it is given the state of its
  environment. \<open>retain_this\<close> returns the new values, the entries to push to the free queue and that
  state.
\<close>

fun retain_this :: "('p \<Rightarrow> 's \<Rightarrow> bool \<times> 's) \<Rightarrow> nat \<Rightarrow> nat \<Rightarrow> 'p option list \<Rightarrow> 's \<Rightarrow>
    'p option list \<times> (nat \<times> nat) list \<times> 's" where
  "retain_this f a i [] s = ([], [], s)"
| "retain_this f a i (v # vs) s =
     (let (should_retain, s1) = (case v of Some p \<Rightarrow> f p s | None \<Rightarrow> (True, s));
          (vs', freed, s2) = retain_this f a (Suc i) vs s1
      in if should_retain then (v # vs', freed, s2) else (None # vs', (a, i) # freed, s2))"

fun par_retain_rest :: "('p \<Rightarrow> 's \<Rightarrow> bool \<times> 's) \<Rightarrow> 'p chunk \<Rightarrow> 's \<Rightarrow>
    'p chunk \<times> (nat \<times> nat) list \<times> 's" where
  "par_retain_rest f (Chunk a vs None) s =
     (let (vs', freed, s1) = retain_this f a 0 vs s in (Chunk a vs' None, freed, s1))"
| "par_retain_rest f (Chunk a vs (Some c)) s =
     (let (vs', freed, s1) = retain_this f a 0 vs s;
          (c', freed', s2) = par_retain_rest f c s1
      in (Chunk a vs' (Some c'), freed @ freed', s2))"

definition par_retain :: "('p \<Rightarrow> 's \<Rightarrow> bool \<times> 's) \<Rightarrow> 'p cll \<Rightarrow> 's \<Rightarrow> 'p cll \<times> 's" where
  "par_retain f l s =
     (let (c, freed, s') = par_retain_rest f (cll_head l) s
      in (l\<lparr>cll_head := c, free_entries := free_entries l @ freed,
            estimated_len := estimated_len l - of_nat (length freed)\<rparr>, s'))"

definition estimate_len :: "'p cll \<Rightarrow> usize" where
  "estimate_len l = estimated_len l"

subsection \<open>What a list stores\<close>

type_synonym slot_key = "nat \<times> nat"

fun slot_entries :: "nat \<Rightarrow> nat \<Rightarrow> 'p option list \<Rightarrow> (slot_key \<times> 'p) list" where
  "slot_entries a i [] = []"
| "slot_entries a i (None # vs) = slot_entries a (Suc i) vs"
| "slot_entries a i (Some p # vs) = ((a, i), p) # slot_entries a (Suc i) vs"

fun chunk_entries :: "'p chunk \<Rightarrow> (slot_key \<times> 'p) list" where
  "chunk_entries (Chunk a vs None) = slot_entries a 0 vs"
| "chunk_entries (Chunk a vs (Some c)) = slot_entries a 0 vs @ chunk_entries c"

definition cll_entries :: "'p cll \<Rightarrow> (slot_key \<times> 'p) list" where
  "cll_entries l = chunk_entries (cll_head l)"

definition cll_lookup :: "'p cll \<Rightarrow> slot_key \<Rightarrow> 'p option" where
  "cll_lookup l k = chunk_slot (cll_head l) (fst k) (snd k)"

fun chunk_wf :: "'p chunk \<Rightarrow> bool" where
  "chunk_wf (Chunk a vs None) \<longleftrightarrow> length vs = CHUNK_SIZE \<and> a = 0"
| "chunk_wf (Chunk a vs (Some c)) \<longleftrightarrow> length vs = CHUNK_SIZE \<and> a = Suc (chunk_addr c) \<and> chunk_wf c"

definition cll_slots :: "'p cll \<Rightarrow> slot_key set" where
  "cll_slots l = {..chunk_addr (cll_head l)} \<times> {..<CHUNK_SIZE}"

text \<open>
  The free queue holds each empty slot exactly once, and the length estimate is exact.
\<close>

definition cll_inv :: "'p cll \<Rightarrow> bool" where
  "cll_inv l \<longleftrightarrow> chunk_wf (cll_head l) \<and> distinct (free_entries l) \<and>
     set (free_entries l) = {k \<in> cll_slots l. cll_lookup l k = None} \<and>
     estimated_len l = of_nat (length (cll_entries l))"

subsection \<open>Slots and entries\<close>

lemma slot_entries_keys: "((b, j), p) \<in> set (slot_entries a i vs) \<longleftrightarrow>
    b = a \<and> i \<le> j \<and> j < i + length vs \<and> vs ! (j - i) = Some p"
proof (induction a i vs rule: slot_entries.induct)
  case (2 a i vs)
  then show ?case by (cases "j = i") (auto simp: nth_Cons' Suc_le_eq)
next
  case (3 a i p' vs)
  then show ?case by (cases "j = i") (auto simp: nth_Cons' Suc_le_eq)
qed simp

lemma distinct_slot_entries: "distinct (map fst (slot_entries a i vs))"
  by (induction a i vs rule: slot_entries.induct) (auto simp: slot_entries_keys)

lemma slot_entries_iter: "map snd (slot_entries a i vs) = iter_this vs"
  by (induction a i vs rule: slot_entries.induct) (simp_all add: iter_this_def map_filter_simps)

lemma chunk_entries_iter: "map snd (chunk_entries c) = par_iter_rest c"
  by (induction c rule: chunk_entries.induct) (simp_all add: slot_entries_iter)

lemma chunk_slot_addr: "chunk_wf c \<Longrightarrow> chunk_slot c b j = Some p \<Longrightarrow> b \<le> chunk_addr c \<and> j < CHUNK_SIZE"
  by (induction c rule: chunk_wf.induct) (force split: if_splits)+

lemma chunk_entries_keys:
  "chunk_wf c \<Longrightarrow> ((b, j), p) \<in> set (chunk_entries c) \<longleftrightarrow> chunk_slot c b j = Some p"
proof (induction c rule: chunk_wf.induct)
  case (2 a vs c)
  then show ?case using chunk_slot_addr [of c b j p] by (auto simp: slot_entries_keys)
qed (auto simp: slot_entries_keys)

lemma distinct_chunk_entries: "chunk_wf c \<Longrightarrow> distinct (map fst (chunk_entries c))"
proof (induction c rule: chunk_wf.induct)
  case (2 a vs c)
  have "fst ` set (slot_entries a 0 vs) \<inter> fst ` set (chunk_entries c) = {}"
    using 2(2) chunk_slot_addr [of c] by (force simp: slot_entries_keys chunk_entries_keys)
  with 2 show ?case by (auto simp: distinct_slot_entries)
qed (simp add: distinct_slot_entries)

lemma chunk_addr_store [simp]: "chunk_addr (chunk_store c b i v) = chunk_addr c"
  by (cases c) simp

lemma chunk_wf_store: "chunk_wf c \<Longrightarrow> chunk_wf (chunk_store c b i v)"
  by (induction c rule: chunk_wf.induct) auto

lemma chunk_slot_store:
  "chunk_wf c \<Longrightarrow> b \<le> chunk_addr c \<Longrightarrow> i < CHUNK_SIZE \<Longrightarrow>
     chunk_slot (chunk_store c b i v) b' j = (if b' = b \<and> j = i then v else chunk_slot c b' j)"
  by (induction c rule: chunk_wf.induct) (auto simp: nth_list_update)

subsection \<open>The list as a finite map\<close>

lemma cll_lookup_entries:
  assumes "chunk_wf (cll_head l)"
  shows "cll_lookup l k = Some p \<longleftrightarrow> (k, p) \<in> set (cll_entries l)"
  using chunk_entries_keys [OF assms, of "fst k" "snd k"]
  by (simp add: cll_lookup_def cll_entries_def)

lemma cll_lookup_map_of:
  assumes "chunk_wf (cll_head l)"
  shows "cll_lookup l = map_of (cll_entries l)"
proof
  fix k
  have "distinct (map fst (cll_entries l))"
    using distinct_chunk_entries [OF assms] by (simp add: cll_entries_def)
  then show "cll_lookup l k = map_of (cll_entries l) k"
    using cll_lookup_entries [OF assms, of k]
    by (cases "cll_lookup l k"; cases "map_of (cll_entries l) k") (auto simp: map_of_eq_Some_iff dest: map_of_SomeD)
qed

lemma finite_dom_cll: "chunk_wf (cll_head l) \<Longrightarrow> finite (dom (cll_lookup l))"
  by (simp add: cll_lookup_map_of finite_dom_map_of)

lemma length_cll_entries:
  assumes "chunk_wf (cll_head l)"
  shows "length (cll_entries l) = card (dom (cll_lookup l))"
proof -
  have "distinct (map fst (cll_entries l))"
    using distinct_chunk_entries [OF assms] by (simp add: cll_entries_def)
  then have "length (cll_entries l) = card (fst ` set (cll_entries l))"
    by (metis distinct_card length_map list.set_map)
  then show ?thesis by (simp add: cll_lookup_map_of [OF assms] dom_map_of_conv_image_fst)
qed

lemma cll_par_iter: "par_iter l = map snd (cll_entries l)"
  by (simp add: par_iter_def cll_entries_def chunk_entries_iter)

lemma set_par_iter:
  assumes "chunk_wf (cll_head l)"
  shows "set (par_iter l) = ran (cll_lookup l)"
  using cll_lookup_entries [OF assms] by (force simp: cll_par_iter ran_def image_iff)

lemma cll_lookup_slots: "chunk_wf (cll_head l) \<Longrightarrow> dom (cll_lookup l) \<subseteq> cll_slots l"
  using chunk_slot_addr [of "cll_head l"] by (force simp: cll_lookup_def cll_slots_def)

text \<open>The invariant stated over the map.\<close>

lemma cll_inv_alt:
  "cll_inv l \<longleftrightarrow> chunk_wf (cll_head l) \<and> distinct (free_entries l) \<and>
     set (free_entries l) = cll_slots l - dom (cll_lookup l) \<and>
     estimated_len l = of_nat (card (dom (cll_lookup l)))"
  using length_cll_entries [of l] by (auto simp: cll_inv_def)

subsection \<open>The operations\<close>

lemma cll_lookup_new: "cll_lookup cll_new = Map.empty"
  by (auto simp: cll_lookup_def cll_new_def initialize_values_def)

lemma cll_inv_new: "cll_inv cll_new"
  by (auto simp: cll_inv_alt cll_lookup_new cll_slots_def)
    (auto simp: cll_new_def initialize_values_def distinct_map inj_on_def)

lemma cll_lookup_expand:
  assumes "chunk_wf (cll_head l)"
  shows "cll_lookup (cll_expand l) = cll_lookup l"
proof
  fix k
  show "cll_lookup (cll_expand l) k = cll_lookup l k"
    using chunk_slot_addr [OF assms, of "Suc (chunk_addr (cll_head l))" "snd k"]
    by (cases "cll_lookup l k") (auto simp: cll_lookup_def cll_expand_def Let_def initialize_values_def)
qed

lemma cll_inv_expand:
  assumes "cll_inv l"
  shows "cll_inv (cll_expand l)"
proof -
  let ?a = "chunk_addr (cll_head l)"
  have wf: "chunk_wf (cll_head l)" using assms by (simp add: cll_inv_def)
  have free: "set (free_entries (cll_expand l)) = set (free_entries l) \<union> {Suc ?a} \<times> {..<CHUNK_SIZE}"
    by (auto simp: cll_expand_def Let_def)
  have slots: "cll_slots (cll_expand l) = cll_slots l \<union> {Suc ?a} \<times> {..<CHUNK_SIZE}"
    by (auto simp: cll_expand_def Let_def cll_slots_def)
  have "dom (cll_lookup l) \<inter> {Suc ?a} \<times> {..<CHUNK_SIZE} = {}"
    using cll_lookup_slots [OF wf] by (auto simp: cll_slots_def)
  moreover have "distinct (free_entries (cll_expand l))"
  proof -
    have "set (free_entries l) \<inter> {Suc ?a} \<times> {..<CHUNK_SIZE} = {}"
      using assms by (auto simp: cll_inv_alt cll_slots_def)
    moreover have "set (map (Pair (Suc ?a)) [0..<CHUNK_SIZE]) = {Suc ?a} \<times> {..<CHUNK_SIZE}" by auto
    moreover have "distinct (map (Pair (Suc ?a)) [0..<CHUNK_SIZE])"
      by (simp add: distinct_map inj_on_def)
    moreover have "free_entries (cll_expand l) = free_entries l @ map (Pair (Suc ?a)) [0..<CHUNK_SIZE]"
      by (simp add: cll_expand_def Let_def)
    moreover have "distinct (free_entries l)" using assms by (simp add: cll_inv_def)
    ultimately show ?thesis by (simp only: distinct_append simp_thms)
  qed
  moreover have "chunk_wf (cll_head (cll_expand l))"
    using wf by (simp add: cll_expand_def Let_def initialize_values_def)
  moreover have "estimated_len (cll_expand l) = estimated_len l"
    by (simp add: cll_expand_def Let_def)
  ultimately show ?thesis
    using assms free slots by (auto simp: cll_inv_alt cll_lookup_expand)
qed

lemma cll_insert_pop:
  assumes inv: "cll_inv l" and free: "free_entries l = (b, i) # rest"
    and ins: "cll_insert v l = (it, l')"
  shows "cll_inv l' \<and> item_v it = v \<and> cll_lookup l (item_from it, item_idx it) = None \<and>
         cll_lookup l' = (cll_lookup l)((item_from it, item_idx it) \<mapsto> v)"
proof -
  have wf: "chunk_wf (cll_head l)" using inv by (simp add: cll_inv_def)
  have it: "it = \<lparr>item_v = v, item_from = b, item_idx = i\<rparr>"
    and l': "l' = l\<lparr>free_entries := rest, cll_head := chunk_store (cll_head l) b i (Some v),
                  estimated_len := estimated_len l + 1\<rparr>"
    using ins free by (auto simp: cll_insert.simps [of v l])
  have "(b, i) \<in> set (free_entries l)" using free by simp
  then have k: "(b, i) \<in> cll_slots l" and none: "cll_lookup l (b, i) = None"
    using inv by (auto simp: cll_inv_def)
  then have bi: "b \<le> chunk_addr (cll_head l)" "i < CHUNK_SIZE" by (auto simp: cll_slots_def)
  have look: "cll_lookup l' = (cll_lookup l)((b, i) \<mapsto> v)"
    using chunk_slot_store [OF wf bi] by (auto simp: l' cll_lookup_def fun_eq_iff)
  have "card (dom (cll_lookup l')) = Suc (card (dom (cll_lookup l)))"
    using none finite_dom_cll [OF wf] by (simp add: look domIff)
  moreover have "cll_slots l' = cll_slots l" by (simp add: l' cll_slots_def)
  moreover have "set rest = set (free_entries l) - {(b, i)}" "distinct rest"
    using inv free by (auto simp: cll_inv_def)
  moreover have "free_entries l' = rest" "chunk_wf (cll_head l')"
      "estimated_len l' = estimated_len l + 1"
    using chunk_wf_store [OF wf] by (simp_all add: l')
  moreover have "dom (cll_lookup l') = insert (b, i) (dom (cll_lookup l))" by (simp add: look)
  moreover have "set (free_entries l) = cll_slots l - dom (cll_lookup l)"
      "estimated_len l = of_nat (card (dom (cll_lookup l)))"
    using inv by (simp_all add: cll_inv_alt)
  ultimately have "cll_inv l'" unfolding cll_inv_alt by auto
  then show ?thesis using it none look by simp
qed

lemma cll_insert_spec:
  assumes inv: "cll_inv l" and ins: "cll_insert v l = (it, l')"
  shows "cll_inv l' \<and> item_v it = v \<and> cll_lookup l (item_from it, item_idx it) = None \<and>
         cll_lookup l' = (cll_lookup l)((item_from it, item_idx it) \<mapsto> v)"
proof (cases "free_entries l")
  case (Cons e rest)
  then show ?thesis using cll_insert_pop [OF inv _ ins] by (cases e) auto
next
  case Nil
  then have ins': "cll_insert v (cll_expand l) = (it, l')"
    using ins by (simp add: cll_insert.simps [of v l])
  have "free_entries (cll_expand l) \<noteq> []" by (simp add: cll_expand_def Let_def)
  then obtain b i rest where free: "free_entries (cll_expand l) = (b, i) # rest"
    by (cases "free_entries (cll_expand l)") auto
  have "cll_lookup (cll_expand l) = cll_lookup l"
    using inv by (simp add: cll_inv_def cll_lookup_expand)
  then show ?thesis using cll_insert_pop [OF cll_inv_expand [OF inv] free ins'] by simp
qed

lemma cll_remove_spec:
  assumes inv: "cll_inv l"
  shows "cll_inv (cll_remove it l) \<and>
    cll_lookup (cll_remove it l) =
      (if cll_lookup l (item_from it, item_idx it) = Some (item_v it)
       then (cll_lookup l)((item_from it, item_idx it) := None) else cll_lookup l)"
proof (cases "cll_lookup l (item_from it, item_idx it) = Some (item_v it)")
  case False
  then have "cll_remove it l = l" by (simp add: cll_remove_def Let_def cll_lookup_def)
  then show ?thesis using False inv by simp
next
  case True
  let ?b = "item_from it" and ?i = "item_idx it"
  let ?l = "l\<lparr>cll_head := chunk_store (cll_head l) ?b ?i None, estimated_len := estimated_len l - 1,
              free_entries := free_entries l @ [(?b, ?i)]\<rparr>"
  have wf: "chunk_wf (cll_head l)" using inv by (simp add: cll_inv_def)
  have eq: "cll_remove it l = ?l" using True by (simp add: cll_remove_def Let_def cll_lookup_def)
  have bi: "?b \<le> chunk_addr (cll_head l)" "?i < CHUNK_SIZE"
    using chunk_slot_addr [OF wf, of ?b ?i] True by (simp_all add: cll_lookup_def)
  have look: "cll_lookup ?l = (cll_lookup l)((?b, ?i) := None)"
    using chunk_slot_store [OF wf bi] by (auto simp: cll_lookup_def fun_eq_iff)
  have dom: "(?b, ?i) \<in> dom (cll_lookup l)" "(?b, ?i) \<in> cll_slots l"
    using True cll_lookup_slots [OF wf] by auto
  have card: "card (dom (cll_lookup l)) = Suc (card (dom (cll_lookup l) - {(?b, ?i)}))"
    by (rule card_Suc_Diff1 [OF finite_dom_cll [OF wf] dom(1), symmetric])
  have "estimated_len ?l = of_nat (card (dom (cll_lookup ?l)))"
    using inv unfolding look dom_fun_upd by (simp add: cll_inv_alt card)
  moreover have "distinct (free_entries ?l)" using inv dom by (auto simp: cll_inv_alt)
  moreover have "set (free_entries ?l) = cll_slots ?l - dom (cll_lookup ?l)"
    unfolding look using inv dom by (auto simp: cll_inv_alt cll_slots_def)
  moreover have "chunk_wf (cll_head ?l)" using chunk_wf_store [OF wf] by simp
  ultimately have "cll_inv ?l" unfolding cll_inv_alt by blast
  then show ?thesis unfolding eq using look True by simp
qed

subsection \<open>Retaining\<close>

text \<open>What \<open>par_retain\<close> does to the entries: a filter whose predicate carries a state.\<close>

fun retain_list :: "('p \<Rightarrow> 's \<Rightarrow> bool \<times> 's) \<Rightarrow> (slot_key \<times> 'p) list \<Rightarrow> 's \<Rightarrow>
    (slot_key \<times> 'p) list \<times> slot_key list \<times> 's" where
  "retain_list f [] s = ([], [], s)"
| "retain_list f ((k, p) # es) s =
     (let (keep, s1) = f p s; (kept, freed, s2) = retain_list f es s1
      in if keep then ((k, p) # kept, freed, s2) else (kept, k # freed, s2))"

lemma retain_list_append:
  "retain_list f (es @ es') s =
     (let (kept, freed, s1) = retain_list f es s; (kept', freed', s2) = retain_list f es' s1
      in (kept @ kept', freed @ freed', s2))"
  by (induction f es s rule: retain_list.induct) (auto simp: Let_def split: prod.splits)

lemma retain_list_keys:
  "retain_list f es s = (kept, freed, s') \<Longrightarrow>
     mset (map fst es) = mset (map fst kept) + mset freed \<and> set kept \<subseteq> set es"
proof (induction es arbitrary: s kept freed s')
  case (Cons e es)
  obtain k p where e: "e = (k, p)" by (cases e)
  obtain keep s1 where f: "f p s = (keep, s1)" by (cases "f p s")
  obtain kept1 freed1 s2 where r: "retain_list f es s1 = (kept1, freed1, s2)"
    by (cases "retain_list f es s1") auto
  from Cons.IH [OF r] Cons.prems show ?case by (auto simp: e f r split: if_splits)
qed simp

lemma retain_list_pure:
  assumes P: "\<And>p s. fst (f p s) = P p"
  shows "fst (retain_list f es s) = filter (P \<circ> snd) es"
proof (induction es arbitrary: s)
  case (Cons e es)
  obtain k p where e: "e = (k, p)" by (cases e)
  obtain keep s1 where f: "f p s = (keep, s1)" by (cases "f p s")
  obtain kept1 freed1 s2 where r: "retain_list f es s1 = (kept1, freed1, s2)"
    by (cases "retain_list f es s1") auto
  have "keep = P p" using P [of p s] by (simp add: f)
  with Cons.IH [of s1] show ?case by (simp add: e f r)
qed simp

lemma retain_this_list:
  "retain_this f a i vs s = (vs', freed, s') \<Longrightarrow>
     length vs' = length vs \<and> retain_list f (slot_entries a i vs) s = (slot_entries a i vs', freed, s')"
proof (induction f a i vs s arbitrary: vs' freed s' rule: retain_this.induct)
  case (2 f a i v vs s)
  then show ?case by (cases v) (auto simp: Let_def split: prod.splits if_splits)
qed simp

lemma par_retain_rest_list:
  "par_retain_rest f c s = (c', freed, s') \<Longrightarrow>
     chunk_addr c' = chunk_addr c \<and> (chunk_wf c \<longrightarrow> chunk_wf c') \<and>
     retain_list f (chunk_entries c) s = (chunk_entries c', freed, s')"
proof (induction f c s arbitrary: c' freed s' rule: par_retain_rest.induct)
  case (1 f a vs s)
  then show ?case by (auto dest: retain_this_list split: prod.splits)
next
  case (2 f a vs c s)
  then show ?case
    by (fastforce dest: retain_this_list simp: retain_list_append split: prod.splits)
qed

lemma par_retain_spec:
  assumes inv: "cll_inv l" and ret: "par_retain f l s = (l', s')"
  shows "cll_inv l' \<and>
    (\<exists>freed. retain_list f (cll_entries l) s = (cll_entries l', freed, s'))"
proof -
  obtain c freed where run: "par_retain_rest f (cll_head l) s = (c, freed, s')"
    and l': "l' = l\<lparr>cll_head := c, free_entries := free_entries l @ freed,
                  estimated_len := estimated_len l - of_nat (length freed)\<rparr>"
    using ret by (auto simp: par_retain_def split: prod.splits)
  have wf: "chunk_wf (cll_head l)" using inv by (simp add: cll_inv_def)
  have c: "chunk_addr c = chunk_addr (cll_head l)" "chunk_wf c"
    and list: "retain_list f (cll_entries l) s = (cll_entries l', freed, s')"
    using par_retain_rest_list [OF run] wf by (auto simp: l' cll_entries_def)
  have wf': "chunk_wf (cll_head l')" using c by (simp add: l')
  have keys: "mset (map fst (cll_entries l)) = mset (map fst (cll_entries l')) + mset freed"
    using retain_list_keys [OF list] by simp
  have "distinct (map fst (cll_entries l))"
    using distinct_chunk_entries [OF wf] by (simp add: cll_entries_def)
  then have dist: "distinct (map fst (cll_entries l') @ freed)"
    using keys by (metis mset_append mset_eq_imp_distinct_iff)
  have sets: "set (map fst (cll_entries l)) = set (map fst (cll_entries l')) \<union> set freed"
    using keys by (metis mset_append set_append set_mset_mset)
  have dom: "dom (cll_lookup l) = set (map fst (cll_entries l))"
       "dom (cll_lookup l') = set (map fst (cll_entries l'))"
    by (simp_all only: cll_lookup_map_of [OF wf] cll_lookup_map_of [OF wf'] dom_map_of_conv_image_fst set_map)
  have free: "distinct (free_entries l)" "set (free_entries l) = cll_slots l - dom (cll_lookup l)"
    using inv by (simp_all add: cll_inv_alt)
  have fl: "set freed \<subseteq> dom (cll_lookup l)" "set freed = dom (cll_lookup l) - dom (cll_lookup l')"
       "dom (cll_lookup l') \<subseteq> dom (cll_lookup l)"
    using sets dist by (auto simp: dom)
  have "cll_slots l' = cll_slots l" using c by (simp add: l' cll_slots_def)
  moreover have "length (cll_entries l) = length (cll_entries l') + length freed"
    using arg_cong [OF keys, of size] by simp
  moreover have "estimated_len l' = estimated_len l - of_nat (length freed)"
       "free_entries l' = free_entries l @ freed" by (simp_all add: l')
  moreover have "estimated_len l = of_nat (length (cll_entries l))" using inv by (simp add: cll_inv_def)
  moreover have "distinct (free_entries l @ freed)"
    using free dist fl by auto
  moreover have "set (free_entries l @ freed) = cll_slots l - dom (cll_lookup l')"
    using free fl cll_lookup_slots [OF wf] by auto
  ultimately have "cll_inv l'"
    using wf' length_cll_entries [OF wf'] by (simp add: cll_inv_alt)
  with list show ?thesis by blast
qed

subsection \<open>The contract\<close>

definition item_key :: "'p cll_item \<Rightarrow> slot_key" where
  "item_key it = (item_from it, item_idx it)"

lemma cll_items_mset:
  assumes "cll_inv l"
  shows "mset (par_iter l) = image_mset (the \<circ> cll_lookup l) (mset_set (dom (cll_lookup l)))"
proof -
  have wf: "chunk_wf (cll_head l)" using assms by (simp add: cll_inv_def)
  have dist: "distinct (map fst (cll_entries l))"
    using distinct_chunk_entries [OF wf] by (simp add: cll_entries_def)
  have "mset_set (dom (cll_lookup l)) = mset (map fst (cll_entries l))"
    by (simp only: cll_lookup_map_of [OF wf] dom_map_of_conv_image_fst set_map [symmetric]
        mset_set_set [OF dist])
  moreover have "map (the \<circ> cll_lookup l) (map fst (cll_entries l)) = map snd (cll_entries l)"
    using cll_lookup_entries [OF wf] by (auto, metis option.sel)
  ultimately show ?thesis by (metis cll_par_iter mset_map)
qed

interpretation cs: slot_store cll_inv cll_lookup cll_new cll_insert cll_remove par_iter estimate_len
    item_key item_v
proof
  fix l :: "'p cll" and it l' v
  assume inv: "cll_inv l"
  then have wf: "chunk_wf (cll_head l)" by (simp add: cll_inv_def)
  show "cll_insert v l = (it, l') \<Longrightarrow> cll_inv l' \<and> item_v it = v \<and>
      cll_lookup l (item_key it) = None \<and> cll_lookup l' = (cll_lookup l)(item_key it \<mapsto> v)"
    using cll_insert_spec [OF inv] by (simp add: item_key_def)
  show "cll_inv (cll_remove it l)" using cll_remove_spec [OF inv] by blast
  show "cll_lookup (cll_remove it l) = (if cll_lookup l (item_key it) = Some (item_v it)
      then (cll_lookup l)(item_key it := None) else cll_lookup l)"
    using cll_remove_spec [OF inv] by (simp add: item_key_def)
  show "finite (dom (cll_lookup l))" by (rule finite_dom_cll [OF wf])
  show "mset (par_iter l) = image_mset (the \<circ> cll_lookup l) (mset_set (dom (cll_lookup l)))"
    by (rule cll_items_mset [OF inv])
  show "estimate_len l = of_nat (length (par_iter l))"
    using inv by (simp add: estimate_len_def cll_inv_def cll_par_iter)
qed (simp_all add: cll_inv_new cll_lookup_new)

text \<open>Retaining by a predicate without side effects.\<close>

lemma par_retain_filter:
  assumes inv: "cll_inv l" and P: "\<And>p s. fst (f p s) = P p"
  shows "cll_inv (fst (par_retain f l s)) \<and>
    cll_entries (fst (par_retain f l s)) = filter (P \<circ> snd) (cll_entries l)"
proof -
  obtain l' s' where run: "par_retain f l s = (l', s')" by (cases "par_retain f l s")
  with par_retain_spec [OF inv run] retain_list_pure [of f P, OF P] show ?thesis
    by (metis fst_conv)
qed

lemma retain_list_fold:
  assumes "\<And>p s. f p s = (P p, g p s)"
  shows "snd (snd (retain_list f es s)) = fold g (map snd es) s"
proof (induction es arbitrary: s)
  case (Cons e es)
  have f: "f = (\<lambda>p s. (P p, g p s))" using assms by (intro ext) simp
  show ?case using Cons.IH by (cases e) (simp add: f Let_def case_prod_beta)
qed simp

lemma par_retain_iter:
  assumes inv: "cll_inv l" and f: "\<And>p s. f p s = (P p, g p s)"
  shows "par_iter (fst (par_retain f l s)) = filter P (par_iter l)"
    and "snd (par_retain f l s) = fold g (par_iter l) s"
proof -
  have "fst (f p s) = P p" for p s by (simp add: f)
  then show "par_iter (fst (par_retain f l s)) = filter P (par_iter l)"
    using par_retain_filter [OF inv, of f P s] by (simp add: cll_par_iter filter_map)
  obtain l' s' where run: "par_retain f l s = (l', s')" by (cases "par_retain f l s")
  from par_retain_spec [OF inv run] retain_list_fold [of f P g, OF f]
  show "snd (par_retain f l s) = fold g (par_iter l) s"
    unfolding run cll_par_iter by (metis snd_conv)
qed

text \<open>Retaining when the state after each prefix of the walk is known.\<close>

lemma retain_list_prefix:
  assumes "\<And>ps p qs. map snd es = ps @ p # qs \<Longrightarrow> f p (S ps) = (P p, S (ps @ [p]))"
  shows "fst (retain_list f es (S [])) = filter (P \<circ> snd) es \<and>
         snd (snd (retain_list f es (S []))) = S (map snd es)"
proof -
  have "fst (retain_list f qs (S ps)) = filter (P \<circ> snd) qs \<and>
        snd (snd (retain_list f qs (S ps))) = S (ps @ map snd qs)" if "map snd es = ps @ map snd qs" for ps qs
    using that
  proof (induction qs arbitrary: ps)
    case (Cons q qs)
    obtain k p where q: "q = (k, p)" by (cases q)
    have "f p (S ps) = (P p, S (ps @ [p]))" using assms [of ps p "map snd qs"] Cons.prems by (simp add: q)
    then show ?case using Cons.IH [of "ps @ [p]"] Cons.prems by (simp add: q Let_def case_prod_beta)
  qed simp
  from this [of "[]" es] show ?thesis by simp
qed

lemma par_retain_prefix:
  assumes inv: "cll_inv l"
    and step: "\<And>ps p qs. par_iter l = ps @ p # qs \<Longrightarrow> f p (S ps) = (P p, S (ps @ [p]))"
  shows "cll_inv (fst (par_retain f l (S []))) \<and>
    par_iter (fst (par_retain f l (S []))) = filter P (par_iter l) \<and>
    snd (par_retain f l (S [])) = S (par_iter l)"
proof -
  obtain l' s' where run: "par_retain f l (S []) = (l', s')" by (cases "par_retain f l (S [])")
  from par_retain_spec [OF inv run] obtain freed where inv': "cll_inv l'"
      and ret: "retain_list f (cll_entries l) (S []) = (cll_entries l', freed, s')" by blast
  have "fst (retain_list f (cll_entries l) (S [])) = filter (P \<circ> snd) (cll_entries l) \<and>
        snd (snd (retain_list f (cll_entries l) (S []))) = S (map snd (cll_entries l))"
    by (rule retain_list_prefix) (rule step, simp add: cll_par_iter)
  with inv' show ?thesis by (simp add: run ret cll_par_iter filter_map)
qed

lemma held_par_retain:
  assumes inv: "cll_inv l" and P: "\<And>p s. fst (f p s) = P p"
    and held: "cll_lookup l k = Some p" and keep: "P p"
  shows "cll_lookup (fst (par_retain f l s)) k = Some p"
proof -
  have "chunk_wf (cll_head l)" using inv by (simp add: cll_inv_def)
  then have "(k, p) \<in> set (cll_entries l)" using held by (simp add: cll_lookup_entries)
  with par_retain_filter [of l f P s, OF inv P] keep show ?thesis
    by (simp add: cll_lookup_entries cll_inv_def)
qed

subsection \<open>Any sequence of operations\<close>

datatype 'p cll_cmd = Op_Insert 'p | Op_Remove "'p cll_item" | Op_Retain "'p \<Rightarrow> bool"

fun cll_op :: "'p cll_cmd \<Rightarrow> 'p cll \<Rightarrow> 'p cll" where
  "cll_op (Op_Insert v) l = snd (cll_insert v l)"
| "cll_op (Op_Remove it) l = cll_remove it l"
| "cll_op (Op_Retain P) l = fst (par_retain (\<lambda>p _. (P p, ())) l ())"

definition cll_run :: "'p cll_cmd list \<Rightarrow> 'p cll" where
  "cll_run ops = fold cll_op ops cll_new"

lemma cll_op_inv: "cll_inv l \<Longrightarrow> cll_inv (cll_op op l)"
proof (cases op)
  case (Op_Insert v)
  assume inv: "cll_inv l"
  obtain it l' where "cll_insert v l = (it, l')" by (cases "cll_insert v l")
  with cs.put_law [OF inv] Op_Insert show ?thesis by simp
next
  case (Op_Retain P)
  assume inv: "cll_inv l"
  have "fst ((\<lambda>p _. (P p, ())) p s) = P p" for p and s :: unit by simp
  with par_retain_filter [OF inv, of "\<lambda>p _. (P p, ())" P "()"] Op_Retain show ?thesis by simp
qed (simp add: cs.take_invar)

lemma fold_cll_op_inv: "cll_inv l \<Longrightarrow> cll_inv (fold cll_op ops l)"
  by (induction ops arbitrary: l) (simp_all add: cll_op_inv)

text \<open>
  After any sequence of insertions, removals (with any items, stale or made up) and retains, the
  free queue holds exactly the empty slots, each once, and the length estimate is the number
  of pointers \<open>par_iter\<close> visits.
\<close>

theorem cll_free_queue_exact:
  "let l = cll_run ops
   in distinct (free_entries l) \<and>
      set (free_entries l) = {k \<in> cll_slots l. cll_lookup l k = None} \<and>
      estimate_len l = of_nat (length (par_iter l))"
  using fold_cll_op_inv [OF cll_inv_new, of ops]
  by (simp add: cll_run_def Let_def cll_inv_def estimate_len_def cll_par_iter)

text \<open>
  \<open>insert\<close> never overwrites a stored pointer: the slot of the new item was empty, every other
  slot is as before, and \<open>par_iter\<close> visits the new pointer once more than before, all
  others as often as before.
\<close>

theorem cll_insert_never_overwrites:
  assumes "cll_inv l" and "cll_insert v l = (it, l')"
  shows "item_v it = v \<and> cll_lookup l (item_key it) = None \<and>
         cll_lookup l' = (cll_lookup l)(item_key it \<mapsto> v) \<and>
         mset (par_iter l') = add_mset v (mset (par_iter l))"
  using cs.put_law [OF assms] cs.put_items [OF assms] by (intro conjI) blast+

theorem cll_insert_never_overwrites_witness:
  "mset (par_iter (snd (cll_insert True cll_new))) = add_mset True (mset (par_iter cll_new))"
  using cll_insert_never_overwrites [OF cll_inv_new prod.collapse [of "cll_insert True cll_new", symmetric]]
  by (rule conjunct2 [OF conjunct2 [OF conjunct2]])

text \<open>
  \<open>remove\<close> takes the item's pointer out of its slot if it is there, and otherwise, say when a
  clone of the item was removed and the slot reused, changes nothing at all; a second
  \<open>remove\<close> of the same item is such a case.
\<close>

theorem cll_remove_exact:
  assumes "cll_inv l"
  shows "if cll_lookup l (item_key it) = Some (item_v it)
         then cll_lookup (cll_remove it l) = (cll_lookup l)(item_key it := None) \<and>
              mset (par_iter l) = add_mset (item_v it) (mset (par_iter (cll_remove it l))) \<and>
              cll_remove it (cll_remove it l) = cll_remove it l
         else cll_remove it l = l"
proof (cases "cll_lookup l (item_key it) = Some (item_v it)")
  case True
  then have look: "cll_lookup (cll_remove it l) = (cll_lookup l)(item_key it := None)"
    using cs.take_lookup [OF assms] by simp
  then have "cll_remove it (cll_remove it l) = cll_remove it l"
    by (simp add: cll_remove_def [of it "cll_remove it l"] cll_lookup_def item_key_def fun_eq_iff)
  with True look cs.take_items [OF assms True] show ?thesis by simp
qed (simp add: cll_remove_def cll_lookup_def item_key_def)

theorem cll_remove_exact_witness:
  "cll_remove \<lparr>item_v = True, item_from = 0, item_idx = 5\<rparr> cll_new = cll_new"
  using cll_remove_exact [OF cll_inv_new, of "\<lparr>item_v = True, item_from = 0, item_idx = 5\<rparr>"]
  by (simp add: cll_lookup_new)

text \<open>
  C37: \<open>par_retain\<close> keeps exactly the stored pointers its predicate accepts, each in its slot, and
  calls the predicate once for each stored pointer.
\<close>

theorem cll_retain_filters:
  assumes "cll_inv l"
  shows "let (l', s') = par_retain (\<lambda>p s. (P p, g p s)) l s
         in cll_inv l' \<and> cll_entries l' = filter (P \<circ> snd) (cll_entries l) \<and> s' = fold g (par_iter l) s"
  using par_retain_filter [OF assms, of "\<lambda>p s. (P p, g p s)" P s]
    par_retain_iter(2) [OF assms, of "\<lambda>p s. (P p, g p s)" P g s]
  by (simp add: case_prod_beta)

theorem cll_retain_filters_witness:
  "cll_inv (fst (par_retain (\<lambda>p s. (p = 3, Suc s)) (snd (cll_insert (7::nat) cll_new)) (0::nat)))"
proof -
  have "cll_inv (snd (cll_insert (7::nat) cll_new))"
    using cs.put_law [OF cll_inv_new prod.collapse [of "cll_insert (7::nat) cll_new", symmetric]]
    by (rule conjunct1)
  from cll_retain_filters [OF this, of "\<lambda>p. p = 3" "\<lambda>p. Suc" 0] show ?thesis
    unfolding Let_def case_prod_beta by (rule conjunct1)
qed

end
