(* ===== verification/Values.thy ===== *)
theory Values
  imports Chunked_LL
begin

text \<open>
  The Rust values that live in a \<open>Gc\<close>, with the methods shredder gives them: \<open>Scan::scan\<close>
  and \<open>Finalize::finalize\<close> (\<open>src/std_impls\<close>, \<open>src/r.rs\<close>, \<open>src/atomic.rs\<close>,
  \<open>src/smart_ptr\<close>), and what Rust's drop glue does to them. A smart pointer holds an
  \<open>InternalGcRef\<close>, that is the item of its handle in the collector's list of handles; handles are
  numbered, the number standing for the address of the \<open>Arc<GcHandle>\<close>.

  A container is the list of its elements in iteration order. A cell or lock has the state in which
  the scan finds it: a lock is held by any number of readers or by one writer. A value of a user's type has the fields its derived or hand-written
  \<open>scan\<close> visits, those it skips, and what the user's \<open>Drop\<close> and \<open>Finalize\<close> do; an \<open>Arc\<close>
  says whether it is the last one to its contents.
\<close>

type_synonym internal_ref = "nat cll_item"

datatype usage = Readers nat | Writer

datatype user_finalizer = Finalize_Fields | Finalize_Nothing | Finalize_Panics

datatype val =
    V_Plain nat
  | V_Gc internal_ref
  | V_DerefGc internal_ref
  | V_AtomicGc nat internal_ref
  | V_Static
  | V_R
  | V_RMut
  | V_Cell val
  | V_RefCell usage val
  | V_Mutex bool bool val
  | V_RwLock usage bool val
  | V_Option "val option"
  | V_Ok val
  | V_Err val
  | V_Seq "val list"
  | V_Map "(val \<times> val) list"
  | V_Tuple "val list"
  | V_Arc bool val
  | V_GcSafeWrapper val
  | V_User bool user_finalizer "(bool \<times> val) list"

text \<open>The result of \<open>try_lock\<close>, \<open>try_read\<close> and \<open>try_borrow\<close> on the standard library's locks.\<close>

datatype try_lock_result = Try_Ok | Try_WouldBlock | Try_Poisoned

fun mutex_try_lock :: "bool \<Rightarrow> bool \<Rightarrow> try_lock_result" where
  "mutex_try_lock locked poisoned =
     (if locked then Try_WouldBlock else if poisoned then Try_Poisoned else Try_Ok)"

fun rwlock_try_read :: "usage \<Rightarrow> bool \<Rightarrow> try_lock_result" where
  "rwlock_try_read use poisoned =
     (if use = Writer then Try_WouldBlock else if poisoned then Try_Poisoned else Try_Ok)"

fun refcell_try_borrow :: "usage \<Rightarrow> bool" where
  "refcell_try_borrow use \<longleftrightarrow> use \<noteq> Writer"

lemma size_elem_list [termination_simp]: "x \<in> set xs \<Longrightarrow> f x < Suc (size_list f xs)"
  using size_list_estimation' [of x xs "f x" f] by simp

lemma size_elem_pair [termination_simp]:
  "(a, b) \<in> set xs \<Longrightarrow> f a < Suc (size_list (size_prod f g) xs)"
  "(a, b) \<in> set xs \<Longrightarrow> g b < Suc (size_list (size_prod f g) xs)"
  using size_elem_list [of "(a, b)" xs "size_prod f g"] by auto

text \<open>
  \<open>scan\<close>: the handles a scan reports, in order. Each generic implementation of \<open>Scan\<close> is a
  definition over the scan of its content.
\<close>

definition vec_like_scan :: "('a \<Rightarrow> internal_ref list) \<Rightarrow> 'a list \<Rightarrow> internal_ref list" where
  [simp]: "vec_like_scan f es = concat (map (\<lambda>e. f e) es)"

definition map_like_scan :: "('a \<Rightarrow> internal_ref list) \<Rightarrow> ('a \<times> 'a) list \<Rightarrow> internal_ref list" where
  [simp]: "map_like_scan f kvs = concat (map (\<lambda>(k, v). f k @ f v) kvs)"

definition tuple_scan :: "('a \<Rightarrow> internal_ref list) \<Rightarrow> 'a list \<Rightarrow> internal_ref list" where
  [simp]: "tuple_scan f vs = concat (map (\<lambda>e. f e) vs)"

definition option_scan :: "('a \<Rightarrow> internal_ref list) \<Rightarrow> 'a option \<Rightarrow> internal_ref list" where
  [simp]: "option_scan f ov = (case ov of Some v \<Rightarrow> f v | None \<Rightarrow> [])"

definition cell_scan :: "internal_ref list" where
  [simp]: "cell_scan = []"

definition mutex_scan :: "('a \<Rightarrow> internal_ref list) \<Rightarrow> bool \<Rightarrow> bool \<Rightarrow> 'a \<Rightarrow> internal_ref list" where
  [simp]: "mutex_scan f locked poisoned v =
     (case mutex_try_lock locked poisoned of
        Try_Ok \<Rightarrow> f v | Try_WouldBlock \<Rightarrow> [] | Try_Poisoned \<Rightarrow> f v)"

definition refcell_scan :: "('a \<Rightarrow> internal_ref list) \<Rightarrow> usage \<Rightarrow> 'a \<Rightarrow> internal_ref list" where
  [simp]: "refcell_scan f use v = (if refcell_try_borrow use then f v else [])"

definition rwlock_scan :: "('a \<Rightarrow> internal_ref list) \<Rightarrow> usage \<Rightarrow> bool \<Rightarrow> 'a \<Rightarrow> internal_ref list" where
  [simp]: "rwlock_scan f use poisoned v =
     (case rwlock_try_read use poisoned of
        Try_Ok \<Rightarrow> f v | Try_WouldBlock \<Rightarrow> [] | Try_Poisoned \<Rightarrow> f v)"

lemma scan_congs [fundef_cong]:
  "es = es' \<Longrightarrow> (\<And>e. e \<in> set es' \<Longrightarrow> f e = g e) \<Longrightarrow> vec_like_scan f es = vec_like_scan g es'"
  "es = es' \<Longrightarrow> (\<And>e. e \<in> set es' \<Longrightarrow> f e = g e) \<Longrightarrow> tuple_scan f es = tuple_scan g es'"
  "kvs = kvs' \<Longrightarrow> (\<And>k v. (k, v) \<in> set kvs' \<Longrightarrow> f k = g k) \<Longrightarrow> (\<And>k v. (k, v) \<in> set kvs' \<Longrightarrow> f v = g v) \<Longrightarrow>
     map_like_scan f kvs = map_like_scan g kvs'"
  "ov = ov' \<Longrightarrow> (\<And>v. ov' = Some v \<Longrightarrow> f v = g v) \<Longrightarrow> option_scan f ov = option_scan g ov'"
  "v = v' \<Longrightarrow> f v' = g v' \<Longrightarrow> l = l' \<Longrightarrow> q = q' \<Longrightarrow> mutex_scan f l q v = mutex_scan g l' q' v'"
  "v = v' \<Longrightarrow> f v' = g v' \<Longrightarrow> u = u' \<Longrightarrow> refcell_scan f u v = refcell_scan g u' v'"
  "v = v' \<Longrightarrow> f v' = g v' \<Longrightarrow> u = u' \<Longrightarrow> q = q' \<Longrightarrow> rwlock_scan f u q v = rwlock_scan g u' q' v'"
  by (auto split: option.splits try_lock_result.splits intro!: arg_cong [where f = concat])

fun scan :: "val \<Rightarrow> internal_ref list" where
  "scan (V_Plain n) = []"
| "scan (V_Gc h) = [h]"
| "scan (V_DerefGc h) = [h]"
| "scan (V_AtomicGc a h) = [h]"
| "scan V_Static = []"
| "scan V_R = []"
| "scan V_RMut = []"
| "scan (V_Cell v) = cell_scan"
| "scan (V_RefCell use v) = refcell_scan (\<lambda>v. scan v) use v"
| "scan (V_Mutex locked poisoned v) = mutex_scan (\<lambda>v. scan v) locked poisoned v"
| "scan (V_RwLock use poisoned v) = rwlock_scan (\<lambda>v. scan v) use poisoned v"
| "scan (V_Option ov) = option_scan (\<lambda>v. scan v) ov"
| "scan (V_Ok v) = scan v"
| "scan (V_Err v) = scan v"
| "scan (V_Seq vs) = vec_like_scan (\<lambda>v. scan v) vs"
| "scan (V_Map kvs) = map_like_scan (\<lambda>v. scan v) kvs"
| "scan (V_Tuple vs) = tuple_scan (\<lambda>v. scan v) vs"
| "scan (V_Arc last_ref v) = []"
| "scan (V_GcSafeWrapper v) = []"
| "scan (V_User drop_panics fin fs) = concat (map (\<lambda>(skip, v). if skip then [] else scan v) fs)"

text \<open>
  Drop glue: the handles that are invalidated, in order, and the number of panicking \<open>Drop\<close>
  implementations that are run. Dropping a \<open>Gc\<close>, \<open>DerefGc\<close> or \<open>AtomicGc\<close> invalidates its handle; a
  panic in \<open>Drop\<close> does not keep Rust from dropping the fields.
\<close>

definition then_drop :: "internal_ref list \<times> nat \<Rightarrow> internal_ref list \<times> nat \<Rightarrow> internal_ref list \<times> nat" where
  "then_drop a b = (fst a @ fst b, snd a + snd b)"

fun drop_glue :: "val \<Rightarrow> internal_ref list \<times> nat" where
  "drop_glue (V_Plain n) = ([], 0)"
| "drop_glue (V_Gc h) = ([h], 0)"
| "drop_glue (V_DerefGc h) = ([h], 0)"
| "drop_glue (V_AtomicGc a h) = ([h], 0)"
| "drop_glue V_Static = ([], 0)"
| "drop_glue V_R = ([], 0)"
| "drop_glue V_RMut = ([], 0)"
| "drop_glue (V_Cell v) = drop_glue v"
| "drop_glue (V_RefCell use v) = drop_glue v"
| "drop_glue (V_Mutex locked poisoned v) = drop_glue v"
| "drop_glue (V_RwLock use poisoned v) = drop_glue v"
| "drop_glue (V_Option ov) = (case ov of Some v \<Rightarrow> drop_glue v | None \<Rightarrow> ([], 0))"
| "drop_glue (V_Ok v) = drop_glue v"
| "drop_glue (V_Err v) = drop_glue v"
| "drop_glue (V_Seq vs) = foldr then_drop (map (\<lambda>e. drop_glue e) vs) ([], 0)"
| "drop_glue (V_Map kvs) = foldr then_drop (map (\<lambda>(k, v). then_drop (drop_glue k) (drop_glue v)) kvs) ([], 0)"
| "drop_glue (V_Tuple vs) = foldr then_drop (map (\<lambda>e. drop_glue e) vs) ([], 0)"
| "drop_glue (V_Arc last_ref v) = (if last_ref then drop_glue v else ([], 0))"
| "drop_glue (V_GcSafeWrapper v) = drop_glue v"
| "drop_glue (V_User panics fin fs) =
     then_drop ([], if panics then 1 else 0) (foldr then_drop (map (\<lambda>(skip, v). drop_glue v) fs) ([], 0))"

text \<open>
  \<open>finalize\<close>: the handles it invalidates, and the number of panics in it. The loop over a container
  moves it out, and finalizes and forgets each element in turn; a panic unwinds out of the loop,
  which drops the current element and those that are left. A tuple moves its fields into variables,
  which unwinding drops in reverse order, those already finalized included. A user's type that
  delegates finalizes its fields in place and stops at a panic. There is no \<open>Finalize\<close> for
  \<open>Arc\<close> and \<open>GcSafeWrapper\<close>.
\<close>

definition drop_all :: "('a \<Rightarrow> internal_ref list \<times> nat) \<Rightarrow> 'a list \<Rightarrow> internal_ref list \<times> nat" where
  "drop_all drp es = foldr then_drop (map drp es) ([], 0)"

fun vec_like_finalize :: "('a \<Rightarrow> internal_ref list \<times> nat) \<Rightarrow> ('a \<Rightarrow> internal_ref list \<times> nat) \<Rightarrow>
    'a list \<Rightarrow> internal_ref list \<times> nat" where
  "vec_like_finalize fin drp [] = ([], 0)"
| "vec_like_finalize fin drp (e # es) =
     (if snd (fin e) = 0 then then_drop (fin e) (vec_like_finalize fin drp es)
      else then_drop (fin e) (drop_all drp (e # es)))"

fun fields_finalize :: "('a \<Rightarrow> internal_ref list \<times> nat) \<Rightarrow> 'a list \<Rightarrow> internal_ref list \<times> nat" where
  "fields_finalize fin [] = ([], 0)"
| "fields_finalize fin (e # es) =
     (if snd (fin e) = 0 then then_drop (fin e) (fields_finalize fin es) else fin e)"

definition tuple_finalize :: "('a \<Rightarrow> internal_ref list \<times> nat) \<Rightarrow> ('a \<Rightarrow> internal_ref list \<times> nat) \<Rightarrow>
    'a list \<Rightarrow> internal_ref list \<times> nat" where
  "tuple_finalize fin drp vs =
     (let r = fields_finalize fin vs in if snd r = 0 then r else then_drop r (drop_all drp (rev vs)))"

definition map_like_finalize :: "('a \<Rightarrow> internal_ref list \<times> nat) \<Rightarrow> ('a \<Rightarrow> internal_ref list \<times> nat) \<Rightarrow>
    ('a \<times> 'a) list \<Rightarrow> internal_ref list \<times> nat" where
  "map_like_finalize fin drp kvs =
     vec_like_finalize (\<lambda>(k, v). tuple_finalize fin drp [k, v]) (\<lambda>(k, v). then_drop (drp k) (drp v)) kvs"

text \<open>The hashed containers run the same loops.\<close>

definition hash_set_finalize :: "('a \<Rightarrow> internal_ref list \<times> nat) \<Rightarrow> ('a \<Rightarrow> internal_ref list \<times> nat) \<Rightarrow>
    'a list \<Rightarrow> internal_ref list \<times> nat" where
  "hash_set_finalize fin drp es = vec_like_finalize fin drp es"

definition hash_map_finalize :: "('a \<Rightarrow> internal_ref list \<times> nat) \<Rightarrow> ('a \<Rightarrow> internal_ref list \<times> nat) \<Rightarrow>
    ('a \<times> 'a) list \<Rightarrow> internal_ref list \<times> nat" where
  "hash_map_finalize fin drp kvs =
     vec_like_finalize (\<lambda>(k, v). tuple_finalize fin drp [k, v]) (\<lambda>(k, v). then_drop (drp k) (drp v)) kvs"

definition option_finalize :: "('a \<Rightarrow> internal_ref list \<times> nat) \<Rightarrow> 'a option \<Rightarrow> internal_ref list \<times> nat" where
  [simp]: "option_finalize fin ov = (case ov of Some v \<Rightarrow> fin v | None \<Rightarrow> ([], 0))"

text \<open>\<open>get_mut\<close> needs no lock, and gives the content of a poisoned lock as well.\<close>

definition lock_finalize :: "('a \<Rightarrow> internal_ref list \<times> nat) \<Rightarrow> bool \<Rightarrow> 'a \<Rightarrow> internal_ref list \<times> nat" where
  [simp]: "lock_finalize fin poisoned v = (if poisoned then fin v else fin v)"

definition rwlock_finalize :: "('a \<Rightarrow> internal_ref list \<times> nat) \<Rightarrow> bool \<Rightarrow> 'a \<Rightarrow> internal_ref list \<times> nat" where
  [simp]: "rwlock_finalize fin poisoned v = (if poisoned then fin v else fin v)"

definition cell_finalize :: "('a \<Rightarrow> internal_ref list \<times> nat) \<Rightarrow> 'a \<Rightarrow> internal_ref list \<times> nat" where
  [simp]: "cell_finalize fin v = fin v"

definition refcell_finalize :: "('a \<Rightarrow> internal_ref list \<times> nat) \<Rightarrow> 'a \<Rightarrow> internal_ref list \<times> nat" where
  [simp]: "refcell_finalize fin v = fin v"

definition result_finalize :: "('a \<Rightarrow> internal_ref list \<times> nat) \<Rightarrow> 'a + 'a \<Rightarrow> internal_ref list \<times> nat" where
  [simp]: "result_finalize fin r = (case r of Inr v \<Rightarrow> fin v | Inl e \<Rightarrow> fin e)"

text \<open>
  The pointers invalidate their handle; an \<open>AtomicGc\<close> and a primitive are dropped in place, and a
  primitive has no handle.
\<close>

definition gc_finalize :: "internal_ref \<Rightarrow> internal_ref list \<times> nat" where
  [simp]: "gc_finalize backing_handle = ([backing_handle], 0)"

definition deref_gc_finalize :: "internal_ref \<Rightarrow> internal_ref list \<times> nat" where
  [simp]: "deref_gc_finalize backing_handle = ([backing_handle], 0)"

definition atomic_gc_finalize :: "nat \<Rightarrow> internal_ref \<Rightarrow> internal_ref list \<times> nat" where
  [simp]: "atomic_gc_finalize a backing_handle = drop_glue (V_AtomicGc a backing_handle)"

definition value_type_finalize :: "nat \<Rightarrow> internal_ref list \<times> nat" where
  [simp]: "value_type_finalize n = drop_glue (V_Plain n)"

definition static_finalize :: "internal_ref list \<times> nat" where
  [simp]: "static_finalize = ([], 0)"

definition r_finalize :: "internal_ref list \<times> nat" where
  [simp]: "r_finalize = ([], 0)"

definition r_mut_finalize :: "internal_ref list \<times> nat" where
  [simp]: "r_mut_finalize = ([], 0)"

lemma vec_like_finalize_cong [fundef_cong]:
  "es = es' \<Longrightarrow> (\<And>e. e \<in> set es' \<Longrightarrow> f e = g e) \<Longrightarrow> d = d' \<Longrightarrow> vec_like_finalize f d es = vec_like_finalize g d' es'"
  by (induction es arbitrary: es') auto

lemma fields_finalize_cong [fundef_cong]:
  "es = es' \<Longrightarrow> (\<And>e. e \<in> set es' \<Longrightarrow> f e = g e) \<Longrightarrow> fields_finalize f es = fields_finalize g es'"
  by (induction es arbitrary: es') auto

lemma tuple_finalize_cong [fundef_cong]:
  "es = es' \<Longrightarrow> (\<And>e. e \<in> set es' \<Longrightarrow> f e = g e) \<Longrightarrow> d = d' \<Longrightarrow> tuple_finalize f d es = tuple_finalize g d' es'"
  using fields_finalize_cong [of es es' f g] by (simp add: tuple_finalize_def)

lemma map_like_finalize_cong [fundef_cong]:
  assumes "kvs = kvs'" and "\<And>k v. (k, v) \<in> set kvs' \<Longrightarrow> f k = g k" and "\<And>k v. (k, v) \<in> set kvs' \<Longrightarrow> f v = g v"
    and "d = d'"
  shows "map_like_finalize f d kvs = map_like_finalize g d' kvs'"
  unfolding map_like_finalize_def
  by (rule vec_like_finalize_cong) (use assms in \<open>auto intro!: tuple_finalize_cong\<close>)

lemma wrap_finalize_congs [fundef_cong]:
  "ov = ov' \<Longrightarrow> (\<And>v. ov' = Some v \<Longrightarrow> f v = g v) \<Longrightarrow> option_finalize f ov = option_finalize g ov'"
  "v = v' \<Longrightarrow> f v' = g v' \<Longrightarrow> q = q' \<Longrightarrow> lock_finalize f q v = lock_finalize g q' v'"
  "v = v' \<Longrightarrow> f v' = g v' \<Longrightarrow> q = q' \<Longrightarrow> rwlock_finalize f q v = rwlock_finalize g q' v'"
  "v = v' \<Longrightarrow> f v' = g v' \<Longrightarrow> cell_finalize f v = cell_finalize g v'"
  "v = v' \<Longrightarrow> f v' = g v' \<Longrightarrow> refcell_finalize f v = refcell_finalize g v'"
  "r = r' \<Longrightarrow> (\<And>v. r' = Inr v \<Longrightarrow> f v = g v) \<Longrightarrow> (\<And>v. r' = Inl v \<Longrightarrow> f v = g v) \<Longrightarrow>
     result_finalize f r = result_finalize g r'"
  by (auto split: option.splits sum.splits)

fun finalize :: "val \<Rightarrow> internal_ref list \<times> nat" where
  "finalize (V_Plain n) = value_type_finalize n"
| "finalize (V_Gc h) = gc_finalize h"
| "finalize (V_DerefGc h) = deref_gc_finalize h"
| "finalize (V_AtomicGc a h) = atomic_gc_finalize a h"
| "finalize V_Static = static_finalize"
| "finalize V_R = r_finalize"
| "finalize V_RMut = r_mut_finalize"
| "finalize (V_Cell v) = cell_finalize (\<lambda>v. finalize v) v"
| "finalize (V_RefCell use v) = refcell_finalize (\<lambda>v. finalize v) v"
| "finalize (V_Mutex locked poisoned v) = lock_finalize (\<lambda>v. finalize v) poisoned v"
| "finalize (V_RwLock use poisoned v) = rwlock_finalize (\<lambda>v. finalize v) poisoned v"
| "finalize (V_Option ov) = option_finalize (\<lambda>v. finalize v) ov"
| "finalize (V_Ok v) = result_finalize (\<lambda>v. finalize v) (Inr v)"
| "finalize (V_Err v) = result_finalize (\<lambda>v. finalize v) (Inl v)"
| "finalize (V_Seq vs) = vec_like_finalize (\<lambda>v. finalize v) drop_glue vs"
| "finalize (V_Map kvs) = map_like_finalize (\<lambda>v. finalize v) drop_glue kvs"
| "finalize (V_Tuple vs) = tuple_finalize (\<lambda>v. finalize v) drop_glue vs"
| "finalize (V_Arc last_ref v) = ([], 0)"
| "finalize (V_GcSafeWrapper v) = ([], 0)"
| "finalize (V_User drop_panics fin fs) =
     (case fin of
        Finalize_Fields \<Rightarrow> fields_finalize (\<lambda>(skip, v). finalize v) fs
      | Finalize_Nothing \<Rightarrow> ([], 0)
      | Finalize_Panics \<Rightarrow> ([], 1))"

text \<open>
  The panic of a tuple's second field unwinds through the array of the moved fields and drops the first
  one again, which is finalized already.
\<close>

lemma tuple_finalized_twice:
  "finalize (V_Tuple [V_Gc h, V_User False Finalize_Panics []]) = ([h, h], 1)"
  "finalize (V_Seq [V_Gc h, V_User False Finalize_Panics []]) = ([h], 1)"
  by (simp_all add: tuple_finalize_def then_drop_def drop_all_def)

subsection \<open>What a value owns\<close>

definition owned :: "val \<Rightarrow> internal_ref list" where
  "owned v = fst (drop_glue v)"

lemma foldr_then_drop:
  "foldr then_drop xs ([], 0) = (concat (map fst xs), sum_list (map snd xs))"
  by (induction xs) (auto simp: then_drop_def)

lemma drop_all_eq: "drop_all drp es = (concat (map (\<lambda>e. fst (drp e)) es), sum_list (map (\<lambda>e. snd (drp e)) es))"
  by (simp add: drop_all_def foldr_then_drop o_def)

lemma finalize_loops_ok:
  assumes "\<And>e. e \<in> set es \<Longrightarrow> fin e = (own e, 0)"
  shows "vec_like_finalize fin drp es = (concat (map own es), 0)"
    and "fields_finalize fin es = (concat (map own es), 0)"
    and "tuple_finalize fin drp es = (concat (map own es), 0)"
proof -
  show "vec_like_finalize fin drp es = (concat (map own es), 0)"
    using assms by (induction es) (auto simp: then_drop_def)
  show "fields_finalize fin es = (concat (map own es), 0)"
    using assms by (induction es) (auto simp: then_drop_def)
  then show "tuple_finalize fin drp es = (concat (map own es), 0)" by (simp add: tuple_finalize_def)
qed

lemma map_like_finalize_ok:
  assumes "\<And>k v. (k, v) \<in> set kvs \<Longrightarrow> fin k = (own k, 0) \<and> fin v = (own v, 0)"
  shows "map_like_finalize fin drp kvs = (concat (map (\<lambda>(k, v). own k @ own v) kvs), 0)"
  unfolding map_like_finalize_def
proof (rule finalize_loops_ok(1), clarify)
  fix k v assume "(k, v) \<in> set kvs"
  then have "fin k = (own k, 0)" "fin v = (own v, 0)" using assms by blast+
  then show "tuple_finalize fin drp [k, v] = (own k @ own v, 0)"
    by (simp add: tuple_finalize_def then_drop_def)
qed

lemma owned_simps [simp]:
  "owned (V_Plain n) = []" "owned (V_Gc h) = [h]" "owned (V_DerefGc h) = [h]"
  "owned (V_AtomicGc a h) = [h]" "owned V_Static = []" "owned V_R = []" "owned V_RMut = []"
  "owned (V_Cell v) = owned v" "owned (V_RefCell use v) = owned v"
  "owned (V_Mutex locked poisoned v) = owned v" "owned (V_RwLock use poisoned v) = owned v"
  "owned (V_Option ov) = (case ov of Some v \<Rightarrow> owned v | None \<Rightarrow> [])"
  "owned (V_Ok v) = owned v" "owned (V_Err v) = owned v"
  "owned (V_Seq vs) = concat (map owned vs)"
  "owned (V_Map kvs) = concat (map (\<lambda>(k, v). owned k @ owned v) kvs)"
  "owned (V_Tuple vs) = concat (map owned vs)"
  "owned (V_Arc last_ref v) = (if last_ref then owned v else [])"
  "owned (V_GcSafeWrapper v) = owned v"
  "owned (V_User panics fin fs) = concat (map (\<lambda>(skip, v). owned v) fs)"
  by (auto simp: owned_def foldr_then_drop then_drop_def o_def comp_def case_prod_beta' split: option.splits
      intro!: arg_cong [where f = concat])

text \<open>
  A value at rest: no lock or cell is exclusively held, and nothing that owns a handle is out of the
  scan's sight (a skipped field, an \<open>Arc\<close>, a \<open>GcSafeWrapper\<close>, a \<open>Cell\<close>, whose \<open>scan\<close> relies on its
  content being \<open>Copy\<close>).
\<close>

fun at_rest :: "val \<Rightarrow> bool" where
  "at_rest (V_Cell v) \<longleftrightarrow> owned v = []"
| "at_rest (V_RefCell use v) \<longleftrightarrow> use \<noteq> Writer \<and> at_rest v"
| "at_rest (V_Mutex locked poisoned v) \<longleftrightarrow> \<not> locked \<and> at_rest v"
| "at_rest (V_RwLock use poisoned v) \<longleftrightarrow> use \<noteq> Writer \<and> at_rest v"
| "at_rest (V_Option ov) \<longleftrightarrow> (case ov of Some v \<Rightarrow> at_rest v | None \<Rightarrow> True)"
| "at_rest (V_Ok v) \<longleftrightarrow> at_rest v"
| "at_rest (V_Err v) \<longleftrightarrow> at_rest v"
| "at_rest (V_Seq vs) \<longleftrightarrow> (\<forall>v\<in>set vs. at_rest v)"
| "at_rest (V_Map kvs) \<longleftrightarrow> (\<forall>(k, v)\<in>set kvs. at_rest k \<and> at_rest v)"
| "at_rest (V_Tuple vs) \<longleftrightarrow> (\<forall>v\<in>set vs. at_rest v)"
| "at_rest (V_Arc last_ref v) \<longleftrightarrow> last_ref \<longrightarrow> owned v = []"
| "at_rest (V_GcSafeWrapper v) \<longleftrightarrow> owned v = []"
| "at_rest (V_User panics fin fs) \<longleftrightarrow> (\<forall>(skip, v)\<in>set fs. if skip then owned v = [] else at_rest v)"
| "at_rest _ \<longleftrightarrow> True"

text \<open>A value whose types all implement \<open>Finalize\<close>, a user's one by delegating to its fields.\<close>

fun has_finalize :: "val \<Rightarrow> bool" where
  "has_finalize (V_Cell v) \<longleftrightarrow> has_finalize v"
| "has_finalize (V_RefCell use v) \<longleftrightarrow> has_finalize v"
| "has_finalize (V_Mutex locked poisoned v) \<longleftrightarrow> has_finalize v"
| "has_finalize (V_RwLock use poisoned v) \<longleftrightarrow> has_finalize v"
| "has_finalize (V_Option ov) \<longleftrightarrow> (case ov of Some v \<Rightarrow> has_finalize v | None \<Rightarrow> True)"
| "has_finalize (V_Ok v) \<longleftrightarrow> has_finalize v"
| "has_finalize (V_Err v) \<longleftrightarrow> has_finalize v"
| "has_finalize (V_Seq vs) \<longleftrightarrow> (\<forall>v\<in>set vs. has_finalize v)"
| "has_finalize (V_Map kvs) \<longleftrightarrow> (\<forall>(k, v)\<in>set kvs. has_finalize k \<and> has_finalize v)"
| "has_finalize (V_Tuple vs) \<longleftrightarrow> (\<forall>v\<in>set vs. has_finalize v)"
| "has_finalize (V_Arc last_ref v) \<longleftrightarrow> False"
| "has_finalize (V_GcSafeWrapper v) \<longleftrightarrow> False"
| "has_finalize (V_User panics fin fs) \<longleftrightarrow> fin = Finalize_Fields \<and> (\<forall>(skip, v)\<in>set fs. has_finalize v)"
| "has_finalize _ \<longleftrightarrow> True"

lemma set_scan_owned: "set (scan v) \<subseteq> set (owned v)"
  by (induction v rule: scan.induct) (fastforce split: option.splits if_splits)+

lemma scan_at_rest: "at_rest v \<Longrightarrow> scan v = owned v"
proof (induction v rule: scan.induct)
  case (16 kvs)
  have "scan k @ scan v = owned k @ owned v" if "(k, v) \<in> set kvs" for k v
    using 16 that by force
  then show ?case by (auto intro!: arg_cong [where f = concat])
next
  case (20 panics fin fs)
  then show ?case by (fastforce intro!: arg_cong [where f = concat])
qed (auto split: option.splits intro!: arg_cong [where f = concat])

lemma finalize_owned: "has_finalize v \<Longrightarrow> finalize v = (owned v, 0)"
proof (induction v rule: finalize.induct)
  case (15 vs)
  then show ?case by (subst finalize.simps, subst finalize_loops_ok(1) [where own = owned]) auto
next
  case (16 kvs)
  have "finalize k = (owned k, 0) \<and> finalize v = (owned v, 0)" if "(k, v) \<in> set kvs" for k v
    using 16 that by force
  then show ?case by (subst finalize.simps, subst map_like_finalize_ok [where own = owned]) auto
next
  case (17 vs)
  then show ?case by (subst finalize.simps, subst finalize_loops_ok(3) [where own = owned]) auto
next
  case (20 panics fin fs)
  have "finalize v = (owned v, 0)" if "(skip, v) \<in> set fs" for skip v
    using 20 that by force
  then have "fields_finalize (\<lambda>(skip, v). finalize v) fs = (concat (map (\<lambda>(skip, v). owned v) fs), 0)"
    by (intro finalize_loops_ok(2)) auto
  with 20(2) show ?case by simp
qed (auto split: option.splits)

text \<open>Finalizing invalidates nothing the value does not own, even when it panics.\<close>

lemma set_finalize_loops:
  assumes "\<And>e. e \<in> set es \<Longrightarrow> set (fst (fin e)) \<subseteq> A \<and> set (fst (drp e)) \<subseteq> A"
  shows "set (fst (vec_like_finalize fin drp es)) \<subseteq> A" and "set (fst (fields_finalize fin es)) \<subseteq> A"
    and "set (fst (tuple_finalize fin drp es)) \<subseteq> A"
proof -
  have drops: "set (fst (drop_all drp xs)) \<subseteq> A" if "set xs \<subseteq> set es" for xs
    using that assms by (fastforce simp: drop_all_eq)
  have "set xs \<subseteq> set es \<Longrightarrow> set (fst (vec_like_finalize fin drp xs)) \<subseteq> A" for xs
  proof (induction xs)
    case (Cons x xs)
    then show ?case using assms [of x] drops [of "x # xs"] by (auto simp: then_drop_def)
  qed simp
  then show "set (fst (vec_like_finalize fin drp es)) \<subseteq> A" by simp
  show fields: "set (fst (fields_finalize fin es)) \<subseteq> A"
    using assms by (induction es) (auto simp: then_drop_def)
  show "set (fst (tuple_finalize fin drp es)) \<subseteq> A"
    using fields drops [of "rev es"] by (auto simp: tuple_finalize_def then_drop_def Let_def)
qed

lemma set_finalize_owned: "set (fst (finalize v)) \<subseteq> set (owned v)"
proof (induction v rule: finalize.induct)
  case (15 vs)
  then show ?case unfolding finalize.simps by (intro set_finalize_loops(1)) (auto simp: owned_def [symmetric])
next
  case (16 kvs)
  have kv: "set (fst (finalize x)) \<subseteq> set (owned (V_Map kvs)) \<and> set (fst (drop_glue x)) \<subseteq> set (owned (V_Map kvs))"
    if "(k, v) \<in> set kvs" "x \<in> {k, v}" for k v x
  proof -
    have "set (owned k) \<union> set (owned v) \<subseteq> set (owned (V_Map kvs))" using that(1) by force
    moreover have "set (fst (finalize k)) \<subseteq> set (owned k)" "set (fst (finalize v)) \<subseteq> set (owned v)"
      using 16(1,2) [OF that(1)] by simp_all
    ultimately show ?thesis using that(2) by (auto simp: owned_def [symmetric])
  qed
  show ?case unfolding finalize.simps map_like_finalize_def
  proof (rule set_finalize_loops(1), clarify)
    fix k v assume "(k, v) \<in> set kvs"
    with kv [OF this] set_finalize_loops(3) [of "[k, v]" finalize "set (owned (V_Map kvs))" drop_glue]
    show "set (fst (tuple_finalize finalize drop_glue [k, v])) \<subseteq> set (owned (V_Map kvs)) \<and>
        set (fst (then_drop (drop_glue k) (drop_glue v))) \<subseteq> set (owned (V_Map kvs))"
      by (auto simp: then_drop_def)
  qed
next
  case (17 vs)
  then show ?case unfolding finalize.simps by (intro set_finalize_loops(3)) (auto simp: owned_def [symmetric])
next
  case (20 panics fin fs)
  show ?case
  proof (cases fin)
    case Finalize_Fields
    have "set (fst (fields_finalize (\<lambda>(skip, v). finalize v) fs)) \<subseteq> set (owned (V_User panics fin fs))"
    proof (rule set_finalize_loops(2) [where drp = "\<lambda>(skip, v). drop_glue v"], clarify)
      fix skip v assume "(skip, v) \<in> set fs"
      with 20 [OF Finalize_Fields this refl]
      show "set (fst (finalize v)) \<subseteq> set (owned (V_User panics fin fs)) \<and>
          set (fst (drop_glue v)) \<subseteq> set (owned (V_User panics fin fs))"
        by (auto simp: owned_def [symmetric])
    qed
    with Finalize_Fields show ?thesis by simp
  qed simp_all
qed (auto split: option.splits)

text \<open>
  Whatever the state of the locks in it, a scan reports only handles the value owns, that is
  handles dropping it would invalidate.
\<close>

theorem scan_only_owned: "set (scan v) \<subseteq> set (fst (drop_glue v))"
  using set_scan_owned [of v] by (simp add: owned_def)

text \<open>
  C30: A scan of a value at rest reports every handle the value owns, as often as it owns it and in
  order, a poisoned lock being scanned like any other.
\<close>

theorem scan_complete_at_rest:
  assumes "at_rest v"
  shows "scan v = fst (drop_glue v)"
  using scan_at_rest [OF assms] by (simp add: owned_def)

definition ref_no :: "nat \<Rightarrow> internal_ref" where
  "ref_no n = \<lparr>item_v = n, item_from = 0, item_idx = n\<rparr>"

theorem scan_complete_at_rest_witness:
  "scan (V_Seq [V_Mutex False True (V_Gc (ref_no 1)), V_RefCell (Readers 1) (V_Option (Some (V_Gc (ref_no 2))))]) =
   [ref_no 1, ref_no 2]"
  using scan_complete_at_rest
    [of "V_Seq [V_Mutex False True (V_Gc (ref_no 1)), V_RefCell (Readers 1) (V_Option (Some (V_Gc (ref_no 2))))]"]
  by (simp add: then_drop_def)

text \<open>
  C31: \<open>finalize\<close> on a value whose types implement it invalidates exactly the handles that dropping
  it would, in the same order, without running any destructor that could panic, and
  regardless of how its locks were left.
\<close>

theorem finalize_releases_owned:
  assumes "has_finalize v"
  shows "finalize v = (fst (drop_glue v), 0)"
  using finalize_owned [OF assms] by (simp add: owned_def)

theorem finalize_releases_owned_witness:
  "finalize (V_User True Finalize_Fields [(True, V_Gc (ref_no 1)), (False, V_Mutex True False (V_Gc (ref_no 2)))]) =
   ([ref_no 1, ref_no 2], 0)"
  using finalize_releases_owned
    [of "V_User True Finalize_Fields [(True, V_Gc (ref_no 1)), (False, V_Mutex True False (V_Gc (ref_no 2)))]"]
  by (simp add: then_drop_def)

text \<open>
  A panicking finalizer: \<open>sync_tuple!\<close> moves the fields out of the tuple and forgets them only after
  the last one is finalized, so unwinding drops the fields that were finalized before, which the
  contract of \<open>Finalize\<close> forbids.
\<close>

lemma tuple_finalize_twice:
  "finalize (V_Tuple [V_Gc (ref_no 1), V_User False Finalize_Panics []]) = ([ref_no 1, ref_no 1], 1)"
  by (simp add: tuple_finalize_def then_drop_def drop_all_def)

end
