(* ===== verification/Alloc.thy ===== *)
theory Alloc
  imports Values
begin

text \<open>
  The allocations of \<open>src/collector/alloc.rs\<close>. The heap is a list of memory blocks that an address
  indexes. A block is uninitialised, holds a value, has had its value dropped by a destructor that
  panicked so that its memory was never given back (\<open>Leaked\<close>), or is freed. The source keeps
  the pointer to the value once as \<open>dyn Scan\<close> and, in \<open>RunFinalizer\<close>, once as
  \<open>dyn Finalize\<close>: both are the address.
\<close>

datatype heap_cell = Uninit | Init val | Leaked | Freed

type_synonym heap = "heap_cell list"

datatype deallocation_action = BoxDrop | DoNothing | RunDrop | RunFinalizer (finalize_ptr: nat)

record gc_allocation =
  scan_ptr :: nat
  deallocation_action :: deallocation_action

definition raw_allocate_uninitialized :: "heap \<Rightarrow> nat \<times> heap" where
  "raw_allocate_uninitialized hp = (length hp, hp @ [Uninit])"

definition ptr_write :: "nat \<Rightarrow> val \<Rightarrow> heap \<Rightarrow> heap" where
  "ptr_write p v hp = hp[p := Init v]"

definition raw_allocate :: "val \<Rightarrow> heap \<Rightarrow> nat \<times> heap" where
  "raw_allocate v hp = (let (p, hp') = raw_allocate_uninitialized hp in (p, ptr_write p v hp'))"

definition allocate_with_drop :: "val \<Rightarrow> heap \<Rightarrow> gc_allocation \<times> heap" where
  "allocate_with_drop v hp =
     (let (p, hp') = raw_allocate v hp in (\<lparr>scan_ptr = p, deallocation_action = RunDrop\<rparr>, hp'))"

definition allocate_no_drop :: "val \<Rightarrow> heap \<Rightarrow> gc_allocation \<times> heap" where
  "allocate_no_drop v hp =
     (let (p, hp') = raw_allocate v hp in (\<lparr>scan_ptr = p, deallocation_action = DoNothing\<rparr>, hp'))"

definition allocate_with_finalization :: "val \<Rightarrow> heap \<Rightarrow> gc_allocation \<times> heap" where
  "allocate_with_finalization v hp =
     (let (p, hp') = raw_allocate v hp in (\<lparr>scan_ptr = p, deallocation_action = RunFinalizer p\<rparr>, hp'))"

definition allocate_uninitialized_with_drop :: "heap \<Rightarrow> gc_allocation \<times> heap" where
  "allocate_uninitialized_with_drop hp =
     (let (p, hp') = raw_allocate_uninitialized hp
      in (\<lparr>scan_ptr = p, deallocation_action = RunDrop\<rparr>, hp'))"

definition allocate_uninitialized_with_finalization :: "heap \<Rightarrow> gc_allocation \<times> heap" where
  "allocate_uninitialized_with_finalization hp =
     (let (p, hp') = raw_allocate_uninitialized hp
      in (\<lparr>scan_ptr = p, deallocation_action = RunFinalizer p\<rparr>, hp'))"

text \<open>The block of the box is kept.\<close>

definition from_box :: "nat \<Rightarrow> gc_allocation" where
  "from_box p = \<lparr>scan_ptr = p, deallocation_action = BoxDrop\<rparr>"

definition read_cell :: "nat \<Rightarrow> heap \<Rightarrow> val result" where
  "read_cell p hp =
     (if p < length hp then (case hp ! p of Init v \<Rightarrow> Inr v | _ \<Rightarrow> Inl Undefined) else Inl Undefined)"

definition alloc_scan :: "gc_allocation \<Rightarrow> heap \<Rightarrow> internal_ref list result" where
  "alloc_scan al hp = res_bind (read_cell (scan_ptr al) hp) (\<lambda>v. Inr (scan v))"

text \<open>
  \<open>deallocate\<close> returns the new heap, the handles it invalidates in order, and whether a destructor
  or finalizer panicked. A panic skips the code behind it, so the block is not given back, except
  that a box frees its block while it unwinds. A second panic while the first one unwinds ends the
  process.
\<close>

definition deallocate :: "gc_allocation \<Rightarrow> heap \<Rightarrow> (heap \<times> internal_ref list \<times> bool) result" where
  "deallocate al hp =
     (let p = scan_ptr al
      in res_bind (read_cell p hp) (\<lambda>v.
           case deallocation_action al of
             DoNothing \<Rightarrow> Inr (hp[p := Freed], scan v, False)
           | RunDrop \<Rightarrow>
               (let (invalidated, panics) = drop_glue v
                in if panics = 0 then Inr (hp[p := Freed], invalidated, False)
                   else if panics = 1 then Inr (hp[p := Leaked], invalidated, True)
                   else Inl Abort)
           | RunFinalizer fp \<Rightarrow>
               res_bind (read_cell fp hp) (\<lambda>fv.
                 let (invalidated, panics) = finalize fv
                 in if panics = 0 then Inr (hp[p := Freed], scan v @ invalidated, False)
                    else if panics = 1 then Inr (hp[p := Leaked], scan v @ invalidated, True)
                    else Inl Abort)
           | BoxDrop \<Rightarrow>
               (let (invalidated, panics) = drop_glue v
                in if panics \<le> 1 then Inr (hp[p := Freed], invalidated, panics = 1) else Inl Abort)))"

lemma deallocation_cases [consumes 1, case_names do_nothing run_drop run_finalizer box_drop]:
  assumes "deallocate al hp = Inr (hp', invd, pan)"
  obtains v where "deallocation_action al = DoNothing" "read_cell (scan_ptr al) hp = Inr v"
      "hp' = hp[scan_ptr al := Freed]" "invd = scan v" "\<not> pan"
  | v where "deallocation_action al = RunDrop" "read_cell (scan_ptr al) hp = Inr v"
      "hp' = hp[scan_ptr al := if pan then Leaked else Freed]" "invd = owned v" "snd (drop_glue v) = of_bool pan"
  | v fp fv where "deallocation_action al = RunFinalizer fp" "read_cell (scan_ptr al) hp = Inr v"
      "read_cell fp hp = Inr fv" "hp' = hp[scan_ptr al := if pan then Leaked else Freed]"
      "invd = scan v @ fst (finalize fv)" "snd (finalize fv) = of_bool pan"
  | v where "deallocation_action al = BoxDrop" "read_cell (scan_ptr al) hp = Inr v"
      "hp' = hp[scan_ptr al := Freed]" "invd = owned v" "snd (drop_glue v) = of_bool pan"
proof -
  obtain v where v: "read_cell (scan_ptr al) hp = Inr v"
    using assms by (cases "read_cell (scan_ptr al) hp") (auto simp: deallocate_def Let_def)
  show ?thesis
  proof (cases "deallocation_action al")
    case BoxDrop
    obtain rs n where glue: "drop_glue v = (rs, n)" by (cases "drop_glue v")
    with assms v BoxDrop have "n \<le> 1" "invd = rs" "pan = (n = 1)" "hp' = hp[scan_ptr al := Freed]"
      by (auto simp: deallocate_def Let_def split: if_splits)
    with that(4) [OF BoxDrop v] glue show ?thesis by (auto simp: owned_def of_bool_def)
  next
    case DoNothing
    with assms that(1) [OF DoNothing v] v show ?thesis by (auto simp: deallocate_def)
  next
    case RunDrop
    obtain rs n where glue: "drop_glue v = (rs, n)" by (cases "drop_glue v")
    with assms v RunDrop have "n \<le> 1" "invd = rs" "pan = (n = 1)"
        "hp' = hp[scan_ptr al := if pan then Leaked else Freed]"
      by (auto simp: deallocate_def Let_def split: if_splits)
    with that(2) [OF RunDrop v] glue show ?thesis by (auto simp: owned_def of_bool_def)
  next
    case (RunFinalizer fp)
    then obtain fv where fv: "read_cell fp hp = Inr fv"
      using assms v by (cases "read_cell fp hp") (auto simp: deallocate_def Let_def)
    obtain rs n where fin: "finalize fv = (rs, n)" by (cases "finalize fv")
    with assms v RunFinalizer fv have "n \<le> 1" "invd = scan v @ rs" "pan = (n = 1)"
        "hp' = hp[scan_ptr al := if pan then Leaked else Freed]"
      by (auto simp: deallocate_def Let_def split: if_splits)
    with fin have h: "invd = scan v @ fst (finalize fv)" "snd (finalize fv) = of_bool pan"
        "hp' = hp[scan_ptr al := if pan then Leaked else Freed]"
      by (auto simp: of_bool_def)
    show ?thesis by (rule that(3) [OF RunFinalizer v fv h(3) h(1) h(2)])
  qed
qed

lemma read_cell_Inr: "read_cell p hp = Inr v \<longleftrightarrow> p < length hp \<and> hp ! p = Init v"
  by (auto simp: read_cell_def split: heap_cell.splits)

lemma deallocate_heap:
  assumes "deallocate al hp = Inr (hp', invd, pan)"
  shows "scan_ptr al < length hp" and "length hp' = length hp"
    and "hp' ! scan_ptr al \<in> {Freed, Leaked}" and "q \<noteq> scan_ptr al \<Longrightarrow> hp' ! q = hp ! q"
  using assms by (cases rule: deallocation_cases; auto simp: read_cell_Inr)+

text \<open>
  What a deallocation leaves in place of a value: the block is given back, except where a destructor
  or finalizer that is not run by a box panicked before the code that gives it back.
\<close>

definition destructor_panics :: "gc_allocation \<Rightarrow> val \<Rightarrow> bool" where
  "destructor_panics al v =
     (case deallocation_action al of
        DoNothing \<Rightarrow> False
      | RunFinalizer fp \<Rightarrow> snd (finalize v) \<noteq> 0
      | _ \<Rightarrow> snd (drop_glue v) \<noteq> 0)"

definition end_cell :: "gc_allocation \<Rightarrow> val \<Rightarrow> heap_cell" where
  "end_cell al v = (if destructor_panics al v \<and> deallocation_action al \<noteq> BoxDrop then Leaked else Freed)"

lemma deallocate_end_cell:
  assumes "deallocate al hp = Inr (hp', invd, pan)" and "hp ! scan_ptr al = Init v"
    and "\<And>fp. deallocation_action al = RunFinalizer fp \<Longrightarrow> fp = scan_ptr al"
  shows "pan = destructor_panics al v" and "hp' ! scan_ptr al = end_cell al v"
  using assms by (cases rule: deallocation_cases; auto simp: read_cell_Inr destructor_panics_def end_cell_def)+

text \<open>
  A successful deallocation ends its own block and leaves every other block alone: afterwards the
  block can be neither scanned nor deallocated again, and it is given back unless a
  destructor panicked.
\<close>

theorem deallocate_ends_block:
  assumes "deallocate al hp = Inr (hp', invd, pan)"
  shows "alloc_scan al hp' = Inl Undefined \<and> deallocate al hp' = Inl Undefined \<and>
    (\<not> pan \<longrightarrow> hp' ! scan_ptr al = Freed) \<and> (\<forall>q. q \<noteq> scan_ptr al \<longrightarrow> hp' ! q = hp ! q)"
proof -
  have "read_cell (scan_ptr al) hp' = Inl Undefined"
    using deallocate_heap(1-3) [OF assms] by (auto simp: read_cell_def)
  moreover have "\<not> pan \<Longrightarrow> hp' ! scan_ptr al = Freed"
    using assms by (cases rule: deallocation_cases) (auto simp: read_cell_Inr)
  ultimately show ?thesis
    using deallocate_heap(4) [OF assms] by (auto simp: alloc_scan_def deallocate_def)
qed

theorem deallocate_ends_block_witness:
  "deallocate \<lparr>scan_ptr = 1, deallocation_action = RunDrop\<rparr> [Init (V_Plain 7), Freed] = Inl Undefined"
proof -
  have "deallocate \<lparr>scan_ptr = 1, deallocation_action = RunDrop\<rparr> [Init (V_Plain 7), Init (V_Gc (ref_no 0))]
      = Inr ([Init (V_Plain 7), Freed], [ref_no 0], False)"
    by (simp add: deallocate_def read_cell_def)
  from deallocate_ends_block [OF this] show ?thesis by blast
qed

text \<open>
  Every deallocation whose action runs the drop glue, or a \<open>Finalize\<close> that delegates, invalidates
  every handle the value owns, even one in a field the scan skips, even when a destructor panics;
  no handle is left dangling in the list of handles.
\<close>

theorem deallocate_releases_handles:
  assumes "deallocate al hp = Inr (hp', invd, pan)" and "hp ! scan_ptr al = Init v"
    and "deallocation_action al \<in> {RunDrop, BoxDrop} \<or>
         deallocation_action al = RunFinalizer (scan_ptr al) \<and> has_finalize v \<or>
         deallocation_action al = DoNothing \<and> at_rest v"
  shows "set invd = set (fst (drop_glue v))"
  using assms(1)
proof (cases rule: deallocation_cases)
  case (run_finalizer w fp fw)
  with assms(2,3) have "w = v" "fw = v" "has_finalize v" by (auto simp: read_cell_Inr)
  then show ?thesis
    using run_finalizer set_scan_owned [of v] by (auto simp: finalize_owned owned_def)
next
  case (do_nothing w)
  with assms(2,3) have "w = v" "at_rest v" by (auto simp: read_cell_Inr)
  then show ?thesis using do_nothing by (simp add: scan_at_rest owned_def)
qed (use assms(2) in \<open>auto simp: read_cell_Inr owned_def\<close>)

theorem deallocate_releases_handles_witness:
  "\<exists>invd. deallocate \<lparr>scan_ptr = 0, deallocation_action = RunDrop\<rparr>
       [Init (V_User True Finalize_Nothing [(True, V_Gc (ref_no 4))])] = Inr ([Leaked], invd, True) \<and>
     set invd = {ref_no 4}"
proof -
  let ?v = "V_User True Finalize_Nothing [(True, V_Gc (ref_no 4))]"
  let ?al = "\<lparr>scan_ptr = 0, deallocation_action = RunDrop\<rparr>"
  have run: "deallocate ?al [Init ?v] = Inr ([Leaked], [ref_no 4], True)"
    by (simp add: deallocate_def read_cell_def then_drop_def)
  from deallocate_releases_handles [OF run, of ?v] have "set [ref_no 4] = set (fst (drop_glue ?v))"
    by simp
  with run show ?thesis by (auto simp: then_drop_def)
qed

end
