(* ===== verification/Float32.thy ===== *)
theory Float32
  imports Complex_Main Prelude "HOL-Library.Log_Nat"
begin

text \<open>
  The \<open>f32\<close> arithmetic that \<open>src/collector/trigger.rs\<close> uses: IEEE 754 binary32 with rounding to
  nearest, ties to even. A finite number is its rational value; the sign of zero is left out, which
  nothing here observes, because the only divisor is a converted count and so never \<open>-0.0\<close>.
\<close>

datatype f32 = F_NaN | F_PInf | F_NInf | F_Fin rat

text \<open>The exponent of the leading binary digit of a positive number.\<close>

definition flog2 :: "rat \<Rightarrow> int" where
  "flog2 x = (let (n, d) = quotient_of x; k = bitlen n - bitlen d
              in if 2 powi k \<le> x then k else k - 1)"

definition round_half_even :: "rat \<Rightarrow> int" where
  "round_half_even x =
     (let f = \<lfloor>x\<rfloor>; r = x - of_int f
      in if r < 1 / 2 then f else if 1 / 2 < r then f + 1 else if even f then f else f + 1)"

definition round_f32 :: "rat \<Rightarrow> f32" where
  "round_f32 x =
     (if x = 0 then F_Fin 0
      else let q = max (flog2 \<bar>x\<bar> - 23) (- 149);
               y = of_int (round_half_even (\<bar>x\<bar> / 2 powi q)) * 2 powi q
           in if 2 powi 128 \<le> y then (if 0 < x then F_PInf else F_NInf) else F_Fin (sgn x * y))"

definition f32_of_usize :: "usize \<Rightarrow> f32" where
  "f32_of_usize n = round_f32 (of_nat (unat n))"

fun f32_mul :: "f32 \<Rightarrow> f32 \<Rightarrow> f32" where
  "f32_mul (F_Fin x) (F_Fin y) = round_f32 (x * y)"
| "f32_mul F_NaN b = F_NaN"
| "f32_mul a F_NaN = F_NaN"
| "f32_mul (F_Fin x) F_PInf = (if x = 0 then F_NaN else if 0 < x then F_PInf else F_NInf)"
| "f32_mul (F_Fin x) F_NInf = (if x = 0 then F_NaN else if 0 < x then F_NInf else F_PInf)"
| "f32_mul F_PInf (F_Fin y) = (if y = 0 then F_NaN else if 0 < y then F_PInf else F_NInf)"
| "f32_mul F_NInf (F_Fin y) = (if y = 0 then F_NaN else if 0 < y then F_NInf else F_PInf)"
| "f32_mul F_PInf F_PInf = F_PInf"
| "f32_mul F_PInf F_NInf = F_NInf"
| "f32_mul F_NInf F_PInf = F_NInf"
| "f32_mul F_NInf F_NInf = F_PInf"

text \<open>Zeros being unsigned here, a quotient by zero has the sign of the dividend.\<close>

fun f32_div :: "f32 \<Rightarrow> f32 \<Rightarrow> f32" where
  "f32_div (F_Fin x) (F_Fin y) =
     (if y = 0 then (if x = 0 then F_NaN else if 0 < x then F_PInf else F_NInf) else round_f32 (x / y))"
| "f32_div F_NaN b = F_NaN"
| "f32_div a F_NaN = F_NaN"
| "f32_div (F_Fin x) F_PInf = F_Fin 0"
| "f32_div (F_Fin x) F_NInf = F_Fin 0"
| "f32_div F_PInf (F_Fin y) = (if 0 \<le> y then F_PInf else F_NInf)"
| "f32_div F_NInf (F_Fin y) = (if 0 \<le> y then F_NInf else F_PInf)"
| "f32_div F_PInf F_PInf = F_NaN"
| "f32_div F_PInf F_NInf = F_NaN"
| "f32_div F_NInf F_PInf = F_NaN"
| "f32_div F_NInf F_NInf = F_NaN"

fun f32_less :: "f32 \<Rightarrow> f32 \<Rightarrow> bool" where
  "f32_less (F_Fin x) (F_Fin y) \<longleftrightarrow> x < y"
| "f32_less (F_Fin x) F_PInf \<longleftrightarrow> True"
| "f32_less F_NInf (F_Fin y) \<longleftrightarrow> True"
| "f32_less F_NInf F_PInf \<longleftrightarrow> True"
| "f32_less _ _ \<longleftrightarrow> False"

definition f32_le :: "f32 \<Rightarrow> f32 \<Rightarrow> bool" where
  "f32_le a b \<longleftrightarrow> f32_less a b \<or> a = b \<and> a \<noteq> F_NaN"

subsection \<open>Rounding\<close>

lemma powi_mono: "a \<le> b \<Longrightarrow> (2 :: rat) powi a \<le> 2 powi b"
  by (rule power_int_increasing) simp_all

lemma powi_strict_mono: "a < b \<Longrightarrow> (2 :: rat) powi a < 2 powi b"
  by (rule power_int_strict_increasing) simp_all

lemma flog2_bounds:
  assumes "0 < x"
  shows "2 powi flog2 x \<le> x" and "x < 2 powi (flog2 x + 1)"
proof -
  obtain n d where q: "quotient_of x = (n, d)" by (cases "quotient_of x")
  have d: "0 < d" using quotient_of_denom_pos [OF q] .
  have x: "x = of_int n / of_int d" using quotient_of_div [OF q] .
  have n: "0 < n" using assms d by (simp add: x zero_less_divide_iff)
  have bn: "2 ^ nat (bitlen n - 1) \<le> n" "n < 2 ^ nat (bitlen n)" using bitlen_bounds [OF n] by auto
  have bd: "2 ^ nat (bitlen d - 1) \<le> d" "d < 2 ^ nat (bitlen d)" using bitlen_bounds [OF d] by auto
  have pn: "1 \<le> bitlen n" "1 \<le> bitlen d" 
    using n d bitlen_nonneg [of n] bitlen_nonneg [of d] bitlen_eq_zero_iff [of n] bitlen_eq_zero_iff [of d]
    by linarith+
  have powi: "(2 :: rat) powi k = of_int (2 ^ nat k)" if "0 \<le> k" for k :: int
    using that by (simp add: power_int_def)
  let ?k = "bitlen n - bitlen d"
  have "2 powi (bitlen n - 1) \<le> (of_int n :: rat)" "(of_int d :: rat) < 2 powi bitlen d"
    "(of_int n :: rat) < 2 powi bitlen n" "2 powi (bitlen d - 1) \<le> (of_int d :: rat)"
    using bn bd pn by (simp_all only: powi of_int_le_iff of_int_less_iff; simp)+
  note b = this
  have lo: "2 powi (?k - 1) < x"
  proof -
    have "2 powi (?k - 1) * (of_int d :: rat) < 2 powi (?k - 1) * 2 powi bitlen d"
      using b(2) by simp
    also have "\<dots> = 2 powi (bitlen n - 1)" by (simp flip: power_int_add)
    also have "\<dots> \<le> of_int n" by (rule b(1))
    finally show ?thesis using d by (simp add: x pos_less_divide_eq)
  qed
  have hi: "x < 2 powi (?k + 1)"
  proof -
    have "(of_int n :: rat) < 2 powi bitlen n" by (rule b(3))
    also have "\<dots> = 2 powi (?k + 1) * 2 powi (bitlen d - 1)" by (simp flip: power_int_add)
    also have "\<dots> \<le> 2 powi (?k + 1) * of_int d" using b(4) by simp
    finally show ?thesis using d by (simp add: x pos_divide_less_eq)
  qed
  show "2 powi flog2 x \<le> x" and "x < 2 powi (flog2 x + 1)"
    using lo hi by (auto simp: flog2_def q Let_def)
qed

lemma flog2_eq:
  assumes "2 powi e \<le> x" and "x < 2 powi (e + 1)"
  shows "flog2 x = e"
proof -
  have "0 < x" using assms(1) by (rule less_le_trans [rotated]) simp
  note b = flog2_bounds [OF this]
  have "\<not> flog2 x + 1 \<le> e" using powi_mono [of "flog2 x + 1" e] b(2) assms(1) by fastforce
  moreover have "\<not> e + 1 \<le> flog2 x" using powi_mono [of "e + 1" "flog2 x"] b(1) assms(2) by fastforce
  ultimately show ?thesis by simp
qed

lemma round_half_even_int [simp]: "round_half_even (of_int k) = k"
  by (simp add: round_half_even_def)

lemma round_half_even_bounds: "of_int (round_half_even x) - 1 / 2 \<le> x" "x \<le> of_int (round_half_even x) + 1 / 2"
  by (auto simp: round_half_even_def Let_def; linarith)+

lemma round_half_even_mono_int: "of_int k \<le> x \<Longrightarrow> k \<le> round_half_even x"
  by (auto simp: round_half_even_def Let_def le_floor_iff; linarith)

lemma round_half_even_mono_int': "x \<le> of_int k \<Longrightarrow> round_half_even x \<le> k"
  using floor_le_iff [of x k] floor_mono [of x "of_int k"]
  by (auto simp: round_half_even_def Let_def not_less intro: ccontr; linarith)

lemma powi_split:
  "2 powi e = (2 :: rat) powi (e - 23) * 2 ^ 23" "2 powi (e + 1) = (2 :: rat) powi (e - 23) * 2 ^ 24"
  using power_int_add [of "2 :: rat" "e - 23" 23] power_int_add [of "2 :: rat" "e - 23" 24]
  by (simp_all add: add.commute)

text \<open>A positive number whose exponent is in the normal range is rounded at its 24th binary digit.\<close>

lemma round_f32_normal:
  assumes x: "0 < x" and e: "flog2 x = e" "- 126 \<le> e" "e \<le> 126"
  shows "\<exists>k. round_f32 x = F_Fin (of_int k * 2 powi (e - 23)) \<and> k = round_half_even (x / 2 powi (e - 23)) \<and>
           2 ^ 23 \<le> k \<and> k \<le> 2 ^ 24"
proof -
  let ?q = "e - 23" and ?k = "round_half_even (x / 2 powi (e - 23))"
  have q: "max (flog2 \<bar>x\<bar> - 23) (- 149) = ?q" using x e by simp
  note split = powi_split [of e]
  have lo: "of_int (2 ^ 23) \<le> x / 2 powi ?q"
    using flog2_bounds(1) [OF x] by (simp add: e split pos_le_divide_eq mult.commute)
  have hi: "x / 2 powi ?q \<le> of_int (2 ^ 24)"
    using flog2_bounds(2) [OF x] by (simp add: e split pos_divide_le_eq mult.commute)
  have k: "2 ^ 23 \<le> ?k" "?k \<le> 2 ^ 24"
    using round_half_even_mono_int [OF lo] round_half_even_mono_int' [OF hi] by simp_all
  have "of_int ?k * 2 powi ?q \<le> (of_int (2 ^ 24) :: rat) * 2 powi ?q"
    using k(2) by (intro mult_right_mono) (simp_all only: of_int_le_iff, simp)
  also have "\<dots> = 2 powi (e + 1)" by (simp add: split)
  also have "\<dots> < 2 powi 128" using e by (intro powi_strict_mono) simp
  finally have "round_f32 x = F_Fin (of_int ?k * 2 powi ?q)"
    using x unfolding round_f32_def q by (simp add: Let_def)
  with k show ?thesis by blast
qed

lemma round_f32_bounds:
  assumes x: "0 < x" and e: "flog2 x = e" "- 126 \<le> e" "e \<le> 126"
  obtains y where "round_f32 x = F_Fin y" "2 powi e \<le> y" "y \<le> 2 powi (e + 1)" "\<bar>y - x\<bar> \<le> x / 2 ^ 24"
proof -
  let ?q = "e - 23"
  obtain k where k: "round_f32 x = F_Fin (of_int k * 2 powi ?q)" "k = round_half_even (x / 2 powi ?q)"
      "2 ^ 23 \<le> k" "k \<le> 2 ^ 24"
    using round_f32_normal [OF assms] by blast
  note split = powi_split [of e]
  have k': "(2 :: rat) ^ 23 \<le> of_int k" "of_int k \<le> (2 :: rat) ^ 24"
    using k(3,4) of_int_le_iff [of "2 ^ 23" k, where 'a = rat] of_int_le_iff [of k "2 ^ 24", where 'a = rat]
    by simp_all
  have pos: "(0 :: rat) < 2 powi ?q" by simp
  have "\<bar>of_int k - x / 2 powi ?q\<bar> \<le> 1 / 2"
    using round_half_even_bounds [of "x / 2 powi ?q"] unfolding k(2) by linarith
  then have "\<bar>of_int k - x / 2 powi ?q\<bar> * 2 powi ?q \<le> 1 / 2 * 2 powi ?q"
    by (rule mult_right_mono) simp
  also have "\<bar>of_int k - x / 2 powi ?q\<bar> * 2 powi ?q = \<bar>(of_int k - x / 2 powi ?q) * 2 powi ?q\<bar>"
    by (simp add: abs_mult)
  also have "(of_int k - x / 2 powi ?q) * 2 powi ?q = of_int k * 2 powi ?q - x"
    by (simp add: left_diff_distrib)
  finally have "\<bar>of_int k * 2 powi ?q - x\<bar> \<le> 2 powi ?q / 2" by simp
  also have "\<dots> \<le> x / 2 ^ 24" using flog2_bounds(1) [OF x] by (simp add: e split)
  finally have err: "\<bar>of_int k * 2 powi ?q - x\<bar> \<le> x / 2 ^ 24" .
  show thesis
    by (rule that [OF k(1) _ _ err]) (use k' pos in \<open>simp_all add: split mult.commute\<close>)
qed

lemma flog2_nat_range:
  assumes "0 < n" and "n < 2 ^ 64"
  shows "0 \<le> flog2 (of_nat n) \<and> flog2 (of_nat n) < 64"
proof -
  have pos: "(0 :: rat) < of_nat n" using assms by simp
  have "\<not> flog2 (of_nat n) + 1 \<le> 0"
  proof
    assume "flog2 (of_nat n) + 1 \<le> 0"
    from powi_mono [OF this] flog2_bounds(2) [OF pos] have "(of_nat n :: rat) < 1" by simp
    with assms show False by simp
  qed
  moreover have "\<not> 64 \<le> flog2 (of_nat n)"
  proof
    assume "64 \<le> flog2 (of_nat n)"
    from powi_mono [OF this] flog2_bounds(1) [OF pos] have "(2 :: rat) ^ 64 \<le> of_nat n" by simp
    with assms(2) show False by (simp flip: of_nat_power [of 2 64] add: of_nat_numeral)
  qed
  ultimately show ?thesis by simp
qed

text \<open>Counts below \<open>2 ^ 24\<close> are represented exactly.\<close>

lemma round_f32_nat:
  assumes "n < 2 ^ 24"
  shows "round_f32 (of_nat n) = F_Fin (of_nat n)"
proof (cases "n = 0")
  case False
  then have pos: "(0 :: rat) < of_nat n" by simp
  let ?e = "flog2 (of_nat n)"
  have range: "0 \<le> ?e" "?e < 64" using flog2_nat_range [of n] False assms by simp_all
  have "\<not> 24 \<le> ?e"
  proof
    assume "24 \<le> ?e"
    from powi_mono [OF this] flog2_bounds(1) [OF pos] have "(2 :: rat) ^ 24 \<le> of_nat n" by simp
    with assms show False by simp
  qed
  then have "0 \<le> 23 - ?e" by simp
  then obtain m where m: "23 - ?e = int m" using nonneg_int_cases by blast
  then have "?e - 23 = - int m" by simp
  then have "2 powi (?e - 23) = 1 / (2 :: rat) ^ m" by (simp add: power_int_minus divide_inverse)
  then have "(of_nat n :: rat) / 2 powi (?e - 23) = of_int (int n * 2 ^ m)" by simp
  moreover have "2 powi (?e - 23) * of_int (int n * 2 ^ m) = (of_nat n :: rat)"
    using \<open>2 powi (?e - 23) = 1 / (2 :: rat) ^ m\<close> by simp
  ultimately show ?thesis
    using round_f32_normal [OF pos refl] range by (auto simp: mult.commute simp del: of_int_mult)
qed (simp add: round_f32_def)

end
