(* ===== verification/Trigger.thy ===== *)
theory Trigger
  imports Float32
begin

text \<open>
  The heuristic of \<open>src/collector/trigger.rs\<close> that decides when the background thread collects, and
  \<open>set_gc_trigger_percent\<close> of \<open>src/lib.rs\<close>. The subtraction of two \<open>usize\<close> panics when it
  underflows, as it does in a build with overflow checks.
\<close>

definition DEFAULT_ALLOCATION_TRIGGER_PERCENT :: f32 where
  "DEFAULT_ALLOCATION_TRIGGER_PERCENT = round_f32 (75 / 100)"

definition DEFAULT_HANDLE_DEFICIT_TRIGGER_PERCENT :: f32 where
  "DEFAULT_HANDLE_DEFICIT_TRIGGER_PERCENT = round_f32 (9 / 10)"

definition MIN_ALLOCATIONS_FOR_COLLECTION :: f32 where
  "MIN_ALLOCATIONS_FOR_COLLECTION = f32_mul (round_f32 512) (round_f32 (13 / 10))"

record gc_trigger =
  allocations_trigger_percent :: f32
  handle_deficit_trigger_percent :: f32
  data_count_at_last_collection :: usize

definition gc_trigger_default :: gc_trigger where
  "gc_trigger_default = \<lparr>allocations_trigger_percent = DEFAULT_ALLOCATION_TRIGGER_PERCENT,
     handle_deficit_trigger_percent = DEFAULT_HANDLE_DEFICIT_TRIGGER_PERCENT,
     data_count_at_last_collection = 0\<rparr>"

definition set_trigger_percent :: "f32 \<Rightarrow> gc_trigger \<Rightarrow> gc_trigger" where
  "set_trigger_percent p tr = tr\<lparr>allocations_trigger_percent := p\<rparr>"

definition usize_sub :: "usize \<Rightarrow> usize \<Rightarrow> usize result" where
  "usize_sub a b = (if b \<le> a then Inr (a - b) else Inl Panic)"

definition should_collect :: "usize \<Rightarrow> usize \<Rightarrow> gc_trigger \<Rightarrow> bool result" where
  "should_collect current_data_count current_handle_count tr =
     (if f32_less (f32_of_usize current_data_count) MIN_ALLOCATIONS_FOR_COLLECTION then Inr False
      else let handle_threshold = f32_mul (handle_deficit_trigger_percent tr) (f32_of_usize current_data_count)
        in if f32_le (f32_of_usize current_handle_count) handle_threshold then Inr True
           else res_bind (usize_sub current_data_count (data_count_at_last_collection tr)) (\<lambda>amount_of_new_data.
             let percent_more_data = f32_div (f32_of_usize amount_of_new_data)
                   (f32_of_usize (data_count_at_last_collection tr))
             in if percent_more_data = F_NaN then Inr True
                else if percent_more_data = F_PInf \<or> percent_more_data = F_NInf then Inr True
                else Inr (f32_le (allocations_trigger_percent tr) percent_more_data)))"

definition set_data_count_after_collection :: "usize \<Rightarrow> gc_trigger \<Rightarrow> gc_trigger" where
  "set_data_count_after_collection n tr = tr\<lparr>data_count_at_last_collection := n\<rparr>"

definition set_gc_trigger_percent :: "f32 \<Rightarrow> gc_trigger \<Rightarrow> gc_trigger result" where
  "set_gc_trigger_percent percent tr =
     (if f32_less percent (F_Fin (- 0)) \<or> percent = F_NaN then Inl Panic
      else Inr (set_trigger_percent percent tr))"

subsection \<open>The constants\<close>

lemma default_percent_value: "DEFAULT_ALLOCATION_TRIGGER_PERCENT = F_Fin (3 / 4)"
proof -
  have e: "flog2 (75 / 100) = - 1" by (rule flog2_eq) (simp_all add: power_int_def power_one_over)
  have "(75 / 100 :: rat) / 2 powi (- 24) = of_int (3 * 2 ^ 22)" by (simp add: power_int_def power_one_over)
  then have "round_half_even ((75 / 100 :: rat) / 2 powi (- 24)) = 3 * 2 ^ 22"
    by (simp only: round_half_even_int)
  with round_f32_normal [of "75 / 100" "- 1", OF _ e] show ?thesis
    by (simp add: DEFAULT_ALLOCATION_TRIGGER_PERCENT_def power_int_def power_one_over)
qed

lemma deficit_percent_value: "DEFAULT_HANDLE_DEFICIT_TRIGGER_PERCENT = F_Fin (15099494 / 16777216)"
proof -
  have e: "flog2 (9 / 10) = - 1" by (rule flog2_eq) (simp_all add: power_int_def power_one_over)
  have fl: "\<lfloor>(9 / 10 :: rat) / 2 powi (- 24)\<rfloor> = 15099494"
    by (rule floor_unique) (simp_all add: power_int_def power_one_over)
  have "round_half_even ((9 / 10 :: rat) / 2 powi (- 24)) = 15099494"
    unfolding round_half_even_def Let_def fl by (simp add: power_int_def power_one_over)
  with round_f32_normal [of "9 / 10" "- 1", OF _ e] show ?thesis
    by (simp add: DEFAULT_HANDLE_DEFICIT_TRIGGER_PERCENT_def power_int_def power_one_over)
qed

lemma min_allocations_value: "MIN_ALLOCATIONS_FOR_COLLECTION = F_Fin (10905190 / 16384)"
proof -
  have e: "flog2 (13 / 10) = 0" by (rule flog2_eq) (simp_all add: power_int_def power_one_over)
  have fl: "\<lfloor>(13 / 10 :: rat) / 2 powi (- 23)\<rfloor> = 10905190"
    by (rule floor_unique) (simp_all add: power_int_def power_one_over)
  have "round_half_even ((13 / 10 :: rat) / 2 powi (- 23)) = 10905190"
    unfolding round_half_even_def Let_def fl by (simp add: power_int_def power_one_over)
  with round_f32_normal [of "13 / 10" 0, OF _ e] have c: "round_f32 (13 / 10) = F_Fin (10905190 / 8388608)"
    by (simp add: power_int_def power_one_over)
  have e2: "flog2 (10905190 / 16384) = 9" by (rule flog2_eq) (simp_all add: power_int_def power_one_over)
  have "(10905190 / 16384 :: rat) / 2 powi (- 14) = of_int 10905190" by (simp add: power_int_def power_one_over)
  then have "round_half_even ((10905190 / 16384 :: rat) / 2 powi (- 14)) = 10905190"
    by (simp only: round_half_even_int)
  with round_f32_normal [of "10905190 / 16384" 9, OF _ e2]
  have "round_f32 (10905190 / 16384) = F_Fin (10905190 / 16384)" by (simp add: power_int_def power_one_over)
  moreover have "round_f32 512 = F_Fin 512" using round_f32_nat [of 512] by simp
  ultimately show ?thesis by (simp add: MIN_ALLOCATIONS_FOR_COLLECTION_def c)
qed

subsection \<open>Counts\<close>

declare of_nat_unat [simp del]

lemma f32_of_usize_small: "unat n < 2 ^ 24 \<Longrightarrow> f32_of_usize n = F_Fin (of_nat (unat n))"
  by (simp add: f32_of_usize_def round_f32_nat)

lemma unat_less_64: "unat (n :: usize) < 2 ^ 64"
  using unsigned_less [of n] by simp

lemma f32_of_usize_pos:
  assumes "0 < unat n"
  obtains y where "f32_of_usize n = F_Fin y" "0 < y"
    "of_nat (unat n) - of_nat (unat n) / 16777216 \<le> y" "y \<le> of_nat (unat n) + of_nat (unat n) / 16777216"
proof -
  have pos: "(0 :: rat) < of_nat (unat n)" using assms by simp
  have r: "0 \<le> flog2 (of_nat (unat n)) \<and> flog2 (of_nat (unat n)) < 64"
    by (rule flog2_nat_range [OF assms unat_less_64])
  obtain y where y: "round_f32 (of_nat (unat n)) = F_Fin y" "2 powi flog2 (of_nat (unat n)) \<le> y"
      "\<bar>y - of_nat (unat n)\<bar> \<le> of_nat (unat n) / 2 ^ 24"
    by (rule round_f32_bounds [OF pos refl]) (use r in auto)
  have "0 < y" using y(2) by (rule less_le_trans [rotated]) simp
  moreover have "of_nat (unat n) - of_nat (unat n) / 16777216 \<le> y"
      "y \<le> of_nat (unat n) + of_nat (unat n) / 16777216"
    using y(3) unfolding abs_le_iff by simp_all
  moreover have "f32_of_usize n = F_Fin y" using y(1) by (simp add: f32_of_usize_def)
  ultimately show thesis using that by blast
qed

lemma f32_of_usize_large:
  assumes "666 \<le> unat n"
  shows "\<not> f32_less (f32_of_usize n) MIN_ALLOCATIONS_FOR_COLLECTION"
proof (cases "unat n < 2 ^ 24")
  case True
  have "(666 :: rat) \<le> of_nat (unat n)" using assms by simp
  then show ?thesis by (simp add: f32_of_usize_small [OF True] min_allocations_value)
next
  case False
  have "0 < unat n" using assms by simp
  then obtain y where y: "f32_of_usize n = F_Fin y"
      "(of_nat (unat n) :: rat) - of_nat (unat n) / 16777216 \<le> y"
    by (rule f32_of_usize_pos)
  have "(16777216 :: rat) \<le> of_nat (unat n)" using False by (simp add: not_less)
  with y(2) have "(666 :: rat) \<le> y" by linarith
  then show ?thesis by (simp add: y(1) min_allocations_value)
qed

subsection \<open>When a collection is due\<close>

text \<open>
  With fewer than 666 pieces of tracked data the background thread never collects, whatever the
  handle count and the trigger settings.
\<close>

theorem trigger_waits_for_minimum:
  assumes "unat current_data_count < 666"
  shows "should_collect current_data_count current_handle_count tr = Inr False"
proof -
  have "(of_nat (unat current_data_count) :: rat) \<le> 665" using assms by simp
  moreover have "unat current_data_count < 2 ^ 24" using assms by simp
  ultimately show ?thesis
    by (simp add: should_collect_def f32_of_usize_small min_allocations_value)
qed

theorem trigger_waits_for_minimum_witness: "should_collect 665 0 gc_trigger_default = Inr False"
  by (rule trigger_waits_for_minimum) simp

text \<open>
  Once 666 pieces of data are tracked and no collection has counted any data yet, one is due: the
  ratio of new data is infinite, and no setting of the percentage keeps the trigger back.
\<close>

theorem trigger_first_collection:
  assumes "666 \<le> unat current_data_count" and "data_count_at_last_collection tr = 0"
  shows "should_collect current_data_count current_handle_count tr = Inr True"
proof -
  obtain y where y: "f32_of_usize current_data_count = F_Fin y" "0 < y"
    using f32_of_usize_pos [of current_data_count] assms by (metis less_le_trans zero_less_numeral)
  have zero: "f32_of_usize 0 = F_Fin 0" using f32_of_usize_small [of 0] by simp
  show ?thesis
    using f32_of_usize_large [OF assms(1)] y
    by (simp add: should_collect_def assms(2) usize_sub_def zero Let_def)
qed

theorem trigger_first_collection_witness: "should_collect 666 1000 gc_trigger_default = Inr True"
  by (rule trigger_first_collection) (simp_all add: gc_trigger_default_def)

text \<open>
  With the default settings and at least 666 pieces of data, ten handles for every eight pieces
  or fewer make a collection due, for counts of any size (the rounding of \<open>f32\<close> included).
\<close>

theorem trigger_handle_deficit:
  assumes "666 \<le> unat current_data_count" and "10 * unat current_handle_count \<le> 8 * unat current_data_count"
    and "handle_deficit_trigger_percent tr = DEFAULT_HANDLE_DEFICIT_TRIGGER_PERCENT"
  shows "should_collect current_data_count current_handle_count tr = Inr True"
proof -
  let ?d = "of_nat (unat current_data_count) :: rat" and ?h = "of_nat (unat current_handle_count) :: rat"
  have d: "666 \<le> ?d" using assms(1) by simp
  have "(of_nat (10 * unat current_handle_count) :: rat) \<le> of_nat (8 * unat current_data_count)"
    using assms(2) by (simp only: of_nat_le_iff)
  then have h: "10 * ?h \<le> 8 * ?d" by simp
  have "0 < unat current_data_count" using assms(1) by simp
  then obtain y where y: "f32_of_usize current_data_count = F_Fin y" "0 < y"
      "?d - ?d / 16777216 \<le> y" "y \<le> ?d + ?d / 16777216"
    by (rule f32_of_usize_pos)
  define x where "x = 15099494 / 16777216 * y"
  have "?d < of_nat (2 ^ 64)" using unat_less_64 [of current_data_count] by (simp only: of_nat_less_iff)
  then have "?d < 18446744073709551616" by simp
  then have xlo: "599 \<le> x" and xhi: "x < 36893488147419103232" using y(3,4) d unfolding x_def by linarith+
  then have x: "0 < x" by simp
  have e: "0 \<le> flog2 x" "flog2 x \<le> 65"
  proof -
    show "0 \<le> flog2 x"
    proof (rule ccontr)
      assume "\<not> 0 \<le> flog2 x"
      then have "2 powi (flog2 x + 1) \<le> (2 :: rat) powi 0" by (intro powi_mono) simp
      with flog2_bounds(2) [OF x] xlo show False by simp
    qed
    show "flog2 x \<le> 65"
    proof (rule ccontr)
      assume "\<not> flog2 x \<le> 65"
      then have "2 powi 65 \<le> (2 :: rat) powi flog2 x" by (intro powi_mono) simp
      with flog2_bounds(1) [OF x] xhi show False by simp
    qed
  qed
  obtain t where t: "round_f32 x = F_Fin t" "\<bar>t - x\<bar> \<le> x / 2 ^ 24"
    by (rule round_f32_bounds [OF x refl]) (use e in auto)
  from t(2) have t': "x - x / 16777216 \<le> t" unfolding abs_le_iff by simp
  obtain k where k: "f32_of_usize current_handle_count = F_Fin k" "k \<le> ?h + ?h / 16777216"
  proof (cases "unat current_handle_count = 0")
    case True
    then show ?thesis using that [of 0] by (simp add: f32_of_usize_small)
  next
    case False
    then show ?thesis using that f32_of_usize_pos [of current_handle_count] by blast
  qed
  have "k \<le> t" using k(2) t' y(3) h d unfolding x_def by linarith
  then show ?thesis
    using f32_of_usize_large [OF assms(1)] y(1) k(1) t(1) unfolding x_def
    by (auto simp: should_collect_def assms(3) deficit_percent_value f32_le_def Let_def)
qed

theorem trigger_handle_deficit_witness: "should_collect 1000 800 gc_trigger_default = Inr True"
  by (rule trigger_handle_deficit) (simp_all add: gc_trigger_default_def)

subsection \<open>The ratio\<close>

text \<open>
  Rounding a ratio of counts below \<open>2 ^ 22\<close> does not move it across \<open>3 / 4\<close>: a ratio below is
  further from it than half a unit in the last place.
\<close>

lemma ratio_exponent:
  assumes "0 < a" "a < 2 ^ 22" "0 < b" "b < 2 ^ 22"
  shows "- 22 \<le> flog2 (of_nat a / of_nat b) \<and> flog2 (of_nat a / of_nat b) \<le> 22"
proof -
  let ?x = "of_nat a / of_nat b :: rat"
  have ab: "1 \<le> (of_nat a :: rat)" "(of_nat a :: rat) < 4194304" "1 \<le> (of_nat b :: rat)" "(of_nat b :: rat) < 4194304"
    using assms by simp_all
  have x: "0 < ?x" using ab by simp
  have lo: "1 / 4194304 < ?x"
  proof -
    have "1 / 4194304 < 1 / (of_nat b :: rat)" using ab by (simp add: field_simps)
    also have "\<dots> \<le> ?x" using ab by (simp add: divide_right_mono)
    finally show ?thesis .
  qed
  have hi: "?x < 4194304"
  proof -
    have "?x \<le> of_nat a" using ab by (simp add: pos_divide_le_eq mult_le_cancel_left1)
    with ab show ?thesis by simp
  qed
  show ?thesis
  proof (intro conjI; rule ccontr)
    assume "\<not> - 22 \<le> flog2 ?x"
    then have "2 powi (flog2 ?x + 1) \<le> (2 :: rat) powi (- 22)" by (intro powi_mono) simp
    moreover have "(2 :: rat) powi (- 22) = 1 / 4194304" by (simp add: power_int_def power_one_over)
    ultimately show False using flog2_bounds(2) [OF x] lo by linarith
  next
    assume "\<not> flog2 ?x \<le> 22"
    then have "2 powi 22 \<le> (2 :: rat) powi flog2 ?x" by (intro powi_mono) simp
    with flog2_bounds(1) [OF x] hi show False by simp
  qed
qed

lemma round_ratio:
  assumes a: "a < 2 ^ 22" and b: "0 < b" "b < 2 ^ 22"
  obtains y where "round_f32 (of_nat a / of_nat b) = F_Fin y" "3 / 4 \<le> y \<longleftrightarrow> 3 * b \<le> 4 * a"
proof (cases "a = 0")
  case True
  then show thesis using that [of 0] b by (simp add: round_f32_def)
next
  case False
  let ?x = "of_nat a / of_nat b :: rat"
  let ?e = "flog2 ?x"
  have b': "0 < (of_nat b :: rat)" "(of_nat b :: rat) < 4194304" using b by simp_all
  have x: "0 < ?x" using False b by simp
  have e: "- 22 \<le> ?e" "?e \<le> 22" using ratio_exponent [of a b] False a b by simp_all
  obtain k where k: "round_f32 ?x = F_Fin (of_int k * 2 powi (?e - 23))"
      "k = round_half_even (?x / 2 powi (?e - 23))"
    using round_f32_normal [OF x refl] e by auto
  obtain y where y: "round_f32 ?x = F_Fin y" "2 powi ?e \<le> y" "y \<le> 2 powi (?e + 1)"
    by (rule round_f32_bounds [OF x refl]) (use e in auto)
  have cmp: "3 / 4 \<le> ?x \<longleftrightarrow> 3 * b \<le> 4 * a"
  proof -
    have "3 / 4 \<le> ?x \<longleftrightarrow> (of_nat (3 * b) :: rat) \<le> of_nat (4 * a)"
      using b' by (simp add: pos_le_divide_eq mult.commute)
    then show ?thesis by (simp only: of_nat_le_iff)
  qed
  consider "0 \<le> ?e" | "?e = - 1" | "?e \<le> - 2" by linarith
  then show thesis
  proof cases
    assume "0 \<le> ?e"
    then have "1 \<le> (2 :: rat) powi ?e" using powi_mono [of 0 ?e] by simp
    then have "3 / 4 \<le> y" "3 / 4 \<le> ?x" using y(2) flog2_bounds(1) [OF x] by linarith+
    with that [OF y(1)] cmp show thesis by simp
  next
    assume "?e \<le> - 2"
    then have "(2 :: rat) powi (?e + 1) \<le> 2 powi (- 1)" by (intro powi_mono) simp
    then have "(2 :: rat) powi (?e + 1) \<le> 1 / 2" by (simp add: power_int_def)
    then have "y < 3 / 4" "?x < 3 / 4" using y(3) flog2_bounds(2) [OF x] by linarith+
    with that [OF y(1)] cmp show thesis by simp
  next
    assume e1: "?e = - 1"
    have p: "(2 :: rat) powi (- 1 - 23) = 1 / 16777216" by (simp add: power_int_def power_one_over)
    have k2: "k = round_half_even (?x * 16777216)" using k(2) by (simp add: e1 p)
    have "3 / 4 \<le> (of_int k :: rat) / 16777216 \<longleftrightarrow> 12582912 \<le> k"
      by (simp add: pos_le_divide_eq)
    moreover have "12582912 \<le> k \<longleftrightarrow> 3 / 4 \<le> ?x"
    proof
      assume "3 / 4 \<le> ?x"
      then have "3 / 4 * 16777216 \<le> ?x * 16777216" by (rule mult_right_mono) simp
      then have "of_int 12582912 \<le> ?x * 16777216" by simp
      then show "12582912 \<le> k" unfolding k2 by (rule round_half_even_mono_int)
    next
      assume le: "12582912 \<le> k"
      show "3 / 4 \<le> ?x"
      proof (rule ccontr)
        assume "\<not> 3 / 4 \<le> ?x"
        then have "4 * a + 1 \<le> 3 * b" using cmp by simp
        then have "(of_nat (4 * a + 1) :: rat) \<le> of_nat (3 * b)" by (simp only: of_nat_le_iff)
        then have "4 * (of_nat a :: rat) + 1 \<le> 3 * of_nat b" by simp
        then have "of_nat a * 16777216 \<le> (12582911 :: rat) * of_nat b" using b' by linarith
        then have "?x * 16777216 \<le> of_int 12582911" using b' by (simp add: pos_divide_le_eq)
        then have "k \<le> 12582911" unfolding k2 by (rule round_half_even_mono_int')
        with le show False by simp
      qed
    qed
    ultimately show thesis
      using that [OF k(1)] cmp by (simp add: e1 p)
  qed
qed

text \<open>With as many handles as data, the threshold of the handle deficit is out of reach.\<close>

lemma deficit_threshold:
  assumes "666 \<le> n" and "n < 2 ^ 22" and "n \<le> handles"
  obtains t where "round_f32 (15099494 / 16777216 * of_nat n) = F_Fin t" and "t < of_nat handles"
proof -
  have curr: "666 \<le> (of_nat n :: rat)" "(of_nat n :: rat) < 4194304"
    using assms(1,2) by simp_all
  have hand: "(of_nat n :: rat) \<le> of_nat handles" using assms(3) by simp
  define x where "x = 15099494 / 16777216 * (of_nat n :: rat)"
  have xb: "599 \<le> x" "x < 4194304" "x < (of_nat n :: rat) * 19 / 20" using curr unfolding x_def by linarith+
  then have x: "0 < x" by simp
  have e: "- 126 \<le> flog2 x" "flog2 x \<le> 126"
  proof -
    show "- 126 \<le> flog2 x"
    proof (rule ccontr)
      assume "\<not> - 126 \<le> flog2 x"
      then have "2 powi (flog2 x + 1) \<le> (2 :: rat) powi 0" by (intro powi_mono) simp
      with flog2_bounds(2) [OF x] xb show False by simp
    qed
    show "flog2 x \<le> 126"
    proof (rule ccontr)
      assume "\<not> flog2 x \<le> 126"
      then have "2 powi 22 \<le> (2 :: rat) powi flog2 x" by (intro powi_mono) simp
      with flog2_bounds(1) [OF x] xb show False by simp
    qed
  qed
  obtain t where t: "round_f32 x = F_Fin t" "\<bar>t - x\<bar> \<le> x / 2 ^ 24"
    by (rule round_f32_bounds [OF x refl]) (use e in auto)
  from t(2) have "t \<le> x + x / 16777216" unfolding abs_le_iff by simp
  then have above: "t < of_nat handles" using xb hand by linarith
  with t(1) show thesis by (intro that [of t]) (simp_all add: x_def)
qed

text \<open>
  C40: Take the default settings, a data count of at least 666 and below \<open>2 ^ 22\<close>, a handle count of at least the data
  count and below \<open>2 ^ 24\<close>, and a count after the last collection that is positive and at most the present one. Then a
  collection is due exactly if the data tracked since the last one is at least three quarters of the data then left: the
  \<open>f32\<close> arithmetic decides as exact arithmetic would. It is due at equality too, where the documentation of
  \<open>set_gc_trigger_percent\<close> asks for more than three quarters.
\<close>

theorem trigger_default_exact:
  assumes "666 \<le> unat cur" and "unat cur < 2 ^ 22" and "unat cur \<le> unat handles" and "unat handles < 2 ^ 24"
    and "0 < unat (data_count_at_last_collection tr)" and "data_count_at_last_collection tr \<le> cur"
    and "allocations_trigger_percent tr = DEFAULT_ALLOCATION_TRIGGER_PERCENT"
    and "handle_deficit_trigger_percent tr = DEFAULT_HANDLE_DEFICIT_TRIGGER_PERCENT"
  shows "should_collect cur handles tr =
    Inr (3 * unat (data_count_at_last_collection tr) \<le>
         4 * (unat cur - unat (data_count_at_last_collection tr)))"
proof -
  let ?last = "data_count_at_last_collection tr"
  have last: "unat ?last \<le> unat cur" "unat (cur - ?last) = unat cur - unat ?last"
    using assms(6) by (simp_all add: word_le_nat_alt unat_sub)
  have small: "unat cur < 2 ^ 24" "unat ?last < 2 ^ 24" "unat (cur - ?last) < 2 ^ 24"
    using assms(2) last by simp_all
  obtain t where t: "round_f32 (15099494 / 16777216 * of_nat (unat cur)) = F_Fin t"
    and above: "t < of_nat (unat handles)"
    by (rule deficit_threshold [OF assms(1-3)])
  obtain y where y: "round_f32 (of_nat (unat cur - unat ?last) / of_nat (unat ?last)) = F_Fin y"
      "3 / 4 \<le> y \<longleftrightarrow> 3 * unat ?last \<le> 4 * (unat cur - unat ?last)"
    by (rule round_ratio [of "unat cur - unat ?last" "unat ?last"]) (use assms last in auto)
  have pos: "(of_nat (unat ?last) :: rat) \<noteq> 0" using assms(5) by simp
  have thr: "f32_mul (F_Fin (15099494 / 16777216)) (f32_of_usize cur) = F_Fin t"
    using t by (simp only: f32_of_usize_small [OF small(1)] f32_mul.simps)
  have div: "f32_div (f32_of_usize (cur - ?last)) (f32_of_usize ?last) = F_Fin y"
    using y(1) pos
    by (simp only: f32_of_usize_small [OF small(2)] f32_of_usize_small [OF small(3)] last f32_div.simps if_False)
  have "\<not> f32_le (f32_of_usize handles) (F_Fin t)"
    using above by (simp add: f32_of_usize_small [OF assms(4)] f32_le_def)
  then have "should_collect cur handles tr = Inr (f32_le (F_Fin (3 / 4)) (F_Fin y))"
    using f32_of_usize_large [OF assms(1)] assms(6)
    unfolding should_collect_def assms(7,8) default_percent_value deficit_percent_value Let_def thr
    by (simp add: usize_sub_def div)
  then show ?thesis using y(2) by (auto simp: f32_le_def)
qed

theorem trigger_default_exact_witness:
  "should_collect 1749 1749 (set_data_count_after_collection 1000 gc_trigger_default) = Inr False \<and>
   should_collect 1750 1750 (set_data_count_after_collection 1000 gc_trigger_default) = Inr True \<and>
   should_collect 1751 1751 (set_data_count_after_collection 1000 gc_trigger_default) = Inr True"
  using trigger_default_exact [of 1749 1749 "set_data_count_after_collection 1000 gc_trigger_default"]
    trigger_default_exact [of 1750 1750 "set_data_count_after_collection 1000 gc_trigger_default"]
    trigger_default_exact [of 1751 1751 "set_data_count_after_collection 1000 gc_trigger_default"]
  by (simp add: gc_trigger_default_def set_data_count_after_collection_def)

end
