(* ===== verification/Collector.thy ===== *)
theory Collector
  imports Alloc Trigger Lockout Spinlock
begin

text \<open>
  The state of the collector (\<open>src/collector/mod.rs\<close>, \<open>src/collector/data.rs\<close>) and the
  operations that create, copy and drop handles and take warrants. One record holds the
  \<open>Collector\<close> and everything behind its \<open>Arc\<close>s: \<open>gc_datas\<close> and \<open>gc_handles\<close> are
  the \<open>GcData\<close> and \<open>GcHandle\<close> objects, \<open>atomics\<close> the \<open>AtomicPtr<GcData>\<close> cells, each
  named by its index; the lists \<open>data_list\<close> and \<open>handle_list\<close> and the channel to the dropper
  hold such names. The reference counts of the \<open>Arc\<close>s are not modelled.
\<close>

record gc_data =
  d_allocation :: gc_allocation
  d_lockout :: lockout
  d_deallocated :: bool
  d_last_marked :: u64

datatype underlying_data = Fixed nat | DynamicForAtomic nat

record gc_handle =
  h_underlying_data :: underlying_data
  h_last_non_rooted :: u64

datatype drop_message = DataToDrop "nat list" | SyncUp

record gc_state =
  gc_lock :: bool
  atomic_spinlock :: ap_lock
  trigger :: gc_trigger
  dropper :: "drop_message list"
  async_gc_notified :: bool
  current_collection_number :: u64
  data_list :: "nat cll"
  handle_list :: "nat cll"
  gc_heap :: heap
  gc_datas :: "gc_data list"
  gc_handles :: "gc_handle list"
  atomics :: "nat list"

definition collector_new :: gc_state where
  "collector_new = \<lparr>gc_lock = False, atomic_spinlock = ap_new, trigger = gc_trigger_default,
     dropper = [], async_gc_notified = False, current_collection_number = 2,
     data_list = cll_new, handle_list = cll_new,
     gc_heap = [], gc_datas = [], gc_handles = [], atomics = []\<rparr>"

text \<open>The channel holds one notification at most; sending to a full one does nothing.\<close>

definition notify_async_gc_thread :: "gc_state \<Rightarrow> gc_state" where
  "notify_async_gc_thread s = s\<lparr>async_gc_notified := True\<rparr>"

definition insert_handle :: "underlying_data \<Rightarrow> gc_state \<Rightarrow> internal_ref \<times> gc_state" where
  "insert_handle u s =
     (let new_handle_arc = length (gc_handles s);
          (it, hl) = cll_insert new_handle_arc (handle_list s)
      in (it, s\<lparr>gc_handles := gc_handles s @ [\<lparr>h_underlying_data = u, h_last_non_rooted = 0\<rparr>],
              handle_list := hl\<rparr>))"

text \<open>The token is the new data; the handle is inserted before the data is.\<close>

definition setup_gc_reference :: "gc_allocation \<Rightarrow> gc_state \<Rightarrow> nat \<times> internal_ref \<times> gc_state" where
  "setup_gc_reference al s =
     (let new_data_arc = length (gc_datas s);
          s1 = s\<lparr>gc_datas := gc_datas s @ [\<lparr>d_allocation = al, d_lockout = lockout_new,
                   d_deallocated = False, d_last_marked = 0\<rparr>]\<rparr>;
          (new_handle, s2) = insert_handle (Fixed new_data_arc) s1
      in (new_data_arc, new_handle, s2))"

definition track_from_token :: "nat \<Rightarrow> gc_state \<Rightarrow> gc_state" where
  "track_from_token token s =
     notify_async_gc_thread (s\<lparr>data_list := snd (cll_insert token (data_list s))\<rparr>)"

definition track :: "gc_allocation \<Rightarrow> gc_state \<Rightarrow> internal_ref \<times> gc_state" where
  "track al s =
     (let (token, reference, s1) = setup_gc_reference al s in (reference, track_from_token token s1))"

definition track_allocated :: "gc_allocation \<times> heap \<Rightarrow> gc_state \<Rightarrow> (internal_ref \<times> nat) \<times> gc_state" where
  "track_allocated alloc s =
     (let (al, hp) = alloc; (reference, s1) = track al (s\<lparr>gc_heap := hp\<rparr>)
      in ((reference, scan_ptr al), s1))"

definition track_with_drop :: "val \<Rightarrow> gc_state \<Rightarrow> (internal_ref \<times> nat) \<times> gc_state" where
  "track_with_drop v s = track_allocated (allocate_with_drop v (gc_heap s)) s"

definition track_with_no_drop :: "val \<Rightarrow> gc_state \<Rightarrow> (internal_ref \<times> nat) \<times> gc_state" where
  "track_with_no_drop v s = track_allocated (allocate_no_drop v (gc_heap s)) s"

definition track_with_finalization :: "val \<Rightarrow> gc_state \<Rightarrow> (internal_ref \<times> nat) \<times> gc_state" where
  "track_with_finalization v s = track_allocated (allocate_with_finalization v (gc_heap s)) s"

definition track_boxed_value :: "nat \<Rightarrow> gc_state \<Rightarrow> (internal_ref \<times> nat) \<times> gc_state" where
  "track_boxed_value p s = track_allocated (from_box p, gc_heap s) s"

text \<open>\<open>InternalGcRef::data\<close>, which only works on a handle with fixed data.\<close>

definition ref_data :: "internal_ref \<Rightarrow> gc_state \<Rightarrow> nat result" where
  "ref_data r s =
     (case h_underlying_data (gc_handles s ! item_v r) of
        Fixed d \<Rightarrow> Inr d | DynamicForAtomic a \<Rightarrow> Inl Panic)"

definition drop_handle :: "internal_ref \<Rightarrow> gc_state \<Rightarrow> gc_state" where
  "drop_handle r s = s\<lparr>handle_list := cll_remove r (handle_list s)\<rparr>"

definition clone_handle :: "internal_ref \<Rightarrow> gc_state \<Rightarrow> (internal_ref \<times> gc_state) result" where
  "clone_handle r s = res_bind (ref_data r s) (\<lambda>d. Inr (insert_handle (Fixed d) s))"

definition handle_from_data :: "nat \<Rightarrow> gc_state \<Rightarrow> internal_ref \<times> gc_state" where
  "handle_from_data d s = insert_handle (Fixed d) s"

definition new_handle_for_atomic :: "nat \<Rightarrow> gc_state \<Rightarrow> internal_ref \<times> gc_state" where
  "new_handle_for_atomic a s = insert_handle (DynamicForAtomic a) s"

text \<open>
  The initializer is client code: it is given its own handle and the address, and may use the
  collector. The data is tracked after it has returned.
\<close>

type_synonym initializer = "internal_ref \<Rightarrow> nat \<Rightarrow> gc_state \<Rightarrow> (val \<times> gc_state) result"

definition track_initialized ::
    "gc_allocation \<times> heap \<Rightarrow> initializer \<Rightarrow> gc_state \<Rightarrow> ((internal_ref \<times> nat) \<times> gc_state) result" where
  "track_initialized alloc init_function s =
     (let (al, hp) = alloc; uninit_ptr = scan_ptr al;
          (token, reference, s1) = setup_gc_reference al (s\<lparr>gc_heap := hp\<rparr>)
      in res_bind (clone_handle reference s1) (\<lambda>(own, s2).
         res_bind (init_function own uninit_ptr s2) (\<lambda>(t, s3).
         let s4 = s3\<lparr>gc_heap := ptr_write uninit_ptr t (gc_heap s3)\<rparr>
         in Inr ((reference, uninit_ptr), track_from_token token s4))))"

definition track_with_initializer ::
    "initializer \<Rightarrow> gc_state \<Rightarrow> ((internal_ref \<times> nat) \<times> gc_state) result" where
  "track_with_initializer f s = track_initialized (allocate_uninitialized_with_drop (gc_heap s)) f s"

definition track_with_initializer_and_finalize ::
    "initializer \<Rightarrow> gc_state \<Rightarrow> ((internal_ref \<times> nat) \<times> gc_state) result" where
  "track_with_initializer_and_finalize f s =
     track_initialized (allocate_uninitialized_with_finalization (gc_heap s)) f s"

definition upd_data :: "nat \<Rightarrow> (gc_data \<Rightarrow> gc_data) \<Rightarrow> gc_state \<Rightarrow> gc_state" where
  "upd_data d f s = s\<lparr>gc_datas := (gc_datas s)[d := f (gc_datas s ! d)]\<rparr>"

text \<open>A warrant names the data it locks.\<close>

definition get_data_warrant :: "internal_ref \<Rightarrow> gc_state \<Rightarrow> (nat \<times> gc_state) result" where
  "get_data_warrant r s =
     (case h_underlying_data (gc_handles s ! item_v r) of
        Fixed d \<Rightarrow>
          (if d_deallocated (gc_datas s ! d) then Inl Panic
           else res_bind (get_warrant (d_lockout (gc_datas s ! d))) (\<lambda>lk.
                  Inr (d, upd_data d (\<lambda>x. x\<lparr>d_lockout := lk\<rparr>) s)))
      | DynamicForAtomic a \<Rightarrow> Inl Panic)"

definition drop_data_warrant :: "nat \<Rightarrow> gc_state \<Rightarrow> gc_state result" where
  "drop_data_warrant d s =
     res_bind (drop_warrant (d_lockout (gc_datas s ! d))) (\<lambda>lk.
       Inr (upd_data d (\<lambda>x. x\<lparr>d_lockout := lk\<rparr>) s))"

definition tracked_data_count :: "gc_state \<Rightarrow> usize" where
  "tracked_data_count s = estimate_len (data_list s)"

definition handle_count :: "gc_state \<Rightarrow> usize" where
  "handle_count s = estimate_len (handle_list s)"

subsection \<open>A new handle\<close>

lemma insert_handle_frame:
  assumes "insert_handle u s = (r, s')"
  shows "item_v r = length (gc_handles s)" and "h_underlying_data (gc_handles s' ! item_v r) = u"
    and "gc_datas s' = gc_datas s" and "gc_heap s' = gc_heap s" and "atomics s' = atomics s"
    and "data_list s' = data_list s" and "dropper s' = dropper s" and "gc_lock s' = gc_lock s"
    and "atomic_spinlock s' = atomic_spinlock s" and "current_collection_number s' = current_collection_number s"
proof -
  have "item_v (fst (cll_insert v l)) = v" for v and l :: "nat cll"
  proof (induction v l rule: cll_insert.induct)
    case (1 v l)
    then show ?case by (subst cll_insert.simps) (auto split: list.split)
  qed
  note v = this
  obtain it hl where run: "cll_insert (length (gc_handles s)) (handle_list s) = (it, hl)"
    by (cases "cll_insert (length (gc_handles s)) (handle_list s)")
  with v [of "length (gc_handles s)" "handle_list s"] have "item_v it = length (gc_handles s)" by simp
  with assms run show "item_v r = length (gc_handles s)" "h_underlying_data (gc_handles s' ! item_v r) = u"
    "gc_datas s' = gc_datas s" "gc_heap s' = gc_heap s" "atomics s' = atomics s"
    "data_list s' = data_list s" "dropper s' = dropper s" "gc_lock s' = gc_lock s"
    "atomic_spinlock s' = atomic_spinlock s" "current_collection_number s' = current_collection_number s"
    by (auto simp: insert_handle_def Let_def)
qed

end
