(* ===== verification/Dropper.thy ===== *)
theory Dropper
  imports Collector
begin

text \<open>
  The background dropper of \<open>src/collector/dropper.rs\<close>: a thread that takes messages from an
  unbounded channel. In \<open>handle_message\<close> the parallel loops over the data of a message run in the order of
  the list; \<open>drop_step\<close> leaves the order open.
  A panicking destructor is caught and reported; the loop goes on.
\<close>

definition send_msg :: "drop_message \<Rightarrow> gc_state \<Rightarrow> gc_state" where
  "send_msg m s = s\<lparr>dropper := dropper s @ [m]\<rparr>"

definition mark_deallocated :: "nat \<Rightarrow> gc_state \<Rightarrow> gc_state" where
  "mark_deallocated d s = upd_data d (\<lambda>x. x\<lparr>d_deallocated := True\<rparr>) s"

definition run_drop :: "nat \<Rightarrow> gc_state \<Rightarrow> gc_state result" where
  "run_drop d s =
     res_bind (deallocate (d_allocation (gc_datas s ! d)) (gc_heap s)) (\<lambda>(hp, invalidated, panicked).
       Inr (fold drop_handle invalidated (s\<lparr>gc_heap := hp\<rparr>)))"

fun handle_message :: "drop_message \<Rightarrow> gc_state \<Rightarrow> gc_state result" where
  "handle_message (DataToDrop to_drop) s = fold_res run_drop to_drop (fold mark_deallocated to_drop s)"
| "handle_message SyncUp s = Inr s"

text \<open>
  The two loops are parallel. In steps: a worker flags one piece of data; once all of it is flagged the
  second loop begins, in which a worker begins to deallocate a piece of data and finishes some time
  later, others between the two. \<open>Flagging ms ds\<close> has \<open>ms\<close> left to flag, \<open>Deallocating ds rs\<close> has \<open>ds\<close>
  left to begin with, and the destructors of \<open>rs\<close> are running.
\<close>

datatype drop_phase = Flagging "nat list" "nat list" | Deallocating "nat list" "nat list"

inductive drop_step :: "drop_phase \<times> gc_state \<Rightarrow> drop_phase \<times> gc_state \<Rightarrow> bool" where
  flag: "d \<in> set ms \<Longrightarrow>
    drop_step (Flagging ms ds, s) (Flagging (remove1 d ms) ds, mark_deallocated d s)"
| all_flagged: "drop_step (Flagging [] ds, s) (Deallocating ds [], s)"
| start_drop: "d \<in> set ds \<Longrightarrow>
    drop_step (Deallocating ds rs, s) (Deallocating (remove1 d ds) (d # rs), s)"
| finish_drop: "d \<in> set rs \<Longrightarrow> run_drop d s = Inr s' \<Longrightarrow>
    drop_step (Deallocating ds rs, s) (Deallocating ds (remove1 d rs), s')"

text \<open>The work on a message begins with all its data to flag.\<close>

definition drop_start :: "nat list \<Rightarrow> gc_state \<Rightarrow> drop_phase \<times> gc_state" where
  "drop_start ds s = (Flagging ds ds, s)"

lemma flag_steps: "drop_step\<^sup>*\<^sup>* (Flagging ms ds, s) (Flagging [] ds, fold mark_deallocated ms s)"
proof (induction ms arbitrary: s)
  case (Cons d ms)
  have "drop_step (Flagging (d # ms) ds, s) (Flagging ms ds, mark_deallocated d s)"
    using drop_step.flag [of d "d # ms" ds s] by simp
  then show ?case using Cons.IH by (auto intro: converse_rtranclp_into_rtranclp)
qed simp

lemma drops_steps:
  "fold_res run_drop ds s = Inr s' \<Longrightarrow> drop_step\<^sup>*\<^sup>* (Deallocating (ds @ ws) [], s) (Deallocating ws [], s')"
proof (induction ds arbitrary: s)
  case (Cons d ds)
  then obtain s1 where one: "run_drop d s = Inr s1" and rest: "fold_res run_drop ds s1 = Inr s'"
    by (auto simp: res_bind_eq_Inr)
  have "drop_step (Deallocating ((d # ds) @ ws) [], s) (Deallocating (ds @ ws) [d], s)"
    using drop_step.start_drop [of d "(d # ds) @ ws" "[]" s] by simp
  moreover have "drop_step (Deallocating (ds @ ws) [d], s) (Deallocating (ds @ ws) [], s1)"
    using drop_step.finish_drop [of d "[d]" s s1 "ds @ ws"] one by simp
  ultimately show ?case using Cons.IH [OF rest] by (auto intro: converse_rtranclp_into_rtranclp)
qed simp

text \<open>The order of the list is one of the orders; a part of it may be done.\<close>

lemma message_steps:
  assumes "fold_res run_drop ds1 (fold mark_deallocated (ds1 @ ds2) s) = Inr s1"
  shows "drop_step\<^sup>*\<^sup>* (drop_start (ds1 @ ds2) s) (Deallocating ds2 [], s1)"
proof -
  have "drop_step\<^sup>*\<^sup>* (drop_start (ds1 @ ds2) s) (Flagging [] (ds1 @ ds2), fold mark_deallocated (ds1 @ ds2) s)"
    unfolding drop_start_def by (rule flag_steps)
  also have "drop_step\<^sup>*\<^sup>* \<dots> (Deallocating (ds1 @ ds2) [], fold mark_deallocated (ds1 @ ds2) s)"
    by (rule r_into_rtranclp) (rule drop_step.all_flagged)
  also have "drop_step\<^sup>*\<^sup>* \<dots> (Deallocating ds2 [], s1)" by (rule drops_steps [OF assms])
  finally show ?thesis .
qed

text \<open>The dropper thread takes its next message, if there is one.\<close>

definition dropper_step :: "gc_state \<Rightarrow> gc_state result" where
  "dropper_step s =
     (case dropper s of [] \<Rightarrow> Inr s | m # ms \<Rightarrow> handle_message m (s\<lparr>dropper := ms\<rparr>))"

text \<open>
  \<open>synchronize_destructors\<close> sends \<open>SyncUp\<close> and waits for the answer, which the dropper gives after
  all earlier messages.
\<close>

definition synchronize_destructors :: "gc_state \<Rightarrow> gc_state result" where
  "synchronize_destructors s =
     (let s1 = send_msg SyncUp s in fold_res handle_message (dropper s1) (s1\<lparr>dropper := []\<rparr>))"

end
