(* ===== verification/Collect.thy ===== *)
theory Collect
  imports Dropper
begin

text \<open>
  A collection (\<open>src/collector/collect_impl.rs\<close>), with \<open>collect\<close> and \<open>check_then_collect\<close> of
  \<open>src/collector/mod.rs\<close> and \<open>run_with_gc_cleanup\<close> of \<open>src/lib.rs\<close>. One definition per step of
  \<open>do_collect\<close>; the parallel loops run in list order here, and the lemmas show that their
  results do not depend on it. \<open>Undefined\<close> is a read of memory that is not there.
\<close>

text \<open>
  \<open>with_data\<close>: the pointer behind an atomic handle is only good while its \<open>GcData\<close> is alive, that is
  while the data list, a message to the dropper or another handle still holds its \<open>Arc\<close>.
\<close>

definition data_alive :: "gc_state \<Rightarrow> nat \<Rightarrow> bool" where
  "data_alive s d \<longleftrightarrow>
     d \<in> set (par_iter (data_list s)) \<or>
     (\<exists>m\<in>set (dropper s). case m of DataToDrop ds \<Rightarrow> d \<in> set ds | SyncUp \<Rightarrow> False) \<or>
     (\<exists>h\<in>set (par_iter (handle_list s)). h_underlying_data (gc_handles s ! h) = Fixed d)"

definition with_data :: "nat \<Rightarrow> gc_state \<Rightarrow> nat result" where
  "with_data h s =
     (case h_underlying_data (gc_handles s ! h) of
        Fixed d \<Rightarrow> if d < length (gc_datas s) then Inr d else Inl Undefined
      | DynamicForAtomic a \<Rightarrow>
          (let d = atomics s ! a
           in if data_alive s d \<and> d < length (gc_datas s) then Inr d else Inl Undefined))"

definition scan_data :: "nat \<Rightarrow> gc_state \<Rightarrow> internal_ref list result" where
  "scan_data d s = alloc_scan (d_allocation (gc_datas s ! d)) (gc_heap s)"

definition set_mark :: "u64 \<Rightarrow> gc_data \<Rightarrow> gc_data" where
  "set_mark n x = x\<lparr>d_last_marked := n\<rparr>"

definition flag_non_rooted :: "u64 \<Rightarrow> nat \<Rightarrow> gc_state \<Rightarrow> gc_state" where
  "flag_non_rooted cur h s =
     s\<lparr>gc_handles := (gc_handles s)[h := (gc_handles s ! h)\<lparr>h_last_non_rooted := cur\<rparr>]\<rparr>"

text \<open>Step 1: note the new data, take its exclusive warrant, and flag the handles in it.\<close>

definition observe_data :: "u64 \<Rightarrow> nat \<Rightarrow> gc_state \<times> nat list \<Rightarrow> (gc_state \<times> nat list) result" where
  "observe_data cur d = (\<lambda>(s, warrants).
     let s1 = (if d_last_marked (gc_datas s ! d) = 0 then upd_data d (set_mark (cur - 1)) s else s)
     in case get_exclusive_warrant (d_lockout (gc_datas s1 ! d)) of
          Some lk \<Rightarrow>
            (let s2 = upd_data d (\<lambda>x. x\<lparr>d_lockout := lk\<rparr>) s1
             in res_bind (scan_data d s2) (\<lambda>hs.
                  Inr (fold (\<lambda>h. flag_non_rooted cur (item_v h)) hs s2, warrants @ [d])))
        | None \<Rightarrow> Inr (upd_data d (set_mark cur) s1, warrants))"

text \<open>Step 2: the handles that were not flagged are the roots.\<close>

definition find_roots :: "u64 \<Rightarrow> gc_state \<Rightarrow> nat list" where
  "find_roots cur s =
     filter (\<lambda>h. h_last_non_rooted (gc_handles s ! h) \<noteq> cur) (par_iter (handle_list s))"

text \<open>
  Step 3: the search from the roots. Visiting a handle marks its data and gives the handles to
  enqueue.
\<close>

definition should_enqueue :: "u64 \<Rightarrow> gc_state \<Rightarrow> nat \<Rightarrow> bool result" where
  "should_enqueue cur s h =
     res_bind (with_data h s) (\<lambda>d. Inr (d_last_marked (gc_datas s ! d) \<noteq> cur))"

definition enqueue_all :: "u64 \<Rightarrow> gc_state \<Rightarrow> internal_ref list \<Rightarrow> nat list result" where
  "enqueue_all cur s hs =
     fold_res (\<lambda>h q. res_bind (should_enqueue cur s (item_v h))
       (\<lambda>b. Inr (if b then q @ [item_v h] else q))) hs []"

definition visit_handle :: "u64 \<Rightarrow> nat \<Rightarrow> gc_state \<Rightarrow> (nat list \<times> gc_state) result" where
  "visit_handle cur h s =
     res_bind (with_data h s) (\<lambda>d.
       let previous_mark = d_last_marked (gc_datas s ! d)
       in if previous_mark \<noteq> 0
          then (let s1 = upd_data d (set_mark cur) s
                in if previous_mark \<noteq> cur
                   then res_bind (scan_data d s1) (\<lambda>hs.
                        res_bind (enqueue_all cur s1 hs) (\<lambda>q. Inr (q, s1)))
                   else Inr ([], s1))
          else Inr ([], s))"

definition unmarked :: "u64 \<Rightarrow> gc_state \<Rightarrow> nat set" where
  "unmarked cur s = {d. d < length (gc_datas s) \<and> d_last_marked (gc_datas s ! d) \<noteq> 0 \<and>
                        d_last_marked (gc_datas s ! d) \<noteq> cur}"

lemma finite_unmarked [simp]: "finite (unmarked cur s)"
  by (simp add: unmarked_def)

lemma with_data_bound: "with_data h s = Inr d \<Longrightarrow> d < length (gc_datas s)"
  by (auto simp: with_data_def Let_def split: underlying_data.splits if_splits)

lemma visit_handle_measure:
  assumes "visit_handle cur h s = Inr (enq, s')"
  shows "unmarked cur s' \<subset> unmarked cur s \<or> unmarked cur s' = unmarked cur s \<and> enq = []"
proof -
  obtain d where d: "with_data h s = Inr d"
    using assms by (cases "with_data h s") (auto simp: visit_handle_def)
  note bound = with_data_bound [OF d]
  let ?m = "d_last_marked (gc_datas s ! d)"
  let ?s1 = "upd_data d (set_mark cur) s"
  have marked: "unmarked cur ?s1 = unmarked cur s - {d}"
    using bound by (auto simp: unmarked_def upd_data_def set_mark_def nth_list_update)
  consider "?m = 0" | "?m \<noteq> 0" "?m = cur" | "?m \<noteq> 0" "?m \<noteq> cur" by blast
  then show ?thesis
  proof cases
    case 1
    with assms(1) show ?thesis by (simp add: visit_handle_def d Let_def)
  next
    case 2
    with assms d have "s' = ?s1" "enq = []" by (simp_all add: visit_handle_def Let_def)
    with marked 2 show ?thesis by (auto simp: unmarked_def)
  next
    case 3
    with assms(1) d have "s' = ?s1" by (auto simp: visit_handle_def Let_def res_bind_eq_Inr)
    moreover have "d \<in> unmarked cur s" using 3 bound by (simp add: unmarked_def)
    ultimately show ?thesis using marked by blast
  qed
qed

text \<open>
  The queue empties: a visit that enqueues anything has marked a piece of data that was not marked.
\<close>

function dfs :: "u64 \<Rightarrow> nat list \<Rightarrow> gc_state \<Rightarrow> gc_state result" where
  "dfs cur q s =
     (case q of [] \<Rightarrow> Inr s
      | h # rest \<Rightarrow>
          (case visit_handle cur h s of
             Inl e \<Rightarrow> Inl e
           | Inr (enq, s') \<Rightarrow> dfs cur (rest @ enq) s'))"
  by pat_completeness auto
termination
proof (relation "(\<lambda>(cur, q, s). card (unmarked cur s)) <*mlex*> measure (\<lambda>(cur, q, s). length q)", goal_cases)
  case (2 cur q s h rest r enq s')
  then have "visit_handle cur h s = Inr (enq, s')" by simp
  from visit_handle_measure [OF this] 2 show ?case
    by (auto simp: mlex_iff intro: psubset_card_mono)
qed (simp add: wf_mlex)

declare dfs.simps [simp del]

text \<open>Releasing the warrants: their destructors run.\<close>

definition release_warrants :: "nat list \<Rightarrow> gc_state \<Rightarrow> gc_state result" where
  "release_warrants ws s =
     fold_res (\<lambda>d s. res_bind (drop_exclusive_warrant (d_lockout (gc_datas s ! d))) (\<lambda>lk.
       Inr (upd_data d (\<lambda>x. x\<lparr>d_lockout := lk\<rparr>) s))) ws s"

text \<open>Step 4: keep the marked data and the news; the rest is to be dropped.\<close>

definition retain_data :: "u64 \<Rightarrow> nat \<Rightarrow> gc_state \<times> nat list \<Rightarrow> bool \<times> gc_state \<times> nat list" where
  "retain_data cur d = (\<lambda>(s, to_drop).
     let s1 = (if d_last_marked (gc_datas s ! d) = 0 then upd_data d (set_mark cur) s else s)
     in if d_last_marked (gc_datas s1 ! d) = cur then (True, s1, to_drop)
        else (False, s1, to_drop @ [d]))"

definition clean_up :: "u64 \<Rightarrow> gc_state \<Rightarrow> gc_state \<times> nat list" where
  "clean_up cur s =
     (let (dl, s1, to_drop) = par_retain (retain_data cur) (data_list s) (s, [])
      in (s1\<lparr>data_list := dl\<rparr>, to_drop))"

text \<open>
  The steps behind the synchronisation with the dropper. The caller holds \<open>gc_lock\<close>; both locks are
  released when the function returns.
\<close>

definition mark_and_sweep :: "u64 \<Rightarrow> gc_state \<Rightarrow> gc_state result" where
  "mark_and_sweep cur s2 =
     res_bind (fold_res (observe_data cur) (par_iter (data_list s2)) (s2, [])) (\<lambda>(s3, warrants).
     res_bind (dfs cur (find_roots cur s3) s3) (\<lambda>s4.
     res_bind (release_warrants warrants s4) (\<lambda>s5.
     let (s6, to_drop) = clean_up cur s5;
         s7 = send_msg (DataToDrop to_drop) s6;
         s8 = s7\<lparr>trigger := set_data_count_after_collection (tracked_data_count s7) (trigger s7)\<rparr>
     in Inr (s8\<lparr>current_collection_number := current_collection_number s8 + 1, gc_lock := False,
               atomic_spinlock := drop_exclusive_guard (atomic_spinlock s8)\<rparr>))))"

definition do_collect :: "gc_state \<Rightarrow> gc_state result" where
  "do_collect s0 =
     (case lock_exclusive (atomic_spinlock s0) of
        None \<Rightarrow> Inl Blocked
      | Some guard \<Rightarrow>
          (let s1 = s0\<lparr>atomic_spinlock := guard\<rparr>; current_collection = current_collection_number s1
           in res_bind (synchronize_destructors s1) (mark_and_sweep current_collection)))"

definition lock_gc :: "gc_state \<Rightarrow> gc_state result" where
  "lock_gc s = (if gc_lock s then Inl Blocked else Inr (s\<lparr>gc_lock := True\<rparr>))"

definition collect :: "gc_state \<Rightarrow> gc_state result" where
  "collect s = res_bind (lock_gc s) do_collect"

definition check_then_collect :: "gc_state \<Rightarrow> (bool \<times> gc_state) result" where
  "check_then_collect s =
     res_bind (lock_gc s) (\<lambda>s1.
     res_bind (should_collect (tracked_data_count s1) (handle_count s1) (trigger s1)) (\<lambda>go.
       if go then res_bind (do_collect s1) (\<lambda>s2. Inr (True, s2))
       else Inr (False, s1\<lparr>gc_lock := False\<rparr>)))"

text \<open>One turn of the loop of the background thread.\<close>

definition async_gc_step :: "gc_state \<Rightarrow> gc_state result" where
  "async_gc_step s =
     (if async_gc_notified s
      then res_bind (check_then_collect (s\<lparr>async_gc_notified := False\<rparr>)) (\<lambda>r. Inr (snd r))
      else Inl Blocked)"

definition run_with_gc_cleanup :: "(gc_state \<Rightarrow> ('a \<times> gc_state) result) \<Rightarrow> gc_state \<Rightarrow> ('a \<times> gc_state) result" where
  "run_with_gc_cleanup f s =
     res_bind (f s) (\<lambda>(res, s1).
     res_bind (collect s1) (\<lambda>s2.
     res_bind (synchronize_destructors s2) (\<lambda>s3. Inr (res, s3))))"

end
