(* ===== verification/Scanner.thy ===== *)
theory Scanner
  imports Collect
begin

text \<open>
  The \<open>Scanner\<close> of \<open>src/scan.rs\<close> as it runs: \<open>Scan::scan\<close> walks a value and calls the scanner's callback
  on each handle it comes to. The collector passes closures that change its state, one that flags a
  handle and one that may put it into the queue. Here a scanner is its callback, a function on the state \<open>'s\<close>
  that the closure captures, and there is one definition per \<open>impl\<close> block of \<open>Scan\<close>. The theorem
  at the end says that the callback is run on the list \<open>scan v\<close> of \<open>Values\<close>, in order, which is how \<open>Collect\<close>
  uses it.
\<close>

type_synonym 's scanner = "internal_ref \<Rightarrow> 's \<Rightarrow> 's"

definition scanner_new :: "(internal_ref \<Rightarrow> 's \<Rightarrow> 's) \<Rightarrow> 's scanner" where
  "scanner_new callback = callback"

definition add_internal_handle :: "internal_ref \<Rightarrow> 's scanner \<Rightarrow> 's \<Rightarrow> 's" where
  "add_internal_handle gc_ref scanner s = scanner gc_ref s"

text \<open>\<open>f\<close> is the \<open>scan\<close> method of the type of the value.\<close>

definition scanner_scan :: "('a \<Rightarrow> 's scanner \<Rightarrow> 's \<Rightarrow> 's) \<Rightarrow> 'a \<Rightarrow> 's scanner \<Rightarrow> 's \<Rightarrow> 's" where
  "scanner_scan f val scanner s = f val scanner s"

subsection \<open>The implementations of \<open>Scan\<close>\<close>

definition scan_value_type :: "'s scanner \<Rightarrow> 's \<Rightarrow> 's" where
  "scan_value_type scanner s = s"

definition scan_static :: "'s scanner \<Rightarrow> 's \<Rightarrow> 's" where
  "scan_static scanner s = s"

definition scan_r :: "'s scanner \<Rightarrow> 's \<Rightarrow> 's" where
  "scan_r scanner s = s"

definition scan_r_mut :: "'s scanner \<Rightarrow> 's \<Rightarrow> 's" where
  "scan_r_mut scanner s = s"

definition scan_gc :: "internal_ref \<Rightarrow> 's scanner \<Rightarrow> 's \<Rightarrow> 's" where
  "scan_gc backing_handle scanner s = add_internal_handle backing_handle scanner s"

definition scan_deref_gc :: "internal_ref \<Rightarrow> 's scanner \<Rightarrow> 's \<Rightarrow> 's" where
  "scan_deref_gc backing_handle scanner s = add_internal_handle backing_handle scanner s"

definition scan_atomic_gc :: "internal_ref \<Rightarrow> 's scanner \<Rightarrow> 's \<Rightarrow> 's" where
  "scan_atomic_gc backing_handle scanner s = add_internal_handle backing_handle scanner s"

definition scan_cell :: "'s scanner \<Rightarrow> 's \<Rightarrow> 's" where
  "scan_cell scanner s = s"

definition scan_refcell ::
    "('a \<Rightarrow> 's scanner \<Rightarrow> 's \<Rightarrow> 's) \<Rightarrow> usage \<Rightarrow> 'a \<Rightarrow> 's scanner \<Rightarrow> 's \<Rightarrow> 's" where
  "scan_refcell f use v scanner s = (if refcell_try_borrow use then scanner_scan f v scanner s else s)"

definition scan_mutex ::
    "('a \<Rightarrow> 's scanner \<Rightarrow> 's \<Rightarrow> 's) \<Rightarrow> bool \<Rightarrow> bool \<Rightarrow> 'a \<Rightarrow> 's scanner \<Rightarrow> 's \<Rightarrow> 's" where
  "scan_mutex f locked poisoned v scanner s =
     (case mutex_try_lock locked poisoned of
        Try_Ok \<Rightarrow> scanner_scan f v scanner s
      | Try_WouldBlock \<Rightarrow> s
      | Try_Poisoned \<Rightarrow> scanner_scan f v scanner s)"

definition scan_rwlock ::
    "('a \<Rightarrow> 's scanner \<Rightarrow> 's \<Rightarrow> 's) \<Rightarrow> usage \<Rightarrow> bool \<Rightarrow> 'a \<Rightarrow> 's scanner \<Rightarrow> 's \<Rightarrow> 's" where
  "scan_rwlock f use poisoned v scanner s =
     (case rwlock_try_read use poisoned of
        Try_Ok \<Rightarrow> scanner_scan f v scanner s
      | Try_WouldBlock \<Rightarrow> s
      | Try_Poisoned \<Rightarrow> scanner_scan f v scanner s)"

definition scan_option :: "('a \<Rightarrow> 's scanner \<Rightarrow> 's \<Rightarrow> 's) \<Rightarrow> 'a option \<Rightarrow> 's scanner \<Rightarrow> 's \<Rightarrow> 's" where
  "scan_option f ov scanner s = (case ov of Some v \<Rightarrow> f v scanner s | None \<Rightarrow> s)"

definition scan_result :: "('a \<Rightarrow> 's scanner \<Rightarrow> 's \<Rightarrow> 's) \<Rightarrow> 'a + 'a \<Rightarrow> 's scanner \<Rightarrow> 's \<Rightarrow> 's" where
  "scan_result f r scanner s = (case r of Inr v \<Rightarrow> f v scanner s | Inl e \<Rightarrow> f e scanner s)"

definition scan_vec_like :: "('a \<Rightarrow> 's scanner \<Rightarrow> 's \<Rightarrow> 's) \<Rightarrow> 'a list \<Rightarrow> 's scanner \<Rightarrow> 's \<Rightarrow> 's" where
  "scan_vec_like f es scanner s = fold (\<lambda>e. scanner_scan f e scanner) es s"

definition scan_hash_set :: "('a \<Rightarrow> 's scanner \<Rightarrow> 's \<Rightarrow> 's) \<Rightarrow> 'a list \<Rightarrow> 's scanner \<Rightarrow> 's \<Rightarrow> 's" where
  "scan_hash_set f es scanner s = fold (\<lambda>e. scanner_scan f e scanner) es s"

definition scan_map_like :: "('a \<Rightarrow> 's scanner \<Rightarrow> 's \<Rightarrow> 's) \<Rightarrow> ('a \<times> 'a) list \<Rightarrow> 's scanner \<Rightarrow> 's \<Rightarrow> 's" where
  "scan_map_like f kvs scanner s =
     fold (\<lambda>(k, v) s. scanner_scan f v scanner (scanner_scan f k scanner s)) kvs s"

definition scan_hash_map :: "('a \<Rightarrow> 's scanner \<Rightarrow> 's \<Rightarrow> 's) \<Rightarrow> ('a \<times> 'a) list \<Rightarrow> 's scanner \<Rightarrow> 's \<Rightarrow> 's" where
  "scan_hash_map f kvs scanner s =
     fold (\<lambda>(k, v) s. scanner_scan f v scanner (scanner_scan f k scanner s)) kvs s"

definition scan_tuple :: "('a \<Rightarrow> 's scanner \<Rightarrow> 's \<Rightarrow> 's) \<Rightarrow> 'a list \<Rightarrow> 's scanner \<Rightarrow> 's \<Rightarrow> 's" where
  "scan_tuple f vs scanner s = fold (\<lambda>v. f v scanner) vs s"

text \<open>A user's type has a derived \<open>scan\<close>, which scans the fields it does not skip.\<close>

definition scan_fields :: "('a \<Rightarrow> 's scanner \<Rightarrow> 's \<Rightarrow> 's) \<Rightarrow> (bool \<times> 'a) list \<Rightarrow> 's scanner \<Rightarrow> 's \<Rightarrow> 's" where
  "scan_fields f fs scanner s = fold (\<lambda>(skip, v) s. if skip then s else f v scanner s) fs s"

lemmas impl_defs = scanner_new_def add_internal_handle_def scanner_scan_def scan_value_type_def scan_static_def
  scan_r_def scan_r_mut_def scan_gc_def scan_deref_gc_def scan_atomic_gc_def scan_cell_def scan_refcell_def
  scan_mutex_def scan_rwlock_def scan_option_def scan_result_def scan_vec_like_def scan_hash_set_def
  scan_map_like_def scan_hash_map_def scan_tuple_def scan_fields_def

lemma impl_congs [fundef_cong]:
  "v = v' \<Longrightarrow> f v' = g v' \<Longrightarrow> u = u' \<Longrightarrow> scan_refcell f u v = scan_refcell g u' v'"
  "v = v' \<Longrightarrow> f v' = g v' \<Longrightarrow> l = l' \<Longrightarrow> q = q' \<Longrightarrow> scan_mutex f l q v = scan_mutex g l' q' v'"
  "v = v' \<Longrightarrow> f v' = g v' \<Longrightarrow> u = u' \<Longrightarrow> q = q' \<Longrightarrow> scan_rwlock f u q v = scan_rwlock g u' q' v'"
  "ov = ov' \<Longrightarrow> (\<And>v. ov' = Some v \<Longrightarrow> f v = g v) \<Longrightarrow> scan_option f ov = scan_option g ov'"
  "r = r' \<Longrightarrow> (\<And>v. r' = Inr v \<Longrightarrow> f v = g v) \<Longrightarrow> (\<And>v. r' = Inl v \<Longrightarrow> f v = g v) \<Longrightarrow> scan_result f r = scan_result g r'"
  "es = es' \<Longrightarrow> (\<And>e. e \<in> set es' \<Longrightarrow> f e = g e) \<Longrightarrow> scan_vec_like f es = scan_vec_like g es'"
  "es = es' \<Longrightarrow> (\<And>e. e \<in> set es' \<Longrightarrow> f e = g e) \<Longrightarrow> scan_tuple f es = scan_tuple g es'"
  "kvs = kvs' \<Longrightarrow> (\<And>k v. (k, v) \<in> set kvs' \<Longrightarrow> f k = g k) \<Longrightarrow> (\<And>k v. (k, v) \<in> set kvs' \<Longrightarrow> f v = g v) \<Longrightarrow>
     scan_map_like f kvs = scan_map_like g kvs'"
  "fs = fs' \<Longrightarrow> (\<And>skip v. (skip, v) \<in> set fs' \<Longrightarrow> f v = g v) \<Longrightarrow> scan_fields f fs = scan_fields g fs'"
  by (auto simp: impl_defs fun_eq_iff split: option.splits sum.splits try_lock_result.splits intro!: fold_cong)

text \<open>The method of a value of any type.\<close>

fun scan_with :: "val \<Rightarrow> 's scanner \<Rightarrow> 's \<Rightarrow> 's" where
  "scan_with (V_Plain n) = scan_value_type"
| "scan_with (V_Gc h) = scan_gc h"
| "scan_with (V_DerefGc h) = scan_deref_gc h"
| "scan_with (V_AtomicGc a h) = scan_atomic_gc h"
| "scan_with V_Static = scan_static"
| "scan_with V_R = scan_r"
| "scan_with V_RMut = scan_r_mut"
| "scan_with (V_Cell v) = scan_cell"
| "scan_with (V_RefCell use v) = scan_refcell (\<lambda>v. scan_with v) use v"
| "scan_with (V_Mutex locked poisoned v) = scan_mutex (\<lambda>v. scan_with v) locked poisoned v"
| "scan_with (V_RwLock use poisoned v) = scan_rwlock (\<lambda>v. scan_with v) use poisoned v"
| "scan_with (V_Option ov) = scan_option (\<lambda>v. scan_with v) ov"
| "scan_with (V_Ok v) = scan_result (\<lambda>v. scan_with v) (Inr v)"
| "scan_with (V_Err v) = scan_result (\<lambda>v. scan_with v) (Inl v)"
| "scan_with (V_Seq vs) = scan_vec_like (\<lambda>v. scan_with v) vs"
| "scan_with (V_Map kvs) = scan_map_like (\<lambda>v. scan_with v) kvs"
| "scan_with (V_Tuple vs) = scan_tuple (\<lambda>v. scan_with v) vs"
| "scan_with (V_Arc last_ref v) = (\<lambda>scanner s. s)"
| "scan_with (V_GcSafeWrapper v) = (\<lambda>scanner s. s)"
| "scan_with (V_User drop_panics fin fs) = scan_fields (\<lambda>v. scan_with v) fs"

definition alloc_scan_with :: "(internal_ref \<Rightarrow> 's \<Rightarrow> 's) \<Rightarrow> gc_allocation \<Rightarrow> heap \<Rightarrow> 's \<Rightarrow> 's result" where
  "alloc_scan_with callback al hp s =
     res_bind (read_cell (scan_ptr al) hp) (\<lambda>v. Inr (scan_with v (scanner_new callback) s))"

subsection \<open>The callback sees the handles in order\<close>

lemma fold_concat_map: "(\<And>e s. e \<in> set es \<Longrightarrow> f e s = fold cb (g e) s) \<Longrightarrow> fold f es s = fold cb (concat (map g es)) s"
  by (induction es arbitrary: s) simp_all

lemma scan_with_fold: "scan_with v cb s = fold cb (scan v) s"
proof (induction v arbitrary: s rule: scan.induct)
  case (16 kvs)
  then show ?case
    by (auto simp: impl_defs intro!: fold_concat_map)
next
  case (20 drop_panics fin fs)
  show ?case
    unfolding scan_with.simps scan.simps scan_fields_def
    by (rule fold_concat_map) (use 20 in \<open>auto split: prod.splits\<close>)
qed (auto simp: impl_defs split: option.split try_lock_result.split intro!: fold_concat_map)

theorem scanner_runs_callback:
  "alloc_scan_with cb al hp s = res_bind (alloc_scan al hp) (\<lambda>hs. Inr (fold cb hs s)) \<and>
   scan_hash_map scan_with kvs cb s = fold cb (scan (V_Map kvs)) s \<and>
   scan_hash_set scan_with es cb s = fold cb (scan (V_Seq es)) s"
  by (auto simp: alloc_scan_with_def alloc_scan_def scanner_new_def scan_with_fold res_bind_def scan_hash_map_def scan_hash_set_def
      scanner_scan_def split: sum.split intro!: fold_concat_map)

end
