(* ===== verification/Chunked_LL_Threads.thy ===== *)
theory Chunked_LL_Threads
  imports Chunked_LL
begin

text \<open>
  Any number of threads inside one list of \<open>src/concurrency/chunked_ll.rs\<close>, interleaved at
  every access of the free queue, of a slot, of the head and of the length estimate. A program
  counter names the point a thread has reached; \<open>ll_advance\<close> is the code between two such points.
  A step that changes what a slot holds is labelled with the change, so that a run has a trace of
  insertions and removals; the theorems compare that trace with a plain finite map.

  The head is read and swapped with \<open>Ordering::Relaxed\<close> in the source. The steps here are
  sequentially consistent, as everywhere in the development.
\<close>

text \<open>
  The two walks run one task per chunk, in any order. A task of \<open>par_iter\<close> is the index it has come
  to; a task of \<open>par_retain\<close> may also be between the answer of the closure and the swap, the
  decrement or the push.
\<close>

datatype 'p retainer =
    RtLoad nat
  | RtSwap nat 'p
  | RtCount nat
  | RtPush nat

datatype 'p ll_pc =
    LlIdle
  | InsPop 'p                    \<comment> \<open>\<open>insert\<close>, top of the loop\<close>
  | InsGrow 'p                   \<comment> \<open>\<open>expand\<close>, top of the loop\<close>
  | InsExpand 'p nat             \<comment> \<open>\<open>old_head\<close> is loaded\<close>
  | InsPush 'p nat nat           \<comment> \<open>the new head is in place, its slots are pushed one by one\<close>
  | InsStore 'p nat nat          \<comment> \<open>a free slot is popped\<close>
  | InsCount 'p nat nat          \<comment> \<open>the slot is written\<close>
  | RmSwap "'p cll_item"         \<comment> \<open>\<open>remove\<close>\<close>
  | RmCount nat nat              \<comment> \<open>the slot is emptied\<close>
  | RmPush nat nat
  | Iterating "nat list" "'p list"      \<comment> \<open>\<open>par_iter\<close>: the tasks, what the closure has seen\<close>
  | Retaining "'p retainer list"        \<comment> \<open>\<open>par_retain\<close>: the tasks\<close>

datatype 'p ll_event = Put slot_key 'p | Take slot_key 'p

text \<open>What an idle thread may call.\<close>

datatype 'p ll_call = CallInsert 'p | CallRemove "'p cll_item" | CallIter | CallRetain

fun ll_start :: "'p ll_call \<Rightarrow> 'p cll \<Rightarrow> 'p ll_pc" where
  "ll_start (CallInsert v) l = InsPop v"
| "ll_start (CallRemove it) l = RmSwap it"
| "ll_start CallIter l = Iterating (replicate (Suc (chunk_addr (cll_head l))) 0) []"
| "ll_start CallRetain l = Retaining (replicate (Suc (chunk_addr (cll_head l))) (RtLoad 0))"

abbreviation store_slot :: "nat \<Rightarrow> nat \<Rightarrow> 'p option \<Rightarrow> 'p cll \<Rightarrow> 'p cll" where
  "store_slot b i v l \<equiv> l\<lparr>cll_head := chunk_store (cll_head l) b i v\<rparr>"

abbreviation push_free :: "slot_key \<Rightarrow> 'p cll \<Rightarrow> 'p cll" where
  "push_free k l \<equiv> l\<lparr>free_entries := free_entries l @ [k]\<rparr>"

text \<open>A task of \<open>retain_this\<close> on chunk \<open>a\<close>; \<open>keep\<close> is the answer the closure gives, if it is asked.\<close>

fun retainer_advance :: "nat \<Rightarrow> bool \<Rightarrow> 'p retainer \<Rightarrow> 'p cll \<Rightarrow>
    ('p ll_event option \<times> 'p retainer \<times> 'p cll) option" where
  "retainer_advance a keep (RtLoad i) l =
     (if i < CHUNK_SIZE
      then Some (None, case cll_lookup l (a, i) of
                         Some p \<Rightarrow> if keep then RtLoad (Suc i) else RtSwap i p
                       | None \<Rightarrow> RtLoad (Suc i), l)
      else None)"
| "retainer_advance a keep (RtSwap i p) l =
     (if cll_lookup l (a, i) = Some p
      then Some (Some (Take (a, i) p), RtCount i, store_slot a i None l)
      else Some (None, RtLoad (Suc i), l))"
| "retainer_advance a keep (RtCount i) l =
     Some (None, RtPush i, l\<lparr>estimated_len := estimated_len l - 1\<rparr>)"
| "retainer_advance a keep (RtPush i) l = Some (None, RtLoad (Suc i), push_free (a, i) l)"

text \<open>
  A thread inside a call goes on. \<open>a\<close> picks the task that runs, where there are several; \<open>None\<close>: it
  has none left.
\<close>

fun ll_advance :: "nat \<Rightarrow> bool \<Rightarrow> 'p ll_pc \<Rightarrow> 'p cll \<Rightarrow>
    ('p ll_event option \<times> 'p ll_pc \<times> 'p cll) option" where
  "ll_advance a keep LlIdle l = None"
| "ll_advance a keep (InsPop v) l =
     (case free_entries l of
        (b, i) # rest \<Rightarrow> Some (None, InsStore v b i, l\<lparr>free_entries := rest\<rparr>)
      | [] \<Rightarrow> Some (None, InsGrow v, l))"
| "ll_advance a keep (InsGrow v) l = Some (None, InsExpand v (chunk_addr (cll_head l)), l)"
| "ll_advance a keep (InsExpand v old_head) l =
     (if chunk_addr (cll_head l) = old_head
      then let new_head = Chunk (Suc old_head) initialize_values (Some (cll_head l))
           in Some (None, InsPush v (Suc old_head) 0, l\<lparr>cll_head := new_head\<rparr>)
      else Some (None, InsGrow v, l))"
| "ll_advance a keep (InsPush v b i) l =
     (if i < CHUNK_SIZE then Some (None, InsPush v b (Suc i), push_free (b, i) l)
      else Some (None, InsPop v, l))"
| "ll_advance a keep (InsStore v b i) l =
     Some (Some (Put (b, i) v), InsCount v b i, store_slot b i (Some v) l)"
| "ll_advance a keep (InsCount v b i) l =
     Some (None, LlIdle, l\<lparr>estimated_len := estimated_len l + 1\<rparr>)"
| "ll_advance a keep (RmSwap it) l =
     (if cll_lookup l (item_key it) = Some (item_v it)
      then Some (Some (Take (item_key it) (item_v it)), RmCount (item_from it) (item_idx it),
                 store_slot (item_from it) (item_idx it) None l)
      else Some (None, LlIdle, l))"
| "ll_advance a keep (RmCount b i) l =
     Some (None, RmPush b i, l\<lparr>estimated_len := estimated_len l - 1\<rparr>)"
| "ll_advance a keep (RmPush b i) l = Some (None, LlIdle, push_free (b, i) l)"
| "ll_advance a keep (Iterating cs seen) l =
     (if \<forall>i\<in>set cs. i = CHUNK_SIZE then Some (None, LlIdle, l)
      else if a < length cs \<and> cs ! a < CHUNK_SIZE
      then Some (None, Iterating (cs[a := Suc (cs ! a)])
                   (case cll_lookup l (a, cs ! a) of Some p \<Rightarrow> seen @ [p] | None \<Rightarrow> seen), l)
      else None)"
| "ll_advance a keep (Retaining ts) l =
     (if \<forall>t\<in>set ts. t = RtLoad CHUNK_SIZE then Some (None, LlIdle, l)
      else if a < length ts
      then (case retainer_advance a keep (ts ! a) l of
              Some (e, t, l') \<Rightarrow> Some (e, Retaining (ts[a := t]), l')
            | None \<Rightarrow> None)
      else None)"

record 'p ll_sys =
  ll_list :: "'p cll"
  ll_pcs :: "'p ll_pc list"
  ll_items :: "'p cll_item list"

definition ll_init :: "nat \<Rightarrow> 'p ll_sys" where
  "ll_init n = \<lparr>ll_list = cll_new, ll_pcs = replicate n LlIdle, ll_items = []\<rparr>"

text \<open>The item \<open>insert\<close> returns. An item can be copied and removed any number of times.\<close>

fun returned_item :: "'p ll_pc \<Rightarrow> 'p cll_item list" where
  "returned_item (InsCount v b i) = [\<lparr>item_v = v, item_from = b, item_idx = i\<rparr>]"
| "returned_item _ = []"

fun callable :: "'p ll_call \<Rightarrow> 'p ll_sys \<Rightarrow> bool" where
  "callable (CallRemove it) s \<longleftrightarrow> it \<in> set (ll_items s)"
| "callable _ s \<longleftrightarrow> True"

inductive ll_step :: "'p ll_sys \<Rightarrow> 'p ll_event option \<Rightarrow> 'p ll_sys \<Rightarrow> bool" where
  start: "i < length (ll_pcs s) \<Longrightarrow> ll_pcs s ! i = LlIdle \<Longrightarrow> callable call s \<Longrightarrow>
     ll_step s None (s\<lparr>ll_pcs := (ll_pcs s)[i := ll_start call (ll_list s)]\<rparr>)"
| advance: "i < length (ll_pcs s) \<Longrightarrow> ll_advance a keep (ll_pcs s ! i) (ll_list s) = Some (e, pc, l) \<Longrightarrow>
     ll_step s e \<lparr>ll_list = l, ll_pcs = (ll_pcs s)[i := pc],
                   ll_items = returned_item (ll_pcs s ! i) @ ll_items s\<rparr>"

text \<open>A run from the empty list, with its trace.\<close>

inductive ll_run :: "nat \<Rightarrow> 'p ll_event list \<Rightarrow> 'p ll_sys \<Rightarrow> bool" for n where
  init: "ll_run n [] (ll_init n)"
| step: "ll_run n es s \<Longrightarrow> ll_step s e t \<Longrightarrow> ll_run n (es @ (case e of Some x \<Rightarrow> [x] | None \<Rightarrow> [])) t"

subsection \<open>Who holds the empty slots\<close>

fun retainer_slots :: "nat \<Rightarrow> 'p retainer \<Rightarrow> slot_key list" where
  "retainer_slots a (RtCount i) = [(a, i)]"
| "retainer_slots a (RtPush i) = [(a, i)]"
| "retainer_slots a _ = []"

fun pc_slots :: "'p ll_pc \<Rightarrow> slot_key list" where
  "pc_slots (InsPush v b i) = map (Pair b) [i..<CHUNK_SIZE]"
| "pc_slots (InsStore v b i) = [(b, i)]"
| "pc_slots (RmCount b i) = [(b, i)]"
| "pc_slots (RmPush b i) = [(b, i)]"
| "pc_slots (Retaining ts) = concat (map (\<lambda>a. retainer_slots a (ts ! a)) [0..<length ts])"
| "pc_slots _ = []"

text \<open>Slots written but not counted yet, and slots emptied but still counted.\<close>

fun pc_uncounted :: "'p ll_pc \<Rightarrow> nat" where
  "pc_uncounted (InsCount v b i) = 1"
| "pc_uncounted _ = 0"

fun retainer_overcounted :: "'p retainer \<Rightarrow> nat" where
  "retainer_overcounted (RtCount i) = 1"
| "retainer_overcounted _ = 0"

fun pc_overcounted :: "'p ll_pc \<Rightarrow> nat" where
  "pc_overcounted (RmCount b i) = 1"
| "pc_overcounted (Retaining ts) = weight retainer_overcounted ts"
| "pc_overcounted _ = 0"

definition empty_slots :: "'p cll \<Rightarrow> slot_key set" where
  "empty_slots l = cll_slots l - dom (cll_lookup l)"

lemma finite_empty_slots [simp]: "finite (empty_slots l)"
  by (simp add: empty_slots_def cll_slots_def)

text \<open>
  One thread's part of the invariant, the parts of the others being the constants \<open>R\<close>, \<open>U\<close> and \<open>O\<close>:
  each empty slot is in the free queue or in the hands of one thread, once; the length estimate is
  off by what is still to be counted.
\<close>

definition slots_part :: "slot_key multiset \<Rightarrow> 'p ll_pc \<Rightarrow> 'p cll \<Rightarrow> bool" where
  "slots_part R pc l \<longleftrightarrow> mset (free_entries l) + mset (pc_slots pc) + R = mset_set (empty_slots l)"

definition count_part :: "nat \<Rightarrow> nat \<Rightarrow> 'p ll_pc \<Rightarrow> 'p cll \<Rightarrow> bool" where
  "count_part U D pc l \<longleftrightarrow> estimated_len l + of_nat (U + pc_uncounted pc) =
     of_nat (card (dom (cll_lookup l)) + D + pc_overcounted pc)"

fun event_change :: "'p ll_event option \<Rightarrow> (slot_key \<Rightarrow> 'p option) \<Rightarrow> (slot_key \<Rightarrow> 'p option) \<Rightarrow> bool" where
  "event_change None m m' \<longleftrightarrow> m' = m"
| "event_change (Some (Put k p)) m m' \<longleftrightarrow> m k = None \<and> m' = m(k \<mapsto> p)"
| "event_change (Some (Take k p)) m m' \<longleftrightarrow> m k = Some p \<and> m' = m(k := None)"

lemma store_slot_facts:
  assumes "chunk_wf (cll_head l)" and "b \<le> chunk_addr (cll_head l)" and "i < CHUNK_SIZE"
  shows "cll_lookup (store_slot b i v l) = (cll_lookup l)((b, i) := v)"
    and "cll_slots (store_slot b i v l) = cll_slots l"
    and "chunk_wf (cll_head (store_slot b i v l))"
  using assms by (auto simp: cll_lookup_def chunk_slot_store cll_slots_def chunk_wf_store fun_eq_iff)

lemma other_fields [simp]:
  "cll_lookup (l\<lparr>free_entries := f\<rparr>) = cll_lookup l" "cll_lookup (l\<lparr>estimated_len := n\<rparr>) = cll_lookup l"
  "cll_slots (l\<lparr>free_entries := f\<rparr>) = cll_slots l" "cll_slots (l\<lparr>estimated_len := n\<rparr>) = cll_slots l"
  by (simp_all add: cll_lookup_def cll_slots_def fun_eq_iff)

lemma other_fields_empty [simp]:
  "empty_slots (l\<lparr>free_entries := f\<rparr>) = empty_slots l" "empty_slots (l\<lparr>estimated_len := n\<rparr>) = empty_slots l"
  by (simp_all add: empty_slots_def)

lemma empty_slots_put:
  assumes "chunk_wf (cll_head l)" and "(b, i) \<in> empty_slots l"
  shows "empty_slots (store_slot b i (Some v) l) = empty_slots l - {(b, i)}"
    and "card (dom (cll_lookup (store_slot b i (Some v) l))) = Suc (card (dom (cll_lookup l)))"
    and "cll_lookup (store_slot b i (Some v) l) = (cll_lookup l)((b, i) \<mapsto> v)"
    and "chunk_wf (cll_head (store_slot b i (Some v) l))"
proof -
  have "b \<le> chunk_addr (cll_head l)" "i < CHUNK_SIZE"
    using assms(2) by (auto simp: empty_slots_def cll_slots_def)
  note st = store_slot_facts [OF assms(1) this]
  show "empty_slots (store_slot b i (Some v) l) = empty_slots l - {(b, i)}"
    by (auto simp: empty_slots_def st)
  show "card (dom (cll_lookup (store_slot b i (Some v) l))) = Suc (card (dom (cll_lookup l)))"
    using assms(2) finite_dom_cll [OF assms(1)] by (simp add: st empty_slots_def domIff)
  show "cll_lookup (store_slot b i (Some v) l) = (cll_lookup l)((b, i) \<mapsto> v)"
    and "chunk_wf (cll_head (store_slot b i (Some v) l))" by (simp_all only: st)
qed

lemma empty_slots_take:
  assumes "chunk_wf (cll_head l)" and "cll_lookup l (b, i) = Some p"
  shows "empty_slots (store_slot b i None l) = insert (b, i) (empty_slots l)"
    and "(b, i) \<notin> empty_slots l"
    and "card (dom (cll_lookup l)) = Suc (card (dom (cll_lookup (store_slot b i None l))))"
    and "cll_lookup (store_slot b i None l) = (cll_lookup l)((b, i) := None)"
    and "chunk_wf (cll_head (store_slot b i None l))"
proof -
  have "b \<le> chunk_addr (cll_head l)" "i < CHUNK_SIZE"
    using chunk_slot_addr [OF assms(1), of b i p] assms(2) by (simp_all add: cll_lookup_def)
  note st = store_slot_facts [OF assms(1) this] and bi = this
  show "empty_slots (store_slot b i None l) = insert (b, i) (empty_slots l)"
    using bi by (auto simp: empty_slots_def st cll_slots_def)
  show "(b, i) \<notin> empty_slots l" using assms(2) by (auto simp: empty_slots_def)
  show "card (dom (cll_lookup l)) = Suc (card (dom (cll_lookup (store_slot b i None l))))"
    unfolding st dom_fun_upd
    using assms(2) card_Suc_Diff1 [OF finite_dom_cll [OF assms(1)], of "(b, i)"] by (simp add: domIff)
  show "cll_lookup (store_slot b i None l) = (cll_lookup l)((b, i) := None)"
    and "chunk_wf (cll_head (store_slot b i None l))" by (simp_all only: st)
qed

text \<open>One of several tasks, and the others.\<close>

lemma mset_concat_pick:
  assumes "a < length ts"
  shows "\<exists>Q. \<forall>t. mset (concat (map (\<lambda>j. f j (ts[a := t] ! j)) [0..<length ts])) = mset (f a t) + Q"
proof (intro exI allI)
  fix t
  have sums: "mset (concat (map g [0..<n])) = (\<Sum>j\<in>{0..<n}. mset (g j))" for g :: "nat \<Rightarrow> 'b list" and n
    by (simp add: mset_concat comp_def interv_sum_list_conv_sum_set_nat)
  have "(\<Sum>j\<in>{0..<length ts} - {a}. mset (f j (ts[a := t] ! j))) =
        (\<Sum>j\<in>{0..<length ts} - {a}. mset (f j (ts ! j)))"
    by (rule sum.cong) auto
  then show "mset (concat (map (\<lambda>j. f j (ts[a := t] ! j)) [0..<length ts])) =
      mset (f a t) + (\<Sum>j\<in>{0..<length ts} - {a}. mset (f j (ts ! j)))"
    using assms sum.remove [of "{0..<length ts}" a "\<lambda>j. mset (f j (ts[a := t] ! j))"] by (simp add: sums)
qed

lemma concat_pick: "i < length pcs \<Longrightarrow> \<exists>Q. \<forall>pc. mset (concat (map f (pcs[i := pc]))) = mset (f pc) + Q"
  by (rule exI [of _ "mset (concat (map f (take i pcs))) + mset (concat (map f (drop (Suc i) pcs)))"])
    (simp add: upd_conv_take_nth_drop)

lemma weight_pick: "i < length pcs \<Longrightarrow> \<exists>W. \<forall>pc. weight f (pcs[i := pc]) = f pc + W"
  by (rule exI [of _ "weight f (take i pcs) + weight f (drop (Suc i) pcs)"])
    (simp add: upd_conv_take_nth_drop weight_def)

lemma push_slots:
  "i < CHUNK_SIZE \<Longrightarrow> mset (pc_slots (InsPush v b i)) = add_mset (b, i) (mset (pc_slots (InsPush v b (Suc i))))"
  by (simp only: pc_slots.simps upt_conv_Cons list.map mset.simps)

text \<open>A task of \<open>par_retain\<close>.\<close>

lemma retainer_step:
  assumes run: "retainer_advance a keep t l = Some (e, t', l')" and wf: "chunk_wf (cll_head l)"
    and slots: "mset (free_entries l) + mset (retainer_slots a t) + R = mset_set (empty_slots l)"
    and count: "estimated_len l + of_nat U = of_nat (card (dom (cll_lookup l)) + D + retainer_overcounted t)"
  shows "chunk_wf (cll_head l')" and "chunk_addr (cll_head l') = chunk_addr (cll_head l)"
    and "event_change e (cll_lookup l) (cll_lookup l')"
    and "mset (free_entries l') + mset (retainer_slots a t') + R = mset_set (empty_slots l')"
    and "estimated_len l' + of_nat U = of_nat (card (dom (cll_lookup l')) + D + retainer_overcounted t')"
proof -
  have "chunk_wf (cll_head l') \<and> chunk_addr (cll_head l') = chunk_addr (cll_head l) \<and>
    event_change e (cll_lookup l) (cll_lookup l') \<and>
    mset (free_entries l') + mset (retainer_slots a t') + R = mset_set (empty_slots l') \<and>
    estimated_len l' + of_nat U = of_nat (card (dom (cll_lookup l')) + D + retainer_overcounted t')"
  proof (cases t)
    case (RtLoad i)
    then show ?thesis using assms by (auto split: if_splits option.splits)
  next
    case (RtSwap i p)
    show ?thesis
    proof (cases "cll_lookup l (a, i) = Some p")
      case True
      note take = empty_slots_take [OF wf True]
      have "l' = store_slot a i None l" "e = Some (Take (a, i) p)" "t' = RtCount i"
        using run RtSwap True by auto
      then show ?thesis
        using slots count take True by (simp add: RtSwap)
    qed (use assms RtSwap in auto)
  next
    case (RtCount i)
    then show ?thesis using assms by (auto simp: algebra_simps)
  next
    case (RtPush i)
    then show ?thesis using assms by (auto simp: ac_simps)
  qed
  then show "chunk_wf (cll_head l')" and "chunk_addr (cll_head l') = chunk_addr (cll_head l)"
    and "event_change e (cll_lookup l) (cll_lookup l')"
    and "mset (free_entries l') + mset (retainer_slots a t') + R = mset_set (empty_slots l')"
    and "estimated_len l' + of_nat U = of_nat (card (dom (cll_lookup l')) + D + retainer_overcounted t')"
    by simp_all
qed

text \<open>Putting a chunk in front.\<close>

lemma grow_facts:
  assumes "chunk_wf (cll_head l)"
  defines "l' \<equiv> l\<lparr>cll_head := Chunk (Suc (chunk_addr (cll_head l))) initialize_values (Some (cll_head l))\<rparr>"
  shows "cll_lookup l' = cll_lookup l" and "chunk_wf (cll_head l')"
    and "mset_set (empty_slots l') =
      mset_set (empty_slots l) + mset (map (Pair (Suc (chunk_addr (cll_head l)))) [0..<CHUNK_SIZE])"
proof -
  let ?a = "Suc (chunk_addr (cll_head l))"
  have "cll_expand l = l'\<lparr>free_entries := free_entries l @ map (Pair ?a) [0..<CHUNK_SIZE]\<rparr>"
    by (simp add: cll_expand_def l'_def Let_def)
  with cll_lookup_expand [OF assms(1)] show look: "cll_lookup l' = cll_lookup l" by simp
  show "chunk_wf (cll_head l')" using assms(1) by (simp add: l'_def initialize_values_def)
  have "cll_slots l' = cll_slots l \<union> {?a} \<times> {..<CHUNK_SIZE}" by (auto simp: cll_slots_def l'_def)
  moreover have "dom (cll_lookup l) \<inter> {?a} \<times> {..<CHUNK_SIZE} = {}"
    using cll_lookup_slots [OF assms(1)] by (auto simp: cll_slots_def)
  ultimately have "empty_slots l' = empty_slots l \<union> {?a} \<times> {..<CHUNK_SIZE}"
    by (auto simp: empty_slots_def look)
  moreover have "empty_slots l \<inter> {?a} \<times> {..<CHUNK_SIZE} = {}"
    by (auto simp: empty_slots_def cll_slots_def)
  moreover have "mset (map (Pair ?a) [0..<CHUNK_SIZE]) = mset_set ({?a} \<times> {..<CHUNK_SIZE})"
  proof -
    have "distinct (map (Pair ?a) [0..<CHUNK_SIZE])" by (simp add: distinct_map inj_on_def)
    moreover have "set (map (Pair ?a) [0..<CHUNK_SIZE]) = {?a} \<times> {..<CHUNK_SIZE}" by auto
    ultimately show ?thesis by (metis mset_set_set)
  qed
  ultimately show "mset_set (empty_slots l') = mset_set (empty_slots l) + mset (map (Pair ?a) [0..<CHUNK_SIZE])"
    by (simp add: mset_set_Union)
qed

lemma ll_advance_step:
  assumes run: "ll_advance a keep pc l = Some (e, pc', l')" and wf: "chunk_wf (cll_head l)"
    and slots: "slots_part R pc l" and count: "count_part U D pc l"
  shows "chunk_wf (cll_head l')" and "event_change e (cll_lookup l) (cll_lookup l')"
    and "slots_part R pc' l'" and "count_part U D pc' l'"
proof -
  have "chunk_wf (cll_head l') \<and> event_change e (cll_lookup l) (cll_lookup l') \<and>
    slots_part R pc' l' \<and> count_part U D pc' l'"
  proof (cases pc)
    case (InsPop v)
    then show ?thesis
      using assms by (auto simp: slots_part_def count_part_def split: list.splits)
  next
    case (InsExpand v old_head)
    show ?thesis
    proof (cases "chunk_addr (cll_head l) = old_head")
      case True
      note grow = grow_facts [OF wf]
      have "l' = l\<lparr>cll_head := Chunk (Suc (chunk_addr (cll_head l))) initialize_values (Some (cll_head l))\<rparr>"
        "e = None" "pc' = InsPush v (Suc (chunk_addr (cll_head l))) 0"
        using run InsExpand True by (auto simp: Let_def)
      then show ?thesis
        using slots count grow by (simp add: InsExpand slots_part_def count_part_def)
    qed (use assms InsExpand in \<open>auto simp: slots_part_def count_part_def\<close>)
  next
    case (InsPush v b i)
    then show ?thesis
      using assms push_slots [of i v b]
      by (auto simp: slots_part_def count_part_def ac_simps simp del: pc_slots.simps(1) split: if_splits)
        (simp add: slots_part_def)
  next
    case (InsStore v b i)
    have new: "e = Some (Put (b, i) v)" "pc' = InsCount v b i" "l' = store_slot b i (Some v) l"
      using run InsStore by auto
    have "(b, i) \<in># mset_set (empty_slots l)"
      using slots unfolding slots_part_def InsStore by (metis pc_slots.simps(2) union_iff list.set_intros(1) set_mset_mset)
    then have bi: "(b, i) \<in> empty_slots l" by simp
    note put = empty_slots_put [OF wf bi, of v]
    have "mset_set (empty_slots l) = add_mset (b, i) (mset_set (empty_slots l - {(b, i)}))"
      using bi by (intro mset_set.remove) simp_all
    then show ?thesis
      using slots count put bi by (auto simp: new InsStore slots_part_def count_part_def empty_slots_def algebra_simps)
  next
    case (RmSwap it)
    show ?thesis
    proof (cases "cll_lookup l (item_key it) = Some (item_v it)")
      case True
      note take = empty_slots_take [OF wf True [unfolded item_key_def]]
      have "l' = store_slot (item_from it) (item_idx it) None l" "e = Some (Take (item_key it) (item_v it))"
        "pc' = RmCount (item_from it) (item_idx it)" using run RmSwap True by auto
      then show ?thesis
        using slots count take True by (simp add: RmSwap slots_part_def count_part_def item_key_def)
    qed (use assms RmSwap in \<open>auto simp: slots_part_def count_part_def\<close>)
  next
    case (Iterating cs seen)
    then show ?thesis using assms by (auto simp: slots_part_def count_part_def split: if_splits)
  next
    case (Retaining ts)
    show ?thesis
    proof (cases "\<forall>t\<in>set ts. t = RtLoad CHUNK_SIZE")
      case True
      have "retainer_slots j (ts ! j) = []" if "j < length ts" for j
        using True nth_mem [OF that] by (metis retainer_slots.simps(3))
      then have none: "pc_slots pc = []" "pc_overcounted pc = 0"
        using True by (auto simp: Retaining weight_def)
      have "pc' = LlIdle" "l' = l" "e = None" "pc_uncounted pc = 0" using run True by (auto simp: Retaining)
      then show ?thesis using wf slots count by (simp add: slots_part_def count_part_def none)
    next
      case False
      then obtain t where a: "a < length ts" and t: "retainer_advance a keep (ts ! a) l = Some (e, t, l')"
        and pc': "pc' = Retaining (ts[a := t])"
        using run by (auto simp: Retaining split: if_splits option.splits)
      obtain Q where "\<forall>t. mset (concat (map (\<lambda>j. retainer_slots j (ts[a := t] ! j)) [0..<length ts])) =
        mset (retainer_slots a t) + Q" using mset_concat_pick [OF a] by blast
      from this [rule_format, of t] this [rule_format, of "ts ! a"]
      have Q: "mset (pc_slots pc') = mset (retainer_slots a t) + Q"
        "mset (pc_slots pc) = mset (retainer_slots a (ts ! a)) + Q" by (simp_all add: Retaining pc')
      obtain W where "\<forall>t. weight retainer_overcounted (ts[a := t]) = retainer_overcounted t + W"
        using weight_pick [OF a] by blast
      from this [rule_format, of t] this [rule_format, of "ts ! a"]
      have W: "pc_overcounted pc' = retainer_overcounted t + W"
        "pc_overcounted pc = retainer_overcounted (ts ! a) + W" by (simp_all add: Retaining pc')
      have none: "pc_uncounted pc = 0" "pc_uncounted pc' = 0" by (simp_all add: Retaining pc')
      have "mset (free_entries l) + mset (retainer_slots a (ts ! a)) + (Q + R) = mset_set (empty_slots l)"
        "estimated_len l + of_nat U = of_nat (card (dom (cll_lookup l)) + (D + W) + retainer_overcounted (ts ! a))"
        using slots count none(1) by (simp_all add: slots_part_def count_part_def Q W ac_simps)
      note step = retainer_step [OF t wf this]
      from step(4,5) have "slots_part R pc' l'" "count_part U D pc' l'"
        using none(2) by (simp_all add: slots_part_def count_part_def Q W ac_simps)
      with step show ?thesis by simp
    qed
  qed (use assms in \<open>auto simp: slots_part_def count_part_def algebra_simps\<close>)
  then show "chunk_wf (cll_head l')" and "event_change e (cll_lookup l) (cll_lookup l')"
    and "slots_part R pc' l'" and "count_part U D pc' l'" by simp_all
qed

subsection \<open>The system\<close>

text \<open>
  Each empty slot is in the free queue or held by one thread; the estimate differs from the number
  of stored pointers by what threads have yet to count.
\<close>

definition ll_inv :: "'p ll_sys \<Rightarrow> bool" where
  "ll_inv s \<longleftrightarrow> (let l = ll_list s; pcs = ll_pcs s in chunk_wf (cll_head l) \<and>
     mset (free_entries l @ concat (map pc_slots pcs)) = mset_set (empty_slots l) \<and>
     estimated_len l + of_nat (weight pc_uncounted pcs) =
       of_nat (card (dom (cll_lookup l)) + weight pc_overcounted pcs))"

text \<open>The invariant, seen from one thread.\<close>

definition thread_view :: "nat \<Rightarrow> 'p ll_sys \<Rightarrow> slot_key multiset \<Rightarrow> nat \<Rightarrow> nat \<Rightarrow> bool" where
  "thread_view i s R U D \<longleftrightarrow> (\<forall>l pc its. ll_inv \<lparr>ll_list = l, ll_pcs = (ll_pcs s)[i := pc], ll_items = its\<rparr> \<longleftrightarrow>
     chunk_wf (cll_head l) \<and> slots_part R pc l \<and> count_part U D pc l)"

lemma ll_inv_thread:
  assumes "i < length (ll_pcs s)"
  obtains R U D where "thread_view i s R U D"
proof -
  obtain R where R: "\<forall>pc. mset (concat (map pc_slots ((ll_pcs s)[i := pc]))) = mset (pc_slots pc) + R"
    using concat_pick [OF assms, of pc_slots] by blast
  obtain U where U: "\<forall>pc. weight pc_uncounted ((ll_pcs s)[i := pc]) = pc_uncounted pc + U"
    using weight_pick [OF assms, of pc_uncounted] by blast
  obtain D where D: "\<forall>pc. weight pc_overcounted ((ll_pcs s)[i := pc]) = pc_overcounted pc + D"
    using weight_pick [OF assms, of pc_overcounted] by blast
  have "thread_view i s R U D"
    unfolding thread_view_def
  proof (intro allI)
    fix l pc its
    show "ll_inv \<lparr>ll_list = l, ll_pcs = (ll_pcs s)[i := pc], ll_items = its\<rparr> \<longleftrightarrow>
      chunk_wf (cll_head l) \<and> slots_part R pc l \<and> count_part U D pc l"
      using R [rule_format, of pc] U [rule_format, of pc] D [rule_format, of pc]
      by (simp add: ll_inv_def slots_part_def count_part_def Let_def add.assoc add.commute add.left_commute)
  qed
  then show thesis by (rule that)
qed

lemma thread_viewD:
  assumes "thread_view i s R U D"
  shows "ll_inv (s\<lparr>ll_pcs := (ll_pcs s)[i := pc]\<rparr>) \<longleftrightarrow>
      chunk_wf (cll_head (ll_list s)) \<and> slots_part R pc (ll_list s) \<and> count_part U D pc (ll_list s)"
    and "ll_inv \<lparr>ll_list = l, ll_pcs = (ll_pcs s)[i := pc], ll_items = its\<rparr> \<longleftrightarrow>
      chunk_wf (cll_head l) \<and> slots_part R pc l \<and> count_part U D pc l"
    and "ll_inv s \<longleftrightarrow> chunk_wf (cll_head (ll_list s)) \<and> slots_part R (ll_pcs s ! i) (ll_list s) \<and>
      count_part U D (ll_pcs s ! i) (ll_list s)"
proof -
  note v = assms [unfolded thread_view_def, rule_format]
  have eq: "s\<lparr>ll_pcs := x\<rparr> = \<lparr>ll_list = ll_list s, ll_pcs = x, ll_items = ll_items s\<rparr>" for x
    by (cases s) simp
  show "ll_inv (s\<lparr>ll_pcs := (ll_pcs s)[i := pc]\<rparr>) \<longleftrightarrow>
      chunk_wf (cll_head (ll_list s)) \<and> slots_part R pc (ll_list s) \<and> count_part U D pc (ll_list s)"
    unfolding eq by (rule v)
  show "ll_inv s \<longleftrightarrow> chunk_wf (cll_head (ll_list s)) \<and> slots_part R (ll_pcs s ! i) (ll_list s) \<and>
      count_part U D (ll_pcs s ! i) (ll_list s)"
    using v [of "ll_list s" "ll_pcs s ! i" "ll_items s"] by (cases s) simp
qed (rule assms [unfolded thread_view_def, rule_format])

lemma new_tasks_hold_nothing:
  "pc_slots (Retaining (replicate n (RtLoad i))) = []" "pc_overcounted (Retaining (replicate n (RtLoad i))) = 0"
  by (simp_all add: weight_def)

lemma start_holds_nothing:
  "pc_slots (ll_start call l) = [] \<and> pc_uncounted (ll_start call l) = 0 \<and> pc_overcounted (ll_start call l) = 0"
proof (cases call)
  case CallRetain
  show ?thesis
    unfolding CallRetain ll_start.simps(4) by (intro conjI new_tasks_hold_nothing) simp
qed simp_all

lemma ll_inv_step:
  assumes "ll_step s e t" and "ll_inv s"
  shows "ll_inv t \<and> event_change e (cll_lookup (ll_list s)) (cll_lookup (ll_list t))"
  using assms(1)
proof cases
  case (start i call)
  obtain R U D where v: "thread_view i s R U D" by (rule ll_inv_thread [OF start(3)])
  have "slots_part R (ll_start call (ll_list s)) (ll_list s)" "count_part U D (ll_start call (ll_list s)) (ll_list s)"
    "chunk_wf (cll_head (ll_list s))"
    using assms(2) unfolding thread_viewD(3) [OF v] start(4)
    by (simp_all add: slots_part_def count_part_def start_holds_nothing)
  then have "ll_inv t" by (simp only: start(2) thread_viewD(1) [OF v])
  then show ?thesis by (simp add: start(1,2))
next
  case (advance i a keep pc l)
  obtain R U D where v: "thread_view i s R U D" by (rule ll_inv_thread [OF advance(2)])
  have parts: "chunk_wf (cll_head (ll_list s))" "slots_part R (ll_pcs s ! i) (ll_list s)"
    "count_part U D (ll_pcs s ! i) (ll_list s)" using assms(2) thread_viewD(3) [OF v] by simp_all
  show ?thesis using ll_advance_step [OF advance(3) parts] by (simp add: advance(1) thread_viewD(2) [OF v])
qed

lemma ll_inv_init: "ll_inv (ll_init n)"
proof -
  have "set (free_entries (cll_new :: 'a cll)) = empty_slots (cll_new :: 'a cll)"
    using cll_inv_new [where 'a = 'a] unfolding cll_inv_alt empty_slots_def by blast
  moreover have "distinct (free_entries (cll_new :: 'a cll))" using cll_inv_new [where 'a = 'a] unfolding cll_inv_alt by blast
  ultimately have "mset_set (empty_slots (cll_new :: 'a cll)) = mset (free_entries (cll_new :: 'a cll))"
    by (metis mset_set_set)
  moreover have "chunk_wf (cll_head (cll_new :: 'a cll))" "estimated_len (cll_new :: 'a cll) = 0"
    using cll_inv_new [where 'a = 'a] unfolding cll_inv_def by (blast, simp add: cll_new_def)
  ultimately show ?thesis
    by (simp add: ll_inv_def ll_init_def weight_replicate cll_lookup_new)
qed

text \<open>The map a trace leaves behind.\<close>

fun apply_event :: "'p ll_event \<Rightarrow> (slot_key \<Rightarrow> 'p option) \<Rightarrow> slot_key \<Rightarrow> 'p option" where
  "apply_event (Put k p) m = m(k \<mapsto> p)"
| "apply_event (Take k p) m = m(k := None)"

inductive map_trace :: "'p ll_event list \<Rightarrow> (slot_key \<Rightarrow> 'p option) \<Rightarrow> bool" where
  empty: "map_trace [] Map.empty"
| event: "map_trace es m \<Longrightarrow> event_change (Some e) m m' \<Longrightarrow> map_trace (es @ [e]) m'"

lemma ll_run_inv: "ll_run n es s \<Longrightarrow> ll_inv s \<and> map_trace es (cll_lookup (ll_list s))"
proof (induction rule: ll_run.induct)
  case init
  then show ?case by (simp add: ll_inv_init) (simp add: ll_init_def cll_lookup_new map_trace.empty)
next
  case (step es s e t)
  then show ?case
    using ll_inv_step [OF step(2)] by (cases e) (auto intro: map_trace.event)
qed

text \<open>Which insertions a trace holds, and who made them.\<close>

fun puts :: "'p ll_event list \<Rightarrow> (slot_key \<times> 'p) list" where
  "puts [] = []"
| "puts (Put k p # es) = (k, p) # puts es"
| "puts (Take k p # es) = puts es"

lemma puts_append [simp]: "puts (es @ fs) = puts es @ puts fs"
  by (induction es rule: puts.induct) simp_all

lemma map_trace_put: "map_trace es m \<Longrightarrow> m k = Some p \<Longrightarrow> (k, p) \<in> set (puts es)"
proof (induction arbitrary: k p rule: map_trace.induct)
  case (event es m e m')
  then show ?case by (cases e) (auto split: if_splits)
qed simp

abbreviation item_entry :: "'p cll_item \<Rightarrow> slot_key \<times> 'p" where
  "item_entry it \<equiv> (item_key it, item_v it)"

abbreviation unreturned :: "'p ll_sys \<Rightarrow> 'p cll_item list" where
  "unreturned s \<equiv> concat (map returned_item (ll_pcs s))"

lemma ll_advance_put:
  assumes "ll_advance a keep pc l = Some (e, pc', l')"
  shows "map item_entry (returned_item pc') = puts (case e of Some x \<Rightarrow> [x] | None \<Rightarrow> [])"
proof (cases pc)
  case (Retaining ts)
  then obtain t where "pc' = LlIdle \<and> e = None \<or> pc' = Retaining (ts[a := t]) \<and>
    retainer_advance a keep (ts ! a) l = Some (e, t, l')"
    using assms by (auto split: if_splits option.splits)
  then show ?thesis by (cases "ts ! a") (auto split: if_splits)
qed (use assms in \<open>auto simp: Let_def item_key_def split: list.splits if_splits\<close>)

lemma ll_step_puts:
  assumes "ll_step s e t"
    and "mset (puts es) = mset (map item_entry (ll_items s)) + mset (map item_entry (unreturned s))"
  shows "mset (puts (es @ (case e of Some x \<Rightarrow> [x] | None \<Rightarrow> []))) =
    mset (map item_entry (ll_items t)) + mset (map item_entry (unreturned t))"
  using assms(1)
proof cases
  case (start i call)
  obtain Q where Q: "\<forall>pc. mset (concat (map returned_item ((ll_pcs s)[i := pc]))) = mset (returned_item pc) + Q"
    using concat_pick [OF start(3), of returned_item] by blast
  have "mset (unreturned s) = Q"
    using Q [rule_format, of "ll_pcs s ! i"] unfolding list_update_id by (simp add: start(4))
  moreover have "returned_item (ll_start call (ll_list s)) = []" by (cases call) simp_all
  then have "mset (unreturned t) = Q" using Q by (simp add: start(2))
  ultimately show ?thesis using assms(2) by (simp add: start(1,2))
next
  case (advance i a keep pc l)
  obtain Q where Q: "\<forall>pc. mset (concat (map returned_item ((ll_pcs s)[i := pc]))) = mset (returned_item pc) + Q"
    using concat_pick [OF advance(2), of returned_item] by blast
  have "mset (unreturned s) = mset (returned_item (ll_pcs s ! i)) + Q"
    using Q [rule_format, of "ll_pcs s ! i"] by simp
  moreover have "mset (unreturned t) = mset (returned_item pc) + Q" using Q by (simp add: advance(1))
  ultimately show ?thesis
    using assms(2) ll_advance_put [OF advance(3), symmetric] by (simp add: advance(1) ac_simps)
qed

lemma ll_run_puts:
  "ll_run n es s \<Longrightarrow> mset (puts es) = mset (map item_entry (ll_items s)) + mset (map item_entry (unreturned s))"
proof (induction rule: ll_run.induct)
  case init
  have "concat (map returned_item (replicate n LlIdle)) = []" by simp
  then show ?case by (simp add: ll_init_def)
qed (rule ll_step_puts)

end
