(* ===== verification/Chunked_LL_Runs.thy ===== *)
theory Chunked_LL_Runs
  imports Chunked_LL_Threads
begin

text \<open>
  Runs of the threads of \<open>Chunked_LL_Threads\<close>: what a walk sees while others change the list, how the
  sequential definitions of \<open>Chunked_LL\<close> are the runs of a thread that is alone, and the properties
  of the list under concurrency.
\<close>

subsection \<open>Walks\<close>

text \<open>A run in which something holds all the time.\<close>

inductive ll_while :: "('p ll_sys \<Rightarrow> bool) \<Rightarrow> 'p ll_sys \<Rightarrow> 'p ll_sys \<Rightarrow> bool" for P where
  here: "P s \<Longrightarrow> ll_while P s s"
| more: "ll_while P s t \<Longrightarrow> ll_step t e u \<Longrightarrow> P u \<Longrightarrow> ll_while P s u"

lemma ll_while_holds: "ll_while P s t \<Longrightarrow> P t"
  by (auto elim: ll_while.cases)

lemma ll_while_inv: "ll_while P s t \<Longrightarrow> ll_inv s \<Longrightarrow> ll_inv t"
  by (induction rule: ll_while.induct) (use ll_inv_step in blast)+

text \<open>A walk that has passed a slot has seen what was in it all the time.\<close>

fun has_seen :: "slot_key \<Rightarrow> 'p \<Rightarrow> 'p ll_pc \<Rightarrow> bool" where
  "has_seen k p (Iterating cs seen) \<longleftrightarrow> fst k < length cs \<and> (snd k < cs ! fst k \<longrightarrow> p \<in> set seen)"
| "has_seen k p _ \<longleftrightarrow> True"

lemma has_seen_advance:
  assumes run: "ll_advance a keep pc l = Some (e, pc', l')" and k: "cll_lookup l k = Some p"
    and seen: "has_seen k p pc"
  shows "has_seen k p pc'"
proof (cases pc)
  case (Iterating cs sn)
  show ?thesis
  proof (cases "\<forall>i\<in>set cs. i = CHUNK_SIZE")
    case False
    then have a: "a < length cs" and pc': "pc' = Iterating (cs[a := Suc (cs ! a)])
        (case cll_lookup l (a, cs ! a) of Some p \<Rightarrow> sn @ [p] | None \<Rightarrow> sn)"
      using run by (auto simp: Iterating split: if_splits)
    have mono: "set sn \<subseteq> set (case cll_lookup l (a, cs ! a) of Some p \<Rightarrow> sn @ [p] | None \<Rightarrow> sn)"
      by (auto split: option.split)
    show ?thesis
    proof (cases "k = (a, cs ! a)")
      case True
      then show ?thesis using a k by (simp add: pc')
    next
      case neq: False
      then show ?thesis
        using seen mono a by (cases k) (auto simp: pc' Iterating nth_list_update less_Suc_eq)
    qed
  qed (use run Iterating in auto)
next
  case (Retaining ts)
  then show ?thesis using run by (auto split: if_splits option.splits)
qed (use run in \<open>auto simp: Let_def split: list.splits if_splits\<close>)

lemma has_seen_start:
  assumes "chunk_wf (cll_head l)" and "cll_lookup l k = Some p"
  shows "has_seen k p (ll_start call l)"
proof (cases call)
  case CallIter
  have "fst k \<le> chunk_addr (cll_head l)"
    using chunk_slot_addr [OF assms(1), of "fst k" "snd k" p] assms(2) by (simp add: cll_lookup_def)
  then show ?thesis by (simp add: CallIter del: replicate.simps)
qed simp_all

lemma walk_has_seen:
  assumes "ll_while (\<lambda>s. cll_lookup (ll_list s) k = Some p) s t" and "ll_inv s"
    and "i < length (ll_pcs s)" and "has_seen k p (ll_pcs s ! i)"
  shows "i < length (ll_pcs t) \<and> has_seen k p (ll_pcs t ! i)"
  using assms
proof (induction rule: ll_while.induct)
  case (more s t e u)
  then have IH: "i < length (ll_pcs t)" "has_seen k p (ll_pcs t ! i)" by simp_all
  have k: "cll_lookup (ll_list t) k = Some p" using ll_while_holds [OF more(1)] .
  have wf: "chunk_wf (cll_head (ll_list t))"
    using ll_while_inv [OF more(1) more(5)] by (simp add: ll_inv_def Let_def)
  from more(2) show ?case
  proof cases
    case (start j call)
    then show ?thesis using IH has_seen_start [OF wf k] by (simp add: nth_list_update)
  next
    case (advance j a keep pc l)
    then show ?thesis using IH has_seen_advance [OF advance(3) k] by (auto simp: nth_list_update)
  qed
qed simp

subsection \<open>A thread that runs alone\<close>

inductive ll_solo :: "nat \<Rightarrow> 'p ll_sys \<Rightarrow> 'p ll_sys \<Rightarrow> bool" for i where
  stop: "ll_solo i s s"
| go: "i < length (ll_pcs s) \<Longrightarrow> ll_advance a keep (ll_pcs s ! i) (ll_list s) = Some (e, pc, l) \<Longrightarrow>
     ll_solo i \<lparr>ll_list = l, ll_pcs = (ll_pcs s)[i := pc], ll_items = returned_item (ll_pcs s ! i) @ ll_items s\<rparr> t \<Longrightarrow>
     ll_solo i s t"

text \<open>The state in which thread \<open>i\<close> stands at \<open>pc\<close>.\<close>

abbreviation at_pc :: "nat \<Rightarrow> 'p ll_pc list \<Rightarrow> 'p ll_pc \<Rightarrow> 'p cll \<Rightarrow> 'p cll_item list \<Rightarrow> 'p ll_sys" where
  "at_pc i pcs pc l its \<equiv> \<lparr>ll_list = l, ll_pcs = pcs[i := pc], ll_items = its\<rparr>"

lemma solo_go:
  "i < length pcs \<Longrightarrow> ll_advance a keep pc l = Some (e, pc', l') \<Longrightarrow>
     ll_solo i (at_pc i pcs pc' l' (returned_item pc @ its)) t \<Longrightarrow> ll_solo i (at_pc i pcs pc l its) t"
  by (rule ll_solo.go [of i "at_pc i pcs pc l its" a keep e pc' l' t]) simp_all

text \<open>The slots of a new chunk are pushed one after the other.\<close>

lemma solo_push:
  assumes "i < length pcs" and "k \<le> CHUNK_SIZE"
    and "ll_solo i (at_pc i pcs (InsPop v) (l\<lparr>free_entries := free_entries l @ map (Pair b) [k..<CHUNK_SIZE]\<rparr>) its) t"
  shows "ll_solo i (at_pc i pcs (InsPush v b k) l its) t"
  using assms(2,3)
proof (induction "CHUNK_SIZE - k" arbitrary: k l)
  case 0
  then show ?case by (intro solo_go [OF assms(1), of 0 True "InsPush v b k" l None "InsPop v" l]) simp_all
next
  case (Suc n)
  have "ll_solo i (at_pc i pcs (InsPush v b (Suc k)) (push_free (b, k) l) its) t"
    using Suc(2-4) by (intro Suc(1)) (simp_all add: upt_conv_Cons)
  then show ?case
    using Suc(2) by (intro solo_go [OF assms(1), of 0 True "InsPush v b k" l None "InsPush v b (Suc k)" "push_free (b, k) l"]) simp_all
qed

lemma solo_insert_pop:
  assumes "i < length pcs" and "free_entries l = (b, k) # rest" and "cll_insert v l = (it, l')"
  shows "ll_solo i (at_pc i pcs (InsPop v) l its) (at_pc i pcs LlIdle l' (it # its))"
proof -
  have l': "it = \<lparr>item_v = v, item_from = b, item_idx = k\<rparr>"
    "l' = l\<lparr>free_entries := rest, cll_head := chunk_store (cll_head l) b k (Some v), estimated_len := estimated_len l + 1\<rparr>"
    using assms(2,3) by (simp_all add: cll_insert.simps [of v l])
  show ?thesis
    unfolding l'
    by (rule solo_go [OF assms(1), of 0 True]; simp add: assms(2))
      (rule solo_go [OF assms(1), of 0 True]; simp;
       rule solo_go [OF assms(1), of 0 True]; simp; simp add: ll_solo.stop)
qed

lemma solo_insert:
  assumes "i < length pcs" and "cll_insert v l = (it, l')"
  shows "ll_solo i (at_pc i pcs (InsPop v) l its) (at_pc i pcs LlIdle l' (it # its))"
proof (cases "free_entries l")
  case (Cons e rest)
  then show ?thesis using solo_insert_pop [OF assms(1) _ assms(2)] by (cases e) auto
next
  case Nil
  let ?l = "cll_expand l"
  have ins: "cll_insert v ?l = (it, l')" using assms(2) Nil by (simp add: cll_insert.simps [of v l])
  obtain b k rest where free: "free_entries ?l = (b, k) # rest"
  proof (cases "free_entries ?l")
    case Nil
    moreover have "free_entries ?l \<noteq> []" by (simp add: cll_expand_def Let_def)
    ultimately show ?thesis by simp
  qed auto
  note pop = solo_insert_pop [OF assms(1) free ins, of its]
  let ?a = "Suc (chunk_addr (cll_head l))"
  let ?g = "l\<lparr>cll_head := Chunk ?a initialize_values (Some (cll_head l))\<rparr>"
  have eq: "?l = ?g\<lparr>free_entries := free_entries ?g @ map (Pair ?a) [0..<CHUNK_SIZE]\<rparr>"
    by (simp add: cll_expand_def Let_def)
  have "ll_solo i (at_pc i pcs (InsPush v ?a 0) ?g its) (at_pc i pcs LlIdle l' (it # its))"
    by (rule solo_push [OF assms(1)]) (use pop in \<open>simp_all only: eq le0\<close>)
  then have "ll_solo i (at_pc i pcs (InsExpand v (chunk_addr (cll_head l))) l its) (at_pc i pcs LlIdle l' (it # its))"
    by (intro solo_go [OF assms(1), of 0 True "InsExpand v (chunk_addr (cll_head l))" l None "InsPush v ?a 0" ?g]) (simp_all add: Let_def)
  then have "ll_solo i (at_pc i pcs (InsGrow v) l its) (at_pc i pcs LlIdle l' (it # its))"
    by (intro solo_go [OF assms(1), of 0 True "InsGrow v" l None "InsExpand v (chunk_addr (cll_head l))" l]) simp_all
  then show ?thesis
    by (intro solo_go [OF assms(1), of 0 True "InsPop v" l None "InsGrow v" l]) (simp_all add: Nil)
qed

lemma solo_remove:
  assumes "i < length pcs"
  shows "ll_solo i (at_pc i pcs (RmSwap it) l its) (at_pc i pcs LlIdle (cll_remove it l) its)"
proof (cases "cll_lookup l (item_key it) = Some (item_v it)")
  case True
  let ?b = "item_from it" and ?k = "item_idx it"
  let ?l1 = "store_slot ?b ?k None l"
  let ?l2 = "?l1\<lparr>estimated_len := estimated_len ?l1 - 1\<rparr>"
  have "cll_remove it l = push_free (?b, ?k) ?l2"
    using True by (simp add: cll_remove_def Let_def cll_lookup_def item_key_def)
  then have "ll_solo i (at_pc i pcs (RmPush ?b ?k) ?l2 its) (at_pc i pcs LlIdle (cll_remove it l) its)"
    by (intro solo_go [OF assms, of 0 True "RmPush ?b ?k" ?l2 None LlIdle "push_free (?b, ?k) ?l2"]) (simp_all add: ll_solo.stop)
  then have "ll_solo i (at_pc i pcs (RmCount ?b ?k) ?l1 its) (at_pc i pcs LlIdle (cll_remove it l) its)"
    by (intro solo_go [OF assms, of 0 True "RmCount ?b ?k" ?l1 None "RmPush ?b ?k" ?l2]) simp_all
  then show ?thesis
    by (intro solo_go [OF assms, of 0 True "RmSwap it" l "Some (Take (item_key it) (item_v it))" "RmCount ?b ?k" ?l1])
      (simp_all add: True)
next
  case False
  then have "cll_remove it l = l" by (simp add: cll_remove_def Let_def cll_lookup_def item_key_def)
  then show ?thesis
    using False by (intro solo_go [OF assms, of 0 True "RmSwap it" l None LlIdle l]) (simp_all add: ll_solo.stop)
qed

text \<open>\<open>par_iter\<close> alone, when its tasks run one after the other, the one of the head first.\<close>

lemma solo_iter_chunk:
  assumes "i < length pcs" and "a < length cs" and "length vs = CHUNK_SIZE"
    and "\<And>j. j < CHUNK_SIZE \<Longrightarrow> cll_lookup l (a, j) = vs ! j" and "cs ! a \<le> CHUNK_SIZE"
    and "ll_solo i (at_pc i pcs (Iterating (cs[a := CHUNK_SIZE]) (seen @ iter_this (drop (cs ! a) vs))) l its) t"
  shows "ll_solo i (at_pc i pcs (Iterating cs seen) l its) t"
  using assms(2,5,6)
proof (induction "CHUNK_SIZE - cs ! a" arbitrary: cs seen)
  case 0
  then have "cs[a := CHUNK_SIZE] = cs" using list_update_id [of cs a] by simp
  with 0 show ?case using assms(3) by (simp add: iter_this_def map_filter_simps)
next
  case (Suc n)
  let ?j = "cs ! a" and ?cs = "cs[a := Suc (cs ! a)]"
  let ?seen = "case vs ! ?j of Some p \<Rightarrow> seen @ [p] | None \<Rightarrow> seen"
  have j: "?j < CHUNK_SIZE" using Suc(2) by simp
  then have "drop ?j vs = vs ! ?j # drop (Suc ?j) vs" using assms(3) by (simp add: Cons_nth_drop_Suc)
  then have "?seen @ iter_this (drop (Suc ?j) vs) = seen @ iter_this (drop ?j vs)"
    by (simp add: iter_this_def map_filter_simps split: option.split)
  then have "ll_solo i (at_pc i pcs (Iterating ?cs ?seen) l its) t"
    by - (rule Suc(1); use Suc(2-5) in \<open>simp\<close>)
  moreover have "ll_advance a True (Iterating cs seen) l = Some (None, Iterating ?cs ?seen, l)"
  proof -
    have "\<not> (\<forall>i\<in>set cs. i = CHUNK_SIZE)" using j nth_mem [OF Suc(3)] less_irrefl by metis
    then show ?thesis using j Suc(3) assms(4) [OF j] by simp
  qed
  ultimately show ?case
    by (intro solo_go [OF assms(1), of a True "Iterating cs seen" l None "Iterating ?cs ?seen" l]) simp_all
qed

lemma solo_iter_rest:
  assumes "i < length pcs" and "chunk_wf c"
    and "\<And>b j. b \<le> chunk_addr c \<Longrightarrow> cll_lookup l (b, j) = chunk_slot c b j"
    and "ll_solo i (at_pc i pcs (Iterating (replicate (Suc (chunk_addr c)) CHUNK_SIZE @ zs)
           (seen @ par_iter_rest c)) l its) t"
  shows "ll_solo i (at_pc i pcs (Iterating (replicate (Suc (chunk_addr c)) 0 @ zs) seen) l its) t"
  using assms(2-4)
proof (induction c arbitrary: zs seen rule: chunk_wf.induct)
  case (1 a vs)
  have "cll_lookup l (a, j) = vs ! j" if "j < CHUNK_SIZE" for j using 1 that by simp
  with 1 show ?case by - (rule solo_iter_chunk [OF assms(1), of a _ vs], simp_all)
next
  case (2 a vs c)
  let ?n = "Suc (chunk_addr c)"
  have a: "a = ?n" "length vs = CHUNK_SIZE" using 2(2) by simp_all
  have slots: "cll_lookup l (a, j) = vs ! j" if "j < CHUNK_SIZE" for j using 2(2,3) that by simp
  have rest: "cll_lookup l (b, j) = chunk_slot c b j" if "b \<le> chunk_addr c" for b j
    using 2(3) [of b j] a that by simp
  have upd: "(replicate (Suc a) 0 @ zs)[a := CHUNK_SIZE] = replicate ?n 0 @ CHUNK_SIZE # zs"
  proof -
    have "replicate (Suc a) (0 :: nat) @ zs = replicate a 0 @ 0 # zs" by (simp add: replicate_app_Cons_same)
    then show ?thesis by (simp add: list_update_append a(1))
  qed
  have app: "replicate ?n CHUNK_SIZE @ CHUNK_SIZE # zs = replicate (Suc a) CHUNK_SIZE @ zs"
    by (simp add: a(1) replicate_app_Cons_same)
  have "ll_solo i (at_pc i pcs (Iterating (replicate ?n 0 @ CHUNK_SIZE # zs) (seen @ iter_this vs)) l its) t"
  proof (rule 2(1))
    show "ll_solo i (at_pc i pcs (Iterating (replicate ?n CHUNK_SIZE @ CHUNK_SIZE # zs)
        ((seen @ iter_this vs) @ par_iter_rest c)) l its) t"
      using 2(4) unfolding app by simp
  qed (use 2(2) rest in simp_all)
  moreover have zero: "(replicate (Suc a) 0 @ zs) ! a = (0 :: nat)"
    by (simp add: nth_append del: replicate.simps)
  ultimately show ?case
    unfolding chunk.sel
    by - (rule solo_iter_chunk [OF assms(1), of a _ vs],
      simp_all only: upd zero drop_0 a(2) slots length_append length_replicate le0 less_Suc_eq trans_less_add1)
qed

lemma solo_iter:
  assumes "i < length pcs" and "chunk_wf (cll_head l)"
  shows "ll_solo i (at_pc i pcs (ll_start CallIter l) l its)
    (at_pc i pcs (Iterating (replicate (Suc (chunk_addr (cll_head l))) CHUNK_SIZE) (par_iter l)) l its)"
  using solo_iter_rest [OF assms, of l "[]" "[]" its] by (simp add: cll_lookup_def par_iter_def ll_solo.stop)

subsection \<open>Properties\<close>

lemma run_advance:
  assumes "ll_run n es s" and "i < length (ll_pcs s)"
    and "ll_advance a keep (ll_pcs s ! i) (ll_list s) = Some (e, pc, l)"
  shows "ll_run n (es @ (case e of Some x \<Rightarrow> [x] | None \<Rightarrow> [])) (at_pc i (ll_pcs s) pc l (returned_item (ll_pcs s ! i) @ ll_items s))"
  by (rule ll_run.step [OF assms(1) ll_step.advance [OF assms(2,3)]])

lemma run_solo: "ll_solo i s t \<Longrightarrow> ll_run n es s \<Longrightarrow> \<exists>es'. ll_run n (es @ es') t"
proof (induction arbitrary: es rule: ll_solo.induct)
  case (stop s)
  then show ?case by (metis append.right_neutral)
next
  case (go s a keep e pc l t)
  from go(4) [OF run_advance [OF go(5) go(1,2)]] show ?case by (metis append.assoc)
qed

text \<open>One thread inserts a value into the new list.\<close>

lemma new_list_free: "free_entries (cll_new :: 'p cll) = (0, 0) # map (Pair 0) [1..<CHUNK_SIZE]"
  by (simp add: cll_new_def upt_conv_Cons)

lemma first_put: "ll_run 1 [Put (0, 0) v] (at_pc 0 [LlIdle] (InsCount v 0 0)
    (store_slot 0 0 (Some v) (cll_new\<lparr>free_entries := map (Pair 0) [1..<CHUNK_SIZE]\<rparr>)) [])"
proof -
  have "ll_step (ll_init 1) None ((ll_init 1)\<lparr>ll_pcs := (ll_pcs (ll_init 1))[0 := ll_start (CallInsert v) (ll_list (ll_init 1))]\<rparr>)"
    by (rule ll_step.start) (simp_all add: ll_init_def)
  from ll_run.step [OF ll_run.init this]
  have "ll_run 1 [] (at_pc 0 [LlIdle] (InsPop v) cll_new [])" by (simp add: ll_init_def)
  from run_advance [OF this, of 0 0 True None "InsStore v 0 0" "cll_new\<lparr>free_entries := map (Pair 0) [1..<CHUNK_SIZE]\<rparr>"]
  have "ll_run 1 [] (at_pc 0 [LlIdle] (InsStore v 0 0) (cll_new\<lparr>free_entries := map (Pair 0) [1..<CHUNK_SIZE]\<rparr>) [])"
    by (simp add: new_list_free)
  from run_advance [OF this, of 0 0 True] show ?thesis by simp
qed

lemma first_insert:
  obtains es where "ll_run 1 es (at_pc 0 [LlIdle] LlIdle (snd (cll_insert v cll_new)) [\<lparr>item_v = v, item_from = 0, item_idx = 0\<rparr>])"
proof -
  from run_advance [OF first_put [of v], of 0 0 True]
  have "ll_run 1 [Put (0, 0) v] (at_pc 0 [LlIdle] LlIdle (snd (cll_insert v cll_new)) [\<lparr>item_v = v, item_from = 0, item_idx = 0\<rparr>])"
    by (simp add: cll_insert.simps [of v cll_new] new_list_free)
  then show thesis by (rule that)
qed

lemma first_lookup: "cll_lookup (snd (cll_insert v cll_new)) (0, 0) = Some v"
proof -
  have "cll_head (snd (cll_insert v cll_new)) = chunk_store (cll_head cll_new) 0 0 (Some v)"
    by (simp add: cll_insert.simps [of v cll_new] new_list_free)
  then show ?thesis by (simp add: cll_lookup_def cll_new_def initialize_values_def)
qed

text \<open>
  C18: In every interleaving of any number of threads the list behaves as a finite map: each insertion
  takes effect in one step, at a slot that holds nothing then; each successful removal takes effect in
  one step, at a slot that holds the item's pointer then; no other step changes what is stored.
  Every insertion in the trace belongs to one call of \<open>insert\<close>, which names its slot in the item it
  returns.
\<close>

theorem chunked_list_linearizable:
  assumes "ll_run n es s"
  shows "map_trace es (cll_lookup (ll_list s)) \<and>
    mset (puts es) = mset (map item_entry (ll_items s @ unreturned s))"
  using ll_run_inv [OF assms] ll_run_puts [OF assms] by simp

theorem chunked_list_linearizable_witness:
  "\<exists>s. ll_run 1 [Put (0, 0) 7] s \<and> map_trace [Put (0, 0) 7] (cll_lookup (ll_list s)) \<and>
     mset (map item_entry (ll_items s @ unreturned s)) = {#((0, 0), 7 :: nat)#}"
  using first_put [of 7] chunked_list_linearizable [OF first_put [of 7]] by force

text \<open>
  C19: In every interleaving each empty slot is either in the free queue or in the hands of one
  thread that has emptied it or is about to fill it, and is there once: no slot is ever handed out twice or
  lost. When all calls have returned, the free queue holds exactly the empty slots and the length
  estimate is exact.
\<close>

theorem chunked_list_accounting:
  assumes "ll_run n es s"
  shows "mset (free_entries (ll_list s) @ concat (map pc_slots (ll_pcs s))) = mset_set (empty_slots (ll_list s)) \<and>
    (set (ll_pcs s) \<subseteq> {LlIdle} \<longrightarrow> cll_inv (ll_list s))"
proof -
  let ?l = "ll_list s"
  have inv: "ll_inv s" using ll_run_inv [OF assms] by blast
  have "cll_inv ?l" if idle: "set (ll_pcs s) \<subseteq> {LlIdle}"
  proof -
    have pc: "pc = LlIdle" if "pc \<in> set (ll_pcs s)" for pc using idle that by blast
    have "pc_slots pc = []" if "pc \<in> set (ll_pcs s)" for pc using pc [OF that] by simp
    then have none: "concat (map pc_slots (ll_pcs s)) = []" by simp
    have "weight pc_uncounted (ll_pcs s) = 0" "weight pc_overcounted (ll_pcs s) = 0"
      by (auto simp: weight_def dest: pc)
    then have free: "mset (free_entries ?l) = mset_set (empty_slots ?l)"
      and rest: "chunk_wf (cll_head ?l)" "estimated_len ?l = of_nat (card (dom (cll_lookup ?l)))"
      using inv unfolding ll_inv_def Let_def none by simp_all
    have "set (free_entries ?l) = empty_slots ?l" using arg_cong [OF free, of set_mset] by simp
    moreover have "distinct (free_entries ?l)"
    proof (rule ccontr)
      assume "\<not> distinct (free_entries ?l)"
      then obtain k where "1 < count (mset (free_entries ?l)) k"
        using distinct_count_atmost_1 [of "free_entries ?l"] by (metis count_mset_0_iff less_one linorder_neqE_nat)
      then show False by (simp add: free count_mset_set' split: if_splits)
    qed
    ultimately show ?thesis using rest by (simp add: cll_inv_alt empty_slots_def)
  qed
  with inv show ?thesis by (simp add: ll_inv_def Let_def)
qed

theorem chunked_list_accounting_witness:
  "cll_inv (snd (cll_insert (7 :: nat) cll_new)) \<and> cll_lookup (snd (cll_insert (7 :: nat) cll_new)) (0, 0) = Some 7"
proof -
  obtain es where "ll_run 1 es (at_pc 0 [LlIdle] LlIdle (snd (cll_insert (7 :: nat) cll_new)) [\<lparr>item_v = 7, item_from = 0, item_idx = 0\<rparr>])"
    by (rule first_insert)
  from chunked_list_accounting [OF this] first_lookup [of "7 :: nat"] show ?thesis by simp
qed

text \<open>
  C20: A walk of \<open>par_iter\<close> that started after a pointer was put into a slot and ends while it is still
  there has shown it to the closure, whatever the other threads did to the list in the meantime and
  in whatever order the tasks of the walk ran.
\<close>

theorem chunked_list_walk_complete:
  assumes "ll_run n es s" and "i < length (ll_pcs s)" and "ll_pcs s ! i = LlIdle"
    and "ll_while (\<lambda>s. cll_lookup (ll_list s) k = Some p) s t"
    and "ll_pcs t ! i = Iterating cs seen" and "set cs \<subseteq> {CHUNK_SIZE}"
  shows "p \<in> set seen"
proof -
  have inv: "ll_inv s" using ll_run_inv [OF assms(1)] by blast
  have "has_seen k p (ll_pcs t ! i)"
    using walk_has_seen [OF assms(4) inv assms(2)] assms(3) by simp
  then have k: "fst k < length cs" "snd k < cs ! fst k \<longrightarrow> p \<in> set seen" using assms(5) by simp_all
  have "chunk_wf (cll_head (ll_list t))"
    using ll_while_inv [OF assms(4) inv] by (simp add: ll_inv_def Let_def)
  then have "snd k < CHUNK_SIZE"
    using chunk_slot_addr [of "cll_head (ll_list t)" "fst k" "snd k" p] ll_while_holds [OF assms(4)]
    by (simp add: cll_lookup_def)
  moreover have "cs ! fst k = CHUNK_SIZE" using assms(6) nth_mem [OF k(1)] by blast
  ultimately show ?thesis using k(2) by simp
qed

text \<open>A walk that runs alone changes nothing.\<close>

lemma ll_while_first:
  assumes "P s" and "ll_step s e t" and "ll_while P t u"
  shows "ll_while P s u"
  using assms(3,2,1)
proof (induction rule: ll_while.induct)
  case (here t)
  then show ?case using ll_while.more [OF ll_while.here, of P s e t] by blast
next
  case (more t v e' u)
  then show ?case using ll_while.more by blast
qed

lemma solo_while:
  assumes "ll_solo i s t" and "cll_lookup (ll_list s) k = Some p"
    and "ll_pcs s ! i = LlIdle \<or> (\<exists>cs seen. ll_pcs s ! i = Iterating cs seen)"
  shows "ll_while (\<lambda>s. cll_lookup (ll_list s) k = Some p) s t"
  using assms
proof (induction rule: ll_solo.induct)
  case (go s a keep e pc l t)
  obtain cs seen where it: "ll_pcs s ! i = Iterating cs seen" using go(2,6) by auto
  then have l: "l = ll_list s" "pc = LlIdle \<or> (\<exists>cs seen. pc = Iterating cs seen)"
    using go(2) by (auto split: if_splits)
  show ?case
    by (rule ll_while_first [OF go(5) ll_step.advance [OF go(1,2)] go(4)]) (use l go(1,5) in auto)
qed (rule ll_while.here)

theorem chunked_list_walk_complete_witness:
  "(7 :: nat) \<in> set (par_iter (snd (cll_insert 7 cll_new)))"
proof -
  let ?l = "snd (cll_insert (7 :: nat) cll_new)" and ?its = "[\<lparr>item_v = 7, item_from = 0, item_idx = 0\<rparr>]"
  let ?s = "at_pc 0 [LlIdle] LlIdle ?l ?its" and ?n = "Suc (chunk_addr (cll_head ?l))"
  let ?t = "at_pc 0 [LlIdle] (Iterating (replicate ?n CHUNK_SIZE) (par_iter ?l)) ?l ?its"
  obtain es where run: "ll_run 1 es ?s" by (rule first_insert)
  have "chunk_wf (cll_head ?l)" using ll_run_inv [OF run] by (simp add: ll_inv_def Let_def)
  then have solo: "ll_solo 0 (at_pc 0 [LlIdle] (ll_start CallIter ?l) ?l ?its) ?t" by (intro solo_iter) simp_all
  have "ll_step ?s None (?s\<lparr>ll_pcs := (ll_pcs ?s)[0 := ll_start CallIter (ll_list ?s)]\<rparr>)"
    by (rule ll_step.start) simp_all
  then have step: "ll_step ?s None (at_pc 0 [LlIdle] (ll_start CallIter ?l) ?l ?its)" by simp
  have "ll_while (\<lambda>s. cll_lookup (ll_list s) (0, 0) = Some 7) ?s ?t"
    by (rule ll_while_first [OF _ step solo_while [OF solo]]) (simp_all add: first_lookup)
  from chunked_list_walk_complete [OF run _ _ this, of 0] show ?thesis
    by (simp del: replicate.simps)
qed

text \<open>
  C21: The operations as they are modelled undisturbed are runs of the interleaved ones: a thread that
  runs alone takes \<open>insert\<close> and \<open>remove\<close> to the results of the sequential definitions, and
  \<open>par_iter\<close> to its list of pointers.
\<close>

theorem chunked_list_alone:
  assumes "i < length pcs" and "chunk_wf (cll_head l)"
  shows "ll_solo i (at_pc i pcs (ll_start (CallInsert v) l) l its)
      (at_pc i pcs LlIdle (snd (cll_insert v l)) (fst (cll_insert v l) # its)) \<and>
    ll_solo i (at_pc i pcs (ll_start (CallRemove it) l) l its) (at_pc i pcs LlIdle (cll_remove it l) its) \<and>
    ll_solo i (at_pc i pcs (ll_start CallIter l) l its)
      (at_pc i pcs (Iterating (replicate (Suc (chunk_addr (cll_head l))) CHUNK_SIZE) (par_iter l)) l its)"
proof -
  obtain jt l' where "cll_insert v l = (jt, l')" by (cases "cll_insert v l")
  from solo_insert [OF assms(1) this, of its]
  have "ll_solo i (at_pc i pcs (ll_start (CallInsert v) l) l its)
      (at_pc i pcs LlIdle (snd (cll_insert v l)) (fst (cll_insert v l) # its))"
    by (simp add: \<open>cll_insert v l = (jt, l')\<close>)
  moreover have "ll_solo i (at_pc i pcs (ll_start (CallRemove it) l) l its) (at_pc i pcs LlIdle (cll_remove it l) its)"
    using solo_remove [OF assms(1)] by simp
  ultimately show ?thesis using solo_iter [OF assms, of its] by blast
qed

theorem chunked_list_alone_witness:
  "ll_solo 0 \<lparr>ll_list = cll_new, ll_pcs = [InsPop (7 :: nat)], ll_items = []\<rparr>
     \<lparr>ll_list = snd (cll_insert 7 cll_new), ll_pcs = [LlIdle], ll_items = [fst (cll_insert 7 cll_new)]\<rparr>"
proof -
  have "chunk_wf (cll_head (cll_new :: nat cll))" using cll_inv_new [where 'a = nat] by (simp add: cll_inv_def)
  from chunked_list_alone [of 0 "[LlIdle]" cll_new "7 :: nat" "[]", OF _ this] show ?thesis by simp
qed

end
