(* ===== verification/Mark.thy ===== *)
theory Mark
  imports Collect
begin

text \<open>
  What each step of a collection does to a well-formed state, as an equation: the observation and
  the search are updates of the data in a set, whatever the order in which the parallel loops
  run, and the search marks exactly what is reachable.
\<close>

subsection \<open>Vocabulary\<close>

definition tracked :: "gc_state \<Rightarrow> nat set" where
  "tracked s = set (par_iter (data_list s))"

definition live_handles :: "gc_state \<Rightarrow> nat set" where
  "live_handles s = set (par_iter (handle_list s))"

text \<open>A warrant is out: no exclusive one can be had.\<close>

definition in_use :: "gc_state \<Rightarrow> nat \<Rightarrow> bool" where
  "in_use s d \<longleftrightarrow> lk_count (d_lockout (gc_datas s ! d)) \<noteq> 0"

definition scanned :: "gc_state \<Rightarrow> nat \<Rightarrow> nat set" where
  "scanned s d = (case scan_data d s of Inr hs \<Rightarrow> item_v ` set hs | Inl e \<Rightarrow> {})"

definition mark_of :: "gc_state \<Rightarrow> nat \<Rightarrow> u64" where
  "mark_of s d = d_last_marked (gc_datas s ! d)"

definition points_to :: "gc_state \<Rightarrow> nat \<Rightarrow> nat \<Rightarrow> bool" where
  "points_to s h d \<longleftrightarrow> with_data h s = Inr d"

text \<open>The handles that a scan of the data that is not in use finds.\<close>

definition non_rooted :: "gc_state \<Rightarrow> nat set" where
  "non_rooted s = (\<Union>d \<in> {d \<in> tracked s. \<not> in_use s d}. scanned s d)"

definition root_handles :: "gc_state \<Rightarrow> nat set" where
  "root_handles s = live_handles s - non_rooted s"

text \<open>
  What a collection must not lose: data in use, and what is reachable from a root through data that
  is not in use (the handles in data in use are roots themselves).
\<close>

inductive_set reachable :: "gc_state \<Rightarrow> nat set" for s where
  root: "h \<in> root_handles s \<Longrightarrow> points_to s h d \<Longrightarrow> d \<in> tracked s \<Longrightarrow> \<not> in_use s d \<Longrightarrow> d \<in> reachable s"
| step: "d \<in> reachable s \<Longrightarrow> h \<in> scanned s d \<Longrightarrow> points_to s h d' \<Longrightarrow> d' \<in> tracked s \<Longrightarrow>
    \<not> in_use s d' \<Longrightarrow> d' \<in> reachable s"

definition kept :: "gc_state \<Rightarrow> nat \<Rightarrow> bool" where
  "kept s d \<longleftrightarrow> in_use s d \<or> d \<in> reachable s"

text \<open>
  A state in which a collection can start: both lists are sound, every name they hold or lead to is
  that of an object, tracked data is initialised and tracked once, no collection is under way, and
  all marks are older than the number of the next collection.
\<close>

definition scannable :: "gc_state \<Rightarrow> nat \<Rightarrow> bool" where
  "scannable s d \<longleftrightarrow> d < length (gc_datas s) \<and>
     (\<exists>hs. scan_data d s = Inr hs \<and>
       (\<forall>r\<in>set hs. item_v r < length (gc_handles s) \<and> (\<exists>d'. points_to s (item_v r) d')))"

text \<open>
  Every handle that is registered or held by tracked data leads to tracked data, or to new data
  that is still being set up.
\<close>

definition no_dangling :: "gc_state \<Rightarrow> bool" where
  "no_dangling s \<longleftrightarrow>
     (\<forall>h \<in> live_handles s \<union> (\<Union>d\<in>tracked s. scanned s d). \<forall>d. points_to s h d \<longrightarrow>
        d \<in> tracked s \<or> mark_of s d = 0)"

definition collectable :: "gc_state \<Rightarrow> bool" where
  "collectable s \<longleftrightarrow>
     no_dangling s \<and>
     cll_inv (data_list s) \<and> cll_inv (handle_list s) \<and> distinct (par_iter (data_list s)) \<and>
     (\<forall>d\<in>tracked s. scannable s d \<and> \<not> lk_exclusive (d_lockout (gc_datas s ! d))) \<and>
     (\<forall>h\<in>live_handles s. h < length (gc_handles s) \<and> (\<exists>d. points_to s h d)) \<and>
     2 \<le> current_collection_number s \<and>
     (\<forall>d\<in>tracked s. mark_of s d < current_collection_number s) \<and>
     (\<forall>h<length (gc_handles s). h_last_non_rooted (gc_handles s ! h) < current_collection_number s)"

subsection \<open>Observing\<close>

definition observed :: "u64 \<Rightarrow> gc_data \<Rightarrow> gc_data" where
  "observed cur x =
     (if lk_count (d_lockout x) = 0
      then x\<lparr>d_last_marked := if d_last_marked x = 0 then cur - 1 else d_last_marked x,
             d_lockout := \<lparr>lk_count = EXCLUSIVE_SIGNPOST\<rparr>\<rparr>
      else x\<lparr>d_last_marked := cur\<rparr>)"

definition flagged :: "u64 \<Rightarrow> gc_handle \<Rightarrow> gc_handle" where
  "flagged cur x = x\<lparr>h_last_non_rooted := cur\<rparr>"

definition observe_state :: "u64 \<Rightarrow> nat set \<Rightarrow> gc_state \<Rightarrow> gc_state" where
  "observe_state cur D s =
     s\<lparr>gc_datas := upd_all (observed cur) D (gc_datas s),
       gc_handles := upd_all (flagged cur) (\<Union>d \<in> {d \<in> D. \<not> in_use s d}. scanned s d) (gc_handles s)\<rparr>"

lemma fold_flag:
  assumes "\<forall>r\<in>set hs. item_v r < length (gc_handles s)"
  shows "fold (\<lambda>r. flag_non_rooted cur (item_v r)) hs (s\<lparr>gc_handles := upd_all (flagged cur) H (gc_handles s)\<rparr>) =
         s\<lparr>gc_handles := upd_all (flagged cur) (H \<union> item_v ` set hs) (gc_handles s)\<rparr>"
  using assms
proof (induction hs arbitrary: H)
  case (Cons r hs)
  have "flag_non_rooted cur (item_v r) (s\<lparr>gc_handles := upd_all (flagged cur) H (gc_handles s)\<rparr>) =
        s\<lparr>gc_handles := upd_all (flagged cur) (insert (item_v r) H) (gc_handles s)\<rparr>"
    using Cons.prems upd_all_insert_idem [of "item_v r" "gc_handles s" "flagged cur" H]
    by (simp add: flag_non_rooted_def flagged_def)
  with Cons.IH [of "insert (item_v r) H"] Cons.prems show ?case by simp
qed simp

lemma get_exclusive_warrant_alt:
  "get_exclusive_warrant lk =
     (if lk_count lk = 0 then Some \<lparr>lk_count = EXCLUSIVE_SIGNPOST\<rparr> else None)"
  by (cases lk) (simp add: get_exclusive_warrant_def compare_exchange_def is_ok_def)

lemma observe_data_step:
  assumes d: "d < length (gc_datas s)" "d \<notin> D" and scan: "scannable s d"
  shows "observe_data cur d (observe_state cur D s, ws) =
         Inr (observe_state cur (insert d D) s, ws @ (if in_use s d then [] else [d]))"
proof -
  let ?s = "observe_state cur D s"
  obtain hs where hs: "scan_data d s = Inr hs" "\<forall>r\<in>set hs. item_v r < length (gc_handles s)"
    using scan by (auto simp: scannable_def)
  have at: "gc_datas ?s ! d = gc_datas s ! d" using d by (simp add: observe_state_def)
  show ?thesis
  proof (cases "in_use s d")
    case True
    then have "observed cur (gc_datas s ! d) = set_mark cur (gc_datas s ! d)"
      by (simp add: observed_def in_use_def set_mark_def)
    moreover have "{e \<in> insert d D. \<not> in_use s e} = {e \<in> D. \<not> in_use s e}" using True by auto
    ultimately show ?thesis
      using True d at
      by (auto simp: observe_data_def get_exclusive_warrant_alt in_use_def Let_def upd_data_def set_mark_def
          observe_state_def upd_all_insert [symmetric])
  next
    case False
    let ?x = "gc_datas s ! d"
    let ?s2 = "upd_data d (observed cur) ?s"
    have "scan_data d ?s2 = Inr hs"
      using hs(1) d by (simp add: scan_data_def upd_data_def observe_state_def observed_def)
    moreover have "observe_data cur d (?s, ws) =
        res_bind (scan_data d ?s2) (\<lambda>hs. Inr (fold (\<lambda>h. flag_non_rooted cur (item_v h)) hs ?s2, ws @ [d]))"
      using False d at
      by (simp add: observe_data_def get_exclusive_warrant_alt in_use_def Let_def upd_data_def set_mark_def
          observed_def observe_state_def)
    moreover have "fold (\<lambda>h. flag_non_rooted cur (item_v h)) hs ?s2 = observe_state cur (insert d D) s"
    proof -
      let ?s' = "s\<lparr>gc_datas := upd_all (observed cur) (insert d D) (gc_datas s)\<rparr>"
      let ?H = "\<Union>d \<in> {d \<in> D. \<not> in_use s d}. scanned s d"
      have "?s2 = ?s'\<lparr>gc_handles := upd_all (flagged cur) ?H (gc_handles ?s')\<rparr>"
        using d at by (simp add: upd_data_def observe_state_def upd_all_insert)
      moreover have "item_v ` set hs = scanned s d" using hs(1) by (simp add: scanned_def)
      moreover have "{e \<in> insert d D. \<not> in_use s e} = insert d {e \<in> D. \<not> in_use s e}" using False by auto
      ultimately show ?thesis
        using fold_flag [of hs ?s' cur ?H] hs(2) by (simp add: observe_state_def Un_commute)
    qed
    ultimately show ?thesis using False by simp
  qed
qed

text \<open>The first loop visits each tracked piece of data once, in any order \<open>ds\<close>.\<close>

lemma observe_all:
  assumes "distinct ds" and "\<forall>d\<in>set ds. scannable s d"
  shows "fold_res (observe_data cur) ds (s, []) =
         Inr (observe_state cur (set ds) s, filter (\<lambda>d. \<not> in_use s d) ds)"
proof -
  let ?S = "\<lambda>ps. (observe_state cur (set ps) s, filter (\<lambda>d. \<not> in_use s d) ps)"
  have "fold_res (observe_data cur) ds (?S []) = Inr (?S ds)"
  proof (rule fold_res_prefix)
    fix ps p qs
    assume ds: "ds = ps @ p # qs"
    with assms have p: "scannable s p" "p \<notin> set ps" by auto
    then have "p < length (gc_datas s)" by (simp add: scannable_def)
    from observe_data_step [OF this p(2,1)] show "observe_data cur p (?S ps) = Inr (?S (ps @ [p]))" by simp
  qed
  moreover have "?S [] = (s, [])" by (simp add: observe_state_def)
  ultimately show ?thesis by simp
qed

subsection \<open>Roots\<close>

lemma find_roots_observed:
  assumes "\<forall>h\<in>live_handles s. h < length (gc_handles s) \<and> h_last_non_rooted (gc_handles s ! h) \<noteq> cur"
  shows "find_roots cur (observe_state cur (tracked s) s) =
         filter (\<lambda>h. h \<notin> non_rooted s) (par_iter (handle_list s))"
  unfolding find_roots_def
  by (rule filter_cong)
    (use assms in \<open>auto simp: observe_state_def live_handles_def non_rooted_def flagged_def\<close>)

subsection \<open>The search\<close>

text \<open>Data the search may still mark: it is tracked and not marked yet.\<close>

definition fresh :: "u64 \<Rightarrow> gc_state \<Rightarrow> nat \<Rightarrow> bool" where
  "fresh cur s d \<longleftrightarrow> mark_of s d \<noteq> 0 \<and> mark_of s d \<noteq> cur"

inductive_set spread :: "u64 \<Rightarrow> gc_state \<Rightarrow> nat set \<Rightarrow> nat set" for cur s Q where
  start: "h \<in> Q \<Longrightarrow> points_to s h d \<Longrightarrow> fresh cur s d \<Longrightarrow> d \<in> spread cur s Q"
| follow: "d \<in> spread cur s Q \<Longrightarrow> h \<in> scanned s d \<Longrightarrow> points_to s h d' \<Longrightarrow> fresh cur s d' \<Longrightarrow>
    d' \<in> spread cur s Q"

definition mark_all :: "u64 \<Rightarrow> nat set \<Rightarrow> gc_state \<Rightarrow> gc_state" where
  "mark_all cur M s = s\<lparr>gc_datas := upd_all (set_mark cur) M (gc_datas s)\<rparr>"

text \<open>The handles in the queue, and those found on the way, only lead to data of \<open>D\<close> that can be scanned.\<close>

definition searchable :: "u64 \<Rightarrow> nat set \<Rightarrow> gc_state \<Rightarrow> nat set \<Rightarrow> bool" where
  "searchable cur D s Q \<longleftrightarrow>
     (\<forall>h\<in>Q. \<exists>d. points_to s h d \<and> (fresh cur s d \<longrightarrow> d \<in> D)) \<and>
     (\<forall>d\<in>D. scannable s d \<and> (\<forall>h\<in>scanned s d. \<forall>d'. points_to s h d' \<longrightarrow> fresh cur s d' \<longrightarrow> d' \<in> D))"

lemma points_to_bound: "points_to s h d \<Longrightarrow> d < length (gc_datas s)"
  by (simp add: points_to_def with_data_bound)

lemma points_to_unique: "points_to s h d \<Longrightarrow> points_to s h d' \<Longrightarrow> d' = d"
  by (simp add: points_to_def)

lemma with_data_mark_all [simp]: "with_data h (mark_all cur M s) = with_data h s"
  by (simp add: with_data_def data_alive_def mark_all_def split: underlying_data.split)

lemma points_to_mark_all [simp]: "points_to (mark_all cur M s) h d = points_to s h d"
  by (simp add: points_to_def)

lemma scan_data_mark_all [simp]: "d < length (gc_datas s) \<Longrightarrow> scan_data d (mark_all cur M s) = scan_data d s"
  by (simp add: scan_data_def mark_all_def set_mark_def)

lemma scanned_mark_all [simp]: "d < length (gc_datas s) \<Longrightarrow> scanned (mark_all cur M s) d = scanned s d"
  by (simp add: scanned_def)

lemma scannable_mark_all [simp]: "scannable (mark_all cur M s) d = scannable s d"
proof (cases "d < length (gc_datas s)")
  case True
  then show ?thesis by (simp add: scannable_def) (simp add: mark_all_def)
qed (simp add: scannable_def mark_all_def)

lemma mark_of_mark_all:
  "d < length (gc_datas s) \<Longrightarrow> mark_of (mark_all cur M s) d = (if d \<in> M then cur else mark_of s d)"
  by (simp add: mark_of_def mark_all_def set_mark_def)

lemma fresh_mark_all:
  "d < length (gc_datas s) \<Longrightarrow> fresh cur (mark_all cur M s) d \<longleftrightarrow> fresh cur s d \<and> d \<notin> M"
  by (auto simp: fresh_def mark_of_mark_all)

lemma upd_data_mark_all:
  "d < length (gc_datas s) \<Longrightarrow> upd_data d (set_mark cur) s = mark_all cur {d} s"
  using upd_all_insert [of d "gc_datas s" "{}" "set_mark cur"] by (simp add: upd_data_def mark_all_def)

lemma mark_all_mark_all: "mark_all cur M (mark_all cur N s) = mark_all cur (M \<union> N) s"
proof -
  have "set_mark cur (set_mark cur x) = set_mark cur x" for x by (simp add: set_mark_def)
  then show ?thesis by (simp add: mark_all_def upd_all_Un)
qed

lemma mark_all_already: "mark_of s d = cur \<Longrightarrow> d < length (gc_datas s) \<Longrightarrow> mark_all cur {d} s = s"
  by (simp add: mark_all_def mark_of_def set_mark_def list_eq_iff_nth_eq)

lemma mark_all_empty [simp]: "mark_all cur {} s = s"
  by (simp add: mark_all_def)

text \<open>Enqueueing leaves out handles to marked data, no more.\<close>

lemma enqueue_all_filter:
  assumes "\<forall>r\<in>set hs. \<exists>d. points_to s (item_v r) d"
  shows "enqueue_all cur s hs =
    Inr (filter (\<lambda>h. \<exists>d. points_to s h d \<and> mark_of s d \<noteq> cur) (map item_v hs))"
proof -
  let ?P = "\<lambda>h. \<exists>d. points_to s h d \<and> mark_of s d \<noteq> cur"
  let ?S = "\<lambda>ps :: internal_ref list. filter ?P (map item_v ps)"
  have "fold_res (\<lambda>h q. res_bind (should_enqueue cur s (item_v h))
       (\<lambda>b. Inr (if b then q @ [item_v h] else q))) hs (?S []) = Inr (?S hs)"
  proof (rule fold_res_prefix)
    fix ps p qs
    assume "hs = ps @ p # qs"
    then obtain d where "points_to s (item_v p) d" using assms by auto
    then show "res_bind (should_enqueue cur s (item_v p))
       (\<lambda>b. Inr (if b then ?S ps @ [item_v p] else ?S ps)) = Inr (?S (ps @ [p]))"
      by (auto simp: should_enqueue_def points_to_def mark_of_def)
  qed
  then show ?thesis by (simp add: enqueue_all_def)
qed

lemma visit_fresh:
  assumes ok: "scannable s d" and d: "points_to s h d" "fresh cur s d"
  shows "\<exists>enq. visit_handle cur h s = Inr (enq, mark_all cur {d} s) \<and>
    set enq = {h' \<in> scanned s d. \<exists>d'. points_to s h' d' \<and> mark_of s d' \<noteq> cur \<and> d' \<noteq> d} \<and>
    (\<forall>h'\<in>set enq. \<exists>d'. points_to s h' d')"
proof -
  have b: "d < length (gc_datas s)" by (rule points_to_bound [OF d(1)])
  obtain hs where hs: "scan_data d s = Inr hs" "\<forall>r\<in>set hs. \<exists>d'. points_to s (item_v r) d'"
    using ok by (auto simp: scannable_def)
  let ?s = "mark_all cur {d} s"
  have "enqueue_all cur ?s hs =
      Inr (filter (\<lambda>h. \<exists>d. points_to ?s h d \<and> mark_of ?s d \<noteq> cur) (map item_v hs))"
    by (rule enqueue_all_filter) (use hs in simp)
  then have "visit_handle cur h s =
      Inr (filter (\<lambda>h. \<exists>d. points_to s h d \<and> mark_of ?s d \<noteq> cur) (map item_v hs), ?s)"
    using d b hs by (simp add: visit_handle_def points_to_def fresh_def mark_of_def Let_def upd_data_mark_all)
  moreover have "item_v ` set hs = scanned s d" using hs(1) by (simp add: scanned_def)
  moreover have "(\<exists>e. points_to s h' e \<and> mark_of ?s e \<noteq> cur) \<longleftrightarrow>
      (\<exists>e. points_to s h' e \<and> mark_of s e \<noteq> cur \<and> e \<noteq> d)" for h'
    using mark_of_mark_all [OF points_to_bound, of s _ _ cur "{d}"] by auto
  ultimately show ?thesis by (auto simp: image_iff)
qed

lemma visit_not_fresh:
  assumes d: "points_to s h d" "\<not> fresh cur s d"
  shows "visit_handle cur h s = Inr ([], s)"
  using d points_to_bound [OF d(1)]
  by (auto simp: visit_handle_def points_to_def fresh_def mark_of_def Let_def upd_data_mark_all
      mark_all_already)

lemma spread_not_fresh:
  assumes "points_to s h d" and "\<not> fresh cur s d"
  shows "spread cur s (insert h Q) = spread cur s Q"
proof (intro equalityI subsetI)
  fix x assume "x \<in> spread cur s (insert h Q)"
  then show "x \<in> spread cur s Q"
  proof induction
    case (start h' x)
    then have "h' \<in> Q" using assms points_to_unique by auto
    with start show ?case by - (rule spread.start [of h'])
  next
    case (follow x h' x')
    then show ?case by - (rule spread.follow [of x _ _ _ h'])
  qed
next
  fix x assume "x \<in> spread cur s Q"
  then show "x \<in> spread cur s (insert h Q)"
  proof induction
    case (start h' x)
    then show ?case by - (rule spread.start [of h'], simp_all)
  next
    case (follow x h' x')
    then show ?case by - (rule spread.follow [of x _ _ _ h'])
  qed
qed

lemma spread_fresh:
  assumes d: "points_to s h d" "fresh cur s d"
    and E: "E = {h' \<in> scanned s d. \<exists>d'. points_to s h' d' \<and> mark_of s d' \<noteq> cur \<and> d' \<noteq> d}"
  shows "spread cur s (insert h Q) = insert d (spread cur (mark_all cur {d} s) (Q \<union> E))"
    (is "?A = insert d ?B")
proof (intro equalityI subsetI)
  fix x assume "x \<in> ?A"
  then show "x \<in> insert d ?B"
  proof induction
    case (start h' x)
    show ?case
    proof (cases "x = d")
      case False
      then have "h' \<in> Q" using start points_to_unique [OF d(1)] by auto
      moreover have "fresh cur (mark_all cur {d} s) x"
        using start False points_to_bound [OF start(2)] by (simp add: fresh_mark_all)
      ultimately have "x \<in> ?B" using start(2) by - (rule spread.start [of h'], simp_all)
      then show ?thesis by simp
    qed simp
  next
    case (follow x h' x')
    have b: "x' < length (gc_datas s)" using follow by (simp add: points_to_bound)
    have bd: "d < length (gc_datas s)" using d by (simp add: points_to_bound)
    show ?case
    proof (cases "x' = d")
      case False
      then have f: "fresh cur (mark_all cur {d} s) x'" using follow b by (simp add: fresh_mark_all)
      show ?thesis
      proof (cases "x = d")
        case True
        then have "h' \<in> E" using follow False by (auto simp: E fresh_def)
        then have "x' \<in> ?B" using follow f by - (rule spread.start [of h'], simp_all)
        then show ?thesis by simp
      next
        case xd: False
        then have x: "x \<in> ?B" using follow by simp
        then have "x < length (gc_datas s)" by (cases; simp add: points_to_bound)
        then have "x' \<in> ?B" using follow f x by - (rule spread.follow [of x _ _ _ h'], simp_all)
        then show ?thesis by simp
      qed
    qed simp
  qed
next
  have dA: "d \<in> ?A" using d by - (rule spread.start [of h], simp_all)
  have bd: "d < length (gc_datas s)" using d by (simp add: points_to_bound)
  fix x assume "x \<in> insert d ?B"
  then consider "x = d" | "x \<in> ?B" by blast
  then show "x \<in> ?A"
  proof cases
    assume "x \<in> ?B"
    then show ?thesis
    proof induction
      case (start h' x)
      then have b: "x < length (gc_datas s)" by (simp add: points_to_bound)
      then have f: "fresh cur s x" using start by (simp add: fresh_mark_all)
      from start consider "h' \<in> Q" | "h' \<in> scanned s d" by (auto simp: E)
      then show ?case
      proof cases
        assume "h' \<in> Q"
        with start f show ?thesis by - (rule spread.start [of h'], simp_all)
      next
        assume "h' \<in> scanned s d"
        with start f dA show ?thesis by - (rule spread.follow [of d _ _ _ h'], simp_all)
      qed
    next
      case (follow x h' x')
      then have b: "x' < length (gc_datas s)" "x < length (gc_datas s)"
        by (auto simp: points_to_bound elim: spread.cases)
      with follow show ?case by - (rule spread.follow [of x _ _ _ h'], simp_all add: fresh_mark_all)
    qed
  qed (use dA in simp)
qed

lemma searchable_enqueue:
  assumes ok: "searchable cur D s (insert h Q)" and d: "d \<in> D"
    and E: "E \<subseteq> scanned s d" "\<forall>h'\<in>E. \<exists>e. points_to s h' e"
  shows "searchable cur D (mark_all cur {d} s) (Q \<union> E)"
proof -
  let ?s = "mark_all cur {d} s"
  have less: "fresh cur s e" if "points_to s h' e" "fresh cur ?s e" for h' e
    using that points_to_bound [OF that(1)] by (simp add: fresh_mark_all)
  have ok': "scannable s e" "e < length (gc_datas s)" if "e \<in> D" for e
    using that ok by (simp_all add: searchable_def scannable_def)
  have closed: "e' \<in> D" if "e \<in> D" "h' \<in> scanned s e" "points_to s h' e'" "fresh cur s e'" for e h' e'
    using ok that by (simp add: searchable_def)
  have "\<exists>e. points_to s h' e \<and> (fresh cur ?s e \<longrightarrow> e \<in> D)" if "h' \<in> Q \<union> E" for h'
  proof (cases "h' \<in> Q")
    case True
    then obtain e where "points_to s h' e" "fresh cur s e \<longrightarrow> e \<in> D"
      using ok by (auto simp: searchable_def)
    then show ?thesis using less by blast
  next
    case False
    with that have "h' \<in> E" by simp
    with E obtain e where "points_to s h' e" "h' \<in> scanned s d" by blast
    with less [of h' e] closed [OF d, of h' e] show ?thesis by blast
  qed
  moreover have "e' \<in> D" if "e \<in> D" "h' \<in> scanned s e" "points_to s h' e'" "fresh cur ?s e'" for e h' e'
    using closed [OF that(1-3)] less [OF that(3,4)] by blast
  ultimately show ?thesis
    unfolding searchable_def by (auto simp only: points_to_mark_all scannable_mark_all scanned_mark_all ok')
qed

text \<open>
  The search marks what spreads from its queue and touches nothing else, so its result does not
  depend on the order of the queue.
\<close>

lemma dfs_marks_spread:
  "searchable cur D s (set q) \<Longrightarrow> dfs cur q s = Inr (mark_all cur (spread cur s (set q)) s)"
proof (induction cur q s rule: dfs.induct)
  case (1 cur q s)
  show ?case
  proof (cases q)
    case Nil
    have "spread cur s {} = {}"
    proof (intro equalityI subsetI)
      fix x assume "x \<in> spread cur s {}"
      then show "x \<in> {}" by induction simp_all
    qed simp
    then show ?thesis by (simp add: dfs.simps [of cur "[]" s] Nil)
  next
    case (Cons h rest)
    then obtain d where d: "points_to s h d" "fresh cur s d \<Longrightarrow> d \<in> D"
      using 1(2) by (auto simp: searchable_def)
    show ?thesis
    proof (cases "fresh cur s d")
      case False
      note v = visit_not_fresh [OF d(1) False]
      have "dfs cur rest s = Inr (mark_all cur (spread cur s (set rest)) s)"
        using 1(1) [OF Cons v refl] 1(2) unfolding searchable_def by (simp add: Cons)
      then show ?thesis by (simp add: dfs.simps [of cur "h # rest" s] Cons v spread_not_fresh [OF d(1) False])
    next
      case True
      then have dD: "scannable s d" "d \<in> D" using d(2) 1(2) by (simp_all add: searchable_def)
      from visit_fresh [OF dD(1) d(1) True] obtain enq where
        v: "visit_handle cur h s = Inr (enq, mark_all cur {d} s)" and
        enq: "set enq = {h' \<in> scanned s d. \<exists>d'. points_to s h' d' \<and> mark_of s d' \<noteq> cur \<and> d' \<noteq> d}" and
        ok: "\<forall>h'\<in>set enq. \<exists>d'. points_to s h' d'"
        by blast
      have "searchable cur D (mark_all cur {d} s) (set (rest @ enq))"
        using searchable_enqueue [of cur D s h "set rest" d "set enq"] 1(2) dD enq ok by (simp add: Cons)
      from 1(1) [OF Cons v refl this]
      have "dfs cur (rest @ enq) (mark_all cur {d} s) =
          Inr (mark_all cur (spread cur (mark_all cur {d} s) (set rest \<union> set enq)) (mark_all cur {d} s))"
        by simp
      then show ?thesis
        using spread_fresh [OF d(1) True enq, of "set rest"]
        by (simp add: dfs.simps [of cur "h # rest" s] Cons v mark_all_mark_all)
    qed
  qed
qed

end
