(* ===== verification/Sweep.thy ===== *)
theory Sweep
  imports Mark
begin

text \<open>
  The whole of \<open>mark_and_sweep\<close>: from a collectable state it succeeds, keeps exactly the data in use
  or reachable from a root, and hands the rest to the dropper.
\<close>

subsection \<open>Searching after observing\<close>

lemma underlying_data_observed:
  "h < length (gc_handles s) \<Longrightarrow>
     h_underlying_data (gc_handles (observe_state cur D s) ! h) = h_underlying_data (gc_handles s ! h)"
  by (simp add: observe_state_def flagged_def)

lemma with_data_observed:
  assumes live: "\<forall>h\<in>live_handles s. h < length (gc_handles s)" and h: "h < length (gc_handles s)"
  shows "with_data h (observe_state cur D s) = with_data h s"
proof -
  let ?s = "observe_state cur D s"
  have "data_alive ?s d = data_alive s d" for d
  proof -
    have "(\<exists>h\<in>live_handles s. h_underlying_data (gc_handles ?s ! h) = Fixed d) =
          (\<exists>h\<in>live_handles s. h_underlying_data (gc_handles s ! h) = Fixed d)"
      using live by (intro bex_cong) (simp_all add: underlying_data_observed)
    then show ?thesis by (simp add: data_alive_def live_handles_def observe_state_def)
  qed
  moreover have "atomics ?s = atomics s" "length (gc_datas ?s) = length (gc_datas s)"
    by (simp_all add: observe_state_def)
  ultimately show ?thesis
    by (simp add: with_data_def underlying_data_observed [OF h] split: underlying_data.split)
qed

lemma scan_data_observed:
  assumes "d < length (gc_datas s)"
  shows "scan_data d (observe_state cur D s) = scan_data d s"
proof -
  have "d_allocation (observed cur x) = d_allocation x" for x by (simp add: observed_def)
  with assms show ?thesis by (simp add: scan_data_def observe_state_def)
qed

lemma mark_of_observed:
  "d < length (gc_datas s) \<Longrightarrow> mark_of (observe_state cur D s) d =
     (if d \<in> D then (if in_use s d then cur else if mark_of s d = 0 then cur - 1 else mark_of s d)
      else mark_of s d)"
  by (simp add: mark_of_def observe_state_def observed_def in_use_def)

lemma collectable_bounds:
  assumes "collectable s"
  shows "d \<in> tracked s \<Longrightarrow> d < length (gc_datas s)"
    and "\<forall>h\<in>live_handles s. h < length (gc_handles s)"
    and "d \<in> tracked s \<Longrightarrow> h \<in> scanned s d \<Longrightarrow> h < length (gc_handles s)"
proof -
  show "d \<in> tracked s \<Longrightarrow> d < length (gc_datas s)" "\<forall>h\<in>live_handles s. h < length (gc_handles s)"
    using assms by (simp_all add: collectable_def scannable_def)
  assume "d \<in> tracked s"
  then have "scannable s d" using assms by (simp add: collectable_def)
  then show "h \<in> scanned s d \<Longrightarrow> h < length (gc_handles s)" by (auto simp: scannable_def scanned_def)
qed

lemma pred_u64: "(2 :: u64) \<le> c \<Longrightarrow> c - 1 \<noteq> 0 \<and> c - 1 \<noteq> c \<and> c \<noteq> 0"
  by (auto simp: word_le_nat_alt)

lemma collectable_fresh:
  assumes col: "collectable s" and d: "d \<in> tracked s"
  shows "fresh (current_collection_number s) (observe_state (current_collection_number s) (tracked s) s) d \<longleftrightarrow>
         \<not> in_use s d"
proof -
  have "2 \<le> current_collection_number s" "mark_of s d < current_collection_number s"
    using col d by (auto simp: collectable_def)
  then show ?thesis
    using collectable_bounds(1) [OF col d] pred_u64 [of "current_collection_number s"] d
    by (auto simp: fresh_def mark_of_observed)
qed

text \<open>What spreads from the roots is what is reachable.\<close>

lemma collectable_search:
  assumes col: "collectable s"
  defines "cur \<equiv> current_collection_number s" and "s3 \<equiv> observe_state (current_collection_number s) (tracked s) s"
  shows "searchable cur (tracked s) s3 (root_handles s)" and "spread cur s3 (root_handles s) = reachable s"
proof -
  note b = collectable_bounds [OF col]
  have root: "h \<in> live_handles s" "h < length (gc_handles s)" if "h \<in> root_handles s" for h
    using that b(2) by (auto simp: root_handles_def)
  have pt: "points_to s3 h d \<longleftrightarrow> points_to s h d" if "h < length (gc_handles s)" for h d
    by (simp add: points_to_def s3_def with_data_observed [OF b(2) that])
  have sc: "scan_data d s3 = scan_data d s" "scanned s3 d = scanned s d" if "d \<in> tracked s" for d
    using scan_data_observed [OF b(1) [OF that]] by (simp_all add: s3_def scanned_def)
  have fr: "fresh cur s3 d \<longleftrightarrow> \<not> in_use s d" if "d \<in> tracked s" for d
    unfolding cur_def s3_def by (rule collectable_fresh [OF col that])
  have in_tracked: "d \<in> tracked s" if "h \<in> live_handles s \<union> (\<Union>d\<in>tracked s. scanned s d)" "points_to s h d"
      "fresh cur s3 d" for h d
  proof (rule ccontr)
    assume "d \<notin> tracked s"
    moreover from this have "mark_of s d = 0" using col that by (auto simp: collectable_def no_dangling_def)
    ultimately show False
      using that(3) points_to_bound [OF that(2)] by (simp add: fresh_def s3_def mark_of_observed)
  qed
  have fixed: "\<exists>d. points_to s h d" if "h \<in> live_handles s" for h
    using that col by (auto simp: collectable_def)
  have scs: "scannable s3 d" if "d \<in> tracked s" for d
  proof -
    have "scannable s d" using that col by (simp add: collectable_def)
    moreover have "length (gc_datas s3) = length (gc_datas s)" "length (gc_handles s3) = length (gc_handles s)"
      by (simp_all add: s3_def observe_state_def)
    ultimately show ?thesis using sc(1) [OF that] pt by (auto simp: scannable_def) metis
  qed
  show "searchable cur (tracked s) s3 (root_handles s)"
    unfolding searchable_def
  proof (intro conjI ballI allI impI)
    fix h assume h: "h \<in> root_handles s"
    then obtain d where "points_to s h d" using fixed [OF root(1)] by blast
    with root [OF h] in_tracked [of h d] pt [of h d]
    show "\<exists>d. points_to s3 h d \<and> (fresh cur s3 d \<longrightarrow> d \<in> tracked s)" by blast
  next
    fix d h d' assume "d \<in> tracked s" "h \<in> scanned s3 d" "points_to s3 h d'" "fresh cur s3 d'"
    with sc(2) [of d] b(3) [of d h] pt [of h d'] in_tracked [of h d'] show "d' \<in> tracked s" by auto
  qed (rule scs)
  show "spread cur s3 (root_handles s) = reachable s"
  proof (intro equalityI subsetI)
    fix x assume "x \<in> spread cur s3 (root_handles s)"
    then have "x \<in> reachable s \<and> x \<in> tracked s"
    proof induction
      case (start h d)
      with root [of h] pt [of h d] in_tracked [of h d] fr [of d] show ?case
        by (auto intro: reachable.root)
    next
      case (follow d h d')
      then have "h \<in> scanned s d" "h < length (gc_handles s)" using sc(2) b(3) by auto
      with follow pt [of h d'] in_tracked [of h d'] fr [of d'] show ?case
        by (auto intro: reachable.step)
    qed
    then show "x \<in> reachable s" by simp
  next
    fix x assume "x \<in> reachable s"
    then have "x \<in> spread cur s3 (root_handles s) \<and> x \<in> tracked s"
    proof induction
      case (root h d)
      with b(2) pt [of h d] fr [of d] show ?case
        by (auto intro!: spread.start [of h] simp: root_handles_def)
    next
      case (step d h d')
      then have "h < length (gc_handles s)" "h \<in> scanned s3 d" using sc(2) b(3) by auto
      with step pt [of h d'] fr [of d'] show ?case
        by (auto intro: spread.follow [of d _ _ _ h])
    qed
    then show "x \<in> spread cur s3 (root_handles s)" by simp
  qed
qed

subsection \<open>Releasing the warrants and cleaning up\<close>

definition unlock :: "gc_data \<Rightarrow> gc_data" where
  "unlock x = x\<lparr>d_lockout := (d_lockout x)\<lparr>lk_count := 0\<rparr>\<rparr>"

lemma release_all:
  assumes "distinct ws" and "\<forall>d\<in>set ws. d < length (gc_datas s) \<and> lk_exclusive (d_lockout (gc_datas s ! d))"
  shows "release_warrants ws s = Inr (s\<lparr>gc_datas := upd_all unlock (set ws) (gc_datas s)\<rparr>)"
proof -
  let ?S = "\<lambda>ps. s\<lparr>gc_datas := upd_all unlock (set ps) (gc_datas s)\<rparr>"
  let ?f = "\<lambda>d s. res_bind (drop_exclusive_warrant (d_lockout (gc_datas s ! d))) (\<lambda>lk.
       Inr (upd_data d (\<lambda>x. x\<lparr>d_lockout := lk\<rparr>) s))"
  have "fold_res ?f ws (?S []) = Inr (?S ws)"
  proof (rule fold_res_prefix)
    fix ps p qs
    assume "ws = ps @ p # qs"
    with assms have p: "p < length (gc_datas s)" "lk_exclusive (d_lockout (gc_datas s ! p))" "p \<notin> set ps" by auto
    have "?S (ps @ [p]) = s\<lparr>gc_datas := (upd_all unlock (set ps) (gc_datas s))[p := unlock (gc_datas s ! p)]\<rparr>"
      using upd_all_insert [OF p(1,3), of unlock] by simp
    with p show "?f p (?S ps) = Inr (?S (ps @ [p]))"
      by (simp add: drop_exclusive_warrant_eq upd_data_def unlock_def)
  qed
  moreover have "?S [] = s" by simp
  ultimately show ?thesis unfolding release_warrants_def by simp
qed

definition renew :: "u64 \<Rightarrow> gc_data \<Rightarrow> gc_data" where
  "renew cur x = (if d_last_marked x = 0 then set_mark cur x else x)"

text \<open>New data is kept and marked, marked data is kept, and the rest goes.\<close>

lemma clean_up_all:
  assumes inv: "cll_inv (data_list s)" and dist: "distinct (par_iter (data_list s))"
    and bound: "\<forall>d\<in>tracked s. d < length (gc_datas s)"
  obtains dl where "clean_up cur s =
      (s\<lparr>gc_datas := upd_all (renew cur) (tracked s) (gc_datas s), data_list := dl\<rparr>,
       filter (\<lambda>d. mark_of s d \<noteq> 0 \<and> mark_of s d \<noteq> cur) (par_iter (data_list s)))"
    and "cll_inv dl"
    and "par_iter dl = filter (\<lambda>d. mark_of s d = 0 \<or> mark_of s d = cur) (par_iter (data_list s))"
proof -
  let ?P = "\<lambda>d. mark_of s d = 0 \<or> mark_of s d = cur"
  let ?S = "\<lambda>ps. (s\<lparr>gc_datas := upd_all (renew cur) (set ps) (gc_datas s)\<rparr>, filter (\<lambda>d. \<not> ?P d) ps)"
  have step: "retain_data cur p (?S ps) = (?P p, ?S (ps @ [p]))" if "par_iter (data_list s) = ps @ p # qs" for ps p qs
  proof -
    have p: "p < length (gc_datas s)" "p \<notin> set ps"
      using that dist bound by (auto simp: tracked_def)
    have at: "upd_all (renew cur) (set ps) (gc_datas s) ! p = gc_datas s ! p" using p by simp
    have ins: "upd_all (renew cur) (insert p (set ps)) (gc_datas s) =
        (upd_all (renew cur) (set ps) (gc_datas s))[p := renew cur (gc_datas s ! p)]"
      using upd_all_insert [OF p, of "renew cur"] by simp
    show ?thesis
    proof (cases "mark_of s p = 0")
      case True
      then show ?thesis
        using p at ins by (simp add: retain_data_def mark_of_def renew_def upd_data_def set_mark_def)
    next
      case False
      have "(upd_all (renew cur) (set ps) (gc_datas s))[p := gc_datas s ! p] = upd_all (renew cur) (set ps) (gc_datas s)"
        using at by (metis list_update_id)
      with False show ?thesis
        using p at ins by (simp add: retain_data_def mark_of_def renew_def)
    qed
  qed
  have all: "cll_inv (fst (par_retain (retain_data cur) (data_list s) (?S []))) \<and>
      par_iter (fst (par_retain (retain_data cur) (data_list s) (?S []))) = filter ?P (par_iter (data_list s)) \<and>
      snd (par_retain (retain_data cur) (data_list s) (?S [])) = ?S (par_iter (data_list s))"
    by (rule par_retain_prefix [OF inv]) (rule step)
  have S0: "?S [] = (s, [])" by simp
  obtain dl t where run: "par_retain (retain_data cur) (data_list s) (s, []) = (dl, t)"
    by (cases "par_retain (retain_data cur) (data_list s) (s, [])")
  show thesis
  proof (rule that [of dl])
    show "cll_inv dl" "par_iter dl = filter ?P (par_iter (data_list s))"
      using all unfolding S0 run by simp_all
    have "t = ?S (par_iter (data_list s))" using all unfolding S0 run by simp
    then show "clean_up cur s = (s\<lparr>gc_datas := upd_all (renew cur) (tracked s) (gc_datas s), data_list := dl\<rparr>,
       filter (\<lambda>d. mark_of s d \<noteq> 0 \<and> mark_of s d \<noteq> cur) (par_iter (data_list s)))"
      by (simp add: clean_up_def run tracked_def)
  qed
qed

subsection \<open>The collection\<close>

definition swept_mark :: "gc_state \<Rightarrow> nat \<Rightarrow> u64" where
  "swept_mark s d =
     (let cur = current_collection_number s
      in if d \<notin> tracked s then mark_of s d
         else if kept s d then cur
         else if mark_of s d = 0 then cur - 1 else mark_of s d)"

definition swept_data :: "gc_state \<Rightarrow> gc_data list" where
  "swept_data s = map (\<lambda>d. set_mark (swept_mark s d) (gc_datas s ! d)) [0..<length (gc_datas s)]"

lemma reachable_tracked: "d \<in> reachable s \<Longrightarrow> d \<in> tracked s \<and> \<not> in_use s d"
  by (induction rule: reachable.induct) simp_all

lemma marks_after_search:
  assumes col: "collectable s" and d: "d \<in> tracked s"
  defines "cur \<equiv> current_collection_number s"
  shows "mark_of (mark_all cur (reachable s) (observe_state cur (tracked s) s)) d = swept_mark s d"
    and "swept_mark s d \<noteq> 0" and "swept_mark s d = cur \<longleftrightarrow> kept s d"
proof -
  have m: "2 \<le> cur" "mark_of s d < cur" using col d by (auto simp: collectable_def cur_def)
  have b: "d < length (gc_datas s)" by (rule collectable_bounds(1) [OF col d])
  then have "d < length (gc_datas (observe_state cur (tracked s) s))" by (simp add: observe_state_def)
  then show "mark_of (mark_all cur (reachable s) (observe_state cur (tracked s) s)) d = swept_mark s d"
    using b d by (simp add: mark_of_mark_all mark_of_observed swept_mark_def kept_def Let_def cur_def)
  show "swept_mark s d \<noteq> 0" "swept_mark s d = cur \<longleftrightarrow> kept s d"
    using m d pred_u64 [OF m(1)] unfolding cur_def by (auto simp: swept_mark_def Let_def)
qed

text \<open>The data of the last step, all updates composed.\<close>

lemma swept_data_composed:
  assumes col: "collectable s"
  defines "cur \<equiv> current_collection_number s"
  shows "upd_all (renew cur) (tracked s) (upd_all unlock {d \<in> tracked s. \<not> in_use s d}
      (gc_datas (mark_all cur (reachable s) (observe_state cur (tracked s) s)))) = swept_data s"
proof (rule nth_equalityI)
  fix i
  assume "i < length (upd_all (renew cur) (tracked s) (upd_all unlock {d \<in> tracked s. \<not> in_use s d}
      (gc_datas (mark_all cur (reachable s) (observe_state cur (tracked s) s)))))"
  then have i: "i < length (gc_datas s)" by (simp add: mark_all_def observe_state_def)
  show "upd_all (renew cur) (tracked s) (upd_all unlock {d \<in> tracked s. \<not> in_use s d}
      (gc_datas (mark_all cur (reachable s) (observe_state cur (tracked s) s)))) ! i = swept_data s ! i"
  proof (cases "i \<in> tracked s")
    case False
    then show ?thesis
      using i reachable_tracked [of i s]
      by (auto simp: mark_all_def observe_state_def swept_data_def swept_mark_def mark_of_def set_mark_def)
  next
    case True
    let ?x = "gc_datas (mark_all cur (reachable s) (observe_state cur (tracked s) s)) ! i"
    have "d_last_marked ?x = swept_mark s i" "d_last_marked ?x \<noteq> 0"
      using marks_after_search [OF col True] by (simp_all add: mark_of_def cur_def)
    moreover have "(if in_use s i then ?x else unlock ?x) = set_mark (d_last_marked ?x) (gc_datas s ! i)"
      using i True reachable_tracked [of i s]
      by (auto simp: mark_all_def observe_state_def observed_def set_mark_def unlock_def in_use_def)
    ultimately show ?thesis
      using i True by (auto simp: mark_all_def observe_state_def swept_data_def renew_def unlock_def set_mark_def)
  qed
qed (simp add: mark_all_def observe_state_def swept_data_def)

text \<open>What a collection leaves behind, all of the state but the list of data written out.\<close>

definition swept_state :: "nat cll \<Rightarrow> gc_state \<Rightarrow> gc_state" where
  "swept_state dl s =
     s\<lparr>gc_datas := swept_data s,
       gc_handles := upd_all (flagged (current_collection_number s)) (non_rooted s) (gc_handles s),
       data_list := dl,
       dropper := dropper s @ [DataToDrop (filter (\<lambda>d. \<not> kept s d) (par_iter (data_list s)))],
       trigger := set_data_count_after_collection (estimate_len dl) (trigger s),
       current_collection_number := current_collection_number s + 1,
       gc_lock := False, atomic_spinlock := drop_exclusive_guard (atomic_spinlock s)\<rparr>"

lemma mark_and_sweep_spec:
  assumes col: "collectable s"
  obtains dl where "mark_and_sweep (current_collection_number s) s = Inr (swept_state dl s)"
    and "cll_inv dl" and "par_iter dl = filter (kept s) (par_iter (data_list s))"
proof -
  let ?cur = "current_collection_number s" and ?ds = "par_iter (data_list s)"
  note b = collectable_bounds [OF col]
  have dist: "distinct ?ds" and ok: "\<forall>d\<in>set ?ds. scannable s d" and inv: "cll_inv (data_list s)"
    and free: "\<forall>d\<in>set ?ds. \<not> lk_exclusive (d_lockout (gc_datas s ! d))"
    and flags: "\<forall>h\<in>live_handles s. h < length (gc_handles s) \<and> h_last_non_rooted (gc_handles s ! h) \<noteq> ?cur"
    using col b(2) by (auto simp: collectable_def tracked_def)
  let ?ws = "filter (\<lambda>d. \<not> in_use s d) ?ds"
  let ?s3 = "observe_state ?cur (tracked s) s"
  define s4 where "s4 = mark_all ?cur (reachable s) ?s3"
  define s5 where "s5 = s4\<lparr>gc_datas := upd_all unlock (set ?ws) (gc_datas s4)\<rparr>"
  have observe: "fold_res (observe_data ?cur) ?ds (s, []) = Inr (?s3, ?ws)"
    using observe_all [OF dist ok] by (simp add: tracked_def)
  have "set (find_roots ?cur ?s3) = root_handles s"
    by (auto simp: find_roots_observed [OF flags] root_handles_def live_handles_def)
  then have search: "dfs ?cur (find_roots ?cur ?s3) ?s3 = Inr s4"
    using dfs_marks_spread [of ?cur "tracked s" ?s3 "find_roots ?cur ?s3"] collectable_search [OF col]
    by (simp add: s4_def)
  have "\<forall>d\<in>set ?ws. d < length (gc_datas s4) \<and> lk_exclusive (d_lockout (gc_datas s4 ! d))"
    using b(1) by (auto simp: s4_def mark_all_def observe_state_def observed_def set_mark_def in_use_def
        tracked_def lk_exclusive_def)
  then have release: "release_warrants ?ws s4 = Inr s5"
    using release_all [of ?ws s4] dist by (simp add: s5_def)
  have s5: "data_list s5 = data_list s" "tracked s5 = tracked s" "length (gc_datas s5) = length (gc_datas s)"
    "gc_datas s5 = upd_all unlock {d \<in> tracked s. \<not> in_use s d} (gc_datas s4)"
    by (simp_all add: s5_def s4_def mark_all_def observe_state_def tracked_def)
  have "length (gc_datas s4) = length (gc_datas s)" by (simp add: s4_def mark_all_def observe_state_def)
  then have "mark_of s5 d = mark_of s4 d" if "d \<in> tracked s" for d
    using b(1) [OF that] by (simp add: mark_of_def s5(4) unlock_def)
  then have "mark_of s5 d = swept_mark s d" if "d \<in> tracked s" for d
    using marks_after_search(1) [OF col that] that by (simp add: s4_def)
  then have mk: "mark_of s5 d = 0 \<or> mark_of s5 d = ?cur \<longleftrightarrow> kept s d" if "d \<in> set ?ds" for d
    using that marks_after_search(2,3) [OF col, of d] by (simp add: tracked_def)
  have rest: "filter (\<lambda>d. mark_of s5 d \<noteq> 0 \<and> mark_of s5 d \<noteq> ?cur) ?ds = filter (\<lambda>d. \<not> kept s d) ?ds"
    "filter (\<lambda>d. mark_of s5 d = 0 \<or> mark_of s5 d = ?cur) ?ds = filter (kept s) ?ds"
    using mk by (auto intro!: filter_cong)
  have "cll_inv (data_list s5)" "distinct (par_iter (data_list s5))" "\<forall>d\<in>tracked s5. d < length (gc_datas s5)"
    unfolding s5(1-3) using inv dist b(1) by simp_all
  then obtain dl where clean: "clean_up ?cur s5 =
      (s5\<lparr>gc_datas := upd_all (renew ?cur) (tracked s5) (gc_datas s5), data_list := dl\<rparr>,
       filter (\<lambda>d. mark_of s5 d \<noteq> 0 \<and> mark_of s5 d \<noteq> ?cur) (par_iter (data_list s5)))"
    and dl: "cll_inv dl" "par_iter dl = filter (\<lambda>d. mark_of s5 d = 0 \<or> mark_of s5 d = ?cur) (par_iter (data_list s5))"
    by (rule clean_up_all)
  have datas: "upd_all (renew ?cur) (tracked s5) (gc_datas s5) = swept_data s"
    unfolding s5(2,4) s4_def by (rule swept_data_composed [OF col])
  show thesis
  proof (rule that [of dl])
    show "cll_inv dl" "par_iter dl = filter (kept s) ?ds" using dl rest by (simp_all add: s5)
    show "mark_and_sweep ?cur s = Inr (swept_state dl s)"
      unfolding mark_and_sweep_def observe search release res_bind_simps case_prod_conv clean datas s5(1) rest
      by (simp add: Let_def send_msg_def tracked_data_count_def swept_state_def s5_def s4_def mark_all_def
          observe_state_def non_rooted_def)
  qed
qed

end
