(* ===== verification/Safety.thy ===== *)
theory Safety
  imports Sweep
begin

text \<open>
  Memory safety of the collector against a client that owns handles as Rust values are owned. \<open>H\<close>
  lists the handles the client owns outside of collected data, \<open>W\<close> the data it holds warrants of,
  \<open>P\<close> the data a collection has given up and the dropper has not dropped yet. The invariant
  \<open>gc_inv\<close> relates them to the state; this theory proves that it makes a state collectable and
  that every operation keeps it.
\<close>

subsection \<open>The invariant\<close>

definition addr :: "gc_state \<Rightarrow> nat \<Rightarrow> nat" where
  "addr s d = scan_ptr (d_allocation (gc_datas s ! d))"

definition block_val :: "gc_state \<Rightarrow> nat \<Rightarrow> val" where
  "block_val s d = (case gc_heap s ! addr s d of Init v \<Rightarrow> v | _ \<Rightarrow> V_Plain 0)"

definition target :: "gc_state \<Rightarrow> nat \<Rightarrow> nat" where
  "target s h = (case h_underlying_data (gc_handles s ! h) of
     Fixed d \<Rightarrow> d | DynamicForAtomic a \<Rightarrow> atomics s ! a)"

definition registered :: "gc_state \<Rightarrow> internal_ref \<Rightarrow> bool" where
  "registered s r \<longleftrightarrow> cll_lookup (handle_list s) (item_key r) = Some (item_v r)"

text \<open>
  A second panic while the first unwinds would end the process: the values the client tracks are
  assumed to panic once at most when they are dropped or finalized.
\<close>

definition at_most_one_panic :: "val \<Rightarrow> bool" where
  "at_most_one_panic v \<longleftrightarrow> snd (drop_glue v) \<le> 1 \<and> snd (finalize v) \<le> 1"

text \<open>A block that holds such a value.\<close>

definition data_ok :: "gc_state \<Rightarrow> nat \<Rightarrow> bool" where
  "data_ok s d \<longleftrightarrow> d < length (gc_datas s) \<and> addr s d < length (gc_heap s) \<and>
     gc_heap s ! addr s d = Init (block_val s d) \<and> at_most_one_panic (block_val s d) \<and>
     (\<forall>fp. deallocation_action (d_allocation (gc_datas s ! d)) = RunFinalizer fp \<longrightarrow> fp = addr s d)"

definition all_data :: "gc_state \<Rightarrow> nat list \<Rightarrow> nat list" where
  "all_data s P = par_iter (data_list s) @ P"

definition refs :: "gc_state \<Rightarrow> nat list \<Rightarrow> internal_ref list \<Rightarrow> internal_ref list" where
  "refs s P H = H @ concat (map (\<lambda>d. owned (block_val s d)) (all_data s P))"

definition doomed :: "gc_state \<Rightarrow> nat list \<Rightarrow> nat set" where
  "doomed s P = (\<Union>d\<in>set P. item_v ` set (scan (block_val s d)))"

definition lists_ok :: "gc_state \<Rightarrow> bool" where
  "lists_ok s \<longleftrightarrow> cll_inv (data_list s) \<and> cll_inv (handle_list s) \<and> distinct (par_iter (handle_list s))"

definition datas_ok :: "nat list \<Rightarrow> gc_state \<Rightarrow> bool" where
  "datas_ok P s \<longleftrightarrow> distinct (all_data s P) \<and> inj_on (addr s) (set (all_data s P)) \<and>
     (\<forall>d\<in>set (all_data s P). data_ok s d)"

text \<open>Every handle has one owner, and is registered for as long as it is owned.\<close>

definition refs_ok :: "nat list \<Rightarrow> internal_ref list \<Rightarrow> gc_state \<Rightarrow> bool" where
  "refs_ok P H s \<longleftrightarrow> distinct (map item_v (refs s P H)) \<and> (\<forall>r\<in>set (refs s P H). registered s r)"

text \<open>
  A registered handle leads to tracked data, except for those the dropper is about to invalidate and
  those in \<open>X\<close>, whose data is just being set up or torn down.
\<close>

definition handles_ok :: "nat set \<Rightarrow> nat list \<Rightarrow> gc_state \<Rightarrow> bool" where
  "handles_ok X P s \<longleftrightarrow> (\<forall>h\<in>live_handles s. h < length (gc_handles s) \<and>
     (\<forall>a. h_underlying_data (gc_handles s ! h) = DynamicForAtomic a \<longrightarrow> a < length (atomics s)) \<and>
     (h \<notin> doomed s P \<union> X \<longrightarrow> target s h \<in> tracked s))"

definition warrants_ok :: "nat list \<Rightarrow> gc_state \<Rightarrow> bool" where
  "warrants_ok W s \<longleftrightarrow> set W \<subseteq> tracked s \<and>
     (\<forall>d\<in>tracked s. \<not> d_deallocated (gc_datas s ! d) \<and>
        \<not> lk_exclusive (d_lockout (gc_datas s ! d)) \<and>
        unat (lk_count (d_lockout (gc_datas s ! d))) = count (mset W) d)"

definition marks_ok :: "gc_state \<Rightarrow> bool" where
  "marks_ok s \<longleftrightarrow> 2 \<le> current_collection_number s \<and>
     (\<forall>d\<in>tracked s. mark_of s d < current_collection_number s) \<and>
     (\<forall>h<length (gc_handles s). h_last_non_rooted (gc_handles s ! h) < current_collection_number s)"

definition gc_invx :: "nat set \<Rightarrow> nat list \<Rightarrow> internal_ref list \<Rightarrow> nat list \<Rightarrow> gc_state \<Rightarrow> bool" where
  "gc_invx X P H W s \<longleftrightarrow> lists_ok s \<and> datas_ok P s \<and> refs_ok P H s \<and> handles_ok X P s \<and>
     warrants_ok W s \<and> marks_ok s"

abbreviation gc_inv :: "nat list \<Rightarrow> internal_ref list \<Rightarrow> nat list \<Rightarrow> gc_state \<Rightarrow> bool" where
  "gc_inv \<equiv> gc_invx {}"

lemma gc_inv_new: "gc_inv [] [] [] collector_new"
proof -
  have empty: "par_iter (cll_new :: nat cll) = []" by (rule cs.empty_items)
  show ?thesis
    by (simp add: gc_invx_def lists_ok_def datas_ok_def refs_ok_def handles_ok_def warrants_ok_def marks_ok_def
        refs_def all_data_def live_handles_def tracked_def collector_new_def empty cll_inv_new)
qed

lemma refs_ok_perm:
  assumes "mset (refs s P H) = mset (refs s' P' H')" and "\<And>r. registered s r = registered s' r"
  shows "refs_ok P H s = refs_ok P' H' s'"
proof -
  have "set (refs s P H) = set (refs s' P' H')" using assms(1) by (metis set_mset_mset)
  moreover have "mset (map item_v (refs s P H)) = mset (map item_v (refs s' P' H'))" using assms(1) by simp
  then have "distinct (map item_v (refs s P H)) = distinct (map item_v (refs s' P' H'))"
    by (rule mset_eq_imp_distinct_iff)
  ultimately show ?thesis using assms(2) by (simp add: refs_ok_def)
qed

lemma gc_inv_perm:
  assumes "mset H = mset H'" and "mset W = mset W'"
  shows "gc_invx X P H W s = gc_invx X P H' W' s"
proof -
  have "refs_ok P H s = refs_ok P H' s" using assms(1) by (intro refs_ok_perm) (simp_all add: refs_def)
  moreover have "set W = set W'" using assms(2) by (metis set_mset_mset)
  ultimately show ?thesis using assms(2) by (simp add: gc_invx_def warrants_ok_def)
qed

text \<open>Forgetting a handle without dropping it only leaks it.\<close>

lemma gc_inv_forget:
  assumes "gc_invx X P (os @ H) W s"
  shows "gc_invx X P H W s"
  using assms by (auto simp: gc_invx_def refs_ok_def refs_def)

subsection \<open>A state with the invariant is collectable\<close>

lemma registered_live:
  assumes "cll_inv (handle_list s)" and "registered s r"
  shows "item_v r \<in> live_handles s"
  using assms(2) unfolding live_handles_def cs.items_iff [OF assms(1)] registered_def by blast

lemma scan_data_ok: "data_ok s d \<Longrightarrow> scan_data d s = Inr (scan (block_val s d))"
  by (simp add: data_ok_def scan_data_def alloc_scan_def read_cell_def addr_def)

lemma scanned_ok: "data_ok s d \<Longrightarrow> scanned s d = item_v ` set (scan (block_val s d))"
  by (simp add: scanned_def scan_data_ok)

lemma points_to_target:
  assumes "h < length (gc_handles s)" and "target s h \<in> tracked s" and "\<forall>d\<in>tracked s. d < length (gc_datas s)"
  shows "points_to s h (target s h)"
  using assms
  by (auto simp: points_to_def with_data_def target_def data_alive_def tracked_def Let_def
      split: underlying_data.splits)

lemma gc_inv_collectable:
  assumes inv: "gc_inv [] H W s"
  shows "collectable s"
proof -
  have lists: "cll_inv (data_list s)" "cll_inv (handle_list s)"
    using inv by (simp_all add: gc_invx_def lists_ok_def)
  have dist: "distinct (par_iter (data_list s))" and ok: "\<And>d. d \<in> tracked s \<Longrightarrow> data_ok s d"
    using inv by (simp_all add: gc_invx_def datas_ok_def all_data_def tracked_def)
  have bound: "\<forall>d\<in>tracked s. d < length (gc_datas s)" using ok by (simp add: data_ok_def)
  have hok: "h < length (gc_handles s)" "target s h \<in> tracked s" if "h \<in> live_handles s" for h
    using that inv by (simp_all add: gc_invx_def handles_ok_def doomed_def)
  have own: "item_v r \<in> live_handles s" if "d \<in> tracked s" "r \<in> set (scan (block_val s d))" for d r
  proof -
    have "r \<in> set (refs s [] H)"
      using that set_scan_owned [of "block_val s d"] by (auto simp: refs_def all_data_def tracked_def)
    then show ?thesis using inv lists(2) by (intro registered_live) (auto simp: gc_invx_def refs_ok_def)
  qed
  have pt: "points_to s h (target s h)" if "h \<in> live_handles s" for h
    using points_to_target [OF hok [OF that] bound] .
  have "no_dangling s"
    unfolding no_dangling_def
  proof (intro ballI allI impI disjI1)
    fix h d assume h: "h \<in> live_handles s \<union> (\<Union>d\<in>tracked s. scanned s d)" and d: "points_to s h d"
    have "h \<in> live_handles s" using h own scanned_ok [OF ok] by auto
    then show "d \<in> tracked s" using points_to_unique [OF pt d] hok(2) by simp
  qed
  moreover have "scannable s d" if d: "d \<in> tracked s" for d
  proof -
    have "item_v r < length (gc_handles s) \<and> (\<exists>d'. points_to s (item_v r) d')"
      if "r \<in> set (scan (block_val s d))" for r
      using own [OF d that] hok(1) pt by blast
    then show ?thesis using bound d scan_data_ok [OF ok [OF d]] by (simp add: scannable_def)
  qed
  moreover have "\<exists>d. points_to s h d" if "h \<in> live_handles s" for h using pt [OF that] by blast
  ultimately show ?thesis
    using inv lists dist hok(1)
    by (simp add: collectable_def gc_invx_def warrants_ok_def marks_ok_def)
qed

subsection \<open>Registering and dropping handles\<close>

lemma same_data:
  assumes "gc_heap s' = gc_heap s" and "gc_datas s' = gc_datas s" and "data_list s' = data_list s"
  shows "addr s' = addr s" and "block_val s' = block_val s" and "data_ok s' = data_ok s"
    and "all_data s' P = all_data s P" and "tracked s' = tracked s" and "doomed s' P = doomed s P"
    and "mark_of s' = mark_of s" and "refs s' P H = refs s P H"
proof -
  show a: "addr s' = addr s" by (simp add: addr_def assms fun_eq_iff)
  show b: "block_val s' = block_val s" by (simp add: block_val_def a assms fun_eq_iff)
  show "data_ok s' = data_ok s" by (simp add: data_ok_def a b assms fun_eq_iff)
  show c: "all_data s' P = all_data s P" by (simp add: all_data_def assms)
  show "tracked s' = tracked s" by (simp add: tracked_def assms)
  show "doomed s' P = doomed s P" by (simp add: doomed_def b)
  show "mark_of s' = mark_of s" by (simp add: mark_of_def assms fun_eq_iff)
  show "refs s' P H = refs s P H" by (simp add: refs_def b c)
qed

lemma live_bound: "gc_invx X P H W s \<Longrightarrow> h \<in> live_handles s \<Longrightarrow> h < length (gc_handles s)"
  by (simp add: gc_invx_def handles_ok_def)

lemma refs_live:
  assumes "gc_invx X P H W s" and "r \<in> set (refs s P H)"
  shows "registered s r" and "item_v r \<in> live_handles s"
  using assms registered_live [of s r] by (simp_all add: gc_invx_def refs_ok_def lists_ok_def)

text \<open>The new handle joins \<open>X\<close> if its data is not tracked yet.\<close>

lemma gc_inv_insert_handle:
  assumes inv: "gc_invx X P H W s" and run: "insert_handle u s = (r, s')"
    and u: "\<And>a. u = DynamicForAtomic a \<Longrightarrow> a < length (atomics s)"
    and X: "target s' (item_v r) \<in> tracked s \<or> item_v r \<in> X'" "X \<subseteq> X'"
  shows "gc_invx X' P (r # H) W s'"
proof -
  let ?n = "length (gc_handles s)"
  obtain hl where ins: "cll_insert ?n (handle_list s) = (r, hl)"
    and s': "s' = s\<lparr>gc_handles := gc_handles s @ [\<lparr>h_underlying_data = u, h_last_non_rooted = 0\<rparr>],
                  handle_list := hl\<rparr>"
    using run by (auto simp: insert_handle_def Let_def split: prod.splits)
  have l: "cll_inv (handle_list s)" "distinct (par_iter (handle_list s))" "cll_inv (data_list s)"
    using inv by (simp_all add: gc_invx_def lists_ok_def)
  note put = cs.put_law [OF l(1) ins] and items = cs.put_items [OF l(1) ins]
  have same: "gc_heap s' = gc_heap s" "gc_datas s' = gc_datas s" "data_list s' = data_list s"
    by (simp_all add: s')
  have hs: "gc_handles s' = gc_handles s @ [\<lparr>h_underlying_data = u, h_last_non_rooted = 0\<rparr>]"
    "atomics s' = atomics s" by (simp_all add: s')
  note same_data [OF same, simp]
  have v: "item_v r = ?n" using put by simp
  have new: "?n \<notin> live_handles s" using live_bound [OF inv] by blast
  have live: "live_handles s' = insert ?n (live_handles s)"
    using arg_cong [OF items, of set_mset] by (simp add: live_handles_def s')
  have old: "item_v q \<noteq> ?n" if "q \<in> set (refs s P H)" for q
    using refs_live(2) [OF inv that] new by auto
  have reg: "registered s' q" if "registered s q" for q
    using cs.held_put [OF l(1) ins, of q] that by (simp add: registered_def s')
  have tgt: "target s' h = target s h" if "h < ?n" for h
    using that by (simp add: target_def s' nth_append split: underlying_data.split)
  have "distinct (par_iter hl)"
    using items l(2) new by (metis distinct.simps(2) live_handles_def mset.simps(2) mset_eq_imp_distinct_iff)
  then have "lists_ok s'" using put l by (simp add: lists_ok_def s')
  moreover have "datas_ok P s'" using inv by (simp add: gc_invx_def datas_ok_def)
  moreover have "refs_ok P (r # H) s'"
  proof -
    have "refs s' P (r # H) = r # refs s P H" by (simp add: refs_def)
    moreover have "registered s' r" using put by (simp add: registered_def s')
    moreover have "item_v r \<notin> item_v ` set (refs s P H)" using old v by fastforce
    ultimately show ?thesis using inv reg by (simp add: gc_invx_def refs_ok_def)
  qed
  moreover have "handles_ok X' P s'"
    unfolding handles_ok_def
  proof
    fix h assume "h \<in> live_handles s'"
    then consider "h = ?n" | "h \<in> live_handles s" by (auto simp: live)
    then show "h < length (gc_handles s') \<and>
         (\<forall>a. h_underlying_data (gc_handles s' ! h) = DynamicForAtomic a \<longrightarrow> a < length (atomics s')) \<and>
         (h \<notin> doomed s' P \<union> X' \<longrightarrow> target s' h \<in> tracked s')"
    proof cases
      case 1
      then show ?thesis using u X(1) v by (auto simp: hs)
    next
      case 2
      then have "h < ?n" by (rule live_bound [OF inv])
      then show ?thesis
        using 2 inv X(2) tgt by (auto simp: gc_invx_def handles_ok_def hs nth_append)
    qed
  qed
  moreover have "warrants_ok W s'" using inv by (simp add: gc_invx_def warrants_ok_def same)
  moreover have "marks_ok s'"
  proof -
    have "0 < current_collection_number s" using inv by (auto simp: gc_invx_def marks_ok_def word_le_nat_alt word_less_nat_alt)
    then show ?thesis
      using inv by (auto simp: gc_invx_def marks_ok_def s' nth_append less_Suc_eq mark_of_def tracked_def)
  qed
  ultimately show ?thesis by (simp add: gc_invx_def)
qed

text \<open>Dropping a handle that is not registered, because it was invalidated before, does nothing.\<close>

lemma drop_handle_stale: "\<not> registered s r \<Longrightarrow> drop_handle r s = s"
  by (simp add: drop_handle_def cll_remove_def registered_def cll_lookup_def item_key_def)

lemma gc_inv_drop_handle:
  assumes inv: "gc_invx X P (r # H) W s"
  shows "gc_invx (X - {item_v r}) P H W (drop_handle r s)" and "\<not> registered (drop_handle r s) r"
    and "q \<noteq> r \<Longrightarrow> registered (drop_handle r s) q = registered s q"
    and "live_handles (drop_handle r s) = live_handles s - {item_v r}"
proof -
  let ?s = "drop_handle r s"
  have l: "cll_inv (handle_list s)" "distinct (par_iter (handle_list s))" "cll_inv (data_list s)"
    using inv by (simp_all add: gc_invx_def lists_ok_def)
  have "r \<in> set (refs s P (r # H))" by (simp add: refs_def)
  from refs_live [OF inv this] have reg: "registered s r" and "item_v r \<in> live_handles s" .
  then have held: "cll_lookup (handle_list s) (item_key r) = Some (item_v r)" by (simp add: registered_def)
  note take = cs.take_invar [OF l(1), of r] cs.take_lookup [OF l(1), of r] cs.take_items [OF l(1) held]
  have same: "gc_heap ?s = gc_heap s" "gc_datas ?s = gc_datas s" "data_list ?s = data_list s"
    by (simp_all add: drop_handle_def)
  note same_data [OF same, simp]
  have items: "mset (par_iter (handle_list s)) = add_mset (item_v r) (mset (par_iter (handle_list ?s)))"
    using take(3) by (simp add: drop_handle_def)
  have dist: "distinct (par_iter (handle_list ?s))" "item_v r \<notin> set (par_iter (handle_list ?s))"
    using l(2) items by (metis distinct.simps(2) mset.simps(2) mset_eq_imp_distinct_iff)+
  show live: "live_handles ?s = live_handles s - {item_v r}"
    using arg_cong [OF items, of set_mset] dist(2) by (auto simp: live_handles_def)
  show "\<not> registered ?s r" using take(2) held by (simp add: registered_def drop_handle_def)
  show reg': "registered ?s q = registered s q" if "q \<noteq> r" for q
  proof (cases "item_key q = item_key r")
    case True
    with that have "item_v q \<noteq> item_v r" by (auto simp: item_key_def intro: cll_item.equality)
    with True held take(2) show ?thesis by (simp add: registered_def drop_handle_def)
  next
    case False
    with held take(2) show ?thesis by (simp add: registered_def drop_handle_def)
  qed
  have "lists_ok ?s" using take(1) dist(1) l by (simp add: lists_ok_def drop_handle_def)
  moreover have "datas_ok P ?s" using inv by (simp add: gc_invx_def datas_ok_def)
  moreover have "refs_ok P H ?s"
  proof -
    have "refs s P (r # H) = r # refs s P H" by (simp add: refs_def)
    then have d: "distinct (map item_v (r # refs s P H))" "\<forall>q\<in>set (refs s P H). registered s q"
      using inv by (simp_all add: gc_invx_def refs_ok_def)
    then have "q \<noteq> r" if "q \<in> set (refs s P H)" for q using that by auto
    with d reg' show ?thesis by (simp add: refs_ok_def)
  qed
  moreover have "handles_ok (X - {item_v r}) P ?s"
  proof -
    have "target ?s h = target s h" for h
      by (simp add: target_def drop_handle_def split: underlying_data.split)
    moreover have "gc_handles ?s = gc_handles s" "atomics ?s = atomics s" by (simp_all add: drop_handle_def)
    ultimately show ?thesis using inv by (auto simp: gc_invx_def handles_ok_def live)
  qed
  moreover have "warrants_ok W ?s" using inv by (simp add: gc_invx_def warrants_ok_def same)
  moreover have "marks_ok ?s" using inv by (simp add: gc_invx_def marks_ok_def drop_handle_def mark_of_def tracked_def)
  ultimately show "gc_invx (X - {item_v r}) P H W ?s" by (simp add: gc_invx_def)
qed

subsection \<open>Objects that no one looks at\<close>

lemma mset_refs:
  assumes "distinct (all_data s P)"
  shows "mset (refs s P H) = mset H + (\<Sum>d\<in>set (all_data s P). mset (owned (block_val s d)))"
  using assms by (simp add: refs_def mset_concat o_def sum_list_distinct_conv_sum_set)

text \<open>
  The invariant only reads the objects and blocks of tracked and pending data.
\<close>

lemma data_cong:
  assumes "\<And>d. d \<in> set (all_data s P) \<Longrightarrow> d < length (gc_datas s') \<and>
      d_allocation (gc_datas s' ! d) = d_allocation (gc_datas s ! d) \<and>
      addr s d < length (gc_heap s') \<and> gc_heap s' ! addr s d = gc_heap s ! addr s d"
    and "data_list s' = data_list s"
  shows "all_data s' P = all_data s P" and "tracked s' = tracked s" and "refs s' P H = refs s P H"
    and "doomed s' P = doomed s P" and "datas_ok P s \<Longrightarrow> datas_ok P s'"
proof -
  show all: "all_data s' P = all_data s P" "tracked s' = tracked s" using assms(2) by (simp_all add: all_data_def tracked_def)
  have a: "addr s' d = addr s d" if "d \<in> set (all_data s P)" for d
    using assms(1) [OF that] by (simp add: addr_def)
  have b: "block_val s' d = block_val s d" if "d \<in> set (all_data s P)" for d
    using assms(1) [OF that] a [OF that] by (simp add: block_val_def)
  have "map (\<lambda>d. owned (block_val s' d)) (all_data s P) = map (\<lambda>d. owned (block_val s d)) (all_data s P)"
    using b by simp
  then show "refs s' P H = refs s P H" unfolding refs_def all(1) by (simp only:)
  have P: "set P \<subseteq> set (all_data s P)" by (simp add: all_data_def)
  then have "b' \<in> set P \<Longrightarrow> block_val s' b' = block_val s b'" for b' using b by blast
  then show "doomed s' P = doomed s P" by (simp add: doomed_def)
  assume ok: "datas_ok P s"
  have "data_ok s' d" if "d \<in> set (all_data s P)" for d
    using assms(1) [OF that] a [OF that] b [OF that] ok that by (simp add: datas_ok_def data_ok_def)
  moreover have "inj_on (addr s') (set (all_data s P)) = inj_on (addr s) (set (all_data s P))"
    using a by (intro inj_on_cong)
  ultimately show "datas_ok P s'" using ok by (simp add: datas_ok_def all)
qed

lemma target_cong: "gc_handles s' = gc_handles s \<Longrightarrow> atomics s' = atomics s \<Longrightarrow> target s' = target s"
  by (rule ext) (simp add: target_def split: underlying_data.split)

lemma gc_inv_frame:
  assumes inv: "gc_invx X P H W s"
    and same: "\<And>d. d \<in> set (all_data s P) \<Longrightarrow> d < length (gc_datas s') \<and>
      d_allocation (gc_datas s' ! d) = d_allocation (gc_datas s ! d) \<and>
      addr s d < length (gc_heap s') \<and> gc_heap s' ! addr s d = gc_heap s ! addr s d"
    and lists: "data_list s' = data_list s" "handle_list s' = handle_list s"
    and rest: "gc_handles s' = gc_handles s" "atomics s' = atomics s"
      "current_collection_number s' = current_collection_number s"
    and marks: "\<And>d. d \<in> tracked s \<Longrightarrow> mark_of s' d = mark_of s d"
    and warrants: "warrants_ok W s \<Longrightarrow> warrants_ok W' s'"
  shows "gc_invx X P H W' s'"
proof -
  note cong = data_cong [OF same lists(1)]
  have "target s' = target s" by (rule target_cong [OF rest(1,2)])
  moreover have "live_handles s' = live_handles s" by (simp add: live_handles_def lists)
  moreover have "registered s' r = registered s r" for r by (simp add: registered_def lists)
  ultimately show ?thesis
    using inv cong warrants marks
    by (simp add: gc_invx_def lists_ok_def refs_ok_def handles_ok_def marks_ok_def lists rest)
qed

lemma warrants_ok_cong:
  assumes "tracked s' = tracked s" and "\<And>d. d \<in> tracked s \<Longrightarrow>
      d_deallocated (gc_datas s' ! d) = d_deallocated (gc_datas s ! d) \<and>
      d_lockout (gc_datas s' ! d) = d_lockout (gc_datas s ! d)"
  shows "warrants_ok W s \<Longrightarrow> warrants_ok W s'"
  using assms by (simp add: warrants_ok_def)

lemma all_data_ok: "gc_invx X P H W s \<Longrightarrow> d \<in> set (all_data s P) \<Longrightarrow> data_ok s d"
  by (simp add: gc_invx_def datas_ok_def)

lemma tracked_all_data: "d \<in> tracked s \<Longrightarrow> d \<in> set (all_data s P)"
  by (simp add: tracked_def all_data_def)

lemma gc_inv_grow:
  assumes inv: "gc_invx X P H W s"
  shows "gc_invx X P H W (s\<lparr>gc_heap := gc_heap s @ cs, gc_datas := gc_datas s @ xs\<rparr>)"
proof (rule gc_inv_frame [OF inv])
  let ?s = "s\<lparr>gc_heap := gc_heap s @ cs, gc_datas := gc_datas s @ xs\<rparr>"
  fix d
  have bound: "d < length (gc_datas s)" "addr s d < length (gc_heap s)" if "d \<in> set (all_data s P)"
    using all_data_ok [OF inv that] by (simp_all add: data_ok_def)
  then show "d < length (gc_datas ?s) \<and> d_allocation (gc_datas ?s ! d) = d_allocation (gc_datas s ! d) \<and>
      addr s d < length (gc_heap ?s) \<and> gc_heap ?s ! addr s d = gc_heap s ! addr s d" if "d \<in> set (all_data s P)"
    using that by (simp add: nth_append)
  show "mark_of ?s d = mark_of s d" if "d \<in> tracked s"
    using bound(1) tracked_all_data [OF that, of P] by (simp add: mark_of_def nth_append)
next
  have "d < length (gc_datas s)" if "d \<in> tracked s" for d
    using all_data_ok [OF inv tracked_all_data [OF that]] by (simp add: data_ok_def)
  then show "warrants_ok W s \<Longrightarrow> warrants_ok W (s\<lparr>gc_heap := gc_heap s @ cs, gc_datas := gc_datas s @ xs\<rparr>)"
    by (rule_tac warrants_ok_cong) (simp_all add: tracked_def nth_append)
qed simp_all

subsection \<open>Tracking\<close>

text \<open>
  Set-up data joins the tracked data, and the handles that led to it leave \<open>X\<close>.
\<close>

lemma gc_inv_track_from_token:
  assumes inv: "gc_invx X P (owned (block_val s d) @ H) W s"
    and ok: "data_ok s d" and fresh: "d \<notin> set (all_data s P)" "addr s d \<notin> addr s ` set (all_data s P)"
    and new: "\<not> d_deallocated (gc_datas s ! d)" "lk_count (d_lockout (gc_datas s ! d)) = 0"
      "mark_of s d < current_collection_number s"
    and X: "\<And>h. h \<in> live_handles s \<Longrightarrow> h \<in> X \<Longrightarrow> h \<in> X' \<or> target s h = d"
  shows "gc_invx X' P H W (track_from_token d s)"
proof -
  let ?s = "track_from_token d s"
  have l: "lists_ok s" using inv by (simp add: gc_invx_def)
  then have inv_d: "cll_inv (data_list s)" by (simp add: lists_ok_def)
  obtain it dl where ins: "cll_insert d (data_list s) = (it, dl)" by (cases "cll_insert d (data_list s)")
  have s': "data_list ?s = dl" "gc_heap ?s = gc_heap s" "gc_datas ?s = gc_datas s" "gc_handles ?s = gc_handles s"
    "atomics ?s = atomics s" "handle_list ?s = handle_list s"
    "current_collection_number ?s = current_collection_number s"
    by (simp_all add: track_from_token_def notify_async_gc_thread_def ins)
  note put = cs.put_law [OF inv_d ins] and items = cs.put_items [OF inv_d ins]
  have a: "addr ?s = addr s" by (simp add: addr_def s' fun_eq_iff)
  have b: "block_val ?s = block_val s" by (simp add: block_val_def a s' fun_eq_iff)
  have all: "mset (all_data ?s P) = add_mset d (mset (all_data s P))" using items by (simp add: all_data_def s')
  have set: "set (all_data ?s P) = insert d (set (all_data s P))"
    using arg_cong [OF all, of set_mset] by simp
  have tr: "tracked ?s = insert d (tracked s)" using arg_cong [OF items, of set_mset] by (simp add: tracked_def s')
  have dis: "distinct (all_data s P)" using inv by (simp add: gc_invx_def datas_ok_def)
  then have dis': "distinct (all_data ?s P)"
    using all fresh(1) by (metis distinct.simps(2) mset.simps(2) mset_eq_imp_distinct_iff)
  have "lists_ok ?s" using l put by (simp add: lists_ok_def s')
  moreover have "datas_ok P ?s"
  proof -
    have "inj_on (addr s) (insert d (set (all_data s P)))" "\<forall>e\<in>set (all_data s P). data_ok s e"
      using inv fresh by (simp_all add: gc_invx_def datas_ok_def)
    moreover have "data_ok ?s = data_ok s" by (simp add: data_ok_def a b s' fun_eq_iff)
    ultimately show ?thesis using ok dis' by (simp add: datas_ok_def set a)
  qed
  moreover have "refs_ok P H ?s"
  proof -
    have "mset (refs ?s P H) = mset (refs s P (owned (block_val s d) @ H))"
      using fresh(1) by (simp add: mset_refs [OF dis] mset_refs [OF dis'] set b)
    then have "refs_ok P H ?s = refs_ok P (owned (block_val s d) @ H) s"
      by (rule refs_ok_perm) (simp add: registered_def s')
    then show ?thesis using inv by (simp add: gc_invx_def)
  qed
  moreover have "handles_ok X' P ?s"
  proof -
    have "target ?s = target s" by (rule target_cong) (simp_all add: s')
    moreover have "live_handles ?s = live_handles s" "doomed ?s P = doomed s P"
      by (simp_all add: live_handles_def doomed_def b s')
    ultimately show ?thesis using inv X by (auto simp: gc_invx_def handles_ok_def tr s')
  qed
  moreover have "warrants_ok W ?s"
  proof -
    have "d \<notin> tracked s" using fresh(1) tracked_all_data by blast
    then have "count (mset W) d = 0" using inv by (auto simp: gc_invx_def warrants_ok_def count_eq_zero_iff)
    then show ?thesis
      using inv new by (auto simp: gc_invx_def warrants_ok_def tr s' lk_exclusive_def EXCLUSIVE_SIGNPOST_def)
  qed
  moreover have "marks_ok ?s" using inv new(3) by (simp add: gc_invx_def marks_ok_def tr mark_of_def s')
  ultimately show ?thesis by (simp add: gc_invx_def)
qed

text \<open>A value moves into the collector: its handles change owner, and a new one is given out.\<close>

lemma gc_inv_track_fresh:
  assumes inv: "gc_invx X P (owned v @ H) W s" and panics: "at_most_one_panic v"
    and act: "act \<in> {RunDrop, DoNothing, BoxDrop, RunFinalizer (length (gc_heap s))}"
    and run: "track_allocated (\<lparr>scan_ptr = length (gc_heap s), deallocation_action = act\<rparr>,
        gc_heap s @ [Init v]) s = ((r, p), s')"
  shows "gc_invx X P (r # H) W s'"
proof -
  let ?d = "length (gc_datas s)" and ?p = "length (gc_heap s)"
  let ?x = "\<lparr>d_allocation = \<lparr>scan_ptr = ?p, deallocation_action = act\<rparr>, d_lockout = lockout_new,
     d_deallocated = False, d_last_marked = 0\<rparr>"
  let ?s1 = "s\<lparr>gc_heap := gc_heap s @ [Init v], gc_datas := gc_datas s @ [?x]\<rparr>"
  obtain s2 where ins: "insert_handle (Fixed ?d) ?s1 = (r, s2)" and s': "s' = track_from_token ?d s2"
    using run by (auto simp: track_allocated_def track_def setup_gc_reference_def Let_def split: prod.splits)
  note fr = insert_handle_frame [OF ins]
  have tgt: "target s2 (item_v r) = ?d" using fr(2) by (simp add: target_def)
  have inv1: "gc_invx X P (owned v @ H) W ?s1" using gc_inv_grow [OF inv, of "[?x]" "[Init v]"] .
  have inv2: "gc_invx (insert (item_v r) X) P (r # owned v @ H) W s2"
    by (rule gc_inv_insert_handle [OF inv1 ins]) auto
  have bound: "e < ?d" "addr s e < ?p" if "e \<in> set (all_data s P)" for e
    using all_data_ok [OF inv that] by (simp_all add: data_ok_def)
  have all: "all_data s2 P = all_data s P" by (simp add: all_data_def fr)
  have a: "addr s2 ?d = ?p" by (simp add: addr_def fr)
  have v: "block_val s2 ?d = v" by (simp add: block_val_def a fr)
  have "addr s2 e = addr s e" if "e \<in> set (all_data s P)" for e
    using bound(1) [OF that] by (simp add: addr_def fr nth_append)
  then have "?p \<notin> addr s2 ` set (all_data s P)" using bound(2) by fastforce
  moreover have "mset (r # owned v @ H) = mset (owned v @ r # H)" by simp
  then have "gc_invx (insert (item_v r) X) P (owned (block_val s2 ?d) @ r # H) W s2"
    using inv2 gc_inv_perm [of "r # owned v @ H" "owned v @ r # H" W W] v by simp
  moreover have "0 < current_collection_number s"
    using inv by (auto simp: gc_invx_def marks_ok_def word_le_nat_alt word_less_nat_alt)
  ultimately show ?thesis
    unfolding s' using bound(1) tgt act panics
    by (intro gc_inv_track_from_token [of "insert (item_v r) X"])
      (auto simp: all a v fr data_ok_def lockout_new_def mark_of_def)
qed

subsection \<open>Warrants and writes\<close>

lemma upd_data_nth:
  "d < length (gc_datas s) \<Longrightarrow> gc_datas (upd_data d f s) ! e = (if e = d then f (gc_datas s ! d) else gc_datas s ! e)"
  by (simp add: upd_data_def)

lemma upd_data_frame [simp]:
  "gc_heap (upd_data d f s) = gc_heap s" "data_list (upd_data d f s) = data_list s"
  "handle_list (upd_data d f s) = handle_list s" "gc_handles (upd_data d f s) = gc_handles s"
  "atomics (upd_data d f s) = atomics s" "dropper (upd_data d f s) = dropper s"
  "gc_lock (upd_data d f s) = gc_lock s" "atomic_spinlock (upd_data d f s) = atomic_spinlock s"
  "current_collection_number (upd_data d f s) = current_collection_number s"
  "length (gc_datas (upd_data d f s)) = length (gc_datas s)"
  by (simp_all add: upd_data_def)

lemma gc_inv_upd_data:
  assumes inv: "gc_invx X P H W s" and d: "d \<in> set (all_data s P)"
    and f: "\<And>x. d_allocation (f x) = d_allocation x" "\<And>x. d_last_marked (f x) = d_last_marked x"
    and warrants: "warrants_ok W s \<Longrightarrow> warrants_ok W' (upd_data d f s)"
  shows "gc_invx X P H W' (upd_data d f s)"
proof -
  have b: "d < length (gc_datas s)" using all_data_ok [OF inv d] by (simp add: data_ok_def)
  show ?thesis
  proof (rule gc_inv_frame [OF inv])
    fix e assume "e \<in> set (all_data s P)"
    from all_data_ok [OF inv this]
    show "e < length (gc_datas (upd_data d f s)) \<and>
        d_allocation (gc_datas (upd_data d f s) ! e) = d_allocation (gc_datas s ! e) \<and>
        addr s e < length (gc_heap (upd_data d f s)) \<and> gc_heap (upd_data d f s) ! addr s e = gc_heap s ! addr s e"
      by (simp add: data_ok_def upd_data_nth [OF b] f)
  qed (use warrants b in \<open>simp_all add: mark_of_def upd_data_nth f\<close>)
qed

lemma distinct_map_append:
  "distinct (map f (xs @ ys)) \<Longrightarrow> x \<in> set xs \<Longrightarrow> y \<in> set ys \<Longrightarrow> f y \<noteq> f x"
  by (auto simp: image_iff)

text \<open>A handle the client owns, or that tracked data owns, leads to data that can be warranted.\<close>

lemma gc_inv_target:
  assumes inv: "gc_invx {} P H W s" and r: "r \<in> set H \<or> (\<exists>d\<in>tracked s. r \<in> set (owned (block_val s d)))"
  shows "item_v r \<in> live_handles s" and "target s (item_v r) \<in> tracked s"
    and "data_ok s (target s (item_v r))" and "\<not> d_deallocated (gc_datas s ! target s (item_v r))"
proof -
  have in_refs: "r \<in> set (refs s P H)" using r by (auto simp: refs_def all_data_def tracked_def)
  show live: "item_v r \<in> live_handles s" by (rule refs_live(2) [OF inv in_refs])
  have "item_v r \<notin> doomed s P"
  proof
    assume "item_v r \<in> doomed s P"
    then obtain p q where p: "p \<in> set P" "q \<in> set (scan (block_val s p))" "item_v q = item_v r"
      by (auto simp: doomed_def)
    then have "q \<in> set (owned (block_val s p))" using set_scan_owned by blast
    let ?own = "\<lambda>d. owned (block_val s d)"
    have d: "distinct (map item_v (H @ concat (map ?own (par_iter (data_list s))) @ concat (map ?own P)))"
      using inv by (simp add: gc_invx_def refs_ok_def refs_def all_data_def)
    have "r \<in> set (H @ concat (map ?own (par_iter (data_list s))))" using r by (auto simp: tracked_def)
    moreover have "q \<in> set (concat (map ?own P))" using p(1) \<open>q \<in> set (owned (block_val s p))\<close> by auto
    ultimately show False
      using distinct_map_append [of item_v "H @ concat (map ?own (par_iter (data_list s)))" "concat (map ?own P)" r q]
        d p(3) by simp
  qed
  then show t: "target s (item_v r) \<in> tracked s" using inv live by (simp add: gc_invx_def handles_ok_def)
  show "data_ok s (target s (item_v r))" by (rule all_data_ok [OF inv tracked_all_data [OF t]])
  show "\<not> d_deallocated (gc_datas s ! target s (item_v r))"
    using inv t by (simp add: gc_invx_def warrants_ok_def)
qed

lemma lockout_count_upd: "(lk :: lockout)\<lparr>lk_count := c\<rparr> = \<lparr>lk_count = c\<rparr>"
  by (cases lk) simp

lemma warrants_ok_upd:
  assumes ok: "warrants_ok W s" and d: "d \<in> tracked s" "d < length (gc_datas s)"
    and lk: "\<not> lk_exclusive lk" "unat (lk_count lk) = count (mset W') d"
    and W: "set W' \<subseteq> tracked s" "\<And>e. e \<noteq> d \<Longrightarrow> count (mset W') e = count (mset W) e"
  shows "warrants_ok W' (upd_data d (\<lambda>x. x\<lparr>d_lockout := lk\<rparr>) s)"
  using ok lk W by (simp add: warrants_ok_def tracked_def upd_data_nth [OF d(2)])

text \<open>\<open>get_data_warrant\<close> through such a handle succeeds, as long as the counter has room.\<close>

lemma gc_inv_get_warrant:
  assumes inv: "gc_invx {} P H W s" and r: "r \<in> set H \<or> (\<exists>d\<in>tracked s. r \<in> set (owned (block_val s d)))"
    and fixed: "h_underlying_data (gc_handles s ! item_v r) = Fixed d"
    and room: "count (mset W) d < 2 ^ 64 - 2"
  obtains s' where "get_data_warrant r s = Inr (d, s')" and "gc_invx {} P H (d # W) s'"
    and "s' = upd_data d (\<lambda>x. x\<lparr>d_lockout := \<lparr>lk_count = lk_count (d_lockout (gc_datas s ! d)) + 1\<rparr>\<rparr>) s"
proof -
  let ?lk = "d_lockout (gc_datas s ! d)"
  let ?lk' = "\<lparr>lk_count = lk_count ?lk + 1\<rparr>"
  let ?s = "upd_data d (\<lambda>x. x\<lparr>d_lockout := ?lk'\<rparr>) s"
  have "target s (item_v r) = d" using fixed by (simp add: target_def)
  with gc_inv_target [OF inv r] have d: "d \<in> tracked s" "data_ok s d" "\<not> d_deallocated (gc_datas s ! d)" by simp_all
  then have b: "d < length (gc_datas s)" by (simp add: data_ok_def)
  have ok: "warrants_ok W s" using inv by (simp add: gc_invx_def)
  with d(1) have lk: "\<not> lk_exclusive ?lk" "unat (lk_count ?lk) = count (mset W) d" "set W \<subseteq> tracked s"
    by (auto simp: warrants_ok_def)
  then have c: "unat (lk_count ?lk + 1) = Suc (count (mset W) d)"
    using room by (simp add: unat_Suc_word)
  then have "\<not> lk_exclusive ?lk'" using room by (simp add: lk_exclusive_def signpost_eq_unat)
  then have "warrants_ok (d # W) ?s" using ok d b c lk(3) by (intro warrants_ok_upd) simp_all
  then have "gc_invx {} P H (d # W) ?s"
    using gc_inv_upd_data [OF inv tracked_all_data [OF d(1)]] by simp
  moreover have "get_data_warrant r s = Inr (d, ?s)"
    using fixed d(3) lk(1) by (simp add: get_data_warrant_def get_warrant_eq lockout_count_upd)
  ultimately show thesis using that by blast
qed

lemma gc_inv_drop_warrant:
  assumes inv: "gc_invx X P H W s" and d: "d \<in> set W"
  obtains s' where "drop_data_warrant d s = Inr s'" and "gc_invx X P H (remove1 d W) s'"
    and "s' = upd_data d (\<lambda>x. x\<lparr>d_lockout := \<lparr>lk_count = lk_count (d_lockout (gc_datas s ! d)) - 1\<rparr>\<rparr>) s"
proof -
  let ?lk = "d_lockout (gc_datas s ! d)"
  let ?lk' = "\<lparr>lk_count = lk_count ?lk - 1\<rparr>"
  let ?s = "upd_data d (\<lambda>x. x\<lparr>d_lockout := ?lk'\<rparr>) s"
  have ok: "warrants_ok W s" using inv by (simp add: gc_invx_def)
  have t: "d \<in> tracked s" using ok d by (auto simp: warrants_ok_def)
  then have "data_ok s d" by (rule all_data_ok [OF inv tracked_all_data])
  then have b: "d < length (gc_datas s)" by (simp add: data_ok_def)
  have lk: "\<not> lk_exclusive ?lk" "unat (lk_count ?lk) = count (mset W) d" "set W \<subseteq> tracked s"
    using ok t by (auto simp: warrants_ok_def)
  have "0 < count (mset W) d" using d by simp
  with lk(2) have "0 < unat (lk_count ?lk)" by simp
  then have pos: "0 < lk_count ?lk" by (simp add: word_less_nat_alt)
  have c: "unat (lk_count ?lk - 1) = count (mset W) d - 1" using unat_pred_word [OF pos] lk(2) by simp
  then have "unat (lk_count ?lk - 1) < unat (lk_count ?lk)" using lk(2) \<open>0 < count (mset W) d\<close> by simp
  then have "\<not> lk_exclusive ?lk'"
    using unat_less_64 [of "lk_count ?lk"] by (simp add: lk_exclusive_def signpost_eq_unat)
  moreover have "set (remove1 d W) \<subseteq> tracked s" using lk(3) set_remove1_subset [of d W] by blast
  ultimately have "warrants_ok (remove1 d W) ?s" using ok t b c by (intro warrants_ok_upd) simp_all
  then have "gc_invx X P H (remove1 d W) ?s"
    using gc_inv_upd_data [OF inv tracked_all_data [OF t]] by simp
  moreover have "drop_data_warrant d s = Inr ?s"
    using lk(1) pos by (simp add: drop_data_warrant_def drop_warrant_eq lockout_count_upd)
  ultimately show thesis using that by blast
qed

text \<open>
  Writing through a guard: handles move between the client and the data, as values do in Rust.
\<close>

lemma gc_inv_write:
  assumes inv: "gc_invx X P H W s" and d: "d \<in> tracked s" and panics: "at_most_one_panic v"
    and move: "mset (owned v) + mset H' = mset (owned (block_val s d)) + mset H"
  shows "gc_invx X P H' W (s\<lparr>gc_heap := (gc_heap s)[addr s d := Init v]\<rparr>)"
proof -
  let ?s = "s\<lparr>gc_heap := (gc_heap s)[addr s d := Init v]\<rparr>"
  note dD = tracked_all_data [OF d, of P]
  have dok: "data_ok s e" if "e \<in> set (all_data s P)" for e by (rule all_data_ok [OF inv that])
  have inj: "inj_on (addr s) (set (all_data s P))" and dis: "distinct (all_data s P)"
    using inv by (simp_all add: gc_invx_def datas_ok_def)
  have a: "addr ?s = addr s" by (simp add: addr_def fun_eq_iff)
  have all: "all_data ?s P = all_data s P" "tracked ?s = tracked s" by (simp_all add: all_data_def tracked_def)
  have b: "block_val ?s e = (if e = d then v else block_val s e)" if "e \<in> set (all_data s P)" for e
    using that dok [OF dD] inj_on_eq_iff [OF inj that dD] by (auto simp: block_val_def a data_ok_def)
  have "data_ok ?s e" if "e \<in> set (all_data s P)" for e
    using that dok [OF that] dok [OF dD] b [OF that] panics inj_on_eq_iff [OF inj that dD]
    by (auto simp: data_ok_def a)
  then have "datas_ok P ?s" using inj dis by (simp add: datas_ok_def all a)
  moreover have "refs_ok P H' ?s = refs_ok P H s"
  proof (rule refs_ok_perm)
    have "(\<Sum>e\<in>set (all_data s P). mset (owned (block_val ?s e))) =
        mset (owned v) + (\<Sum>e\<in>set (all_data s P) - {d}. mset (owned (block_val s e)))"
      using dD b by (subst sum.remove [of _ d]) (auto intro!: sum.cong)
    moreover have "(\<Sum>e\<in>set (all_data s P). mset (owned (block_val s e))) =
        mset (owned (block_val s d)) + (\<Sum>e\<in>set (all_data s P) - {d}. mset (owned (block_val s e)))"
      using dD by (subst sum.remove [of _ d]) auto
    ultimately show "mset (refs ?s P H') = mset (refs s P H)"
      using dis move by (simp add: mset_refs all ac_simps)
  qed (simp add: registered_def)
  moreover have "doomed ?s P = doomed s P"
  proof -
    have "e \<noteq> d" "e \<in> set (all_data s P)" if "e \<in> set P" for e
      using that d dis by (auto simp: all_data_def tracked_def)
    with b show ?thesis by (simp add: doomed_def)
  qed
  moreover have "target ?s = target s" by (rule target_cong) simp_all
  ultimately show ?thesis
    using inv
    by (simp add: gc_invx_def lists_ok_def handles_ok_def warrants_ok_def marks_ok_def all live_handles_def mark_of_def)
qed

subsection \<open>Atomic cells\<close>

lemma gc_inv_atomic_store:
  assumes inv: "gc_invx X P H W s" and d: "d \<in> tracked s"
  shows "gc_invx X P H W (s\<lparr>atomics := (atomics s)[a := d]\<rparr>)"
proof -
  let ?s = "s\<lparr>atomics := (atomics s)[a := d]\<rparr>"
  note same = same_data [of ?s s, simplified]
  have "target ?s h \<in> tracked s" if "target s h \<in> tracked s"
      "\<And>a. h_underlying_data (gc_handles s ! h) = DynamicForAtomic a \<Longrightarrow> a < length (atomics s)" for h
  proof (cases "h_underlying_data (gc_handles s ! h)")
    case (DynamicForAtomic a')
    with that d show ?thesis by (cases "a' = a") (simp_all add: target_def)
  qed (use that in \<open>simp add: target_def\<close>)
  then have "handles_ok X P ?s" using inv by (simp add: gc_invx_def handles_ok_def same live_handles_def)
  then show ?thesis
    using inv
    by (simp add: gc_invx_def lists_ok_def datas_ok_def refs_ok_def warrants_ok_def marks_ok_def same registered_def)
qed

lemma gc_inv_atomic_new:
  assumes inv: "gc_invx X P H W s"
  shows "gc_invx X P H W (s\<lparr>atomics := atomics s @ [d]\<rparr>)"
proof -
  let ?s = "s\<lparr>atomics := atomics s @ [d]\<rparr>"
  note same = same_data [of ?s s, simplified]
  have "target ?s h = target s h" if
      "\<And>a. h_underlying_data (gc_handles s ! h) = DynamicForAtomic a \<Longrightarrow> a < length (atomics s)" for h
    using that by (simp add: target_def nth_append split: underlying_data.split)
  then have "handles_ok X P ?s" using inv by (auto simp: gc_invx_def handles_ok_def same live_handles_def)
  then show ?thesis
    using inv
    by (simp add: gc_invx_def lists_ok_def datas_ok_def refs_ok_def warrants_ok_def marks_ok_def same registered_def)
qed

subsection \<open>Dropping\<close>

lemma deallocate_data_ok:
  assumes ok: "data_ok s d"
  obtains hp invd pan where "deallocate (d_allocation (gc_datas s ! d)) (gc_heap s) = Inr (hp, invd, pan)"
    and "set (scan (block_val s d)) \<subseteq> set invd" and "set invd \<subseteq> set (owned (block_val s d))"
    and "length hp = length (gc_heap s)" and "\<And>q. q \<noteq> addr s d \<Longrightarrow> hp ! q = gc_heap s ! q"
proof -
  let ?al = "d_allocation (gc_datas s ! d)" and ?v = "block_val s d"
  have cell: "read_cell (scan_ptr ?al) (gc_heap s) = Inr ?v" "addr s d = scan_ptr ?al"
    using ok by (simp_all add: data_ok_def read_cell_def addr_def)
  have "\<exists>r. deallocate ?al (gc_heap s) = Inr r"
    using ok cell
    by (cases "deallocation_action ?al")
      (auto simp: deallocate_def data_ok_def at_most_one_panic_def Let_def split: prod.splits)
  then obtain hp invd pan where run: "deallocate ?al (gc_heap s) = Inr (hp, invd, pan)" by auto
  have "set (scan ?v) \<subseteq> set invd \<and> set invd \<subseteq> set (owned ?v)"
    using run
  proof (cases rule: deallocation_cases)
    case (run_finalizer v fp fv)
    then have "fp = scan_ptr ?al" using ok cell(2) by (simp add: data_ok_def)
    then show ?thesis
      using run_finalizer cell(1) set_scan_owned [of ?v] set_finalize_owned [of ?v] by auto
  qed (use cell(1) set_scan_owned [of ?v] in auto)
  moreover have "length hp = length (gc_heap s)" "\<And>q. q \<noteq> addr s d \<Longrightarrow> hp ! q = gc_heap s ! q"
    using deallocate_heap(2,4) [OF run] cell(2) by simp_all
  ultimately show thesis using that run by blast
qed

text \<open>The dropper takes over what pending data owns.\<close>

lemma gc_inv_release_data:
  assumes inv: "gc_invx X (p # P) H W s"
  shows "gc_invx (X \<union> item_v ` set (scan (block_val s p))) P (owned (block_val s p) @ H) W s"
proof -
  have dis: "distinct (all_data s (p # P))" using inv by (simp add: gc_invx_def datas_ok_def)
  have set: "set (all_data s (p # P)) = insert p (set (all_data s P))" by (auto simp: all_data_def)
  have "datas_ok P s"
    using inv dis by (auto simp: gc_invx_def datas_ok_def set) (auto simp: all_data_def)
  moreover have "refs_ok P (owned (block_val s p) @ H) s = refs_ok (p # P) H s"
    by (rule refs_ok_perm) (simp_all add: refs_def all_data_def)
  moreover have "doomed s (p # P) = item_v ` set (scan (block_val s p)) \<union> doomed s P" by (simp add: doomed_def)
  ultimately show ?thesis using inv by (auto simp: gc_invx_def handles_ok_def)
qed

lemma gc_inv_shrink:
  assumes "gc_invx X P H W s" and "\<And>h. h \<in> X \<Longrightarrow> h \<in> live_handles s \<Longrightarrow> h \<in> X'"
  shows "gc_invx X' P H W s"
  using assms by (auto simp: gc_invx_def handles_ok_def)

lemma gc_inv_drop_handles:
  assumes "gc_invx X P (os @ H) W s"
    and "\<And>r. r \<in> set rs \<Longrightarrow> r \<in> set os \<or> \<not> registered s r \<and> item_v r \<notin> live_handles s"
  shows "\<exists>os'. gc_invx (X - item_v ` set rs) P (os' @ H) W (fold drop_handle rs s)"
  using assms
proof (induction rs arbitrary: os X s)
  case (Cons r rs)
  show ?case
  proof (cases "r \<in> set os")
    case True
    then have perm: "mset (os @ H) = mset (r # remove1 r os @ H)" by simp
    have inv: "gc_invx X P (r # remove1 r os @ H) W s"
      using Cons.prems(1) gc_inv_perm [OF perm refl] by simp
    note dr = gc_inv_drop_handle [OF inv]
    have "q \<in> set (remove1 r os) \<or> \<not> registered (drop_handle r s) q \<and> item_v q \<notin> live_handles (drop_handle r s)"
      if "q \<in> set rs" for q
    proof (cases "q = r")
      case True
      then show ?thesis using dr(2) by (simp add: dr(4))
    next
      case False
      then have "registered (drop_handle r s) q = registered s q" by (rule dr(3))
      moreover have "q \<in> set os \<or> \<not> registered s q \<and> item_v q \<notin> live_handles s"
        using Cons.prems(2) [of q] that by simp
      ultimately show ?thesis using False by (auto simp: dr(4))
    qed
    from Cons.IH [OF dr(1) this]
    have "\<exists>os'. gc_invx (X - {item_v r} - item_v ` set rs) P (os' @ H) W (fold drop_handle rs (drop_handle r s))" .
    then show ?thesis by (simp add: Diff_insert2 [symmetric])
  next
    case False
    then have stale: "\<not> registered s r" "item_v r \<notin> live_handles s" using Cons.prems(2) [of r] by auto
    have "gc_invx (X - {item_v r}) P (os @ H) W s"
      by (rule gc_inv_shrink [OF Cons.prems(1)]) (use stale in auto)
    from Cons.IH [OF this] Cons.prems(2)
    have "\<exists>os'. gc_invx (X - {item_v r} - item_v ` set rs) P (os' @ H) W (fold drop_handle rs s)" by simp
    then show ?thesis by (simp add: drop_handle_stale [OF stale(1)] Diff_insert2 [symmetric])
  qed
qed auto

text \<open>What the dropper and the client leave to a collection.\<close>

definition same_control :: "gc_state \<Rightarrow> gc_state \<Rightarrow> bool" where
  "same_control s s' \<longleftrightarrow> gc_lock s' = gc_lock s \<and> atomic_spinlock s' = atomic_spinlock s \<and>
     current_collection_number s' = current_collection_number s \<and> dropper s' = dropper s \<and>
     trigger s' = trigger s \<and> async_gc_notified s' = async_gc_notified s \<and> data_list s' = data_list s"

lemma same_control_refl: "same_control s s"
  by (simp add: same_control_def)

lemma same_control_trans: "same_control s s' \<Longrightarrow> same_control s' s'' \<Longrightarrow> same_control s s''"
  by (simp add: same_control_def)

lemma same_control_drop_handles: "same_control s (fold drop_handle rs s)"
proof (induction rs arbitrary: s)
  case (Cons r rs)
  have "same_control s (drop_handle r s)" by (simp add: same_control_def drop_handle_def)
  with Cons show ?case by (auto intro: same_control_trans)
qed (simp add: same_control_refl)

lemma gc_inv_run_drop:
  assumes inv: "gc_invx {} (p # P) H W s"
  shows "\<exists>s'. run_drop p s = Inr s' \<and> gc_invx {} P H W s' \<and> same_control s s'"
proof -
  let ?v = "block_val s p" and ?X = "item_v ` set (scan (block_val s p))"
  have p: "p \<in> set (all_data s (p # P))" by (simp add: all_data_def)
  have ok: "data_ok s p" by (rule all_data_ok [OF inv p])
  from deallocate_data_ok [OF ok] obtain hp invd pan where
    run: "deallocate (d_allocation (gc_datas s ! p)) (gc_heap s) = Inr (hp, invd, pan)" and
    sub: "set (scan ?v) \<subseteq> set invd" "set invd \<subseteq> set (owned ?v)" and
    hp: "length hp = length (gc_heap s)" "\<And>q. q \<noteq> addr s p \<Longrightarrow> hp ! q = gc_heap s ! q"
    by blast
  let ?s = "s\<lparr>gc_heap := hp\<rparr>"
  have inv1: "gc_invx ?X P (owned ?v @ H) W s" using gc_inv_release_data [OF inv] by simp
  have inj: "inj_on (addr s) (set (all_data s (p # P)))" and dis: "distinct (all_data s (p # P))"
    using inv by (simp_all add: gc_invx_def datas_ok_def)
  have other: "addr s d \<noteq> addr s p" if "d \<in> set (all_data s P)" for d
  proof -
    have "d \<in> set (all_data s (p # P))" "d \<noteq> p" using that dis by (auto simp: all_data_def)
    with inj_on_eq_iff [OF inj this(1) p] show ?thesis by simp
  qed
  have inv2: "gc_invx ?X P (owned ?v @ H) W ?s"
  proof (rule gc_inv_frame [OF inv1])
    fix d assume d: "d \<in> set (all_data s P)"
    with all_data_ok [OF inv1 d] hp other [OF d]
    show "d < length (gc_datas ?s) \<and> d_allocation (gc_datas ?s ! d) = d_allocation (gc_datas s ! d) \<and>
        addr s d < length (gc_heap ?s) \<and> gc_heap ?s ! addr s d = gc_heap s ! addr s d"
      by (simp add: data_ok_def)
  qed (simp_all add: mark_of_def warrants_ok_def tracked_def)
  have "r \<in> set (owned ?v)" if "r \<in> set invd" for r using that sub(2) by blast
  with gc_inv_drop_handles [OF inv2, of invd] obtain os' where
    "gc_invx (?X - item_v ` set invd) P (os' @ H) W (fold drop_handle invd ?s)" by blast
  moreover have "?X - item_v ` set invd = {}" using sub(1) by auto
  ultimately have "gc_invx {} P H W (fold drop_handle invd ?s)" using gc_inv_forget by metis
  moreover have "run_drop p s = Inr (fold drop_handle invd ?s)" by (simp add: run_drop_def run)
  moreover have "same_control s ?s" by (simp add: same_control_def)
  ultimately show ?thesis using same_control_trans [OF _ same_control_drop_handles] by blast
qed

lemma gc_inv_mark_deallocated:
  assumes inv: "gc_invx X P H W s" and p: "p \<in> set P"
  shows "gc_invx X P H W (mark_deallocated p s) \<and> same_control s (mark_deallocated p s)"
proof -
  have a: "p \<in> set (all_data s P)" "p \<notin> tracked s"
    using p inv by (auto simp: all_data_def tracked_def gc_invx_def datas_ok_def)
  have b: "p < length (gc_datas s)" using all_data_ok [OF inv a(1)] by (simp add: data_ok_def)
  have "warrants_ok W s \<Longrightarrow> warrants_ok W (upd_data p (\<lambda>x. x\<lparr>d_deallocated := True\<rparr>) s)"
    using a(2) by (rule_tac warrants_ok_cong) (auto simp: tracked_def upd_data_nth [OF b])
  from gc_inv_upd_data [OF inv a(1) _ _ this] show ?thesis
    by (simp add: mark_deallocated_def same_control_def upd_data_def)
qed

lemma gc_inv_run_drops:
  assumes "gc_invx {} (ds @ P) H W s"
  shows "\<exists>s'. fold_res run_drop ds s = Inr s' \<and> gc_invx {} P H W s' \<and> same_control s s'"
  using assms
proof (induction ds arbitrary: s)
  case (Cons d ds)
  then obtain s1 where "run_drop d s = Inr s1" "gc_invx {} (ds @ P) H W s1" "same_control s s1"
    using gc_inv_run_drop [of d "ds @ P" H W s] by auto
  with Cons.IH [of s1] show ?case by (auto intro: same_control_trans)
qed (simp add: same_control_refl)

lemma gc_inv_mark_all_deallocated:
  assumes "gc_invx X P H W s" and "set ds \<subseteq> set P"
  shows "gc_invx X P H W (fold mark_deallocated ds s) \<and> same_control s (fold mark_deallocated ds s)"
  using assms
proof (induction ds arbitrary: s)
  case (Cons d ds)
  then have "gc_invx X P H W (mark_deallocated d s)" "same_control s (mark_deallocated d s)"
    using gc_inv_mark_deallocated [of X P H W s d] by auto
  with Cons.IH [of "mark_deallocated d s"] Cons.prems(2) show ?case by (auto intro: same_control_trans)
qed (simp add: same_control_refl)

fun message_data :: "drop_message \<Rightarrow> nat list" where
  "message_data (DataToDrop ds) = ds"
| "message_data SyncUp = []"

definition pending :: "gc_state \<Rightarrow> nat list" where
  "pending s = concat (map message_data (dropper s))"

lemma gc_inv_handle_message:
  assumes "gc_invx {} (message_data m @ P) H W s"
  shows "\<exists>s'. handle_message m s = Inr s' \<and> gc_invx {} P H W s' \<and> same_control s s'"
proof (cases m)
  case (DataToDrop ds)
  let ?s = "fold mark_deallocated ds s"
  have "gc_invx {} (ds @ P) H W ?s" "same_control s ?s"
    using gc_inv_mark_all_deallocated [of "{}" "ds @ P" H W s ds] assms by (simp_all add: DataToDrop)
  with gc_inv_run_drops [of ds P H W ?s] show ?thesis by (auto simp: DataToDrop intro: same_control_trans)
qed (use assms in \<open>simp add: same_control_refl\<close>)

lemma gc_inv_handle_messages:
  assumes "gc_invx {} (concat (map message_data ms) @ P) H W s"
  shows "\<exists>s'. fold_res handle_message ms s = Inr s' \<and> gc_invx {} P H W s' \<and> same_control s s'"
  using assms
proof (induction ms arbitrary: s)
  case (Cons m ms)
  then obtain s1 where "handle_message m s = Inr s1"
      "gc_invx {} (concat (map message_data ms) @ P) H W s1" "same_control s s1"
    using gc_inv_handle_message [of m "concat (map message_data ms) @ P" H W s] by auto
  with Cons.IH [of s1] show ?case by (auto intro: same_control_trans)
qed (simp add: same_control_refl)

end
