(* ===== verification/Released.thy ===== *)
theory Released
  imports Safety
begin

text \<open>
  The effect of the background dropper (\<open>Dropper\<close>) on the heap and on the data: exactly the
  blocks of the data in its messages are ended, exactly that data is flagged, and tracked data is
  not touched. A block ends freed, or leaked where its value demands it (\<open>end_cell\<close>). In every order of the
  dropper's steps all data of a message is flagged before the first destructor begins (\<open>drop_inv\<close>).
\<close>

subsection \<open>What the dropper does to the heap\<close>

definition ended :: "gc_state \<Rightarrow> nat \<Rightarrow> bool" where
  "ended s q \<longleftrightarrow> gc_heap s ! q \<in> {Freed, Leaked}"

text \<open>
  The data in \<open>F\<close> is flagged and the blocks of the data in \<open>D\<close> are ended; no other block changes.
  Without drops no handle is invalidated.
\<close>

definition released :: "nat set \<Rightarrow> nat set \<Rightarrow> gc_state \<Rightarrow> gc_state \<Rightarrow> bool" where
  "released F D s s' \<longleftrightarrow> gc_handles s' = gc_handles s \<and> atomics s' = atomics s \<and>
     length (gc_datas s') = length (gc_datas s) \<and>
     (\<forall>d. d_allocation (gc_datas s' ! d) = d_allocation (gc_datas s ! d) \<and>
          d_lockout (gc_datas s' ! d) = d_lockout (gc_datas s ! d)) \<and>
     (\<forall>d. d_deallocated (gc_datas s' ! d) \<longleftrightarrow>
          d_deallocated (gc_datas s ! d) \<or> d \<in> F \<and> d < length (gc_datas s)) \<and>
     (\<forall>q. q \<notin> addr s ` D \<longrightarrow> gc_heap s' ! q = gc_heap s ! q) \<and>
     (\<forall>q. q \<in> addr s ` D \<or> ended s q \<longrightarrow> ended s' q) \<and>
     (D = {} \<longrightarrow> handle_list s' = handle_list s)"

lemma released_refl: "released {} {} s s"
  by (simp add: released_def)

lemma released_addr: "released F D s s' \<Longrightarrow> addr s' = addr s"
  by (simp add: released_def addr_def fun_eq_iff)

lemma released_trans:
  assumes one: "released F D s s'" and two: "released F' D' s' s''"
  shows "released (F \<union> F') (D \<union> D') s s''"
proof -
  have a: "addr s' = addr s" by (rule released_addr [OF one])
  have "gc_heap s'' ! q = gc_heap s ! q" if "q \<notin> addr s ` (D \<union> D')" for q
  proof -
    have "q \<notin> addr s ` D" "q \<notin> addr s' ` D'" using that by (simp_all add: a image_Un)
    then show ?thesis using one two by (simp add: released_def)
  qed
  moreover have "ended s'' q" if "q \<in> addr s ` (D \<union> D') \<or> ended s q" for q
  proof -
    have "q \<in> addr s ` D \<or> ended s q \<or> q \<in> addr s' ` D'" using that by (auto simp: a)
    then show ?thesis using one two by (auto simp: released_def)
  qed
  moreover have "d_deallocated (gc_datas s'' ! d) \<longleftrightarrow>
      d_deallocated (gc_datas s ! d) \<or> d \<in> F \<union> F' \<and> d < length (gc_datas s)" for d
    using one two by (auto simp: released_def)
  ultimately show ?thesis using one two by (simp add: released_def)
qed

lemma fold_drop_handle_frame:
  "gc_handles (fold drop_handle rs s) = gc_handles s" "atomics (fold drop_handle rs s) = atomics s"
  "gc_datas (fold drop_handle rs s) = gc_datas s" "gc_heap (fold drop_handle rs s) = gc_heap s"
  by (induction rs arbitrary: s) (simp_all add: drop_handle_def)

lemma run_drop_released:
  assumes "run_drop p s = Inr s'"
  shows "released {} {p} s s'"
proof -
  obtain hp invd pan where run: "deallocate (d_allocation (gc_datas s ! p)) (gc_heap s) = Inr (hp, invd, pan)"
    and s': "s' = fold drop_handle invd (s\<lparr>gc_heap := hp\<rparr>)"
    using assms by (auto simp: run_drop_def res_bind_eq_Inr)
  have at: "ended s' (addr s p)" using deallocate_heap(3) [OF run] by (simp add: ended_def s' fold_drop_handle_frame addr_def)
  have other: "gc_heap s' ! q = gc_heap s ! q" if "q \<noteq> addr s p" for q
    using deallocate_heap(4) [OF run, of q] that by (simp add: s' fold_drop_handle_frame addr_def)
  have "ended s' q" if "ended s q" for q
    using that at other [of q] by (cases "q = addr s p") (simp_all add: ended_def)
  with at other show ?thesis by (simp add: released_def s' fold_drop_handle_frame)
qed

lemma mark_deallocated_released: "released {d} {} s (mark_deallocated d s)"
proof -
  have nth: "(gc_datas s)[d := (gc_datas s ! d)\<lparr>d_deallocated := True\<rparr>] ! e =
      (if e = d \<and> d < length (gc_datas s) then (gc_datas s ! d)\<lparr>d_deallocated := True\<rparr> else gc_datas s ! e)" for e
    by (cases "d < length (gc_datas s)") (simp_all add: list_update_beyond)
  show ?thesis by (auto simp: released_def mark_deallocated_def ended_def nth upd_data_def)
qed

lemma fold_mark_released: "released (set ds) {} s (fold mark_deallocated ds s)"
proof (induction ds arbitrary: s)
  case (Cons d ds)
  from released_trans [OF mark_deallocated_released [of d s] Cons.IH [of "mark_deallocated d s"]] show ?case by simp
qed (simp add: released_refl)

lemma run_drops_released: "fold_res run_drop ds s = Inr s' \<Longrightarrow> released {} (set ds) s s'"
proof (induction ds arbitrary: s)
  case (Cons d ds)
  then obtain s1 where one: "run_drop d s = Inr s1" and rest: "fold_res run_drop ds s1 = Inr s'"
    by (auto simp: res_bind_eq_Inr)
  from released_trans [OF run_drop_released [OF one] Cons.IH [OF rest]] show ?case by simp
qed (simp add: released_refl)

lemma handle_message_released:
  assumes "handle_message m s = Inr s'"
  shows "released (set (message_data m)) (set (message_data m)) s s'"
proof (cases m)
  case (DataToDrop ds)
  then have "fold_res run_drop ds (fold mark_deallocated ds s) = Inr s'" using assms by simp
  from released_trans [OF fold_mark_released run_drops_released [OF this]] show ?thesis by (simp add: DataToDrop)
qed (use assms in \<open>simp add: released_refl\<close>)

lemma handle_messages_released:
  assumes "fold_res handle_message ms s = Inr s'"
  shows "released (set (concat (map message_data ms))) (set (concat (map message_data ms))) s s'"
  using assms
proof (induction ms arbitrary: s)
  case (Cons m ms)
  then obtain s1 where one: "handle_message m s = Inr s1" and rest: "fold_res handle_message ms s1 = Inr s'"
    by (auto simp: res_bind_eq_Inr)
  from released_trans [OF handle_message_released [OF one] Cons.IH [OF rest]] show ?case by simp
qed (simp add: released_refl)

lemma synchronize_released:
  assumes "synchronize_destructors s = Inr s'"
  shows "released (set (pending s)) (set (pending s)) s s'"
proof -
  let ?s = "s\<lparr>dropper := []\<rparr>"
  have "released (set (pending s)) (set (pending s)) ?s s'"
    using handle_messages_released [of "dropper s @ [SyncUp]" ?s s'] assms
    by (simp add: synchronize_destructors_def send_msg_def Let_def pending_def)
  moreover have "released {} {} s ?s" by (simp add: released_def ended_def)
  ultimately show ?thesis using released_trans [of "{}" "{}" s ?s] by fastforce
qed

subsection \<open>What is left of a block\<close>

text \<open>
  Where the blocks in \<open>D\<close> were, there is what \<open>end_cell\<close> says of their values: freed memory, or memory
  that a panicking destructor leaks.
\<close>

definition blocks_ended :: "nat set \<Rightarrow> gc_state \<Rightarrow> gc_state \<Rightarrow> bool" where
  "blocks_ended D s s' \<longleftrightarrow>
     (\<forall>d\<in>D. gc_heap s' ! addr s d = end_cell (d_allocation (gc_datas s ! d)) (block_val s d))"

definition own_finalizer :: "gc_state \<Rightarrow> nat \<Rightarrow> bool" where
  "own_finalizer s d \<longleftrightarrow>
     (\<forall>fp. deallocation_action (d_allocation (gc_datas s ! d)) = RunFinalizer fp \<longrightarrow> fp = addr s d)"

lemma released_own_finalizer:
  assumes "released F D s s'"
  shows "own_finalizer s' d = own_finalizer s d"
  using assms released_addr [OF assms] by (simp add: own_finalizer_def released_def)

lemma blocks_ended_empty [simp]: "blocks_ended {} s s'"
  by (simp add: blocks_ended_def)

lemma blocks_ended_trans:
  assumes one: "released F D s s1" "blocks_ended D s s1"
    and two: "released F' D' s1 s2" "blocks_ended D' s1 s2"
    and apart: "addr s ` D \<inter> addr s ` D' = {}"
  shows "blocks_ended (D \<union> D') s s2"
  unfolding blocks_ended_def
proof
  fix d assume d: "d \<in> D \<union> D'"
  have a: "addr s1 = addr s" by (rule released_addr [OF one(1)])
  show "gc_heap s2 ! addr s d = end_cell (d_allocation (gc_datas s ! d)) (block_val s d)"
  proof (cases "d \<in> D")
    case True
    then have "addr s d \<notin> addr s1 ` D'" using apart a by auto
    then have "gc_heap s2 ! addr s d = gc_heap s1 ! addr s d" using two(1) by (simp add: released_def)
    then show ?thesis using one(2) True by (simp add: blocks_ended_def)
  next
    case False
    then have "d \<in> D'" "addr s d \<notin> addr s ` D" using d apart by auto
    moreover have "d_allocation (gc_datas s1 ! d) = d_allocation (gc_datas s ! d)"
      "gc_heap s1 ! addr s d = gc_heap s ! addr s d" using one(1) calculation by (simp_all add: released_def)
    ultimately show ?thesis using two(2) by (simp add: blocks_ended_def block_val_def a)
  qed
qed

lemma run_drop_ended:
  assumes "run_drop p s = Inr s'" and "own_finalizer s p"
  shows "blocks_ended {p} s s'"
proof -
  let ?al = "d_allocation (gc_datas s ! p)"
  obtain hp invd pan where run: "deallocate ?al (gc_heap s) = Inr (hp, invd, pan)"
    and s': "s' = fold drop_handle invd (s\<lparr>gc_heap := hp\<rparr>)"
    using assms(1) by (auto simp: run_drop_def res_bind_eq_Inr)
  obtain v where v: "gc_heap s ! scan_ptr ?al = Init v"
    using run by (cases rule: deallocation_cases) (auto simp: read_cell_Inr)
  have "hp ! scan_ptr ?al = end_cell ?al v"
    by (rule deallocate_end_cell(2) [OF run v]) (use assms(2) in \<open>simp add: own_finalizer_def addr_def\<close>)
  then show ?thesis by (simp add: blocks_ended_def s' fold_drop_handle_frame addr_def block_val_def v)
qed

lemma apart_rest:
  "inj_on f (A \<union> B) \<Longrightarrow> A \<inter> B = {} \<Longrightarrow> f ` A \<inter> f ` B = {}"
  by (auto simp: inj_on_def)

lemma run_drops_ended:
  assumes "fold_res run_drop ds s = Inr s'" and "distinct ds" and "inj_on (addr s) (set ds)"
    and "\<forall>d\<in>set ds. own_finalizer s d"
  shows "blocks_ended (set ds) s s'"
  using assms
proof (induction ds arbitrary: s)
  case (Cons d ds)
  then obtain s1 where one: "run_drop d s = Inr s1" and rest: "fold_res run_drop ds s1 = Inr s'"
    by (auto simp: res_bind_eq_Inr)
  note rel = run_drop_released [OF one]
  have two: "blocks_ended (set ds) s1 s'"
    using Cons.IH [OF rest] Cons.prems(2-4)
    by (simp add: released_addr [OF rel] released_own_finalizer [OF rel])
  have "blocks_ended ({d} \<union> set ds) s s'"
  proof (rule blocks_ended_trans [OF rel run_drop_ended [OF one] run_drops_released [OF rest] two])
    show "own_finalizer s d" using Cons.prems(4) by simp
    show "addr s ` {d} \<inter> addr s ` set ds = {}" using Cons.prems(2,3) by simp
  qed
  then show ?case by simp
qed simp

lemma handle_message_ended:
  assumes "handle_message m s = Inr s'" and "distinct (message_data m)" and "inj_on (addr s) (set (message_data m))"
    and "\<forall>d\<in>set (message_data m). own_finalizer s d"
  shows "blocks_ended (set (message_data m)) s s'"
proof (cases m)
  case (DataToDrop ds)
  then have run: "fold_res run_drop ds (fold mark_deallocated ds s) = Inr s'" using assms(1) by simp
  note rel = fold_mark_released [of ds s]
  have "blocks_ended (set ds) (fold mark_deallocated ds s) s'"
    using run_drops_ended [OF run] assms(2-4)
    by (simp add: DataToDrop released_addr [OF rel] released_own_finalizer [OF rel])
  from blocks_ended_trans [OF rel _ run_drops_released [OF run] this] show ?thesis by (simp add: DataToDrop)
qed simp

lemma handle_messages_ended:
  assumes "fold_res handle_message ms s = Inr s'" and "distinct (concat (map message_data ms))"
    and "inj_on (addr s) (set (concat (map message_data ms)))"
    and "\<forall>d\<in>set (concat (map message_data ms)). own_finalizer s d"
  shows "blocks_ended (set (concat (map message_data ms))) s s'"
  using assms
proof (induction ms arbitrary: s)
  case (Cons m ms)
  let ?D = "set (message_data m)" and ?R = "set (concat (map message_data ms))"
  obtain s1 where one: "handle_message m s = Inr s1" and rest: "fold_res handle_message ms s1 = Inr s'"
    using Cons.prems(1) by (auto simp: res_bind_eq_Inr)
  note rel = handle_message_released [OF one]
  have sub: "inj_on (addr s) ?D" "inj_on (addr s) ?R" using Cons.prems(3) by (auto intro: inj_on_subset)
  have first: "blocks_ended ?D s s1" by (rule handle_message_ended [OF one]) (use Cons.prems sub in auto)
  have "blocks_ended ?R s1 s'"
    by (rule Cons.IH [OF rest])
      (use Cons.prems sub in \<open>auto simp: released_addr [OF rel] released_own_finalizer [OF rel]\<close>)
  from blocks_ended_trans [OF rel first handle_messages_released [OF rest] this apart_rest]
  show ?case using Cons.prems(2,3) by simp
qed simp

text \<open>So the dropper ends the block of everything that waits for it, just as the value demands.\<close>

lemma synchronize_ended:
  assumes inv: "gc_inv (pending s) H W s" and run: "synchronize_destructors s = Inr s'" and d: "d \<in> set (pending s)"
  shows "gc_heap s' ! addr s d = end_cell (d_allocation (gc_datas s ! d)) (block_val s d)"
proof -
  let ?s = "s\<lparr>dropper := []\<rparr>" and ?ms = "dropper s @ [SyncUp]"
  have p: "concat (map message_data ?ms) = pending s" by (simp add: pending_def)
  have same: "addr ?s = addr s" "own_finalizer ?s = own_finalizer s" "block_val ?s = block_val s"
    by (simp_all add: addr_def own_finalizer_def block_val_def fun_eq_iff)
  have ok: "distinct (all_data s (pending s))" "inj_on (addr s) (set (all_data s (pending s)))"
    "\<forall>d\<in>set (all_data s (pending s)). data_ok s d" using inv by (simp_all add: gc_invx_def datas_ok_def)
  have go: "fold_res handle_message ?ms ?s = Inr s'"
    using run by (simp add: synchronize_destructors_def send_msg_def Let_def)
  have "blocks_ended (set (pending s)) ?s s'"
    using handle_messages_ended [OF go, unfolded p same] ok
    by (auto simp: all_data_def data_ok_def own_finalizer_def inj_on_Un)
  then show ?thesis using d by (simp add: blocks_ended_def same)
qed

subsection \<open>The dropper in steps\<close>

text \<open>Once the second loop has begun all data of the message is flagged, and stays so.\<close>

fun drop_inv :: "nat list \<Rightarrow> nat \<Rightarrow> drop_phase \<times> gc_state \<Rightarrow> bool" where
  "drop_inv ds n (Flagging ms ds', s) \<longleftrightarrow> ds' = ds \<and> length (gc_datas s) = n \<and>
     (\<forall>d\<in>set ds. d \<in> set ms \<or> d_deallocated (gc_datas s ! d))"
| "drop_inv ds n (Deallocating ws rs, s) \<longleftrightarrow> length (gc_datas s) = n \<and>
     (\<forall>d\<in>set ds. d_deallocated (gc_datas s ! d))"

lemma drop_inv_step:
  assumes "drop_step x y" and "drop_inv ds n x" and "set ds \<subseteq> {..<n}"
  shows "drop_inv ds n y"
  using assms(1)
proof cases
  case (flag d ms ds' s)
  note rel = mark_deallocated_released [of d s]
  have "e \<in> set (remove1 d ms) \<or> d_deallocated (gc_datas (mark_deallocated d s) ! e)" if "e \<in> set ds" for e
    using that assms(2,3) flag rel by (cases "e = d") (auto simp: released_def)
  then show ?thesis using assms(2) flag rel by (simp add: released_def)
next
  case (finish_drop d rs s s' ds')
  then show ?thesis using assms(2) run_drop_released [OF finish_drop(4)] by (simp add: released_def)
qed (use assms(2) in auto)

lemma drop_inv_steps:
  assumes "drop_step\<^sup>*\<^sup>* (drop_start ds s) x" and "set ds \<subseteq> {..<length (gc_datas s)}"
  shows "drop_inv ds (length (gc_datas s)) x"
  using assms(1)
proof (induction rule: rtranclp_induct)
  case base
  show ?case by (simp add: drop_start_def)
next
  case (step y z)
  then show ?case using drop_inv_step assms(2) by blast
qed

subsection \<open>Data that is not dropped\<close>

text \<open>Tracked data is not affected by the drops of pending data.\<close>

lemma released_tracked:
  assumes inv: "gc_inv P H W s" and rel: "released F (set P) s s'" and d: "d \<in> tracked s"
  shows "block_val s' d = block_val s d" and "gc_heap s' ! addr s d = gc_heap s ! addr s d"
proof -
  have "inj_on (addr s) (set (all_data s P))" "distinct (all_data s P)"
    using inv by (simp_all add: gc_invx_def datas_ok_def)
  then have "addr s d \<notin> addr s ` set P"
    using d by (auto simp: all_data_def tracked_def inj_on_def disjoint_iff)
  then show h: "gc_heap s' ! addr s d = gc_heap s ! addr s d" using rel by (simp add: released_def)
  show "block_val s' d = block_val s d" by (simp add: block_val_def released_addr [OF rel] h)
qed

lemma released_target: "released F D s s' \<Longrightarrow> target s' = target s"
  by (rule target_cong) (simp_all add: released_def)

end
