(* ===== verification/Collect_Safety.thy ===== *)
theory Collect_Safety
  imports Released
begin

text \<open>
  A collection keeps the invariant of \<open>Safety\<close>: from any state that has it, \<open>do_collect\<close> returns,
  and nothing the client or live data can reach is given up.
\<close>

subsection \<open>Collecting\<close>

lemma swept_nth:
  "d < length (gc_datas s) \<Longrightarrow> gc_datas (swept_state dl s) ! d = set_mark (swept_mark s d) (gc_datas s ! d)"
  by (simp add: swept_state_def swept_data_def)

lemma swept_frame:
  "gc_heap (swept_state dl s) = gc_heap s" "handle_list (swept_state dl s) = handle_list s"
  "atomics (swept_state dl s) = atomics s" "length (gc_datas (swept_state dl s)) = length (gc_datas s)"
  "length (gc_handles (swept_state dl s)) = length (gc_handles s)"
  "data_list (swept_state dl s) = dl"
  "current_collection_number (swept_state dl s) = current_collection_number s + 1"
  by (simp_all add: swept_state_def swept_data_def)

text \<open>What a registered handle leads to is kept, unless the handle is in data that is given up.\<close>

lemma target_kept:
  assumes inv: "gc_invx {} [] H W s" and h: "h \<in> live_handles s"
    and safe: "h \<notin> doomed s (filter (\<lambda>d. \<not> kept s d) (par_iter (data_list s)))"
  shows "target s h \<in> tracked s" and "kept s (target s h)"
proof -
  have ok: "data_ok s d" if "d \<in> tracked s" for d
    by (rule all_data_ok [OF inv tracked_all_data [OF that]])
  show t: "target s h \<in> tracked s" using inv h by (simp add: gc_invx_def handles_ok_def doomed_def)
  have pt: "points_to s h (target s h)"
    by (rule points_to_target [OF live_bound [OF inv h] t]) (use ok in \<open>simp add: data_ok_def\<close>)
  show "kept s (target s h)"
  proof (cases "in_use s (target s h)")
    case False
    have "target s h \<in> reachable s"
    proof (cases "h \<in> non_rooted s")
      case True
      then obtain d where d: "d \<in> tracked s" "\<not> in_use s d" "h \<in> scanned s d"
        by (auto simp: non_rooted_def)
      then have "h \<in> item_v ` set (scan (block_val s d))" by (simp add: scanned_ok [OF ok])
      with safe d(1) have "kept s d" by (auto simp: doomed_def tracked_def)
      with d(2) have "d \<in> reachable s" by (simp add: kept_def)
      from reachable.step [OF this d(3) pt t False] show ?thesis .
    next
      case not_held: False
      then have "h \<in> root_handles s" using h by (simp add: root_handles_def)
      from reachable.root [OF this pt t False] show ?thesis .
    qed
    then show ?thesis by (simp add: kept_def)
  qed (simp add: kept_def)
qed

lemma gc_inv_swept:
  assumes inv: "gc_invx {} [] H W s" and dl: "cll_inv dl" "par_iter dl = filter (kept s) (par_iter (data_list s))"
    and room: "current_collection_number s < current_collection_number s + 1"
  shows "gc_invx {} (filter (\<lambda>d. \<not> kept s d) (par_iter (data_list s))) H W (swept_state dl s)"
proof -
  let ?s = "swept_state dl s" and ?P = "filter (\<lambda>d. \<not> kept s d) (par_iter (data_list s))"
  let ?cur = "current_collection_number s"
  note fr = swept_frame [of dl s]
  have ok: "data_ok s d" if "d \<in> tracked s" for d
    by (rule all_data_ok [OF inv tracked_all_data [OF that]])
  have b: "d < length (gc_datas s)" if "d \<in> tracked s" for d using ok [OF that] by (simp add: data_ok_def)
  have a: "addr ?s d = addr s d" "block_val ?s d = block_val s d" if "d \<in> tracked s" for d
  proof -
    show "addr ?s d = addr s d" using b [OF that] by (simp add: addr_def swept_nth set_mark_def)
    then show "block_val ?s d = block_val s d" by (simp add: block_val_def fr)
  qed
  have all: "mset (all_data ?s ?P) = mset (par_iter (data_list s))"
    by (simp add: all_data_def fr dl(2))
  have set: "set (all_data ?s ?P) = tracked s" using arg_cong [OF all, of set_mset] by (simp add: tracked_def)
  have tr: "tracked ?s = {d \<in> tracked s. kept s d}" by (auto simp: tracked_def fr dl(2))
  have dis: "distinct (all_data s [])" and inj: "inj_on (addr s) (tracked s)"
    using inv by (simp_all add: gc_invx_def datas_ok_def all_data_def tracked_def)
  then have dis': "distinct (all_data ?s ?P)"
    using all by (metis all_data_def append_Nil2 mset_eq_imp_distinct_iff)
  have "lists_ok ?s" using inv dl by (simp add: gc_invx_def lists_ok_def fr)
  moreover have "datas_ok ?P ?s"
  proof -
    have "inj_on (addr ?s) (tracked s) = inj_on (addr s) (tracked s)" using a(1) by (intro inj_on_cong)
    moreover have "data_ok ?s d" if "d \<in> tracked s" for d
      using ok [OF that] b [OF that] a [OF that] by (simp add: data_ok_def fr swept_nth set_mark_def)
    ultimately show ?thesis using dis' inj by (simp add: datas_ok_def set)
  qed
  moreover have "refs_ok ?P H ?s = refs_ok [] H s"
  proof (rule refs_ok_perm)
    have "set (all_data s []) = tracked s" by (simp add: all_data_def tracked_def)
    then show "mset (refs ?s ?P H) = mset (refs s [] H)"
      using a(2) by (simp add: mset_refs [OF dis] mset_refs [OF dis'] set)
  qed (simp add: registered_def fr)
  moreover have "handles_ok {} ?P ?s"
  proof -
    have u: "h_underlying_data (gc_handles ?s ! h) = h_underlying_data (gc_handles s ! h)" if "h < length (gc_handles s)" for h
      using that by (simp add: swept_state_def flagged_def)
    then have "target ?s h = target s h" if "h < length (gc_handles s)" for h
      using that by (simp add: target_def fr split: underlying_data.split)
    moreover have "doomed ?s ?P = doomed s ?P" using a(2) by (auto simp: doomed_def tracked_def)
    moreover have "live_handles ?s = live_handles s" by (simp add: live_handles_def fr)
    ultimately show ?thesis
      using inv target_kept [OF inv] live_bound [OF inv] u
      by (simp add: gc_invx_def handles_ok_def fr tr)
  qed
  moreover have "warrants_ok W ?s"
  proof -
    have w: "warrants_ok W s" using inv by (simp add: gc_invx_def)
    have "kept s d" if "d \<in> set W" for d
    proof -
      have "0 < count (mset W) d" "d \<in> tracked s" using that w by (auto simp: warrants_ok_def)
      then have "in_use s d" using w by (auto simp: warrants_ok_def in_use_def)
      then show ?thesis by (simp add: kept_def)
    qed
    then show ?thesis using w b by (auto simp: warrants_ok_def tr swept_nth set_mark_def)
  qed
  moreover have "marks_ok ?s"
  proof -
    have m: "marks_ok s" using inv by (simp add: gc_invx_def)
    then have "2 \<le> ?cur + 1" using room by (auto simp: marks_ok_def)
    moreover have "mark_of ?s d < ?cur + 1" if "d \<in> tracked ?s" for d
      using that b [of d] room by (auto simp: tr mark_of_def swept_nth set_mark_def swept_mark_def)
    moreover have "h_last_non_rooted (gc_handles ?s ! h) < ?cur + 1" if "h < length (gc_handles s)" for h
      using that m room by (auto simp: swept_state_def flagged_def marks_ok_def intro: less_trans)
    ultimately show ?thesis by (simp add: marks_ok_def fr)
  qed
  ultimately show ?thesis using inv by (simp add: gc_invx_def)
qed

text \<open>
  A whole collection, the synchronisation with the dropper included: \<open>s2\<close> is the state in which
  marking starts.
\<close>

lemma gc_inv_synchronize:
  assumes "gc_invx {} (pending s) H W s"
  obtains s2 where "synchronize_destructors s = Inr s2" and "gc_invx {} [] H W s2"
    and "same_control (s\<lparr>dropper := []\<rparr>) s2"
proof -
  let ?s = "s\<lparr>dropper := []\<rparr>"
  have "gc_invx {} (pending s) H W ?s"
    by (rule gc_inv_frame [OF assms])
      (use all_data_ok [OF assms] in \<open>auto simp: data_ok_def mark_of_def warrants_ok_def tracked_def\<close>)
  then have "gc_invx {} (concat (map message_data (dropper s @ [SyncUp])) @ []) H W ?s"
    by (simp add: pending_def)
  from gc_inv_handle_messages [OF this] that show thesis
    by (auto simp: synchronize_destructors_def send_msg_def Let_def)
qed

lemma gc_inv_do_collect:
  assumes inv: "gc_invx {} (pending s) H W s" and free: "tracker (atomic_spinlock s) = 0"
    and room: "current_collection_number s < current_collection_number s + 1"
  obtains s2 dl where "do_collect s = Inr (swept_state dl s2)"
    and "gc_invx {} [] H W s2" and "dropper s2 = []" and "data_list s2 = data_list s"
    and "par_iter dl = filter (kept s2) (par_iter (data_list s))"
    and "gc_invx {} (pending (swept_state dl s2)) H W (swept_state dl s2)"
    and "released (set (pending s)) (set (pending s)) s s2"
proof -
  let ?s1 = "s\<lparr>atomic_spinlock := \<lparr>tracker = SENTINEL_VALUE\<rparr>\<rparr>"
  have lock: "lock_exclusive (atomic_spinlock s) = Some \<lparr>tracker = SENTINEL_VALUE\<rparr>"
    using free by (cases "atomic_spinlock s") (simp add: lock_exclusive_def compare_exchange_def is_ok_def)
  have "gc_invx {} (pending s) H W ?s1"
    by (rule gc_inv_frame [OF inv])
      (use all_data_ok [OF inv] in \<open>auto simp: data_ok_def mark_of_def warrants_ok_def tracked_def\<close>)
  then have "gc_invx {} (pending ?s1) H W ?s1" by (simp add: pending_def)
  then obtain s2 where sync: "synchronize_destructors ?s1 = Inr s2" and inv2: "gc_invx {} [] H W s2"
      and ctl: "same_control (?s1\<lparr>dropper := []\<rparr>) s2"
    by (rule gc_inv_synchronize)
  have c: "current_collection_number s2 = current_collection_number s" "dropper s2 = []" "data_list s2 = data_list s"
    using ctl by (simp_all add: same_control_def)
  obtain dl where ms: "mark_and_sweep (current_collection_number s2) s2 = Inr (swept_state dl s2)"
      and dl: "cll_inv dl" "par_iter dl = filter (kept s2) (par_iter (data_list s2))"
    by (rule mark_and_sweep_spec [OF gc_inv_collectable [OF inv2]])
  have "gc_invx {} (filter (\<lambda>d. \<not> kept s2 d) (par_iter (data_list s2))) H W (swept_state dl s2)"
    by (rule gc_inv_swept [OF inv2 dl]) (use room c in simp)
  moreover have "pending (swept_state dl s2) = filter (\<lambda>d. \<not> kept s2 d) (par_iter (data_list s2))"
    by (simp add: pending_def swept_state_def c)
  moreover have "do_collect s = Inr (swept_state dl s2)"
    using ms by (simp add: do_collect_def lock sync Let_def c)
  moreover have "released (set (pending s)) (set (pending s)) s s2"
    using synchronize_released [OF sync] by (simp add: released_def pending_def ended_def addr_def)
  ultimately show thesis using that [of dl s2] inv2 c dl by simp
qed

end
