(* ===== verification/Gc_Ptr.thy ===== *)
theory Gc_Ptr
  imports Collect
begin

text \<open>
  The smart pointers \<open>Gc\<close> (\<open>src/smart_ptr/gc.rs\<close>) and \<open>DerefGc\<close> (\<open>src/smart_ptr/deref_gc.rs\<close>): a
  handle and the address of the value. A \<open>GcGuard\<close> is the pointer it borrows and the data it has a
  warrant of. The two pointer types share their constructors, which only differ in their bounds.
\<close>

record gc_ptr =
  backing_handle :: internal_ref
  direct_ptr :: nat

record gc_guard =
  gc_ptr :: gc_ptr
  guard_warrant :: nat

definition gc_of :: "(internal_ref \<times> nat) \<times> gc_state \<Rightarrow> gc_ptr \<times> gc_state" where
  "gc_of t = (\<lparr>backing_handle = fst (fst t), direct_ptr = snd (fst t)\<rparr>, snd t)"

definition gc_new :: "val \<Rightarrow> gc_state \<Rightarrow> gc_ptr \<times> gc_state" where
  "gc_new v s = gc_of (track_with_drop v s)"

definition gc_new_no_drop :: "val \<Rightarrow> gc_state \<Rightarrow> gc_ptr \<times> gc_state" where
  "gc_new_no_drop v s = gc_of (track_with_no_drop v s)"

definition gc_new_with_finalizer :: "val \<Rightarrow> gc_state \<Rightarrow> gc_ptr \<times> gc_state" where
  "gc_new_with_finalizer v s = gc_of (track_with_finalization v s)"

definition gc_from_box :: "nat \<Rightarrow> gc_state \<Rightarrow> gc_ptr \<times> gc_state" where
  "gc_from_box p s = gc_of (track_boxed_value p s)"

text \<open>
  The closure of a cyclic constructor gets a pointer to the data it is to return; the flag that
  marks deallocated data keeps it from following it.
\<close>

definition set_deallocated :: "bool \<Rightarrow> internal_ref \<Rightarrow> gc_state \<Rightarrow> gc_state result" where
  "set_deallocated b r s =
     res_bind (ref_data r s) (\<lambda>d. Inr (upd_data d (\<lambda>x. x\<lparr>d_deallocated := b\<rparr>) s))"

definition cyclic_initializer :: "(gc_ptr \<Rightarrow> gc_state \<Rightarrow> (val \<times> gc_state) result) \<Rightarrow> initializer" where
  "cyclic_initializer f gc_ref uninit_ptr s =
     res_bind (set_deallocated True gc_ref s) (\<lambda>s1.
     let gc = \<lparr>backing_handle = gc_ref, direct_ptr = uninit_ptr\<rparr>
     in res_bind (f gc s1) (\<lambda>(res, s2).
        res_bind (set_deallocated False gc_ref s2) (\<lambda>s3. Inr (res, s3))))"

definition gc_new_cyclic ::
    "(gc_ptr \<Rightarrow> gc_state \<Rightarrow> (val \<times> gc_state) result) \<Rightarrow> gc_state \<Rightarrow> (gc_ptr \<times> gc_state) result" where
  "gc_new_cyclic f s =
     res_bind (track_with_initializer (cyclic_initializer f) s) (\<lambda>t. Inr (gc_of t))"

definition gc_new_cyclic_with_finalizer ::
    "(gc_ptr \<Rightarrow> gc_state \<Rightarrow> (val \<times> gc_state) result) \<Rightarrow> gc_state \<Rightarrow> (gc_ptr \<times> gc_state) result" where
  "gc_new_cyclic_with_finalizer f s =
     res_bind (track_with_initializer_and_finalize (cyclic_initializer f) s) (\<lambda>t. Inr (gc_of t))"

definition gc_get :: "gc_ptr \<Rightarrow> gc_state \<Rightarrow> (gc_guard \<times> gc_state) result" where
  "gc_get g s =
     res_bind (get_data_warrant (backing_handle g) s) (\<lambda>(warrant, s1).
       Inr (\<lparr>gc_ptr = g, guard_warrant = warrant\<rparr>, s1))"

definition guard_deref :: "gc_guard \<Rightarrow> gc_state \<Rightarrow> val result" where
  "guard_deref gd s = read_cell (direct_ptr (gc_ptr gd)) (gc_heap s)"

definition drop_guard :: "gc_guard \<Rightarrow> gc_state \<Rightarrow> gc_state result" where
  "drop_guard gd s = drop_data_warrant (guard_warrant gd) s"

definition ptr_eq :: "gc_ptr \<Rightarrow> gc_ptr \<Rightarrow> bool" where
  "ptr_eq a b \<longleftrightarrow> direct_ptr a = direct_ptr b"

definition assert_live :: "gc_ptr \<Rightarrow> gc_state \<Rightarrow> unit result" where
  "assert_live g s =
     res_bind (ref_data (backing_handle g) s) (\<lambda>d.
       if d_deallocated (gc_datas s ! d) then Inl Panic else Inr ())"

definition gc_clone :: "gc_ptr \<Rightarrow> gc_state \<Rightarrow> (gc_ptr \<times> gc_state) result" where
  "gc_clone g s =
     res_bind (clone_handle (backing_handle g) s) (\<lambda>(new_handle, s1).
       Inr (\<lparr>backing_handle = new_handle, direct_ptr = direct_ptr g\<rparr>, s1))"

definition gc_drop :: "gc_ptr \<Rightarrow> gc_state \<Rightarrow> gc_state" where
  "gc_drop g s = drop_handle (backing_handle g) s"

text \<open>
  \<open>type_of\<close> gives the \<open>TypeId\<close> of a value; the guard taken to look at the value is dropped at
  the end.
\<close>

definition gc_downcast ::
    "(val \<Rightarrow> 'ty) \<Rightarrow> 'ty \<Rightarrow> gc_ptr \<Rightarrow> gc_state \<Rightarrow> (gc_ptr option \<times> gc_state) result" where
  "gc_downcast type_of ty g s =
     res_bind (gc_get g s) (\<lambda>(gd, s1).
     res_bind (guard_deref gd s1) (\<lambda>v.
     res_bind (if type_of v = ty then res_bind (gc_clone g s1) (\<lambda>(g', s2). Inr (Some g', s2))
               else Inr (None, s1)) (\<lambda>(out, s3).
     res_bind (drop_guard gd s3) (\<lambda>s4. Inr (out, s4)))))"

definition deref_gc_deref :: "gc_ptr \<Rightarrow> gc_state \<Rightarrow> val result" where
  "deref_gc_deref g s = read_cell (direct_ptr g) (gc_heap s)"

text \<open>
  The rest of \<open>DerefGc\<close>. Its constructors have the bodies of those of \<open>Gc\<close>; its methods take no guard,
  so they neither wait for a collection nor look at the flag of deallocated data.
\<close>

definition deref_gc_new :: "val \<Rightarrow> gc_state \<Rightarrow> gc_ptr \<times> gc_state" where
  "deref_gc_new v s = gc_of (track_with_drop v s)"

definition deref_gc_new_no_drop :: "val \<Rightarrow> gc_state \<Rightarrow> gc_ptr \<times> gc_state" where
  "deref_gc_new_no_drop v s = gc_of (track_with_no_drop v s)"

definition deref_gc_new_with_finalizer :: "val \<Rightarrow> gc_state \<Rightarrow> gc_ptr \<times> gc_state" where
  "deref_gc_new_with_finalizer v s = gc_of (track_with_finalization v s)"

definition deref_gc_from_box :: "nat \<Rightarrow> gc_state \<Rightarrow> gc_ptr \<times> gc_state" where
  "deref_gc_from_box p s = gc_of (track_boxed_value p s)"

definition deref_gc_ptr_eq :: "gc_ptr \<Rightarrow> gc_ptr \<Rightarrow> bool" where
  "deref_gc_ptr_eq g o' \<longleftrightarrow> direct_ptr g = direct_ptr o'"

definition deref_gc_clone :: "gc_ptr \<Rightarrow> gc_state \<Rightarrow> (gc_ptr \<times> gc_state) result" where
  "deref_gc_clone g s =
     res_bind (clone_handle (backing_handle g) s) (\<lambda>(new_handle, s1).
       Inr (\<lparr>backing_handle = new_handle, direct_ptr = direct_ptr g\<rparr>, s1))"

definition deref_gc_downcast ::
    "(val \<Rightarrow> 'ty) \<Rightarrow> 'ty \<Rightarrow> gc_ptr \<Rightarrow> gc_state \<Rightarrow> (gc_ptr option \<times> gc_state) result" where
  "deref_gc_downcast type_of ty g s =
     res_bind (deref_gc_deref g s) (\<lambda>ptr.
       if type_of ptr = ty
       then res_bind (clone_handle (backing_handle g) s) (\<lambda>(new_handle, s1).
              Inr (Some \<lparr>backing_handle = new_handle, direct_ptr = direct_ptr g\<rparr>, s1))
       else Inr (None, s))"

definition deref_gc_drop :: "gc_ptr \<Rightarrow> gc_state \<Rightarrow> gc_state" where
  "deref_gc_drop g s = drop_handle (backing_handle g) s"

definition deref_gc_compare :: "(val \<Rightarrow> val \<Rightarrow> 'r) \<Rightarrow> gc_ptr \<Rightarrow> gc_ptr \<Rightarrow> gc_state \<Rightarrow> 'r result" where
  "deref_gc_compare cmp g other s =
     res_bind (deref_gc_deref g s) (\<lambda>a. res_bind (deref_gc_deref other s) (\<lambda>b. Inr (cmp a b)))"

text \<open>The comparison operators take both guards, then compare the values.\<close>

definition gc_compare :: "(val \<Rightarrow> val \<Rightarrow> 'r) \<Rightarrow> gc_ptr \<Rightarrow> gc_ptr \<Rightarrow> gc_state \<Rightarrow> ('r \<times> gc_state) result" where
  "gc_compare cmp g other s =
     res_bind (gc_get g s) (\<lambda>(a, s1).
     res_bind (gc_get other s1) (\<lambda>(b, s2).
     res_bind (guard_deref a s2) (\<lambda>va.
     res_bind (guard_deref b s2) (\<lambda>vb.
     res_bind (drop_guard b s2) (\<lambda>s3.
     res_bind (drop_guard a s3) (\<lambda>s4. Inr (cmp va vb, s4)))))))"

subsection \<open>Reading with and without a guard\<close>

lemma gc_get_frame: "gc_get g s = Inr (gd, s1) \<Longrightarrow> gc_ptr gd = g \<and> gc_heap s1 = gc_heap s"
  by (auto simp: gc_get_def get_data_warrant_def res_bind_eq_Inr upd_data_def
      split: underlying_data.splits if_splits)

lemma compare_agrees: "gc_compare cmp g other s = Inr (r, s') \<Longrightarrow> deref_gc_compare cmp g other s = Inr r"
  by (auto simp: gc_compare_def deref_gc_compare_def deref_gc_deref_def guard_deref_def res_bind_eq_Inr
      dest!: gc_get_frame)

subsection \<open>Self-referential data\<close>

lemma ref_data_new: "insert_handle (Fixed d) s = (r, s') \<Longrightarrow> ref_data r s' = Inr d"
  using insert_handle_frame(2) [of "Fixed d" s r s'] by (simp add: ref_data_def)

lemma gc_get_deallocated:
  "ref_data (backing_handle g) s = Inr d \<Longrightarrow> d_deallocated (gc_datas s ! d) \<Longrightarrow> gc_get g s = Inl Panic"
  by (simp add: gc_get_def get_data_warrant_def ref_data_def split: underlying_data.splits)

text \<open>What the closure of a cyclic constructor starts from.\<close>

lemma track_initialized_cyclic:
  assumes "\<And>gc s1 d. ref_data (backing_handle gc) s1 = Inr d \<Longrightarrow> d < length (gc_datas s1) \<Longrightarrow>
    d_deallocated (gc_datas s1 ! d) \<Longrightarrow> f gc s1 = Inl Panic"
  shows "track_initialized alloc (cyclic_initializer f) s = Inl Panic"
proof -
  obtain al hp where alloc: "alloc = (al, hp)" by (cases alloc)
  let ?d = "length (gc_datas s)"
  let ?s1 = "s\<lparr>gc_heap := hp, gc_datas := gc_datas s @ [\<lparr>d_allocation = al, d_lockout = lockout_new,
                   d_deallocated = False, d_last_marked = 0\<rparr>]\<rparr>"
  obtain r s2 where r: "insert_handle (Fixed ?d) ?s1 = (r, s2)" by (cases "insert_handle (Fixed ?d) ?s1")
  obtain own s3 where own: "insert_handle (Fixed ?d) s2 = (own, s3)" by (cases "insert_handle (Fixed ?d) s2")
  have len: "length (gc_datas s3) = Suc ?d"
    using insert_handle_frame(3) [OF r] insert_handle_frame(3) [OF own] by simp
  let ?s4 = "upd_data ?d (\<lambda>x. x\<lparr>d_deallocated := True\<rparr>) s3"
  have "ref_data own ?s4 = Inr ?d" using ref_data_new [OF own] by (simp add: ref_data_def upd_data_def)
  moreover have "?d < length (gc_datas ?s4)" "d_deallocated (gc_datas ?s4 ! ?d)"
    using len by (simp_all add: upd_data_def)
  ultimately have "f \<lparr>backing_handle = own, direct_ptr = scan_ptr al\<rparr> ?s4 = Inl Panic"
    by (intro assms) simp_all
  then have "cyclic_initializer f own (scan_ptr al) s3 = Inl Panic"
    by (simp add: cyclic_initializer_def set_deallocated_def ref_data_new [OF own] Let_def)
  moreover have "clone_handle r s2 = Inr (own, s3)" by (simp add: clone_handle_def ref_data_new [OF r] own)
  ultimately show ?thesis by (simp add: track_initialized_def alloc setup_gc_reference_def Let_def r)
qed

text \<open>
  In the closure of a cyclic constructor an access through the self-pointer panics, and so does
  one through a copy that the closure makes of it: nobody sees the uninitialised block.
\<close>

theorem cyclic_self_access_panics:
  "gc_new_cyclic (\<lambda>gc s1. res_bind (gc_get gc s1) (k gc)) s = Inl Panic \<and>
   gc_new_cyclic (\<lambda>gc s1. res_bind (gc_clone gc s1) (\<lambda>(copy, s2). res_bind (gc_get copy s2) (k copy))) s = Inl Panic \<and>
   gc_new_cyclic_with_finalizer (\<lambda>gc s1. res_bind (gc_get gc s1) (k gc)) s = Inl Panic"
proof -
  have own: "res_bind (gc_get gc s1) (k gc) = Inl Panic"
    if "ref_data (backing_handle gc) s1 = Inr d" "d_deallocated (gc_datas s1 ! d)" for gc s1 d
    using gc_get_deallocated [OF that] by simp
  have copy: "res_bind (gc_clone gc s1) (\<lambda>(copy, s2). res_bind (gc_get copy s2) (k copy)) = Inl Panic"
    if "ref_data (backing_handle gc) s1 = Inr d" "d_deallocated (gc_datas s1 ! d)" for gc s1 d
  proof -
    obtain r s2 where r: "insert_handle (Fixed d) s1 = (r, s2)" by (cases "insert_handle (Fixed d) s1")
    have "gc_get \<lparr>backing_handle = r, direct_ptr = direct_ptr gc\<rparr> s2 = Inl Panic"
      by (rule gc_get_deallocated [of _ _ d])
        (use ref_data_new [OF r] insert_handle_frame(3) [OF r] that in simp_all)
    then show ?thesis by (simp add: gc_clone_def clone_handle_def that(1) r)
  qed
  show ?thesis
    unfolding gc_new_cyclic_def gc_new_cyclic_with_finalizer_def track_with_initializer_def
      track_with_initializer_and_finalize_def
    by (intro conjI; subst track_initialized_cyclic) (use own copy in simp_all)
qed

end
