(* ===== verification/Atomic_Gc.thy ===== *)
theory Atomic_Gc
  imports Gc_Ptr
begin

text \<open>
  \<open>AtomicGc\<close> (\<open>src/atomic.rs\<close>): a shared cell that holds a raw pointer to a \<open>GcData\<close>, with a handle
  of its own that leads to whatever the cell points to. Every access to the cell is made under the
  inclusive guard of the spinlock, so never while a collection runs. Turning the raw pointer back
  into an \<open>Arc\<close> is undefined once the \<open>GcData\<close> is gone.
\<close>

record atomic_gc =
  atomic_ptr :: nat
  atomic_handle :: internal_ref

definition block_collection :: "gc_state \<Rightarrow> gc_state result" where
  "block_collection s =
     res_bind (get_collection_blocker_spinlock (atomic_spinlock s)) (\<lambda>l. Inr (s\<lparr>atomic_spinlock := l\<rparr>))"

definition unblock_collection :: "gc_state \<Rightarrow> gc_state" where
  "unblock_collection s = s\<lparr>atomic_spinlock := drop_inclusive_guard (atomic_spinlock s)\<rparr>"

definition atomic_gc_new :: "gc_ptr \<Rightarrow> gc_state \<Rightarrow> (atomic_gc \<times> gc_state) result" where
  "atomic_gc_new data s =
     res_bind (assert_live data s) (\<lambda>_.
     res_bind (ref_data (backing_handle data) s) (\<lambda>data_ptr.
       let ptr = length (atomics s);
           (h, s1) = new_handle_for_atomic ptr (s\<lparr>atomics := atomics s @ [data_ptr]\<rparr>)
       in Inr (\<lparr>atomic_ptr = ptr, atomic_handle = h\<rparr>, s1)))"

text \<open>The derived \<open>Clone\<close> copies both fields.\<close>

definition atomic_gc_clone :: "atomic_gc \<Rightarrow> atomic_gc" where
  "atomic_gc_clone a = \<lparr>atomic_ptr = atomic_ptr a, atomic_handle = atomic_handle a\<rparr>"

definition atomic_gc_drop :: "atomic_gc \<Rightarrow> gc_state \<Rightarrow> gc_state" where
  "atomic_gc_drop a s = drop_handle (atomic_handle a) s"

text \<open>The \<open>Arc\<close> behind a raw pointer, cloned.\<close>

definition arc_from_raw :: "nat \<Rightarrow> gc_state \<Rightarrow> nat result" where
  "arc_from_raw d s = (if data_alive s d \<and> d < length (gc_datas s) then Inr d else Inl Undefined)"

definition gc_from_arc :: "nat \<Rightarrow> gc_state \<Rightarrow> gc_ptr \<times> gc_state" where
  "gc_from_arc d s =
     (let (h, s1) = handle_from_data d s
      in (\<lparr>backing_handle = h, direct_ptr = scan_ptr (d_allocation (gc_datas s ! d))\<rparr>, unblock_collection s1))"

definition atomic_load :: "atomic_gc \<Rightarrow> gc_state \<Rightarrow> (gc_ptr \<times> gc_state) result" where
  "atomic_load a s =
     res_bind (block_collection s) (\<lambda>s1.
     res_bind (arc_from_raw (atomics s1 ! atomic_ptr a) s1) (\<lambda>d. Inr (gc_from_arc d s1)))"

definition atomic_store :: "atomic_gc \<Rightarrow> gc_ptr \<Rightarrow> gc_state \<Rightarrow> gc_state result" where
  "atomic_store a v s =
     res_bind (assert_live v s) (\<lambda>_.
     res_bind (ref_data (backing_handle v) s) (\<lambda>raw_data_ptr.
     res_bind (block_collection s) (\<lambda>s1.
       Inr (unblock_collection (s1\<lparr>atomics := (atomics s1)[atomic_ptr a := raw_data_ptr]\<rparr>)))))"

definition atomic_swap :: "atomic_gc \<Rightarrow> gc_ptr \<Rightarrow> gc_state \<Rightarrow> (gc_ptr \<times> gc_state) result" where
  "atomic_swap a v s =
     res_bind (assert_live v s) (\<lambda>_.
     res_bind (ref_data (backing_handle v) s) (\<lambda>raw_data_ptr.
     res_bind (block_collection s) (\<lambda>s1.
     let old_data_ptr = atomics s1 ! atomic_ptr a;
         s2 = s1\<lparr>atomics := (atomics s1)[atomic_ptr a := raw_data_ptr]\<rparr>
     in res_bind (arc_from_raw old_data_ptr s2) (\<lambda>d. Inr (gc_from_arc d s2)))))"

definition atomic_compare_and_swap :: "atomic_gc \<Rightarrow> gc_ptr \<Rightarrow> gc_ptr \<Rightarrow> gc_state \<Rightarrow> (bool \<times> gc_state) result" where
  "atomic_compare_and_swap a current new s =
     res_bind (assert_live new s) (\<lambda>_.
     res_bind (ref_data (backing_handle current) s) (\<lambda>guess_data_raw.
     res_bind (ref_data (backing_handle new) s) (\<lambda>new_data_raw.
     res_bind (block_collection s) (\<lambda>s1.
       let compare_res = atomics s1 ! atomic_ptr a;
           s2 = (if compare_res = guess_data_raw
                 then s1\<lparr>atomics := (atomics s1)[atomic_ptr a := new_data_raw]\<rparr> else s1)
       in Inr (compare_res = guess_data_raw, unblock_collection s2)))))"

definition atomic_compare_exchange :: "atomic_gc \<Rightarrow> gc_ptr \<Rightarrow> gc_ptr \<Rightarrow> gc_state \<Rightarrow> (bool \<times> gc_state) result" where
  "atomic_compare_exchange a current new s =
     res_bind (assert_live new s) (\<lambda>_.
     res_bind (ref_data (backing_handle current) s) (\<lambda>guess_data_raw.
     res_bind (ref_data (backing_handle new) s) (\<lambda>new_data_raw.
     res_bind (block_collection s) (\<lambda>s1.
       let (swap_result, c) = compare_exchange (atomics s1 ! atomic_ptr a) guess_data_raw new_data_raw;
           s2 = s1\<lparr>atomics := (atomics s1)[atomic_ptr a := c]\<rparr>
       in Inr (is_ok swap_result, unblock_collection s2)))))"

subsection \<open>The cell as a register\<close>

text \<open>
  The two compare operations of \<open>AtomicGc\<close> have the same effect and the same answer.
\<close>

theorem atomic_compare_agree:
  "atomic_compare_and_swap a current new s = atomic_compare_exchange a current new s"
proof -
  have "(let (swap_result, c) = compare_exchange (atomics s1 ! atomic_ptr a) guess new_data;
             s2 = s1\<lparr>atomics := (atomics s1)[atomic_ptr a := c]\<rparr>
         in Inr (is_ok swap_result, unblock_collection s2) :: (bool \<times> gc_state) result) =
        (let compare_res = atomics s1 ! atomic_ptr a;
             s2 = (if compare_res = guess then s1\<lparr>atomics := (atomics s1)[atomic_ptr a := new_data]\<rparr> else s1)
         in Inr (compare_res = guess, unblock_collection s2))" for s1 :: gc_state and guess new_data
    by (cases "atomics s1 ! atomic_ptr a = guess") (simp_all add: compare_exchange_def is_ok_def)
  then show ?thesis unfolding atomic_compare_and_swap_def atomic_compare_exchange_def by simp
qed

lemma get_blocker_idle:
  "tracker l = 0 \<Longrightarrow> get_collection_blocker_spinlock l = Inr \<lparr>tracker = 1\<rparr>"
  by (cases l) (simp add: get_collection_blocker_spinlock_def lock_inclusive_def SENTINEL_VALUE_def)

lemma block_collection_idle:
  "tracker (atomic_spinlock s) = 0 \<Longrightarrow> block_collection s = Inr (s\<lparr>atomic_spinlock := \<lparr>tracker = 1\<rparr>\<rparr>)"
  by (simp add: block_collection_def get_blocker_idle)

lemma unblock_idle:
  "tracker (atomic_spinlock s) = 0 \<Longrightarrow>
     drop_inclusive_guard \<lparr>tracker = 1\<rparr> = atomic_spinlock s"
  by (cases "atomic_spinlock s") (simp add: drop_inclusive_guard_def)

text \<open>
  What is loaded after a store is a \<open>Gc\<close> to the stored data, with a handle of its own, and the
  two operations leave the spinlock as they found it.
\<close>

theorem atomic_load_store:
  assumes "tracker (atomic_spinlock s) = 0" and "atomic_ptr a < length (atomics s)"
    and "atomic_store a v s = Inr s1" and "atomic_load a s1 = Inr (g, s2)"
  shows "ref_data (backing_handle g) s2 = ref_data (backing_handle v) s \<and>
    item_v (backing_handle g) = length (gc_handles s) \<and> atomic_spinlock s2 = atomic_spinlock s"
proof -
  let ?lk = "\<lparr>tracker = 1 :: u64\<rparr>"
  obtain d where d: "ref_data (backing_handle v) s = Inr d"
      "s1 = s\<lparr>atomics := (atomics s)[atomic_ptr a := d]\<rparr>"
    using assms(3) unblock_idle [OF assms(1)]
    by (auto simp: atomic_store_def block_collection_idle [OF assms(1)] unblock_collection_def res_bind_eq_Inr)
  let ?s1 = "s1\<lparr>atomic_spinlock := ?lk\<rparr>"
  have idle: "tracker (atomic_spinlock s1) = 0" using assms(1) by (simp add: d(2))
  obtain h s3 where ins: "insert_handle (Fixed d) ?s1 = (h, s3)" by (cases "insert_handle (Fixed d) ?s1")
  have "atomics ?s1 ! atomic_ptr a = d" using assms(2) by (simp add: d(2))
  then have "atomic_load a s1 = res_bind (arc_from_raw d ?s1) (\<lambda>d. Inr (gc_from_arc d ?s1))"
    by (simp add: atomic_load_def block_collection_idle [OF idle])
  then have "gc_from_arc d ?s1 = (g, s2)" using assms(4) by (simp add: arc_from_raw_def split: if_splits)
  then have "backing_handle g = h \<and> s2 = unblock_collection s3"
    by (auto simp: gc_from_arc_def handle_from_data_def ins)
  moreover have "ref_data h s3 = Inr d" by (rule ref_data_new [OF ins])
  moreover have "item_v h = length (gc_handles s)" using insert_handle_frame(1) [OF ins] by (simp add: d(2))
  moreover have "atomic_spinlock s3 = ?lk" using insert_handle_frame(9) [OF ins] by simp
  ultimately show ?thesis
    using d(1) unblock_idle [OF assms(1)] by (simp add: unblock_collection_def ref_data_def)
qed

text \<open>
  While a collection holds the exclusive lock no operation on the cell gets through.
\<close>

theorem atomic_blocked_by_collection:
  assumes "SENTINEL_VALUE \<le> tracker (atomic_spinlock s)"
  shows "atomic_load a s = Inl Blocked \<and> atomic_store a v s \<in> {Inl Blocked, Inl Panic} \<and>
    atomic_swap a v s \<in> {Inl Blocked, Inl Panic} \<and>
    atomic_compare_exchange a cur v s \<in> {Inl Blocked, Inl Panic}"
proof -
  have b: "block_collection s = Inl Blocked"
    using assms by (simp add: block_collection_def get_collection_blocker_spinlock_def lock_inclusive_def Let_def)
  have "ref_data r s = Inl e \<Longrightarrow> e = Panic" "assert_live v s = Inl e \<Longrightarrow> e = Panic" for r e
    by (auto simp: assert_live_def ref_data_def split: underlying_data.splits if_splits)
  then show ?thesis
    unfolding atomic_load_def atomic_store_def atomic_swap_def atomic_compare_exchange_def
    by (cases "assert_live v s"; cases "ref_data (backing_handle v) s"; cases "ref_data (backing_handle cur) s")
      (auto simp: b)
qed

theorem atomic_blocked_by_collection_witness:
  "atomic_load \<lparr>atomic_ptr = 0, atomic_handle = ref_no 0\<rparr>
     (collector_new\<lparr>atomic_spinlock := \<lparr>tracker = SENTINEL_VALUE\<rparr>\<rparr>) = Inl Blocked"
  using atomic_blocked_by_collection [of "collector_new\<lparr>atomic_spinlock := \<lparr>tracker = SENTINEL_VALUE\<rparr>\<rparr>"
      "\<lparr>atomic_ptr = 0, atomic_handle = ref_no 0\<rparr>"]
  by simp

definition atomic_example :: gc_state where
  "atomic_example = collector_new\<lparr>gc_datas := [\<lparr>d_allocation = from_box 0, d_lockout = lockout_new,
     d_deallocated = False, d_last_marked = 1\<rparr>],
     gc_handles := [\<lparr>h_underlying_data = Fixed 0, h_last_non_rooted = 0\<rparr>],
     atomics := [7], dropper := [DataToDrop [0]]\<rparr>"

theorem atomic_load_store_witness:
  "\<exists>s1 g s2. atomic_store \<lparr>atomic_ptr = 0, atomic_handle = ref_no 1\<rparr>
        \<lparr>backing_handle = ref_no 0, direct_ptr = 0\<rparr> atomic_example = Inr s1 \<and>
     atomic_load \<lparr>atomic_ptr = 0, atomic_handle = ref_no 1\<rparr> s1 = Inr (g, s2) \<and>
     ref_data (backing_handle g) s2 = Inr 0"
proof -
  let ?a = "\<lparr>atomic_ptr = 0, atomic_handle = ref_no 1\<rparr>" and ?v = "\<lparr>backing_handle = ref_no 0, direct_ptr = 0\<rparr>"
  let ?s1 = "atomic_example\<lparr>atomics := [0]\<rparr>"
  have idle: "tracker (atomic_spinlock atomic_example) = 0" "tracker (atomic_spinlock ?s1) = 0"
    by (simp_all add: atomic_example_def collector_new_def ap_new_def)
  have r: "ref_data (backing_handle ?v) atomic_example = Inr 0"
    by (simp add: ref_data_def atomic_example_def ref_no_def)
  have st: "atomic_store ?a ?v atomic_example = Inr ?s1"
    using unblock_idle [OF idle(1)] r
    by (simp add: atomic_store_def assert_live_def block_collection_idle [OF idle(1)] unblock_collection_def)
      (simp add: atomic_example_def)
  have "\<exists>g s2. atomic_load ?a ?s1 = Inr (g, s2)"
    by (simp add: atomic_load_def block_collection_idle [OF idle(2)] arc_from_raw_def data_alive_def)
      (simp add: atomic_example_def)
  then obtain g s2 where ld: "atomic_load ?a ?s1 = Inr (g, s2)" by blast
  have "0 < length (atomics atomic_example)" by (simp add: atomic_example_def)
  with atomic_load_store [OF idle(1) _ st ld] r st ld show ?thesis by auto
qed

end
