(* ===== verification/Client.thy ===== *)
theory Client
  imports Collect_Safety Atomic_Gc
begin

text \<open>
  The collector with a client: a program that owns \<open>Gc\<close>s, \<open>DerefGc\<close>s and \<open>AtomicGc\<close>s and guards,
  and calls the operations of the crate on them, one at a time, in any order. What Rust's
  ownership and borrowing rules demand of a call is its precondition \<open>client_may\<close>. The theorems
  say that the calls of such a client never fail, and what a collection does for it.
\<close>

record gc_client =
  sys :: gc_state
  held :: "internal_ref list"
  warrants :: "nat list"

definition client_new :: gc_client where
  "client_new = \<lparr>sys = collector_new, held = [], warrants = []\<rparr>"

text \<open>
  The \<open>Gc\<close> that owns a handle: its direct pointer was set when it was made and is the address of
  the data the handle leads to. The same for an \<open>AtomicGc\<close>.
\<close>

definition ptr_at :: "gc_state \<Rightarrow> internal_ref \<Rightarrow> gc_ptr" where
  "ptr_at s r = \<lparr>backing_handle = r, direct_ptr = addr s (target s (item_v r))\<rparr>"

definition atomic_at :: "gc_state \<Rightarrow> internal_ref \<Rightarrow> atomic_gc" where
  "atomic_at s r = \<lparr>atomic_ptr = (case h_underlying_data (gc_handles s ! item_v r) of
     DynamicForAtomic a \<Rightarrow> a | Fixed d \<Rightarrow> 0), atomic_handle = r\<rparr>"

datatype new_kind = With_Drop | No_Drop | With_Finalizer | From_Box

fun new_gc :: "new_kind \<Rightarrow> val \<Rightarrow> gc_state \<Rightarrow> gc_ptr \<times> gc_state" where
  "new_gc With_Drop v s = gc_new v s"
| "new_gc No_Drop v s = gc_new_no_drop v s"
| "new_gc With_Finalizer v s = gc_new_with_finalizer v s"
| "new_gc From_Box v s = gc_from_box (length (gc_heap s)) (s\<lparr>gc_heap := gc_heap s @ [Init v]\<rparr>)"

text \<open>Handles that move out of the client's hands.\<close>

definition take_refs :: "internal_ref list \<Rightarrow> internal_ref list \<Rightarrow> internal_ref list" where
  "take_refs os H = fold remove1 os H"

text \<open>
  \<open>NewCyclic\<close> has a closure that stores the pointer it is given. \<open>WriteData\<close> is any change of the
  value a guard gives access to, by a cell or lock in it; handles may move between the value and
  the client. \<open>RunDropper\<close> and \<open>RunAsync\<close> are turns of the two background threads.
\<close>

datatype client_op =
    New new_kind val
  | NewCyclic bool "internal_ref \<Rightarrow> val"
  | CloneGc internal_ref
  | DropRef internal_ref
  | GetGuard internal_ref
  | DropGuard nat
  | WriteData nat val
  | NewAtomic internal_ref
  | LoadAtomic internal_ref
  | StoreAtomic internal_ref internal_ref
  | SwapAtomic internal_ref internal_ref
  | CasAtomic internal_ref internal_ref internal_ref
  | RunCollect
  | RunDropper
  | RunSync
  | RunAsync

definition gain :: "gc_client \<Rightarrow> gc_ptr \<times> gc_state \<Rightarrow> gc_client" where
  "gain c r = c\<lparr>sys := snd r, held := backing_handle (fst r) # held c\<rparr>"

fun client_run :: "client_op \<Rightarrow> gc_client \<Rightarrow> gc_client result" where
  "client_run (New k v) c =
     Inr (gain (c\<lparr>held := take_refs (owned v) (held c)\<rparr>) (new_gc k v (sys c)))"
| "client_run (NewCyclic fin build) c =
     res_bind ((if fin then gc_new_cyclic_with_finalizer else gc_new_cyclic)
         (\<lambda>gc s. Inr (build (backing_handle gc), s)) (sys c)) (\<lambda>(g, s).
       Inr (gain (c\<lparr>held := take_refs (owned (block_val s (length (gc_datas (sys c))))) (held c)\<rparr>) (g, s)))"
| "client_run (CloneGc r) c = res_bind (gc_clone (ptr_at (sys c) r) (sys c)) (\<lambda>gs. Inr (gain c gs))"
| "client_run (DropRef r) c = Inr (c\<lparr>sys := gc_drop (ptr_at (sys c) r) (sys c), held := remove1 r (held c)\<rparr>)"
| "client_run (GetGuard r) c = res_bind (gc_get (ptr_at (sys c) r) (sys c)) (\<lambda>(gd, s).
     Inr (c\<lparr>sys := s, warrants := guard_warrant gd # warrants c\<rparr>))"
| "client_run (DropGuard d) c = res_bind (drop_data_warrant d (sys c)) (\<lambda>s.
     Inr (c\<lparr>sys := s, warrants := remove1 d (warrants c)\<rparr>))"
| "client_run (WriteData d v) c =
     Inr (c\<lparr>sys := (sys c)\<lparr>gc_heap := ptr_write (addr (sys c) d) v (gc_heap (sys c))\<rparr>,
            held := take_refs (owned v) (owned (block_val (sys c) d) @ held c)\<rparr>)"
| "client_run (NewAtomic r) c = res_bind (atomic_gc_new (ptr_at (sys c) r) (sys c)) (\<lambda>(a, s).
     Inr (c\<lparr>sys := s, held := atomic_handle a # held c\<rparr>))"
| "client_run (LoadAtomic r) c =
     res_bind (atomic_load (atomic_at (sys c) r) (sys c)) (\<lambda>gs. Inr (gain c gs))"
| "client_run (StoreAtomic r v) c =
     res_bind (atomic_store (atomic_at (sys c) r) (ptr_at (sys c) v) (sys c)) (\<lambda>s. Inr (c\<lparr>sys := s\<rparr>))"
| "client_run (SwapAtomic r v) c =
     res_bind (atomic_swap (atomic_at (sys c) r) (ptr_at (sys c) v) (sys c)) (\<lambda>gs. Inr (gain c gs))"
| "client_run (CasAtomic r cur v) c =
     res_bind (atomic_compare_exchange (atomic_at (sys c) r) (ptr_at (sys c) cur) (ptr_at (sys c) v) (sys c))
       (\<lambda>(b, s). Inr (c\<lparr>sys := s\<rparr>))"
| "client_run RunCollect c = res_bind (collect (sys c)) (\<lambda>s. Inr (c\<lparr>sys := s\<rparr>))"
| "client_run RunDropper c = res_bind (dropper_step (sys c)) (\<lambda>s. Inr (c\<lparr>sys := s\<rparr>))"
| "client_run RunSync c = res_bind (synchronize_destructors (sys c)) (\<lambda>s. Inr (c\<lparr>sys := s\<rparr>))"
| "client_run RunAsync c = res_bind (async_gc_step (sys c)) (\<lambda>s. Inr (c\<lparr>sys := s\<rparr>))"

text \<open>
  What the client can lay its hands on: a handle it owns, or one in tracked data, of the kind that
  belongs to a \<open>Gc\<close> or of the kind that belongs to an \<open>AtomicGc\<close>.
\<close>

definition visible :: "gc_client \<Rightarrow> internal_ref \<Rightarrow> bool" where
  "visible c r \<longleftrightarrow> r \<in> set (held c) \<or> (\<exists>d\<in>tracked (sys c). r \<in> set (owned (block_val (sys c) d)))"

definition is_gc :: "gc_client \<Rightarrow> internal_ref \<Rightarrow> bool" where
  "is_gc c r \<longleftrightarrow> visible c r \<and>
     (case h_underlying_data (gc_handles (sys c) ! item_v r) of Fixed d \<Rightarrow> True | _ \<Rightarrow> False)"

definition is_atomic :: "gc_client \<Rightarrow> internal_ref \<Rightarrow> bool" where
  "is_atomic c r \<longleftrightarrow> visible c r \<and>
     (case h_underlying_data (gc_handles (sys c) ! item_v r) of Fixed d \<Rightarrow> False | _ \<Rightarrow> True)"

text \<open>
  Room left in the machine integers: for the number of data, of collections, and of warrants
  of one piece of data.
\<close>

definition data_room :: "gc_state \<Rightarrow> bool" where
  "data_room s \<longleftrightarrow> Suc (length (par_iter (data_list s))) < 2 ^ 64"

definition number_room :: "gc_state \<Rightarrow> bool" where
  "number_room s \<longleftrightarrow> current_collection_number s < current_collection_number s + 1"

definition warrant_room :: "gc_client \<Rightarrow> nat \<Rightarrow> bool" where
  "warrant_room c d \<longleftrightarrow> count (mset (warrants c)) d < 2 ^ 64 - 2"

fun client_may :: "client_op \<Rightarrow> gc_client \<Rightarrow> bool" where
  "client_may (New k v) c \<longleftrightarrow> at_most_one_panic v \<and> mset (owned v) \<subseteq># mset (held c) \<and> data_room (sys c)"
| "client_may (NewCyclic fin build) c \<longleftrightarrow> data_room (sys c) \<and>
     (\<forall>r. at_most_one_panic (build r) \<and> r \<in> set (owned (build r)) \<and>
          mset (owned (build r)) \<subseteq># add_mset r (mset (held c)))"
| "client_may (CloneGc r) c \<longleftrightarrow> is_gc c r"
| "client_may (DropRef r) c \<longleftrightarrow> r \<in> set (held c)"
| "client_may (GetGuard r) c \<longleftrightarrow> is_gc c r \<and> warrant_room c (target (sys c) (item_v r))"
| "client_may (DropGuard d) c \<longleftrightarrow> d \<in> set (warrants c)"
| "client_may (WriteData d v) c \<longleftrightarrow> d \<in> set (warrants c) \<and> at_most_one_panic v \<and>
     mset (owned v) \<subseteq># mset (owned (block_val (sys c) d)) + mset (held c)"
| "client_may (NewAtomic r) c \<longleftrightarrow> is_gc c r"
| "client_may (LoadAtomic r) c \<longleftrightarrow> is_atomic c r"
| "client_may (StoreAtomic r v) c \<longleftrightarrow> is_atomic c r \<and> is_gc c v"
| "client_may (SwapAtomic r v) c \<longleftrightarrow> is_atomic c r \<and> is_gc c v"
| "client_may (CasAtomic r cur v) c \<longleftrightarrow> is_atomic c r \<and> is_gc c cur \<and> is_gc c v"
| "client_may RunCollect c \<longleftrightarrow> number_room (sys c)"
| "client_may RunDropper c \<longleftrightarrow> True"
| "client_may RunSync c \<longleftrightarrow> True"
| "client_may RunAsync c \<longleftrightarrow> async_gc_notified (sys c) \<and> number_room (sys c)"

subsection \<open>The invariant of the system\<close>

text \<open>Between two calls nobody holds the locks, and the trigger's count is not ahead of the data.\<close>

definition idle :: "gc_state \<Rightarrow> bool" where
  "idle s \<longleftrightarrow> \<not> gc_lock s \<and> tracker (atomic_spinlock s) = 0 \<and>
     unat (data_count_at_last_collection (trigger s)) \<le> length (par_iter (data_list s)) \<and>
     length (par_iter (data_list s)) < 2 ^ 64"

definition client_inv :: "gc_client \<Rightarrow> bool" where
  "client_inv c \<longleftrightarrow> gc_inv (pending (sys c)) (held c) (warrants c) (sys c) \<and> idle (sys c)"

lemma client_inv_new: "client_inv client_new"
proof -
  have "par_iter (cll_new :: nat cll) = []" by (rule cs.empty_items)
  then show ?thesis
    using gc_inv_new
    by (simp add: client_inv_def client_new_def idle_def collector_new_def pending_def ap_new_def
        gc_trigger_default_def)
qed

lemma mset_take_refs: "mset os \<subseteq># mset H \<Longrightarrow> mset os + mset (take_refs os H) = mset H"
proof -
  have "mset (fold remove1 os H) = mset H - mset os"
    by (induction os arbitrary: H) (simp_all add: diff_diff_add_mset)
  then show "mset os \<subseteq># mset H \<Longrightarrow> ?thesis" by (simp add: take_refs_def)
qed

lemma idle_cong: "same_control s s' \<Longrightarrow> idle s' = idle s"
  by (simp add: same_control_def idle_def)

lemma pending_cong: "same_control s s' \<Longrightarrow> pending s' = pending s"
  by (simp add: same_control_def pending_def)

lemma insert_handle_control: "insert_handle u s = (r, s') \<Longrightarrow> same_control s s'"
  by (auto simp: insert_handle_def same_control_def Let_def split: prod.splits)

lemma upd_data_control: "same_control s (upd_data d f s)"
  by (simp add: same_control_def upd_data_def)

lemma client_invI:
  assumes "client_inv c" and "same_control (sys c) s'" and "gc_inv (pending (sys c)) H' W' s'"
  shows "client_inv (c\<lparr>sys := s', held := H', warrants := W'\<rparr>)"
  using assms idle_cong [OF assms(2)] pending_cong [OF assms(2)] by (simp add: client_inv_def)

subsection \<open>Creating data\<close>

text \<open>Every constructor tracks a fresh block with a deallocation action that fits it.\<close>

lemma new_gc_tracks:
  obtains act r p s' where "act \<in> {RunDrop, DoNothing, BoxDrop, RunFinalizer (length (gc_heap s))}"
    and "track_allocated (\<lparr>scan_ptr = length (gc_heap s), deallocation_action = act\<rparr>, gc_heap s @ [Init v]) s
      = ((r, p), s')"
    and "new_gc k v s = (\<lparr>backing_handle = r, direct_ptr = length (gc_heap s)\<rparr>, s')"
proof -
  define act where "act = (case k of With_Drop \<Rightarrow> RunDrop | No_Drop \<Rightarrow> DoNothing
     | With_Finalizer \<Rightarrow> RunFinalizer (length (gc_heap s)) | From_Box \<Rightarrow> BoxDrop)"
  let ?al = "\<lparr>scan_ptr = length (gc_heap s), deallocation_action = act\<rparr>"
  obtain r p s' where run: "track_allocated (?al, gc_heap s @ [Init v]) s = ((r, p), s')"
    by (metis prod.exhaust)
  then have p: "p = length (gc_heap s)" by (auto simp: track_allocated_def split: prod.splits)
  have raw: "raw_allocate v (gc_heap s) = (length (gc_heap s), gc_heap s @ [Init v])"
    by (simp add: raw_allocate_def raw_allocate_uninitialized_def ptr_write_def)
  have "new_gc k v s = gc_of (track_allocated (?al, gc_heap s @ [Init v]) s)"
    by (cases k)
      (simp_all add: act_def raw gc_new_def gc_new_no_drop_def gc_new_with_finalizer_def gc_from_box_def
        track_with_drop_def track_with_no_drop_def track_with_finalization_def track_boxed_value_def
        allocate_with_drop_def allocate_no_drop_def allocate_with_finalization_def from_box_def
        track_allocated_def Let_def)
  moreover have "act \<in> {RunDrop, DoNothing, BoxDrop, RunFinalizer (length (gc_heap s))}"
    by (cases k) (simp_all add: act_def)
  ultimately show thesis using that run by (simp add: p gc_of_def)
qed

text \<open>What tracking changes besides the invariant.\<close>

lemma track_from_token_control:
  assumes "cll_inv (data_list s)" and "data_room s" and "idle s"
  shows "idle (track_from_token d s)" and "pending (track_from_token d s) = pending s"
proof -
  obtain it dl where ins: "cll_insert d (data_list s) = (it, dl)" by (cases "cll_insert d (data_list s)")
  have "size (mset (par_iter dl)) = Suc (size (mset (par_iter (data_list s))))"
    using cs.put_items [OF assms(1) ins] by simp
  with assms(2,3) ins show "idle (track_from_token d s)"
    by (simp add: idle_def data_room_def track_from_token_def notify_async_gc_thread_def)
  show "pending (track_from_token d s) = pending s"
    by (simp add: pending_def track_from_token_def notify_async_gc_thread_def)
qed

lemma setup_control:
  assumes "setup_gc_reference al s = (d, r, s')"
  shows "same_control s s'"
  using assms insert_handle_control
  by (auto simp: setup_gc_reference_def Let_def same_control_def split: prod.splits)

lemma track_allocated_control:
  assumes run: "track_allocated (al, hp) s = ((r, p), s')"
    and "cll_inv (data_list s)" and "data_room s" and "idle s"
  shows "idle s'" and "pending s' = pending s"
proof -
  obtain d q s1 where set: "setup_gc_reference al (s\<lparr>gc_heap := hp\<rparr>) = (d, q, s1)" by (metis prod.exhaust)
  have ctl: "same_control s s1" using setup_control [OF set] by (simp add: same_control_def)
  have s': "s' = track_from_token d s1" using run set by (simp add: track_allocated_def track_def)
  have "cll_inv (data_list s1)" "data_room s1" "idle s1"
    using assms(2-4) ctl by (simp_all add: idle_cong [OF ctl]) (simp_all add: same_control_def data_room_def)
  from track_from_token_control [OF this, of d] show "idle s'" "pending s' = pending s"
    by (simp_all add: s' pending_cong [OF ctl])
qed

lemma client_inv_data_list: "client_inv c \<Longrightarrow> cll_inv (data_list (sys c))"
  by (simp add: client_inv_def gc_invx_def lists_ok_def)

lemma client_New:
  assumes inv: "client_inv c" and may: "client_may (New k v) c"
  shows "\<exists>c'. client_run (New k v) c = Inr c' \<and> client_inv c'"
proof -
  let ?s = "sys c" and ?H = "take_refs (owned v) (held c)"
  obtain act r p s' where act: "act \<in> {RunDrop, DoNothing, BoxDrop, RunFinalizer (length (gc_heap ?s))}"
    and run: "track_allocated (\<lparr>scan_ptr = length (gc_heap ?s), deallocation_action = act\<rparr>,
        gc_heap ?s @ [Init v]) ?s = ((r, p), s')"
    and new: "new_gc k v ?s = (\<lparr>backing_handle = r, direct_ptr = length (gc_heap ?s)\<rparr>, s')"
    by (rule new_gc_tracks)
  have "mset (owned v @ ?H) = mset (held c)" using mset_take_refs may by simp
  then have "gc_inv (pending ?s) (owned v @ ?H) (warrants c) ?s"
    using inv gc_inv_perm [of "owned v @ ?H" "held c" "warrants c" "warrants c"] by (simp add: client_inv_def)
  from gc_inv_track_fresh [OF this _ act run]
  have "gc_inv (pending ?s) (r # ?H) (warrants c) s'" using may by simp
  moreover have "idle s'" "pending s' = pending ?s"
    using track_allocated_control [OF run client_inv_data_list [OF inv]] inv may
    by (simp_all add: client_inv_def)
  ultimately show ?thesis by (simp add: new gain_def client_inv_def)
qed

subsection \<open>Handles and guards\<close>

lemma gc_inv_atomic_bound:
  assumes "gc_invx X P H W s" and "r \<in> set H \<or> (\<exists>d\<in>tracked s. r \<in> set (owned (block_val s d)))"
    and "X = {}" and "h_underlying_data (gc_handles s ! item_v r) = DynamicForAtomic a"
  shows "a < length (atomics s)"
  using assms gc_inv_target(1) [of P H W s r] by (auto simp: gc_invx_def handles_ok_def)

lemma visible_target:
  assumes "client_inv c" and "visible c r"
  shows "item_v r \<in> live_handles (sys c)" and "target (sys c) (item_v r) \<in> tracked (sys c)"
    and "data_ok (sys c) (target (sys c) (item_v r))"
    and "\<not> d_deallocated (gc_datas (sys c) ! target (sys c) (item_v r))"
  using gc_inv_target [of "pending (sys c)" "held c" "warrants c" "sys c" r] assms
  by (simp_all add: client_inv_def visible_def)

lemma is_gc_data:
  assumes "is_gc c r"
  shows "ref_data r (sys c) = Inr (target (sys c) (item_v r))"
    and "h_underlying_data (gc_handles (sys c) ! item_v r) = Fixed (target (sys c) (item_v r))"
  using assms by (auto simp: is_gc_def ref_data_def target_def split: underlying_data.splits)

lemma is_gc_visible: "is_gc c r \<Longrightarrow> visible c r" and is_atomic_visible: "is_atomic c r \<Longrightarrow> visible c r"
  by (simp_all add: is_gc_def is_atomic_def)

lemma is_atomic_cell:
  assumes "client_inv c" and "is_atomic c r"
  shows "atomic_ptr (atomic_at (sys c) r) < length (atomics (sys c))"
    and "atomics (sys c) ! atomic_ptr (atomic_at (sys c) r) = target (sys c) (item_v r)"
proof -
  obtain a where a: "h_underlying_data (gc_handles (sys c) ! item_v r) = DynamicForAtomic a"
    using assms(2) by (auto simp: is_atomic_def split: underlying_data.splits)
  then show "atomics (sys c) ! atomic_ptr (atomic_at (sys c) r) = target (sys c) (item_v r)"
    by (simp add: atomic_at_def target_def)
  have "a < length (atomics (sys c))"
    using gc_inv_atomic_bound [OF _ _ refl a] assms by (auto simp: client_inv_def is_atomic_def visible_def)
  with a show "atomic_ptr (atomic_at (sys c) r) < length (atomics (sys c))" by (simp add: atomic_at_def)
qed

text \<open>A new handle to tracked data, given to the client.\<close>

lemma client_gain_handle:
  assumes inv: "gc_inv P H W s" and u: "\<And>a. u = DynamicForAtomic a \<Longrightarrow> a < length (atomics s)"
    and tgt: "case u of Fixed d \<Rightarrow> d \<in> tracked s | DynamicForAtomic a \<Rightarrow> atomics s ! a \<in> tracked s"
    and run: "insert_handle u s = (r, s')"
  shows "gc_inv P (r # H) W s'"
proof (rule gc_inv_insert_handle [OF inv run u])
  show "target s' (item_v r) \<in> tracked s \<or> item_v r \<in> {}"
    using tgt insert_handle_frame(2,5) [OF run] by (simp add: target_def split: underlying_data.splits)
qed simp_all

lemma client_CloneGc:
  assumes inv: "client_inv c" and may: "client_may (CloneGc r) c"
  shows "\<exists>c'. client_run (CloneGc r) c = Inr c' \<and> client_inv c'"
proof -
  let ?s = "sys c" and ?d = "target (sys c) (item_v r)"
  obtain q s' where ins: "insert_handle (Fixed ?d) ?s = (q, s')" by (cases "insert_handle (Fixed ?d) ?s")
  have gc: "is_gc c r" using may by simp
  have "?d \<in> tracked ?s" using visible_target(2) [OF inv] gc by (simp add: is_gc_def)
  then have "gc_inv (pending ?s) (q # held c) (warrants c) s'"
    using client_gain_handle [OF _ _ _ ins] inv by (simp add: client_inv_def)
  from client_invI [OF inv insert_handle_control [OF ins] this] show ?thesis
    using is_gc_data(1) [OF gc] ins
    by (simp add: gc_clone_def clone_handle_def ptr_at_def gain_def)
qed

lemma drop_handle_control: "same_control s (drop_handle r s)"
  by (simp add: same_control_def drop_handle_def)

lemma client_DropRef:
  assumes inv: "client_inv c" and may: "client_may (DropRef r) c"
  shows "\<exists>c'. client_run (DropRef r) c = Inr c' \<and> client_inv c'"
proof -
  let ?H = "remove1 r (held c)"
  have "mset (r # ?H) = mset (held c)" using may by simp
  then have "gc_inv (pending (sys c)) (r # ?H) (warrants c) (sys c)"
    using inv gc_inv_perm [of "r # ?H" "held c" "warrants c" "warrants c"] by (simp add: client_inv_def)
  from gc_inv_drop_handle(1) [OF this]
  have "gc_inv (pending (sys c)) ?H (warrants c) (drop_handle r (sys c))" by simp
  from client_invI [OF inv drop_handle_control this] show ?thesis by (simp add: gc_drop_def ptr_at_def)
qed

lemma client_GetGuard:
  assumes inv: "client_inv c" and may: "client_may (GetGuard r) c"
  shows "\<exists>c'. client_run (GetGuard r) c = Inr c' \<and> client_inv c' \<and>
    warrants c' = target (sys c) (item_v r) # warrants c"
proof -
  let ?s = "sys c" and ?d = "target (sys c) (item_v r)"
  have gc: "is_gc c r" and room: "count (mset (warrants c)) ?d < 2 ^ 64 - 2"
    using may by (simp_all add: warrant_room_def)
  obtain s' where run: "get_data_warrant r ?s = Inr (?d, s')"
    and inv': "gc_inv (pending ?s) (held c) (?d # warrants c) s'"
    and s': "s' = upd_data ?d (\<lambda>x. x\<lparr>d_lockout := \<lparr>lk_count = lk_count (d_lockout (gc_datas ?s ! ?d)) + 1\<rparr>\<rparr>) ?s"
    using gc_inv_get_warrant [OF _ _ is_gc_data(2) [OF gc] room, of "pending ?s" "held c"] inv
      is_gc_visible [OF gc]
    by (auto simp: client_inv_def visible_def)
  have "same_control ?s s'" unfolding s' by (rule upd_data_control)
  from client_invI [OF inv this inv'] show ?thesis by (simp add: gc_get_def ptr_at_def run)
qed

lemma client_DropGuard:
  assumes inv: "client_inv c" and may: "client_may (DropGuard d) c"
  shows "\<exists>c'. client_run (DropGuard d) c = Inr c' \<and> client_inv c'"
proof -
  let ?s = "sys c"
  have d: "d \<in> set (warrants c)" using may by simp
  obtain s' where run: "drop_data_warrant d ?s = Inr s'"
    and inv': "gc_inv (pending ?s) (held c) (remove1 d (warrants c)) s'"
    and s': "s' = upd_data d (\<lambda>x. x\<lparr>d_lockout := \<lparr>lk_count = lk_count (d_lockout (gc_datas ?s ! d)) - 1\<rparr>\<rparr>) ?s"
    using gc_inv_drop_warrant [OF _ d, of "{}" "pending ?s" "held c" ?s] inv by (auto simp: client_inv_def)
  have "same_control ?s s'" unfolding s' by (rule upd_data_control)
  from client_invI [OF inv this inv'] show ?thesis by (simp add: run)
qed

lemma client_WriteData:
  assumes inv: "client_inv c" and may: "client_may (WriteData d v) c"
  shows "\<exists>c'. client_run (WriteData d v) c = Inr c' \<and> client_inv c'"
proof -
  let ?s = "sys c" and ?H = "take_refs (owned v) (owned (block_val (sys c) d) @ held c)"
  have g: "gc_inv (pending ?s) (held c) (warrants c) ?s" using inv by (simp add: client_inv_def)
  have d: "d \<in> tracked ?s" using g may by (auto simp: gc_invx_def warrants_ok_def)
  have "mset (owned v) + mset ?H = mset (owned (block_val ?s d)) + mset (held c)"
    using mset_take_refs [of "owned v" "owned (block_val ?s d) @ held c"] may by simp
  from gc_inv_write [OF g d _ this] may
  have "gc_inv (pending ?s) ?H (warrants c) (?s\<lparr>gc_heap := (gc_heap ?s)[addr ?s d := Init v]\<rparr>)" by simp
  from client_invI [OF inv _ this] show ?thesis by (simp add: ptr_write_def same_control_def)
qed

subsection \<open>Atomic pointers\<close>

lemma insert_handle_lock:
  "insert_handle u (s\<lparr>atomic_spinlock := l\<rparr>) =
     (fst (insert_handle u s), (snd (insert_handle u s))\<lparr>atomic_spinlock := l\<rparr>)"
  by (simp add: insert_handle_def Let_def split: prod.split)

text \<open>Undisturbed, the guard of the spinlock comes and goes without a trace.\<close>

lemma gc_from_arc_idle:
  assumes "tracker (atomic_spinlock s) = 0" and "insert_handle (Fixed d) s = (h, s')"
  shows "gc_from_arc d (s\<lparr>atomic_spinlock := \<lparr>tracker = 1\<rparr>\<rparr>) =
    (\<lparr>backing_handle = h, direct_ptr = addr s d\<rparr>, s')"
proof -
  have "atomic_spinlock s' = atomic_spinlock s" using insert_handle_frame(9) [OF assms(2)] .
  then have "s'\<lparr>atomic_spinlock := drop_inclusive_guard \<lparr>tracker = 1\<rparr>\<rparr> = s'"
    using unblock_idle [OF assms(1)] by simp
  then show ?thesis
    by (simp add: gc_from_arc_def handle_from_data_def insert_handle_lock assms(2) unblock_collection_def addr_def)
qed

lemma tracked_alive:
  assumes "d \<in> tracked s" and "data_list s' = data_list s" and "length (gc_datas s') = length (gc_datas s)"
    and "data_ok s d"
  shows "arc_from_raw d s' = Inr d"
  using assms by (simp add: arc_from_raw_def data_alive_def tracked_def data_ok_def)

lemma client_idle: "client_inv c \<Longrightarrow> tracker (atomic_spinlock (sys c)) = 0"
  by (simp add: client_inv_def idle_def)

lemma client_NewAtomic:
  assumes inv: "client_inv c" and may: "client_may (NewAtomic r) c"
  shows "\<exists>c'. client_run (NewAtomic r) c = Inr c' \<and> client_inv c'"
proof -
  let ?s = "sys c" and ?d = "target (sys c) (item_v r)"
  let ?s1 = "?s\<lparr>atomics := atomics ?s @ [?d]\<rparr>" and ?u = "DynamicForAtomic (length (atomics (sys c)))"
  obtain q s' where ins: "insert_handle ?u ?s1 = (q, s')" by (cases "insert_handle ?u ?s1")
  have gc: "is_gc c r" using may by simp
  note vis = visible_target [OF inv is_gc_visible [OF gc]]
  have inv1: "gc_inv (pending ?s) (held c) (warrants c) ?s1"
    using inv by (simp add: client_inv_def gc_inv_atomic_new)
  have "gc_inv (pending ?s) (q # held c) (warrants c) s'"
    by (rule client_gain_handle [OF inv1 _ _ ins]) (use vis(2) in \<open>simp_all add: tracked_def\<close>)
  moreover have "same_control ?s s'" using insert_handle_control [OF ins] by (simp add: same_control_def)
  ultimately have "client_inv (c\<lparr>sys := s', held := q # held c\<rparr>)" using client_invI [OF inv] by fastforce
  then show ?thesis
    using is_gc_data(1) [OF gc] vis(4) ins
    by (simp add: atomic_gc_new_def assert_live_def ptr_at_def new_handle_for_atomic_def Let_def)
qed

lemma client_LoadAtomic:
  assumes inv: "client_inv c" and may: "client_may (LoadAtomic r) c"
  shows "\<exists>c'. client_run (LoadAtomic r) c = Inr c' \<and> client_inv c'"
proof -
  let ?s = "sys c" and ?d = "target (sys c) (item_v r)"
  obtain q s' where ins: "insert_handle (Fixed ?d) ?s = (q, s')" by (cases "insert_handle (Fixed ?d) ?s")
  have at: "is_atomic c r" using may by simp
  note vis = visible_target [OF inv is_atomic_visible [OF at]]
  have "gc_inv (pending ?s) (q # held c) (warrants c) s'"
    using client_gain_handle [OF _ _ _ ins] inv vis(2) by (simp add: client_inv_def)
  from client_invI [OF inv insert_handle_control [OF ins] this]
  have "client_inv (c\<lparr>sys := s', held := q # held c\<rparr>)" by simp
  moreover have "atomic_load (atomic_at ?s r) ?s = Inr (\<lparr>backing_handle = q, direct_ptr = addr ?s ?d\<rparr>, s')"
    using is_atomic_cell [OF inv at] tracked_alive [OF vis(2) _ _ vis(3), of "?s\<lparr>atomic_spinlock := \<lparr>tracker = 1\<rparr>\<rparr>"]
    by (simp add: atomic_load_def block_collection_idle [OF client_idle [OF inv]]
        gc_from_arc_idle [OF client_idle [OF inv] ins])
  ultimately show ?thesis by (simp add: gain_def)
qed

lemma assert_live_visible:
  assumes "client_inv c" and "is_gc c v"
  shows "assert_live (ptr_at (sys c) v) (sys c) = Inr ()"
  using visible_target(4) [OF assms(1) is_gc_visible [OF assms(2)]] is_gc_data(1) [OF assms(2)]
  by (simp add: assert_live_def ptr_at_def)

lemma client_store_inv:
  assumes inv: "client_inv c" and v: "is_gc c v"
  shows "client_inv (c\<lparr>sys := (sys c)\<lparr>atomics := (atomics (sys c))[a := target (sys c) (item_v v)]\<rparr>\<rparr>)"
proof -
  let ?s' = "(sys c)\<lparr>atomics := (atomics (sys c))[a := target (sys c) (item_v v)]\<rparr>"
  have "gc_inv (pending (sys c)) (held c) (warrants c) ?s'"
    using gc_inv_atomic_store [OF _ visible_target(2) [OF inv is_gc_visible [OF v]]] inv
    by (simp add: client_inv_def)
  with inv show ?thesis by (simp add: client_inv_def pending_def idle_def)
qed

lemma client_StoreAtomic:
  assumes inv: "client_inv c" and may: "client_may (StoreAtomic r v) c"
  shows "\<exists>c'. client_run (StoreAtomic r v) c = Inr c' \<and> client_inv c'"
proof -
  have v: "is_gc c v" using may by simp
  show ?thesis
    using client_store_inv [OF inv v] is_gc_data(1) [OF v] assert_live_visible [OF inv v]
      unblock_idle [OF client_idle [OF inv]]
    by (simp add: atomic_store_def block_collection_idle [OF client_idle [OF inv]] unblock_collection_def
        ptr_at_def)
qed

lemma client_CasAtomic:
  assumes inv: "client_inv c" and may: "client_may (CasAtomic r cur v) c"
  shows "\<exists>c'. client_run (CasAtomic r cur v) c = Inr c' \<and> client_inv c'"
proof -
  let ?s = "sys c" and ?a = "atomic_ptr (atomic_at (sys c) r)"
  have v: "is_gc c v" and cur: "is_gc c cur" using may by simp_all
  let ?x = "if atomics ?s ! ?a = target ?s (item_v cur) then target ?s (item_v v) else atomics ?s ! ?a"
  have "client_inv (c\<lparr>sys := ?s\<lparr>atomics := (atomics ?s)[?a := ?x]\<rparr>\<rparr>)"
    using client_store_inv [OF inv v, of ?a] inv by simp
  then show ?thesis
    using is_gc_data(1) [OF v] is_gc_data(1) [OF cur] assert_live_visible [OF inv v]
      unblock_idle [OF client_idle [OF inv]]
    by (simp add: atomic_compare_exchange_def block_collection_idle [OF client_idle [OF inv]]
        unblock_collection_def ptr_at_def compare_exchange_def Let_def split: if_splits)
qed

lemma client_SwapAtomic:
  assumes inv: "client_inv c" and may: "client_may (SwapAtomic r v) c"
  shows "\<exists>c'. client_run (SwapAtomic r v) c = Inr c' \<and> client_inv c'"
proof -
  let ?s = "sys c" and ?a = "atomic_ptr (atomic_at (sys c) r)" and ?d = "target (sys c) (item_v r)"
  have v: "is_gc c v" and at: "is_atomic c r" using may by simp_all
  let ?s1 = "?s\<lparr>atomics := (atomics ?s)[?a := target ?s (item_v v)]\<rparr>"
  let ?c1 = "c\<lparr>sys := ?s1\<rparr>"
  obtain q s' where ins: "insert_handle (Fixed ?d) ?s1 = (q, s')" by (cases "insert_handle (Fixed ?d) ?s1")
  note vis = visible_target [OF inv is_atomic_visible [OF at]]
  have inv1: "client_inv ?c1" by (rule client_store_inv [OF inv v])
  have com: "s\<lparr>atomic_spinlock := l, atomics := x\<rparr> = s\<lparr>atomics := x, atomic_spinlock := l\<rparr>" for s :: gc_state and l x
    by simp
  have "gc_inv (pending ?s1) (q # held c) (warrants c) s'"
    using client_gain_handle [OF _ _ _ ins] inv1 vis(2) by (simp add: client_inv_def tracked_def)
  with client_invI [OF inv1, of s' "q # held c" "warrants c"] insert_handle_control [OF ins]
  have "client_inv (c\<lparr>sys := s', held := q # held c\<rparr>)" by simp
  moreover have "atomic_swap (atomic_at ?s r) (ptr_at ?s v) ?s =
      Inr (\<lparr>backing_handle = q, direct_ptr = addr ?s1 ?d\<rparr>, s')"
    using is_atomic_cell [OF inv at] is_gc_data(1) [OF v] assert_live_visible [OF inv v]
      tracked_alive [OF vis(2) _ _ vis(3), of "?s1\<lparr>atomic_spinlock := \<lparr>tracker = 1\<rparr>\<rparr>"]
      gc_from_arc_idle [OF client_idle [OF inv1], of ?d q s'] ins
    by (simp add: atomic_swap_def block_collection_idle [OF client_idle [OF inv]] ptr_at_def Let_def com)
  ultimately show ?thesis by (simp add: gain_def)
qed

subsection \<open>Collections and destructors\<close>

lemma client_gc_inv: "client_inv c \<Longrightarrow> gc_inv (pending (sys c)) (held c) (warrants c) (sys c)"
  by (simp add: client_inv_def)

lemma gc_inv_dropper:
  assumes "gc_invx X P H W s"
  shows "gc_invx X P H W (s\<lparr>dropper := ms\<rparr>)"
  by (rule gc_inv_frame [OF assms])
    (use all_data_ok [OF assms] in \<open>auto simp: data_ok_def mark_of_def warrants_ok_def tracked_def\<close>)

lemma client_RunDropper:
  assumes inv: "client_inv c"
  shows "\<exists>c'. client_run RunDropper c = Inr c' \<and> client_inv c'"
proof (cases "dropper (sys c)")
  case Nil
  then show ?thesis using inv by (simp add: dropper_step_def)
next
  case (Cons m ms)
  let ?s = "(sys c)\<lparr>dropper := ms\<rparr>"
  have "gc_inv (message_data m @ pending ?s) (held c) (warrants c) ?s"
    using gc_inv_dropper [OF client_gc_inv [OF inv], of ms] by (simp add: pending_def Cons)
  from gc_inv_handle_message [OF this] obtain s' where run: "handle_message m ?s = Inr s'"
    and inv': "gc_inv (pending ?s) (held c) (warrants c) s'" and ctl: "same_control ?s s'"
    by blast
  have "idle s'" using inv idle_cong [OF ctl] by (simp add: client_inv_def idle_def)
  with run inv' pending_cong [OF ctl] show ?thesis by (simp add: dropper_step_def Cons client_inv_def)
qed

lemma client_RunSync:
  assumes inv: "client_inv c"
  shows "\<exists>c'. client_run RunSync c = Inr c' \<and> client_inv c' \<and> dropper (sys c') = []"
proof -
  from gc_inv_synchronize [OF client_gc_inv [OF inv]] obtain s2 where
    run: "synchronize_destructors (sys c) = Inr s2" and inv': "gc_inv [] (held c) (warrants c) s2"
    and ctl: "same_control ((sys c)\<lparr>dropper := []\<rparr>) s2"
    by blast
  have "idle s2" using inv idle_cong [OF ctl] by (simp add: client_inv_def idle_def)
  moreover have "dropper s2 = []" "pending s2 = []" using ctl by (simp_all add: same_control_def pending_def)
  ultimately show ?thesis using run inv' by (simp add: client_inv_def)
qed

text \<open>The states around a collection that is run with \<open>gc_lock\<close> held.\<close>

lemma client_do_collect:
  assumes inv: "client_inv c" and room: "number_room (sys c)"
  obtains s2 dl where "do_collect ((sys c)\<lparr>gc_lock := b\<rparr>) = Inr (swept_state dl s2)"
    and "gc_inv [] (held c) (warrants c) s2" and "dropper s2 = []" and "data_list s2 = data_list (sys c)"
    and "par_iter dl = filter (kept s2) (par_iter (data_list s2))"
    and "client_inv (c\<lparr>sys := swept_state dl s2\<rparr>)"
    and "released (set (pending (sys c))) (set (pending (sys c))) (sys c) s2"
proof -
  let ?s = "(sys c)\<lparr>gc_lock := b\<rparr>"
  have "gc_inv (pending ?s) (held c) (warrants c) ?s"
    using gc_inv_frame [OF client_gc_inv [OF inv], of ?s] all_data_ok [OF client_gc_inv [OF inv]]
    by (simp add: pending_def data_ok_def mark_of_def warrants_ok_def tracked_def)
  moreover have "tracker (atomic_spinlock ?s) = 0"
    "current_collection_number ?s < current_collection_number ?s + 1"
    using inv room by (simp_all add: client_inv_def idle_def number_room_def)
  ultimately obtain s2 dl where run: "do_collect ?s = Inr (swept_state dl s2)"
    and inv2: "gc_inv [] (held c) (warrants c) s2" and dr: "dropper s2 = []" and dl2: "data_list s2 = data_list ?s"
    and dl: "par_iter dl = filter (kept s2) (par_iter (data_list ?s))"
    and inv': "gc_inv (pending (swept_state dl s2)) (held c) (warrants c) (swept_state dl s2)"
    and "released (set (pending ?s)) (set (pending ?s)) ?s s2"
    by (rule gc_inv_do_collect)
  then have rel: "released (set (pending (sys c))) (set (pending (sys c))) (sys c) s2"
    by (simp add: released_def pending_def ended_def addr_def)
  have "cll_inv dl" using inv' by (simp add: gc_invx_def lists_ok_def swept_frame)
  then have count: "estimate_len dl = of_nat (length (par_iter dl))" by (rule cs.count_law)
  have "length (par_iter dl) < 2 ^ 64"
    using inv dl by (simp add: client_inv_def idle_def) (metis length_filter_le order_le_less_trans)
  then have "idle (swept_state dl s2)"
    by (simp add: idle_def swept_state_def drop_exclusive_guard_def set_data_count_after_collection_def count
        unsigned_of_nat take_bit_eq_mod)
  with inv' have "client_inv (c\<lparr>sys := swept_state dl s2\<rparr>)" by (simp add: client_inv_def)
  with that run inv2 dr dl2 dl rel show thesis by simp
qed

lemma client_collect:
  assumes inv: "client_inv c" and may: "client_may RunCollect c"
  obtains s2 dl where "collect (sys c) = Inr (swept_state dl s2)"
    and "gc_inv [] (held c) (warrants c) s2" and "dropper s2 = []" and "data_list s2 = data_list (sys c)"
    and "par_iter dl = filter (kept s2) (par_iter (data_list s2))"
    and "client_inv (c\<lparr>sys := swept_state dl s2\<rparr>)"
    and "released (set (pending (sys c))) (set (pending (sys c))) (sys c) s2"
proof -
  have room: "number_room (sys c)" using may by simp
  from client_do_collect [OF inv room, of True] that show thesis
    using inv by (auto simp: collect_def lock_gc_def client_inv_def idle_def)
qed

text \<open>The count at the last collection is never ahead: the trigger's subtraction does not underflow.\<close>

lemma should_collect_total:
  assumes "client_inv c"
  shows "\<exists>go. should_collect (tracked_data_count (sys c)) n (trigger (sys c)) = Inr go"
proof -
  have "tracked_data_count (sys c) = of_nat (length (par_iter (data_list (sys c))))"
    by (simp add: tracked_data_count_def cs.count_law [OF client_inv_data_list [OF assms]])
  then have "data_count_at_last_collection (trigger (sys c)) \<le> tracked_data_count (sys c)"
    using assms by (simp add: client_inv_def idle_def word_le_nat_alt unsigned_of_nat take_bit_eq_mod)
  then show ?thesis
    by (cases "should_collect (tracked_data_count (sys c)) n (trigger (sys c))")
      (simp_all add: should_collect_def usize_sub_def Let_def split: if_splits)
qed

lemma client_RunAsync:
  assumes inv: "client_inv c" and may: "client_may RunAsync c"
  shows "\<exists>c'. client_run RunAsync c = Inr c' \<and> client_inv c'"
proof -
  let ?c = "c\<lparr>sys := (sys c)\<lparr>async_gc_notified := False\<rparr>\<rparr>"
  let ?s1 = "(sys ?c)\<lparr>gc_lock := True\<rparr>"
  have "gc_inv (pending (sys ?c)) (held c) (warrants c) (sys ?c)"
    using gc_inv_frame [OF client_gc_inv [OF inv], of "sys ?c"] all_data_ok [OF client_gc_inv [OF inv]]
    by (simp add: pending_def data_ok_def mark_of_def warrants_ok_def tracked_def)
  then have invc: "client_inv ?c" using inv by (simp add: client_inv_def idle_def)
  obtain go where go: "should_collect (tracked_data_count (sys ?c)) (handle_count (sys ?c)) (trigger (sys ?c)) = Inr go"
    using should_collect_total [OF invc] by blast
  have lock: "\<not> gc_lock (sys c)" using inv by (simp add: client_inv_def idle_def)
  have run: "async_gc_step (sys c) =
      (if go then do_collect ?s1 else Inr (?s1\<lparr>gc_lock := False\<rparr>))"
    using may go lock
    by (simp add: async_gc_step_def check_then_collect_def lock_gc_def tracked_data_count_def handle_count_def
        res_bind_def split: sum.split)
  show ?thesis
  proof (cases go)
    case True
    have "number_room (sys ?c)" using may by (simp add: number_room_def)
    from client_do_collect [OF invc this, of True] obtain s2 dl where
      "do_collect ?s1 = Inr (swept_state dl s2)" "client_inv (?c\<lparr>sys := swept_state dl s2\<rparr>)"
      by metis
    with run True show ?thesis by simp
  next
    case False
    have "?s1\<lparr>gc_lock := False\<rparr> = sys ?c" using lock by (cases "sys c") simp
    with run False invc show ?thesis by simp
  qed
qed

subsection \<open>Cyclic data\<close>

lemma take_refs_mset: "mset (take_refs os H) = mset H - mset os"
  by (induction os arbitrary: H) (simp_all add: take_refs_def diff_diff_add_mset)

lemma insert_handle_heap:
  "insert_handle u (s\<lparr>gc_heap := hp\<rparr>) = (fst (insert_handle u s), (snd (insert_handle u s))\<lparr>gc_heap := hp\<rparr>)"
  by (simp add: insert_handle_def Let_def split: prod.split)

lemma upd_data_twice:
  assumes "d < length (gc_datas s)" and "\<not> d_deallocated (gc_datas s ! d)"
  shows "upd_data d (\<lambda>x. x\<lparr>d_deallocated := False\<rparr>) (upd_data d (\<lambda>x. x\<lparr>d_deallocated := True\<rparr>) s) = s"
proof -
  have "(gc_datas s ! d)\<lparr>d_deallocated := False\<rparr> = gc_datas s ! d"
    using assms(2) by (cases "gc_datas s ! d") simp
  then show ?thesis using assms(1) by (simp add: upd_data_def)
qed

text \<open>
  A cyclic constructor amounts to two handles for a new piece of data, one of which ends up in
  the data itself.
\<close>

lemma gc_new_cyclic_runs:
  fixes s :: gc_state
  assumes D_def: "D = length (gc_datas s)" and n_def: "n = length (gc_heap s)" and cyc: "cyc = (if fin then gc_new_cyclic_with_finalizer else gc_new_cyclic)"
    and act: "act = (if fin then RunFinalizer n else RunDrop)"
    and s0: "\<And>v. s0 v = s\<lparr>gc_heap := gc_heap s @ [Init v], gc_datas := gc_datas s @
      [\<lparr>d_allocation = \<lparr>scan_ptr = n, deallocation_action = act\<rparr>, d_lockout = lockout_new,
        d_deallocated = False, d_last_marked = 0\<rparr>]\<rparr>"
  obtains r own where "item_v own = Suc (length (gc_handles s))" and
    "\<exists>s1 s2. insert_handle (Fixed D) (s0 (build own)) = (r, s1) \<and> insert_handle (Fixed D) s1 = (own, s2) \<and>
      cyc (\<lambda>gc s. Inr (build (backing_handle gc), s)) s =
        Inr (\<lparr>backing_handle = r, direct_ptr = n\<rparr>, track_from_token D s2)"
proof -
  let ?al = "\<lparr>scan_ptr = n, deallocation_action = act\<rparr>" and ?hp = "gc_heap s @ [Uninit]"
  define t0 where "t0 = s\<lparr>gc_heap := ?hp, gc_datas := gc_datas s @ [\<lparr>d_allocation = ?al, d_lockout = lockout_new,
        d_deallocated = False, d_last_marked = 0\<rparr>]\<rparr>"
  obtain r t1 where i1: "insert_handle (Fixed D) t0 = (r, t1)" by (cases "insert_handle (Fixed D) t0")
  obtain own t2 where i2: "insert_handle (Fixed D) t1 = (own, t2)" by (cases "insert_handle (Fixed D) t1")
  let ?v = "build own"
  note fr1 = insert_handle_frame [OF i1] and fr2 = insert_handle_frame [OF i2]
  have dat: "D < length (gc_datas t2)" "\<not> d_deallocated (gc_datas t2 ! D)"
    using fr1(3) fr2(3) by (simp_all add: D_def t0_def)
  have len: "length (gc_handles t1) = Suc (length (gc_handles s))"
    using i1 by (auto simp: insert_handle_def Let_def t0_def split: prod.splits)
  let ?u = "upd_data D (\<lambda>x. x\<lparr>d_deallocated := True\<rparr>) t2"
  have own: "ref_data own t2 = Inr D" "ref_data own ?u = Inr D"
    using ref_data_new [OF i2] by (simp_all add: ref_data_def upd_data_def)
  have init: "cyclic_initializer (\<lambda>gc s. Inr (build (backing_handle gc), s)) own n t2 = Inr (?v, t2)"
    by (simp add: cyclic_initializer_def set_deallocated_def own Let_def upd_data_twice [OF dat])
  let ?s5 = "t2\<lparr>gc_heap := ptr_write n ?v (gc_heap t2)\<rparr>"
  have hp: "gc_heap t2 = ?hp" using fr1(4) fr2(4) by (simp add: t0_def)
  have clone: "clone_handle r t1 = Inr (own, t2)" by (simp add: clone_handle_def ref_data_new [OF i1] i2)
  have "track_initialized (?al, ?hp) (cyclic_initializer (\<lambda>gc s. Inr (build (backing_handle gc), s))) s =
      Inr ((r, n), track_from_token D ?s5)"
    using i1 by (simp add: t0_def track_initialized_def setup_gc_reference_def Let_def D_def [symmetric] clone init)
  then have run: "cyc (\<lambda>gc s. Inr (build (backing_handle gc), s)) s =
      Inr (\<lparr>backing_handle = r, direct_ptr = n\<rparr>, track_from_token D ?s5)"
    by (cases fin) (simp_all add: cyc act gc_new_cyclic_def gc_new_cyclic_with_finalizer_def track_with_initializer_def
        track_with_initializer_and_finalize_def allocate_uninitialized_with_drop_def
        allocate_uninitialized_with_finalization_def raw_allocate_uninitialized_def gc_of_def n_def)
  have "s0 ?v = t0\<lparr>gc_heap := gc_heap s @ [Init ?v]\<rparr>" by (simp add: s0 t0_def)
  then have "insert_handle (Fixed D) (s0 ?v) = (r, t1\<lparr>gc_heap := gc_heap s @ [Init ?v]\<rparr>)"
    using insert_handle_heap [of "Fixed D" _ t0] i1 by simp
  moreover have "?s5 = t2\<lparr>gc_heap := gc_heap s @ [Init ?v]\<rparr>" by (simp add: hp ptr_write_def n_def)
  then have "insert_handle (Fixed D) (t1\<lparr>gc_heap := gc_heap s @ [Init ?v]\<rparr>) = (own, ?s5)"
    using insert_handle_heap [of "Fixed D" _ t1] i2 by simp
  ultimately show thesis using run that [of own r] fr2(1) len by auto
qed

lemma insert_handle_bound:
  assumes "insert_handle u s = (r, s')"
  shows "length (gc_handles s') = Suc (length (gc_handles s))" and "async_gc_notified s' = async_gc_notified s"
  using assms by (auto simp: insert_handle_def Let_def split: prod.splits)

lemma client_NewCyclic:
  assumes inv: "client_inv c" and may: "client_may (NewCyclic fin build) c"
  shows "\<exists>c'. client_run (NewCyclic fin build) c = Inr c' \<and> client_inv c'"
proof -
  let ?s = "sys c" and ?D = "length (gc_datas (sys c))" and ?n = "length (gc_heap (sys c))"
  define act where "act = (if fin then RunFinalizer ?n else RunDrop)"
  define s0 where "s0 v = ?s\<lparr>gc_heap := gc_heap ?s @ [Init v], gc_datas := gc_datas ?s @
      [\<lparr>d_allocation = \<lparr>scan_ptr = ?n, deallocation_action = act\<rparr>, d_lockout = lockout_new,
        d_deallocated = False, d_last_marked = 0\<rparr>]\<rparr>" for v
  define cyc where "cyc = (if fin then gc_new_cyclic_with_finalizer else gc_new_cyclic)"
  obtain r own s1 s2 where own: "item_v own = Suc (length (gc_handles ?s))"
    and i1: "insert_handle (Fixed ?D) (s0 (build own)) = (r, s1)" and i2: "insert_handle (Fixed ?D) s1 = (own, s2)"
    and run: "cyc (\<lambda>gc s. Inr (build (backing_handle gc), s)) ?s =
      Inr (\<lparr>backing_handle = r, direct_ptr = ?n\<rparr>, track_from_token ?D s2)"
    by (rule gc_new_cyclic_runs [OF refl refl cyc_def act_def s0_def, of build], elim exE conjE) (rule that)
  let ?v = "build own" and ?P = "pending (sys c)" and ?W = "warrants c"
  let ?H = "take_refs (owned (build own)) (held c)"
  note fr1 = insert_handle_frame [OF i1] and fr2 = insert_handle_frame [OF i2]
  have g: "gc_inv ?P (held c) ?W ?s" by (rule client_gc_inv [OF inv])
  have bound: "e < ?D" "addr ?s e < ?n" if "e \<in> set (all_data ?s ?P)" for e
    using all_data_ok [OF g that] by (simp_all add: data_ok_def)
  have g0: "gc_inv ?P (held c) ?W (s0 ?v)" using gc_inv_grow [OF g] by (simp add: s0_def)
  have g1: "gc_invx {item_v r} ?P (r # held c) ?W s1" by (rule gc_inv_insert_handle [OF g0 i1]) auto
  have g2: "gc_invx {item_v r, item_v own} ?P (own # r # held c) ?W s2"
    by (rule gc_inv_insert_handle [OF g1 i2]) auto
  have tgt: "target s2 (item_v r) = ?D" "target s2 (item_v own) = ?D"
  proof -
    show "target s2 (item_v own) = ?D" using fr2(2) by (simp add: target_def)
    have "item_v r < length (gc_handles s1)" using insert_handle_bound(1) [OF i1] fr1(1) by simp
    then have "gc_handles s2 ! item_v r = gc_handles s1 ! item_v r"
      using i2 by (auto simp: insert_handle_def Let_def nth_append split: prod.splits)
    then show "target s2 (item_v r) = ?D" using fr1(2) by (simp add: target_def)
  qed
  have cnt: "mset (owned ?v) + mset (r # ?H) = mset (own # r # held c)"
  proof -
    have sub: "mset (owned ?v) \<subseteq># add_mset own (mset (held c))" and mem: "own \<in># mset (owned ?v)"
      using may by auto
    have "q \<in> set (held c) \<Longrightarrow> item_v q < length (gc_handles ?s)" for q
      using gc_inv_target(1) [OF g, of q] live_bound [OF g] by blast
    then have new: "own \<notin># mset (held c)" using own by force
    obtain A where A: "mset (owned ?v) = add_mset own A" using mem by (metis mset_add)
    then have "A \<subseteq># mset (held c)" "own \<notin># A"
      using sub new by (simp_all, meson mset_subset_eqD)
    moreover have "mset ?H = mset (held c) - mset (owned ?v)" by (simp add: take_refs_mset)
    ultimately show ?thesis using A new by (simp add: diff_add_mset_swap subset_mset.add_diff_inverse)
  qed
  have a: "addr s2 ?D = ?n" "block_val s2 ?D = ?v" "mark_of s2 ?D = 0" "gc_datas s2 ! ?D =
      \<lparr>d_allocation = \<lparr>scan_ptr = ?n, deallocation_action = act\<rparr>, d_lockout = lockout_new,
        d_deallocated = False, d_last_marked = 0\<rparr>"
    using fr1 fr2 by (simp_all add: addr_def block_val_def mark_of_def s0_def)
  have fresh: "?D \<notin> set (all_data s2 ?P)" "addr s2 ?D \<notin> addr s2 ` set (all_data s2 ?P)"
  proof -
    have all: "all_data s2 ?P = all_data ?s ?P" using fr1 fr2 by (simp add: all_data_def s0_def)
    have ad: "addr s2 e = addr ?s e" if "e \<in> set (all_data ?s ?P)" for e
      using bound(1) [OF that] fr1 fr2 by (simp add: addr_def nth_append s0_def)
    show "?D \<notin> set (all_data s2 ?P)" using bound(1) all by auto
    show "addr s2 ?D \<notin> addr s2 ` set (all_data s2 ?P)" using bound(2) all ad a(1) by fastforce
  qed
  have g3: "gc_invx {item_v r, item_v own} ?P (owned (block_val s2 ?D) @ r # ?H) ?W s2"
    using g2 gc_inv_perm [of "owned ?v @ r # ?H" "own # r # held c" ?W ?W] cnt by (simp add: a(2))
  have "0 < current_collection_number s2"
    using g2 by (auto simp: gc_invx_def marks_ok_def word_le_nat_alt word_less_nat_alt)
  moreover have "data_ok s2 ?D"
    using a may fr1 fr2 by (auto simp: data_ok_def s0_def act_def)
  ultimately have inv': "gc_inv ?P (r # ?H) ?W (track_from_token ?D s2)"
    using tgt a fresh by (intro gc_inv_track_from_token [OF g3]) (auto simp: lockout_new_def)
  have ctl: "same_control ?s s2"
    using insert_handle_control [OF i1] insert_handle_control [OF i2] by (simp add: same_control_def s0_def)
  have "cll_inv (data_list s2)" "data_room s2" "idle s2"
    using client_inv_data_list [OF inv] may inv idle_cong [OF ctl] ctl
    by (simp_all add: client_inv_def) (simp_all add: same_control_def data_room_def)
  then have ctl': "idle (track_from_token ?D s2)" "pending (track_from_token ?D s2) = ?P"
    using track_from_token_control [of s2 ?D] pending_cong [OF ctl] by simp_all
  have "block_val (track_from_token ?D s2) ?D = ?v"
    using a(1,2) by (simp add: block_val_def addr_def track_from_token_def notify_async_gc_thread_def)
  with inv' ctl' run show ?thesis
    by (simp add: cyc_def [symmetric] gain_def client_inv_def)
qed

end
