(* ===== verification/Client_Safety.thy ===== *)
theory Client_Safety
  imports Client
begin

text \<open>
  What the collector guarantees a client (\<open>Client\<close>): its permitted calls never fail, a pointer it can
  lay its hands on always leads to live data, and a collection keeps what the client can still
  get at and, when nothing is hidden from the scan, gives up everything else.
\<close>

subsection \<open>Reachable states\<close>

inductive client_reachable :: "gc_client \<Rightarrow> bool" where
  init: "client_reachable client_new"
| step: "client_reachable c \<Longrightarrow> client_may op c \<Longrightarrow> client_run op c = Inr c' \<Longrightarrow> client_reachable c'"

lemma client_RunCollect:
  assumes "client_inv c" and "client_may RunCollect c"
  shows "\<exists>c'. client_run RunCollect c = Inr c' \<and> client_inv c'"
proof -
  obtain s2 dl where "collect (sys c) = Inr (swept_state dl s2)" "client_inv (c\<lparr>sys := swept_state dl s2\<rparr>)"
    by (rule client_collect [OF assms])
  then show ?thesis by simp
qed

lemma client_GetGuard_weak: "client_inv c \<Longrightarrow> client_may (GetGuard r) c \<Longrightarrow>
    \<exists>c'. client_run (GetGuard r) c = Inr c' \<and> client_inv c'"
  and client_RunSync_weak: "client_inv c \<Longrightarrow> \<exists>c'. client_run RunSync c = Inr c' \<and> client_inv c'"
  using client_GetGuard client_RunSync by blast+

lemmas client_progress_rules = client_New client_NewCyclic client_CloneGc client_DropRef client_GetGuard_weak
  client_DropGuard client_WriteData client_NewAtomic client_LoadAtomic client_StoreAtomic client_SwapAtomic
  client_CasAtomic client_RunCollect client_RunDropper client_RunSync_weak client_RunAsync

lemma client_progress:
  assumes inv: "client_inv c" and may: "client_may op c"
  shows "\<exists>c'. client_run op c = Inr c' \<and> client_inv c'"
  by (insert may, cases op; hypsubst; (rule client_progress_rules [OF inv]; assumption))

lemma client_reachable_inv: "client_reachable c \<Longrightarrow> client_inv c"
proof (induction rule: client_reachable.induct)
  case (step c op c')
  then show ?case using client_progress [of c op] by auto
qed (rule client_inv_new)

text \<open>
  C1: No sequence of calls that Rust's ownership rules permit, made one after the other, makes the crate
  panic, read released or uninitialised memory, abort, or wait for something that never comes; every
  call returns, in a state from which the same is true.
\<close>

theorem client_never_fails:
  assumes "client_reachable c" and "client_may op c"
  shows "\<exists>c'. client_run op c = Inr c' \<and> client_reachable c'"
  using client_progress [OF client_reachable_inv [OF assms(1)] assms(2)] client_reachable.step [OF assms]
  by blast

lemma cll_new_items [simp]: "par_iter (cll_new :: nat cll) = []"
  by (rule cs.empty_items)

lemma client_new_room [simp]: "data_room (sys client_new)" "number_room (sys client_new)"
  by (simp_all add: data_room_def number_room_def client_new_def collector_new_def)

theorem client_never_fails_witness:
  "\<exists>c1. client_run (NewCyclic False (\<lambda>r. V_Mutex False False (V_Gc r))) client_new = Inr c1 \<and>
     client_reachable c1"
  by (rule client_never_fails [OF client_reachable.init]) (simp add: at_most_one_panic_def)

text \<open>A clone has a direct pointer to the block of the data that its new handle leads to.\<close>

lemma clone_ptr_at:
  assumes "is_gc c r"
    and "gc_clone (ptr_at (sys c) r) (sys c) = Inr (g, s') \<or> deref_gc_clone (ptr_at (sys c) r) (sys c) = Inr (g, s')"
  shows "g = ptr_at s' (backing_handle g)"
proof -
  let ?d = "target (sys c) (item_v r)"
  obtain r' where ins: "insert_handle (Fixed ?d) (sys c) = (r', s')"
    and g: "g = \<lparr>backing_handle = r', direct_ptr = addr (sys c) ?d\<rparr>"
    using assms(2) is_gc_data(1) [OF assms(1)]
    by (auto simp: gc_clone_def deref_gc_clone_def clone_handle_def ptr_at_def split: prod.splits)
  note fr = insert_handle_frame [OF ins]
  have "target s' (item_v r') = ?d" using fr(2) by (simp add: target_def)
  then show ?thesis using fr(3) by (simp add: g ptr_at_def addr_def)
qed

text \<open>
  C2: Every \<open>Gc\<close> or \<open>DerefGc\<close> that the client owns, or that sits anywhere in tracked data, leads to
  data that is tracked and not flagged as deallocated, and its direct pointer to a block that holds
  a value. The direct pointer that a clone of it is given is that of the data its new handle leads to.
\<close>

theorem client_pointers_valid:
  assumes "client_reachable c" and "is_gc c r"
  shows "target (sys c) (item_v r) \<in> tracked (sys c) \<and>
    assert_live (ptr_at (sys c) r) (sys c) = Inr () \<and>
    deref_gc_deref (ptr_at (sys c) r) (sys c) = Inr (block_val (sys c) (target (sys c) (item_v r))) \<and>
    (\<forall>g s'. gc_clone (ptr_at (sys c) r) (sys c) = Inr (g, s') \<or>
       deref_gc_clone (ptr_at (sys c) r) (sys c) = Inr (g, s') \<longrightarrow> g = ptr_at s' (backing_handle g))"
proof -
  have inv: "client_inv c" by (rule client_reachable_inv [OF assms(1)])
  have "\<forall>g s'. gc_clone (ptr_at (sys c) r) (sys c) = Inr (g, s') \<or>
      deref_gc_clone (ptr_at (sys c) r) (sys c) = Inr (g, s') \<longrightarrow> g = ptr_at s' (backing_handle g)"
    using clone_ptr_at [OF assms(2)] by blast
  then show ?thesis
    using visible_target [OF inv is_gc_visible [OF assms(2)]] assert_live_visible [OF inv assms(2)]
    by (simp add: deref_gc_deref_def ptr_at_def read_cell_def data_ok_def)
qed

text \<open>
  C6: A guard gives access to the value its \<open>Gc\<close> points to, and the data stays tracked with its block
  in place for as long as the guard lives, whatever else happens meanwhile: drops of every handle,
  collections, runs of the dropper.
\<close>

theorem guarded_data_stays:
  assumes "client_reachable c" and "d \<in> set (warrants c)"
  shows "d \<in> tracked (sys c) \<and> alloc_scan (d_allocation (gc_datas (sys c) ! d)) (gc_heap (sys c)) =
      Inr (scan (block_val (sys c) d)) \<and>
    get_exclusive_warrant (d_lockout (gc_datas (sys c) ! d)) = None"
proof -
  have g: "gc_inv (pending (sys c)) (held c) (warrants c) (sys c)"
    by (rule client_gc_inv [OF client_reachable_inv [OF assms(1)]])
  then have d: "d \<in> tracked (sys c)" and "unat (lk_count (d_lockout (gc_datas (sys c) ! d))) = count (mset (warrants c)) d"
    using assms(2) by (auto simp: gc_invx_def warrants_ok_def)
  moreover have "0 < count (mset (warrants c)) d" using assms(2) by simp
  ultimately have "lk_count (d_lockout (gc_datas (sys c) ! d)) \<noteq> 0" by auto
  with d scan_data_ok [OF all_data_ok [OF g tracked_all_data [OF d]]] show ?thesis
    by (simp add: scan_data_def get_exclusive_warrant_eq)
qed

subsection \<open>What the client can still get at\<close>

text \<open>
  From the handles and guards it has, through everything that is owned on the way, whether a scan
  would see it or not.
\<close>

inductive_set needed :: "gc_client \<Rightarrow> nat set" for c where
  guard: "d \<in> set (warrants c) \<Longrightarrow> d \<in> needed c"
| handle: "r \<in> set (held c) \<Longrightarrow> target (sys c) (item_v r) \<in> needed c"
| owned: "d \<in> needed c \<Longrightarrow> r \<in> set (owned (block_val (sys c) d)) \<Longrightarrow> target (sys c) (item_v r) \<in> needed c"

text \<open>A handle is in one place: what data of its own does not show to the scan is a root.\<close>

lemma owner_unique:
  assumes inv: "gc_inv P H W s" and d: "d \<in> tracked s" "r \<in> set (owned (block_val s d))"
    and e: "e \<in> tracked s" "q \<in> set (owned (block_val s e))" "item_v q = item_v r"
  shows "e = d \<and> q = r"
proof -
  have dis: "distinct (map item_v (refs s P H))" using inv by (simp add: gc_invx_def refs_ok_def)
  have mem: "r \<in> set (refs s P H)" "q \<in> set (refs s P H)"
    using d e tracked_all_data by (fastforce simp: refs_def)+
  then have qr: "q = r" using dis e(3) by (auto simp: distinct_map inj_on_def)
  moreover have "e = d"
  proof (rule ccontr)
    assume ne: "e \<noteq> d"
    obtain xs ys where "all_data s P = xs @ d # ys" using split_list [OF tracked_all_data [OF d(1)]] by blast
    moreover have "e \<in> set (xs @ ys)" using tracked_all_data [OF e(1)] ne calculation by (metis Un_iff set_ConsD set_append)
    moreover have "distinct (refs s P H)" using dis by (simp add: distinct_map)
    ultimately show False using d(2) e(2) qr by (auto simp: refs_def)
  qed
  ultimately show ?thesis by simp
qed

lemma held_not_owned:
  assumes inv: "gc_inv P H W s" and "r \<in> set H" and "e \<in> tracked s" "q \<in> set (owned (block_val s e))"
  shows "item_v q \<noteq> item_v r"
proof -
  have "distinct (map item_v (H @ concat (map (\<lambda>d. owned (block_val s d)) (all_data s P))))"
    using inv by (simp add: gc_invx_def refs_ok_def refs_def)
  then show ?thesis
    by (rule distinct_map_append) (use assms(2-4) tracked_all_data [of e s P] in auto)
qed

text \<open>So what kept data owns is kept as well.\<close>

lemma kept_closed:
  assumes inv: "gc_inv [] H W s" and d: "d \<in> tracked s" "kept s d" and r: "r \<in> set (owned (block_val s d))"
  shows "kept s (target s (item_v r))"
proof (rule target_kept(2) [OF inv])
  show live: "item_v r \<in> live_handles s" using gc_inv_target(1) [OF inv] d(1) r by blast
  show "item_v r \<notin> doomed s (filter (\<lambda>d. \<not> kept s d) (par_iter (data_list s)))"
  proof
    assume "item_v r \<in> doomed s (filter (\<lambda>d. \<not> kept s d) (par_iter (data_list s)))"
    then obtain e q where e: "e \<in> tracked s" "\<not> kept s e" "q \<in> set (scan (block_val s e))" "item_v q = item_v r"
      by (auto simp: doomed_def tracked_def)
    then have "e = d" using owner_unique [OF inv d(1) r e(1)] set_scan_owned by blast
    with e d show False by simp
  qed
qed

lemma needed_kept:
  assumes inv: "gc_inv [] (held c) (warrants c) (sys c)" and "d \<in> needed c"
  shows "d \<in> tracked (sys c) \<and> kept (sys c) d"
  using assms(2)
proof (induction rule: needed.induct)
  case (guard d)
  then have "d \<in> tracked (sys c)" "unat (lk_count (d_lockout (gc_datas (sys c) ! d))) = count (mset (warrants c)) d"
    using inv by (auto simp: gc_invx_def warrants_ok_def)
  moreover have "0 < count (mset (warrants c)) d" using guard by simp
  ultimately show ?case by (auto simp: kept_def in_use_def)
next
  case (handle r)
  have "item_v r \<notin> doomed (sys c) (filter (\<lambda>d. \<not> kept (sys c) d) (par_iter (data_list (sys c))))"
    using held_not_owned [OF inv handle] set_scan_owned by (fastforce simp: doomed_def tracked_def)
  then show ?case
    using gc_inv_target(1,2) [OF inv, of r] handle target_kept(2) [OF inv] by blast
next
  case (owned d r)
  then show ?case using kept_closed [OF inv] gc_inv_target(2) [OF inv, of r] by blast
qed

lemma needed_tracked:
  assumes inv: "gc_inv P (held c) (warrants c) (sys c)" and "d \<in> needed c"
  shows "d \<in> tracked (sys c)"
  using assms(2)
proof (induction rule: needed.induct)
  case (guard d)
  then show ?case using inv by (auto simp: gc_invx_def warrants_ok_def)
next
  case (handle r)
  then show ?case using gc_inv_target(2) [OF inv] by blast
next
  case (owned d r)
  then show ?case using gc_inv_target(2) [OF inv] by blast
qed

lemma needed_mono:
  assumes inv: "gc_inv P (held c) (warrants c) (sys c)" and "d \<in> needed c"
    and same: "held c' = held c" "warrants c' = warrants c" "target (sys c') = target (sys c)"
      "\<And>d. d \<in> tracked (sys c) \<Longrightarrow> block_val (sys c') d = block_val (sys c) d"
  shows "d \<in> needed c'"
  using assms(2)
proof (induction rule: needed.induct)
  case (guard d)
  then show ?case using same(2) by (auto intro: needed.guard)
next
  case (handle r)
  then show ?case using needed.handle [of r c'] same by simp
next
  case (owned d r)
  then show ?case
    using needed.owned [of d c' r] same(3) same(4) [OF needed_tracked [OF inv owned(1)]] by simp
qed

text \<open>What happens to the data between the start of a collection and its sweep.\<close>

lemma client_collect_needed:
  assumes inv: "client_inv c" and may: "client_may RunCollect c" and run: "client_run RunCollect c = Inr c'"
  obtains s2 dl where "sys c' = swept_state dl s2" and "client_inv c'"
    and "gc_inv [] (held c) (warrants c) s2" and "tracked s2 = tracked (sys c)"
    and "released (set (pending (sys c))) (set (pending (sys c))) (sys c) s2"
    and "needed (c\<lparr>sys := s2\<rparr>) = needed c" and "tracked (sys c') = {d \<in> tracked (sys c). kept s2 d}"
    and "pending (sys c') = filter (\<lambda>d. \<not> kept s2 d) (par_iter (data_list (sys c)))"
    and "\<And>d. d \<in> tracked (sys c) \<Longrightarrow> block_val s2 d = block_val (sys c) d \<and> block_val (sys c') d = block_val s2 d"
proof -
  obtain s2 dl where col: "collect (sys c) = Inr (swept_state dl s2)"
    and inv2: "gc_inv [] (held c) (warrants c) s2" and dr: "dropper s2 = []"
    and dls: "data_list s2 = data_list (sys c)" "par_iter dl = filter (kept s2) (par_iter (data_list s2))"
    and inv': "client_inv (c\<lparr>sys := swept_state dl s2\<rparr>)"
    and rel: "released (set (pending (sys c))) (set (pending (sys c))) (sys c) s2"
    by (rule client_collect [OF inv may])
  have c': "sys c' = swept_state dl s2" "c' = c\<lparr>sys := swept_state dl s2\<rparr>" using run col by auto
  have tr: "tracked s2 = tracked (sys c)" by (simp add: tracked_def dls)
  have val: "block_val s2 d = block_val (sys c) d" if "d \<in> tracked (sys c)" for d
    using released_tracked(1) [OF client_gc_inv [OF inv] rel that] .
  have val': "block_val (sys c') d = block_val s2 d" if "d \<in> tracked (sys c)" for d
  proof -
    have "data_ok s2 d" using all_data_ok [OF inv2 tracked_all_data] that tr by blast
    then have "addr (sys c') d = addr s2 d" by (simp add: c'(1) addr_def data_ok_def swept_nth set_mark_def)
    then show ?thesis by (simp add: block_val_def c'(1) swept_frame)
  qed
  have "needed (c\<lparr>sys := s2\<rparr>) = needed c"
  proof (intro equalityI subsetI)
    fix d assume "d \<in> needed c"
    then show "d \<in> needed (c\<lparr>sys := s2\<rparr>)"
      by (rule needed_mono [OF client_gc_inv [OF inv]]) (use val released_target [OF rel] in simp_all)
  next
    fix d assume "d \<in> needed (c\<lparr>sys := s2\<rparr>)"
    then show "d \<in> needed c"
      by (rule needed_mono [where c = "c\<lparr>sys := s2\<rparr>" and P = "[]", rotated])
        (use inv2 val tr released_target [OF rel] in simp_all)
  qed
  moreover have "tracked (sys c') = {d \<in> tracked (sys c). kept s2 d}"
    by (auto simp: c'(1) tracked_def swept_frame dls)
  moreover have "pending (sys c') = filter (\<lambda>d. \<not> kept s2 d) (par_iter (data_list (sys c)))"
    by (simp add: c'(1) pending_def swept_state_def dr dls)
  ultimately show thesis using that [OF c'(1) _ inv2 tr rel] inv' c'(2) val val' by simp
qed

text \<open>
  C4: A collection keeps everything the client can still get at, through any chain of ownership,
  locked or skipped by the scan or not, and does not touch the values.
\<close>

theorem collection_keeps_needed:
  assumes "client_reachable c" and "client_may RunCollect c" and "client_run RunCollect c = Inr c'"
    and "d \<in> needed c"
  shows "d \<in> tracked (sys c') \<and> block_val (sys c') d = block_val (sys c) d"
proof -
  obtain s2 dl where s2: "sys c' = swept_state dl s2" "client_inv c'" "gc_inv [] (held c) (warrants c) s2"
      "tracked s2 = tracked (sys c)" "released (set (pending (sys c))) (set (pending (sys c))) (sys c) s2"
      "needed (c\<lparr>sys := s2\<rparr>) = needed c" "tracked (sys c') = {d \<in> tracked (sys c). kept s2 d}"
      "pending (sys c') = filter (\<lambda>d. \<not> kept s2 d) (par_iter (data_list (sys c)))"
    and val: "\<And>d. d \<in> tracked (sys c) \<Longrightarrow> block_val s2 d = block_val (sys c) d \<and> block_val (sys c') d = block_val s2 d"
    by (rule client_collect_needed [OF client_reachable_inv [OF assms(1)] assms(2,3)]) blast
  have "d \<in> tracked s2 \<and> kept s2 d" using needed_kept [of "c\<lparr>sys := s2\<rparr>" d] s2(3,6) assms(4) by simp
  with s2(4,7) val show ?thesis by simp
qed

subsection \<open>Precision\<close>

text \<open>Nothing is hidden: every tracked value is at rest, and every registered handle has an owner.\<close>

definition transparent :: "gc_client \<Rightarrow> bool" where
  "transparent c \<longleftrightarrow> (\<forall>d\<in>tracked (sys c). at_rest (block_val (sys c) d)) \<and>
     live_handles (sys c) \<subseteq> item_v ` set (refs (sys c) [] (held c))"

lemma in_use_needed:
  assumes "gc_inv P (held c) (warrants c) (sys c)" and "d \<in> tracked (sys c)" and "in_use (sys c) d"
  shows "d \<in> needed c"
proof -
  have "unat (lk_count (d_lockout (gc_datas (sys c) ! d))) = count (mset (warrants c)) d"
    using assms(1,2) by (simp add: gc_invx_def warrants_ok_def)
  then have "count (mset (warrants c)) d \<noteq> 0" using assms(3) by (simp add: in_use_def unat_eq_zero [symmetric])
  then show ?thesis by (intro needed.guard) (simp add: count_eq_zero_iff)
qed

lemma kept_needed:
  assumes inv: "gc_inv [] (held c) (warrants c) (sys c)" and tr: "transparent c"
    and d: "d \<in> tracked (sys c)" "kept (sys c) d"
  shows "d \<in> needed c"
proof (cases "in_use (sys c) d")
  case True
  then show ?thesis by (rule in_use_needed [OF inv d(1)])
next
  case False
  let ?s = "sys c"
  have ok: "data_ok ?s e" if "e \<in> tracked ?s" for e by (rule all_data_ok [OF inv tracked_all_data [OF that]])
  have scan: "scanned ?s e = item_v ` set (owned (block_val ?s e))" if "e \<in> tracked ?s" for e
    using scanned_ok [OF ok [OF that]] scan_at_rest tr that by (simp add: transparent_def)
  have pt: "points_to ?s h e \<Longrightarrow> e = target ?s h" for h e
    by (auto simp: points_to_def with_data_def target_def Let_def split: underlying_data.splits if_splits)
  have "d \<in> reachable ?s" using False d(2) by (simp add: kept_def)
  then have "d \<in> needed c \<and> d \<in> tracked ?s"
  proof (induction rule: reachable.induct)
    case (root h d)
    then obtain r where r: "r \<in> set (refs ?s [] (held c))" "h = item_v r"
      using tr by (auto simp: transparent_def root_handles_def)
    then consider "r \<in> set (held c)" | e where "e \<in> tracked ?s" "r \<in> set (owned (block_val ?s e))"
      by (auto simp: refs_def all_data_def tracked_def)
    then have "target ?s h \<in> needed c"
    proof cases
      case 1
      then show ?thesis using needed.handle r(2) by blast
    next
      case (2 e)
      then have "in_use ?s e" using root(1) scan [OF 2(1)] r(2) by (auto simp: root_handles_def non_rooted_def)
      then show ?thesis using needed.owned [OF in_use_needed [OF inv 2(1)] 2(2)] r(2) by simp
    qed
    then show ?case using pt root by simp
  next
    case (step d h d')
    then obtain r where "r \<in> set (owned (block_val ?s d))" "h = item_v r" using scan by auto
    then show ?case using needed.owned [of d c r] step pt by auto
  qed
  then show ?thesis ..
qed

lemma collect_needed:
  assumes inv: "client_inv c" and "client_may RunCollect c" and "client_run RunCollect c = Inr c'"
    and "dropper (sys c) = []" and "transparent c"
  shows "tracked (sys c') = needed c"
proof -
  obtain s2 dl where s2: "sys c' = swept_state dl s2" "client_inv c'" "gc_inv [] (held c) (warrants c) s2"
      "tracked s2 = tracked (sys c)" "released (set (pending (sys c))) (set (pending (sys c))) (sys c) s2"
      "needed (c\<lparr>sys := s2\<rparr>) = needed c" "tracked (sys c') = {d \<in> tracked (sys c). kept s2 d}"
      "pending (sys c') = filter (\<lambda>d. \<not> kept s2 d) (par_iter (data_list (sys c)))"
    and val: "\<And>d. d \<in> tracked (sys c) \<Longrightarrow> block_val s2 d = block_val (sys c) d \<and> block_val (sys c') d = block_val s2 d"
    by (rule client_collect_needed [OF inv assms(2,3)]) blast
  let ?c2 = "c\<lparr>sys := s2\<rparr>"
  have live: "live_handles s2 = live_handles (sys c)"
    using s2(5) assms(4) by (simp add: released_def pending_def live_handles_def)
  have "set (refs s2 [] (held c)) = set (refs (sys c) [] (held c))"
    using s2(4) val by (auto simp: refs_def all_data_def tracked_def [symmetric])
  then have "transparent ?c2" using assms(5) live s2(4) val by (simp add: transparent_def)
  then have "kept s2 d \<Longrightarrow> d \<in> tracked (sys c) \<Longrightarrow> d \<in> needed c" for d
    using kept_needed [of ?c2 d] s2(3,4,6) by simp
  moreover have "d \<in> needed c \<Longrightarrow> d \<in> tracked (sys c) \<and> kept s2 d" for d
    using needed_kept [of ?c2 d] s2(3,4,6) by simp
  ultimately show ?thesis using s2(7) by blast
qed

text \<open>
  C3: Once the dropper has caught up, a collection is exact for a client that hides nothing from the
  scan: the data that stays is precisely what the client can still get at, so garbage goes at
  once however it is tangled in cycles.
\<close>

theorem collection_exact:
  assumes "client_reachable c" and "client_may RunCollect c" and "client_run RunCollect c = Inr c'"
    and "dropper (sys c) = []" and "transparent c"
  shows "tracked (sys c') = needed c"
  by (rule collect_needed [OF client_reachable_inv [OF assms(1)] assms(2-5)])

subsection \<open>A cycle of garbage\<close>

lemma insert_handle_live:
  assumes "cll_inv (handle_list s)" and "insert_handle u s = (r, s')"
  shows "live_handles s' = insert (item_v r) (live_handles s)" and "cll_inv (handle_list s')"
proof -
  obtain hl where ins: "cll_insert (length (gc_handles s)) (handle_list s) = (r, hl)" "handle_list s' = hl"
    using assms(2) by (auto simp: insert_handle_def Let_def split: prod.splits)
  note put = cs.put_law [OF assms(1) ins(1)] and items = cs.put_items [OF assms(1) ins(1)]
  show "cll_inv (handle_list s')" using put ins(2) by simp
  show "live_handles s' = insert (item_v r) (live_handles s)"
    using arg_cong [OF items, of set_mset] put ins(2) by (simp add: live_handles_def)
qed

text \<open>
  A client makes a value that holds its own \<open>Gc\<close> and then drops the one it was given: one piece of
  data, registered, with one handle in itself.
\<close>

lemma cyclic_garbage:
  obtains c1 c2 r where "client_run (NewCyclic False V_Gc) client_new = Inr c1" and "held c1 = [r]"
    and "client_run (DropRef r) c1 = Inr c2" and "client_reachable c2" and "dropper (sys c2) = []"
    and "transparent c2" and "needed c2 = {}" and "number_room (sys c2)" and "tracked (sys c2) = {0}"
    and "end_cell (d_allocation (gc_datas (sys c2) ! 0)) (block_val (sys c2) 0) = Freed"
proof -
  let ?blk = "\<lambda>v. collector_new\<lparr>gc_heap := gc_heap collector_new @ [Init v], gc_datas := gc_datas collector_new @
      [\<lparr>d_allocation = \<lparr>scan_ptr = 0, deallocation_action = RunDrop\<rparr>, d_lockout = lockout_new,
        d_deallocated = False, d_last_marked = 0\<rparr>]\<rparr>"
  obtain r own s1 s2 where own: "item_v own = Suc 0"
    and i1: "insert_handle (Fixed 0) (?blk (V_Gc own)) = (r, s1)" and i2: "insert_handle (Fixed 0) s1 = (own, s2)"
    and run: "gc_new_cyclic (\<lambda>gc s. Inr (V_Gc (backing_handle gc), s)) collector_new =
      Inr (\<lparr>backing_handle = r, direct_ptr = 0\<rparr>, track_from_token 0 s2)"
    by (rule gc_new_cyclic_runs [of 0 collector_new 0 gc_new_cyclic False RunDrop ?blk V_Gc])
      (auto simp: collector_new_def)
  let ?trk = "track_from_token 0 s2"
  note fr1 = insert_handle_frame [OF i1] and fr2 = insert_handle_frame [OF i2]
  have hl: "cll_inv (handle_list (?blk (V_Gc own)))" by (simp add: collector_new_def cll_inv_new)
  note l1 = insert_handle_live [OF hl i1] and l2 = insert_handle_live [OF insert_handle_live(2) [OF hl i1] i2]
  have live: "live_handles s2 = {0, 1}"
    using l1(1) l2(1) own fr1(1) by (auto simp: live_handles_def collector_new_def)
  have dl: "data_list s2 = cll_new" using fr1 fr2 by (simp add: collector_new_def)
  obtain it d where ins: "cll_insert 0 cll_new = (it, d :: nat cll)" by (cases "cll_insert 0 cll_new :: nat cll_item \<times> nat cll")
  have "mset (par_iter d) = {#0#}" using cs.put_items [OF cll_inv_new ins] by simp
  then have tr: "par_iter (data_list ?trk) = [0]"
    by (simp add: track_from_token_def notify_async_gc_thread_def dl ins)
  have val: "block_val ?trk 0 = V_Gc own" "live_handles ?trk = live_handles s2"
    "dropper ?trk = []" "current_collection_number ?trk = 2"
    using fr1 fr2
    by (simp_all add: block_val_def addr_def track_from_token_def notify_async_gc_thread_def collector_new_def
        live_handles_def)
  let ?one = "\<lparr>sys = ?trk, held = [r], warrants = []\<rparr>"
  have c1: "client_run (NewCyclic False V_Gc) client_new = Inr ?one"
  proof -
    have none: "take_refs os [] = []" for os by (induction os) (simp_all add: take_refs_def)
    show ?thesis by (simp add: client_new_def run gain_def none)
  qed
  have "client_may (NewCyclic False V_Gc) client_new" by (simp add: at_most_one_panic_def)
  then have re1: "client_reachable ?one" using client_reachable.step [OF client_reachable.init _ c1] by blast
  let ?two = "\<lparr>sys = drop_handle r ?trk, held = [], warrants = []\<rparr>"
  have c2: "client_run (DropRef r) ?one = Inr ?two" by (simp add: gc_drop_def ptr_at_def)
  have re2: "client_reachable ?two" by (rule client_reachable.step [OF re1 _ c2]) simp
  have "gc_inv (pending ?trk) (r # []) [] ?trk" using client_gc_inv [OF client_reachable_inv [OF re1]] by simp
  note dropped = gc_inv_drop_handle(4) [OF this]
  have "item_v r = 0" using fr1(1) by (simp add: collector_new_def)
  then have live2: "live_handles (drop_handle r ?trk) = {1}" unfolding dropped val(2) live by auto
  have same: "block_val (drop_handle r ?trk) = block_val ?trk" "tracked (drop_handle r ?trk) = {0}"
    "par_iter (data_list (drop_handle r ?trk)) = [0]"
    using tr by (simp_all add: block_val_def addr_def drop_handle_def tracked_def fun_eq_iff)
  have "needed ?two = {}"
  proof -
    have "False" if "d \<in> needed ?two" for d using that by (induction rule: needed.induct) simp_all
    then show ?thesis by blast
  qed
  moreover have "transparent ?two" using val(1) own live2 same
    by (simp add: transparent_def refs_def all_data_def)
  moreover have "number_room (sys ?two)" "dropper (sys ?two) = []"
    using val by (simp_all add: number_room_def drop_handle_def)
  moreover have "block_val (sys ?two) 0 = V_Gc own" using same(1) val(1) by simp
  then have "end_cell al (block_val (sys ?two) 0) = Freed" for al
    by (simp add: end_cell_def destructor_panics_def split: deallocation_action.split)
  ultimately show thesis using that [OF c1 _ c2 re2] same by simp
qed

theorem collection_exact_witness:
  "\<exists>c1 r c2 c3. client_run (NewCyclic False V_Gc) client_new = Inr c1 \<and> held c1 = [r] \<and>
     client_run (DropRef r) c1 = Inr c2 \<and> tracked (sys c2) = {0} \<and>
     client_run RunCollect c2 = Inr c3 \<and> tracked (sys c3) = {}"
proof -
  obtain c1 c2 r where c: "client_run (NewCyclic False V_Gc) client_new = Inr c1" "held c1 = [r]"
    "client_run (DropRef r) c1 = Inr c2" "client_reachable c2" "dropper (sys c2) = []"
    "transparent c2" "needed c2 = {}" "number_room (sys c2)" "tracked (sys c2) = {0}"
    "end_cell (d_allocation (gc_datas (sys c2) ! 0)) (block_val (sys c2) 0) = Freed"
    by (rule cyclic_garbage)
  have may: "client_may RunCollect c2" using c(8) by simp
  obtain c3 where c3: "client_run RunCollect c2 = Inr c3"
    using client_RunCollect [OF client_reachable_inv [OF c(4)] may] by blast
  have "tracked (sys c3) = {}" using collection_exact [OF c(4) may c3 c(5,6)] c(7) by simp
  with c c3 show ?thesis by blast
qed

theorem collection_keeps_needed_witness:
  "\<exists>c1 r c3. client_run (NewCyclic False V_Gc) client_new = Inr c1 \<and> held c1 = [r] \<and>
     client_run RunCollect c1 = Inr c3 \<and> target (sys c1) (item_v r) \<in> tracked (sys c3)"
proof -
  obtain c1 c2 r where c: "client_run (NewCyclic False V_Gc) client_new = Inr c1" "held c1 = [r]"
    "client_run (DropRef r) c1 = Inr c2" "client_reachable c2" "dropper (sys c2) = []"
    "transparent c2" "needed c2 = {}" "number_room (sys c2)" "tracked (sys c2) = {0}"
    "end_cell (d_allocation (gc_datas (sys c2) ! 0)) (block_val (sys c2) 0) = Freed"
    by (rule cyclic_garbage)
  have "client_may (NewCyclic False V_Gc) client_new" by (simp add: at_most_one_panic_def)
  then have re: "client_reachable c1" using client_reachable.step [OF client_reachable.init _ c(1)] by blast
  have "sys c2 = drop_handle r (sys c1)" using c(3) by (auto simp: gc_drop_def ptr_at_def)
  then have may: "client_may RunCollect c1" using c(8) by (simp add: number_room_def drop_handle_def)
  obtain c3 where c3: "client_run RunCollect c1 = Inr c3"
    using client_RunCollect [OF client_reachable_inv [OF re] may] by blast
  have "target (sys c1) (item_v r) \<in> needed c1" using needed.handle [of r c1] c(2) by simp
  with collection_keeps_needed [OF re may c3] c c3 show ?thesis by blast
qed

lemma garbage_released:
  assumes inv: "client_inv c" and "client_may RunCollect c" and "client_run RunCollect c = Inr c1"
    and "client_run RunSync c1 = Inr c2" and "d \<in> tracked (sys c)" and "d \<notin> tracked (sys c1)"
  shows "d_deallocated (gc_datas (sys c2) ! d) \<and>
    gc_heap (sys c2) ! addr (sys c) d = end_cell (d_allocation (gc_datas (sys c) ! d)) (block_val (sys c) d) \<and>
    (\<forall>h\<in>live_handles (sys c2). target (sys c2) h \<noteq> d)"
proof -
  obtain s2 dl where s2: "sys c1 = swept_state dl s2" "client_inv c1" "gc_inv [] (held c) (warrants c) s2"
      "tracked s2 = tracked (sys c)" "released (set (pending (sys c))) (set (pending (sys c))) (sys c) s2"
      "tracked (sys c1) = {d \<in> tracked (sys c). kept s2 d}"
      "pending (sys c1) = filter (\<lambda>d. \<not> kept s2 d) (par_iter (data_list (sys c)))"
    and val: "\<And>d. d \<in> tracked (sys c) \<Longrightarrow> block_val s2 d = block_val (sys c) d \<and> block_val (sys c1) d = block_val s2 d"
    by (rule client_collect_needed [OF inv assms(2,3)]) blast
  have p: "d \<in> set (pending (sys c1))" using assms(5,6) s2(6,7) by (simp add: tracked_def)
  have ok: "data_ok s2 d" using all_data_ok [OF s2(3) tracked_all_data] assms(5) s2(4) by blast
  then have len: "d < length (gc_datas (sys c1))" by (simp add: s2(1) swept_frame data_ok_def)
  have al: "d_allocation (gc_datas (sys c1) ! d) = d_allocation (gc_datas (sys c) ! d)"
    using ok s2(5) by (simp add: s2(1) data_ok_def swept_nth set_mark_def released_def)
  then have a: "addr (sys c1) d = addr (sys c) d" by (simp add: addr_def)
  obtain run: "synchronize_destructors (sys c1) = Inr (sys c2)" and c2: "c2 = c1\<lparr>sys := sys c2\<rparr>"
    using assms(4) by (auto simp: res_bind_eq_Inr)
  have rel: "released (set (pending (sys c1))) (set (pending (sys c1))) (sys c1) (sys c2)"
    by (rule synchronize_released [OF run])
  then have "d_deallocated (gc_datas (sys c2) ! d)" using p len by (simp add: released_def)
  moreover have "d \<notin> tracked (sys c2)"
  proof -
    obtain c2' where "client_run RunSync c1 = Inr c2'" "client_inv c2'" "dropper (sys c2') = []"
      using client_RunSync [OF s2(2)] by blast
    then have g: "gc_inv [] (held c2) (warrants c2) (sys c2)"
      using assms(4) client_gc_inv [of c2] by (simp add: pending_def)
    show ?thesis
      using g calculation(1) by (auto simp: gc_invx_def warrants_ok_def)
  qed
  moreover have "target (sys c2) h \<in> tracked (sys c2)" if "h \<in> live_handles (sys c2)" for h
  proof -
    obtain c2' where "client_run RunSync c1 = Inr c2'" "client_inv c2'" "dropper (sys c2') = []"
      using client_RunSync [OF s2(2)] by blast
    then have "gc_inv [] (held c2) (warrants c2) (sys c2)"
      using assms(4) client_gc_inv [of c2] by (simp add: pending_def)
    with that show ?thesis by (simp add: gc_invx_def handles_ok_def doomed_def)
  qed
  moreover have "gc_heap (sys c2) ! addr (sys c) d = end_cell (d_allocation (gc_datas (sys c) ! d)) (block_val (sys c) d)"
    using synchronize_ended [OF client_gc_inv [OF s2(2)] run p] val [OF assms(5)] by (simp add: al a)
  ultimately show ?thesis by blast
qed

text \<open>
  C5: What a collection gives up is gone after the next \<open>synchronize_destructors\<close>: it is flagged, no
  registered handle leads to it, and its block is freed, whatever its value and constructor, unless the
  destructor or finalizer of that very value panics outside of a box; only then is the block leaked.
\<close>

theorem garbage_is_released:
  assumes "client_reachable c" and "client_may RunCollect c" and "client_run RunCollect c = Inr c1"
    and "client_run RunSync c1 = Inr c2" and "d \<in> tracked (sys c)" and "d \<notin> tracked (sys c1)"
  shows "d_deallocated (gc_datas (sys c2) ! d) \<and>
    gc_heap (sys c2) ! addr (sys c) d = end_cell (d_allocation (gc_datas (sys c) ! d)) (block_val (sys c) d) \<and>
    (\<forall>h\<in>live_handles (sys c2). target (sys c2) h \<noteq> d)"
  by (rule garbage_released [OF client_reachable_inv [OF assms(1)] assms(2-6)])

theorem garbage_is_released_witness:
  "\<exists>c1 r c2 c3 c4. client_run (NewCyclic False V_Gc) client_new = Inr c1 \<and> held c1 = [r] \<and>
     client_run (DropRef r) c1 = Inr c2 \<and> client_run RunCollect c2 = Inr c3 \<and>
     client_run RunSync c3 = Inr c4 \<and> gc_heap (sys c4) ! addr (sys c2) 0 = Freed"
proof -
  obtain c1 c2 r where c: "client_run (NewCyclic False V_Gc) client_new = Inr c1" "held c1 = [r]"
    "client_run (DropRef r) c1 = Inr c2" "client_reachable c2" "dropper (sys c2) = []"
    "transparent c2" "needed c2 = {}" "number_room (sys c2)" "tracked (sys c2) = {0}"
    "end_cell (d_allocation (gc_datas (sys c2) ! 0)) (block_val (sys c2) 0) = Freed"
    by (rule cyclic_garbage)
  have may: "client_may RunCollect c2" using c(8) by simp
  obtain c3 where c3: "client_run RunCollect c2 = Inr c3" "client_inv c3"
    using client_RunCollect [OF client_reachable_inv [OF c(4)] may] by blast
  obtain c4 where c4: "client_run RunSync c3 = Inr c4" using client_RunSync [OF c3(2)] by blast
  have "tracked (sys c3) = {}"
    using collect_needed [OF client_reachable_inv [OF c(4)] may c3(1) c(5,6)] c(7) by simp
  then have "gc_heap (sys c4) ! addr (sys c2) 0 = Freed"
    using garbage_is_released [OF c(4) may c3(1) c4, of 0] c(9,10) by simp
  with c c3 c4 show ?thesis by blast
qed


text \<open>
  C10: Suppose that the closure given to \<open>run_with_gc_cleanup\<close> leaves no pointer and no guard behind, that nothing is
  hidden from the scan (\<open>transparent\<close>: no cell or lock in a tracked value is in use, and no registered handle is forgotten
  or in data that the scan skips), that nothing waits for the dropper when it returns, and that the collection number has
  room. Then the call returns, no data is tracked any more, and every piece of data that was tracked when
  the closure returned is flagged and its block freed, or leaked where its own destructor or finalizer panics
  outside of a box.
\<close>

theorem cleanup_leaves_nothing:
  assumes "client_reachable c" and "f s0 = Inr (x, sys c)" and "held c = []" and "warrants c = []"
    and "dropper (sys c) = []" and "transparent c" and "number_room (sys c)"
  shows "\<exists>s3. run_with_gc_cleanup f s0 = Inr (x, s3) \<and> tracked s3 = {} \<and>
    (\<forall>d\<in>tracked (sys c). d_deallocated (gc_datas s3 ! d) \<and>
       gc_heap s3 ! addr (sys c) d = end_cell (d_allocation (gc_datas (sys c) ! d)) (block_val (sys c) d))"
proof -
  have inv: "client_inv c" by (rule client_reachable_inv [OF assms(1)])
  have may: "client_may RunCollect c" using assms(7) by simp
  obtain c1 where c1: "client_run RunCollect c = Inr c1" "client_inv c1" using client_RunCollect [OF inv may] by blast
  obtain c2 where c2: "client_run RunSync c1 = Inr c2" using client_RunSync [OF c1(2)] by blast
  have "d \<notin> needed c" for d
  proof
    show False if "d \<in> needed c" using that by (induction rule: needed.induct) (simp_all add: assms(3,4))
  qed
  then have none: "tracked (sys c1) = {}" using collect_needed [OF inv may c1(1) assms(5,6)] by blast
  have run: "collect (sys c) = Inr (sys c1)" "synchronize_destructors (sys c1) = Inr (sys c2)"
    using c1(1) c2 by (auto simp: res_bind_eq_Inr)
  have "data_list (sys c2) = data_list (sys c1)"
  proof -
    obtain s2 where "synchronize_destructors (sys c1) = Inr s2" "same_control ((sys c1)\<lparr>dropper := []\<rparr>) s2"
      by (rule gc_inv_synchronize [OF client_gc_inv [OF c1(2)]])
    then show ?thesis using run(2) by (simp add: same_control_def)
  qed
  then have "tracked (sys c2) = {}" using none by (simp add: tracked_def)
  moreover have "d_deallocated (gc_datas (sys c2) ! d) \<and>
      gc_heap (sys c2) ! addr (sys c) d = end_cell (d_allocation (gc_datas (sys c) ! d)) (block_val (sys c) d)"
    if "d \<in> tracked (sys c)" for d
    using garbage_released [OF inv may c1(1) c2 that] none by blast
  ultimately show ?thesis using run assms(2) by (simp add: run_with_gc_cleanup_def)
qed

theorem cleanup_leaves_nothing_witness:
  "\<exists>(c2 :: gc_client) s3. tracked (sys c2) = {0} \<and> run_with_gc_cleanup (\<lambda>s. Inr ((), s)) (sys c2) = Inr ((), s3) \<and>
     tracked s3 = {} \<and> gc_heap s3 ! addr (sys c2) 0 = Freed"
proof -
  obtain c1 c2 r where c: "client_run (NewCyclic False V_Gc) client_new = Inr c1" "held c1 = [r]"
    "client_run (DropRef r) c1 = Inr c2" "client_reachable c2" "dropper (sys c2) = []"
    "transparent c2" "needed c2 = {}" "number_room (sys c2)" "tracked (sys c2) = {0}"
    "end_cell (d_allocation (gc_datas (sys c2) ! 0)) (block_val (sys c2) 0) = Freed"
    by (rule cyclic_garbage)
  have h: "held c2 = []" using c(2,3) by auto
  have w: "warrants c2 = []"
    using c(7) needed.guard [of "hd (warrants c2)" c2] by (cases "warrants c2") auto
  define f where "f = (\<lambda>s :: gc_state. Inr ((), s) :: (unit \<times> gc_state) result)"
  have "f (sys c2) = Inr ((), sys c2)" by (simp add: f_def)
  from cleanup_leaves_nothing [of c2 f "sys c2", OF c(4) this h w c(5,6,8)] obtain s3 where
    "run_with_gc_cleanup f (sys c2) = Inr ((), s3)" "tracked s3 = {}" "gc_heap s3 ! addr (sys c2) 0 = Freed"
    using c(9,10) by auto
  with c(9) show ?thesis by (auto simp: f_def)
qed

text \<open>
  C7: Data that a collection has given up is dropped once: it waits in one message, in one place, it
  is not tracked any more, and its block is still whole, so that the deallocation succeeds.
\<close>

theorem pending_dropped_once:
  assumes "client_reachable c" and "d \<in> set (pending (sys c))"
  shows "d \<notin> tracked (sys c) \<and> count (mset (pending (sys c))) d = 1 \<and>
    is_ok (deallocate (d_allocation (gc_datas (sys c) ! d)) (gc_heap (sys c)))"
proof -
  have g: "gc_inv (pending (sys c)) (held c) (warrants c) (sys c)"
    by (rule client_gc_inv [OF client_reachable_inv [OF assms(1)]])
  then have dis: "distinct (all_data (sys c) (pending (sys c)))" by (simp add: gc_invx_def datas_ok_def)
  then have "distinct (pending (sys c))" by (simp add: all_data_def)
  then have "count (mset (pending (sys c))) d = 1" using assms(2) by (simp add: distinct_count_atmost_1)
  moreover have "d \<notin> tracked (sys c)" using dis assms(2) by (auto simp: all_data_def tracked_def)
  moreover have "data_ok (sys c) d" using all_data_ok [OF g] assms(2) by (simp add: all_data_def)
  then have "is_ok (deallocate (d_allocation (gc_datas (sys c) ! d)) (gc_heap (sys c)))"
    by (rule deallocate_data_ok) simp
  ultimately show ?thesis by blast
qed

theorem pending_dropped_once_witness:
  "\<exists>c3. client_reachable c3 \<and> 0 \<in> set (pending (sys c3)) \<and>
     is_ok (deallocate (d_allocation (gc_datas (sys c3) ! 0)) (gc_heap (sys c3)))"
proof -
  obtain c1 c2 r where c: "client_run (NewCyclic False V_Gc) client_new = Inr c1" "held c1 = [r]"
    "client_run (DropRef r) c1 = Inr c2" "client_reachable c2" "dropper (sys c2) = []"
    "transparent c2" "needed c2 = {}" "number_room (sys c2)" "tracked (sys c2) = {0}"
    "end_cell (d_allocation (gc_datas (sys c2) ! 0)) (block_val (sys c2) 0) = Freed"
    by (rule cyclic_garbage)
  have may: "client_may RunCollect c2" using c(8) by simp
  have inv: "client_inv c2" by (rule client_reachable_inv [OF c(4)])
  obtain c3 where c3: "client_run RunCollect c2 = Inr c3" using client_RunCollect [OF inv may] by blast
  have "tracked (sys c3) = {}" using collect_needed [OF inv may c3 c(5,6)] c(7) by simp
  moreover obtain s2 where "tracked (sys c3) = {d \<in> tracked (sys c2). kept s2 d}"
      "pending (sys c3) = filter (\<lambda>d. \<not> kept s2 d) (par_iter (data_list (sys c2)))"
    by (rule client_collect_needed [OF inv may c3]) blast
  ultimately have p: "0 \<in> set (pending (sys c3))" using c(9) by (auto simp: tracked_def)
  have re: "client_reachable c3" by (rule client_reachable.step [OF c(4) may c3])
  show ?thesis using pending_dropped_once [OF re p] re p by blast
qed

text \<open>
  C8: However the workers of the dropper interleave while it works on a message, once the first destructor may
  begin every access through a \<open>Gc\<close> to any data of the message panics: to data whose destructor has not begun, is
  running or is over, so no destructor sees a value that is already gone. The sequential \<open>handle_message\<close> is one
  of these interleavings.
\<close>

theorem destructor_access_panics:
  assumes "drop_step\<^sup>*\<^sup>* (drop_start ds s) (Deallocating ws rs, s1)" and "set ds \<subseteq> {..<length (gc_datas s)}"
    and "d \<in> set ds" and "ref_data (backing_handle g) s1 = Inr d"
  shows "gc_get g s1 = Inl Panic \<and> assert_live g s1 = Inl Panic \<and>
    (\<forall>s2. handle_message (DataToDrop ds) s = Inr s2 \<longrightarrow> drop_step\<^sup>*\<^sup>* (drop_start ds s) (Deallocating [] [], s2))"
proof -
  have "d_deallocated (gc_datas s1 ! d)" using drop_inv_steps [OF assms(1,2)] assms(3) by simp
  moreover have "drop_step\<^sup>*\<^sup>* (drop_start ds s) (Deallocating [] [], s2)" if "handle_message (DataToDrop ds) s = Inr s2" for s2
    using message_steps [of ds "[]" s s2] that by simp
  ultimately show ?thesis using assms(4) by (simp add: gc_get_deallocated assert_live_def)
qed

text \<open>Two values in one message, the first of them gone, the destructor of the second running.\<close>

definition dropping_example :: gc_state where
  "dropping_example = collector_new\<lparr>gc_heap := [Init (V_Plain 5), Init (V_Plain 6)],
     gc_datas := map (\<lambda>p. \<lparr>d_allocation = \<lparr>scan_ptr = p, deallocation_action = RunDrop\<rparr>, d_lockout = lockout_new,
       d_deallocated = False, d_last_marked = 1\<rparr>) [0, 1],
     gc_handles := map (\<lambda>d. \<lparr>h_underlying_data = Fixed d, h_last_non_rooted = 0\<rparr>) [0, 1]\<rparr>"

theorem destructor_access_panics_witness:
  "\<exists>s1. drop_step\<^sup>*\<^sup>* (drop_start [0, 1] dropping_example) (Deallocating [] [1], s1) \<and> gc_heap s1 ! 0 = Freed \<and>
     gc_get \<lparr>backing_handle = ref_no 0, direct_ptr = 0\<rparr> s1 = Inl Panic \<and>
     gc_get \<lparr>backing_handle = ref_no 1, direct_ptr = 1\<rparr> s1 = Inl Panic"
proof -
  let ?s = "fold mark_deallocated [0, 1] dropping_example"
  let ?s1 = "?s\<lparr>gc_heap := [Freed, Init (V_Plain 6)]\<rparr>"
  have "fold_res run_drop [0] ?s = Inr ?s1"
    by (simp add: run_drop_def mark_deallocated_def upd_data_def dropping_example_def deallocate_def read_cell_def)
  then have "drop_step\<^sup>*\<^sup>* (drop_start [0, 1] dropping_example) (Deallocating [1] [], ?s1)"
    using message_steps [of "[0]" "[1]" dropping_example ?s1] by simp
  moreover have "drop_step (Deallocating [1] [], ?s1) (Deallocating [] [1], ?s1)"
    using drop_step.start_drop [of 1 "[1]" "[]" ?s1] by simp
  ultimately have run: "drop_step\<^sup>*\<^sup>* (drop_start [0, 1] dropping_example) (Deallocating [] [1], ?s1)" by simp
  have all: "set [0, 1] \<subseteq> {..<length (gc_datas dropping_example)}" by (simp add: dropping_example_def)
  have at: "ref_data (backing_handle \<lparr>backing_handle = ref_no d, direct_ptr = d\<rparr>) ?s1 = Inr d" if "d \<in> {0, 1}" for d
    using that by (auto simp: ref_data_def ref_no_def mark_deallocated_def upd_data_def dropping_example_def)
  have "gc_get \<lparr>backing_handle = ref_no d, direct_ptr = d\<rparr> ?s1 = Inl Panic" if "d \<in> {0, 1}" for d
    using destructor_access_panics [OF run all _ at [OF that]] that by auto
  with run show ?thesis by (intro exI [of _ ?s1]) simp
qed

subsection \<open>From the value to the guard\<close>

lemma client_New_gives:
  assumes inv: "client_inv c" and may: "client_may (New k v) c" and new: "new_gc k v (sys c) = (g, s')"
  shows "is_gc (gain (c\<lparr>held := take_refs (owned v) (held c)\<rparr>) (g, s')) (backing_handle g)"
    and "g = ptr_at s' (backing_handle g)" and "deref_gc_deref g s' = Inr v"
    and "target s' (item_v (backing_handle g)) \<notin> tracked (sys c)"
proof -
  let ?s = "sys c" and ?D = "length (gc_datas (sys c))" and ?n = "length (gc_heap (sys c))"
  obtain act r p s where run: "track_allocated (\<lparr>scan_ptr = ?n, deallocation_action = act\<rparr>, gc_heap ?s @ [Init v]) ?s
      = ((r, p), s)" and "new_gc k v ?s = (\<lparr>backing_handle = r, direct_ptr = ?n\<rparr>, s)"
    by (rule new_gc_tracks)
  then have g: "g = \<lparr>backing_handle = r, direct_ptr = ?n\<rparr>" and s: "s = s'" using new by simp_all
  let ?s1 = "?s\<lparr>gc_heap := gc_heap ?s @ [Init v], gc_datas := gc_datas ?s @
    [\<lparr>d_allocation = \<lparr>scan_ptr = ?n, deallocation_action = act\<rparr>, d_lockout = lockout_new,
      d_deallocated = False, d_last_marked = 0\<rparr>]\<rparr>"
  obtain s2 where ins: "insert_handle (Fixed ?D) ?s1 = (r, s2)" and s': "s' = track_from_token ?D s2"
    using run s by (auto simp: track_allocated_def track_def setup_gc_reference_def Let_def split: prod.splits)
  note fr = insert_handle_frame [OF ins]
  have f: "gc_handles s' = gc_handles s2" "gc_heap s' = gc_heap s2" "gc_datas s' = gc_datas s2"
    by (simp_all add: s' track_from_token_def notify_async_gc_thread_def)
  show "is_gc (gain (c\<lparr>held := take_refs (owned v) (held c)\<rparr>) (g, s')) (backing_handle g)"
    using fr(2) by (simp add: is_gc_def visible_def gain_def g f)
  have tgt: "target s' (item_v r) = ?D" using fr(2) by (simp add: target_def f)
  show "g = ptr_at s' (backing_handle g)" using fr(3) by (simp add: g ptr_at_def tgt addr_def f)
  show "deref_gc_deref g s' = Inr v" using fr(4) by (simp add: g deref_gc_deref_def read_cell_def f)
  have "d < ?D" if "d \<in> tracked ?s" for d
    using all_data_ok [OF client_gc_inv [OF inv] tracked_all_data [OF that]] by (simp add: data_ok_def)
  then show "target s' (item_v (backing_handle g)) \<notin> tracked ?s" using tgt g by auto
qed

text \<open>
  C9: The value given to a constructor is the value that the new pointer leads to: \<open>get\<close> on it
  succeeds at once, and the guard dereferences to that very value.
\<close>

theorem new_value_readable:
  assumes "client_reachable c" and "client_may (New k v) c" and "new_gc k v (sys c) = (g, s1)"
  shows "deref_gc_deref g s1 = Inr v \<and>
    (\<exists>gd s2. gc_get g s1 = Inr (gd, s2) \<and> guard_deref gd s2 = Inr v)"
proof -
  have inv: "client_inv c" by (rule client_reachable_inv [OF assms(1)])
  let ?c1 = "gain (c\<lparr>held := take_refs (owned v) (held c)\<rparr>) (g, s1)"
  note gives = client_New_gives [OF inv assms(2,3)]
  have inv1: "client_inv ?c1" using client_New [OF inv assms(2)] assms(3) by simp
  have c1: "sys ?c1 = s1" "warrants ?c1 = warrants c" by (simp_all add: gain_def)
  have "target s1 (item_v (backing_handle g)) \<notin> set (warrants c)"
    using gives(4) client_gc_inv [OF inv] by (auto simp: gc_invx_def warrants_ok_def)
  then have room: "count (mset (warrants ?c1)) (target s1 (item_v (backing_handle g))) < 2 ^ 64 - 2"
    by (simp add: c1 count_eq_zero_iff [THEN iffD2])
  let ?d = "target s1 (item_v (backing_handle g))"
  have h: "h_underlying_data (gc_handles s1 ! item_v (backing_handle g)) = Fixed ?d"
    using is_gc_data(2) [OF gives(1)] by (simp add: c1)
  obtain s2 where "get_data_warrant (backing_handle g) s1 = Inr (?d, s2)"
    "s2 = upd_data ?d (\<lambda>x. x\<lparr>d_lockout := \<lparr>lk_count = lk_count (d_lockout (gc_datas s1 ! ?d)) + 1\<rparr>\<rparr>) s1"
    using gc_inv_get_warrant [OF client_gc_inv [OF inv1, unfolded c1] _ h, of thesis] room
    by (auto simp: c1 gain_def)
  then have "gc_get g s1 = Inr (\<lparr>gc_ptr = g, guard_warrant = ?d\<rparr>, s2)" "gc_heap s2 = gc_heap s1"
    by (simp_all add: gc_get_def)
  then show ?thesis using gives(3) by (auto simp: guard_deref_def deref_gc_deref_def)
qed

theorem new_value_readable_witness:
  "\<exists>gd s2. gc_get (fst (gc_new (V_Plain 7) collector_new)) (snd (gc_new (V_Plain 7) collector_new)) = Inr (gd, s2) \<and>
     guard_deref gd s2 = Inr (V_Plain 7)"
proof -
  have may: "client_may (New With_Drop (V_Plain 7)) client_new" by (simp add: at_most_one_panic_def)
  show ?thesis
    using new_value_readable [OF client_reachable.init may, of "fst (gc_new (V_Plain 7) collector_new)"
        "snd (gc_new (V_Plain 7) collector_new)"]
    by (simp add: client_new_def)
qed

text \<open>A client with one \<open>Gc\<close> and one guard of it.\<close>

lemma one_guard:
  obtains c1 c2 r d where "client_reachable c1" and "is_gc c1 r" and "client_run (GetGuard r) c1 = Inr c2"
    and "client_reachable c2" and "d \<in> set (warrants c2)"
proof -
  have may: "client_may (New With_Drop (V_Plain 7)) client_new" by (simp add: at_most_one_panic_def)
  obtain g s1 where new: "new_gc With_Drop (V_Plain 7) (sys client_new) = (g, s1)"
    by (cases "new_gc With_Drop (V_Plain 7) (sys client_new)")
  let ?c1 = "gain (client_new\<lparr>held := take_refs (owned (V_Plain 7)) (held client_new)\<rparr>) (g, s1)"
  have run: "client_run (New With_Drop (V_Plain 7)) client_new = Inr ?c1" using new by simp
  have re: "client_reachable ?c1" by (rule client_reachable.step [OF client_reachable.init may run])
  have gc: "is_gc ?c1 (backing_handle g)" by (rule client_New_gives(1) [OF client_inv_new may new])
  have may2: "client_may (GetGuard (backing_handle g)) ?c1"
    using gc by (simp add: warrant_room_def gain_def client_new_def)
  obtain c2 where c2: "client_run (GetGuard (backing_handle g)) ?c1 = Inr c2"
      "warrants c2 = target (sys ?c1) (item_v (backing_handle g)) # warrants ?c1"
    using client_GetGuard [OF client_reachable_inv [OF re] may2] by blast
  show thesis
    by (rule that [OF re gc c2(1) client_reachable.step [OF re may2 c2(1)],
          of "target (sys ?c1) (item_v (backing_handle g))"]) (simp add: c2(2))
qed

theorem client_pointers_valid_witness:
  "\<exists>c r. client_reachable c \<and> is_gc c r \<and> assert_live (ptr_at (sys c) r) (sys c) = Inr ()"
  by (rule one_guard) (use client_pointers_valid in blast)

theorem guarded_data_stays_witness:
  "\<exists>c d. client_reachable c \<and> d \<in> set (warrants c) \<and> d \<in> tracked (sys c)"
  by (rule one_guard) (use guarded_data_stays in blast)

text \<open>The first \<open>Gc\<close> of a program.\<close>

lemma first_gc:
  assumes "gc_new v collector_new = (g, s)"
  shows "item_v (backing_handle g) = 0" and "live_handles s = {0}" and "tracked s = {0}"
    and "block_val s 0 = v" and "dropper s = []" and "current_collection_number s = 2" and "target s 0 = 0"
    and "length (gc_handles s) = 1" and "atomics s = []"
proof -
  obtain act r p s' where run: "track_allocated (\<lparr>scan_ptr = length (gc_heap collector_new), deallocation_action = act\<rparr>,
        gc_heap collector_new @ [Init v]) collector_new = ((r, p), s')"
    and "new_gc With_Drop v collector_new = (\<lparr>backing_handle = r, direct_ptr = length (gc_heap collector_new)\<rparr>, s')"
    by (rule new_gc_tracks)
  then have g: "backing_handle g = r" and s: "s = s'" using assms by auto
  let ?blk = "collector_new\<lparr>gc_heap := [Init v], gc_datas := [\<lparr>d_allocation = \<lparr>scan_ptr = 0,
    deallocation_action = act\<rparr>, d_lockout = lockout_new, d_deallocated = False, d_last_marked = 0\<rparr>]\<rparr>"
  obtain t where ins: "insert_handle (Fixed 0) ?blk = (r, t)" and s': "s = track_from_token 0 t"
    using run s by (auto simp: track_allocated_def track_def setup_gc_reference_def Let_def collector_new_def
        split: prod.splits)
  note fr = insert_handle_frame [OF ins]
  have hl: "cll_inv (handle_list ?blk)" by (simp add: collector_new_def cll_inv_new)
  have f: "gc_handles s = gc_handles t" "gc_heap s = gc_heap t" "gc_datas s = gc_datas t" "handle_list s = handle_list t"
    "dropper s = dropper t" "current_collection_number s = current_collection_number t" "atomics s = atomics t"
    by (simp_all add: s' track_from_token_def notify_async_gc_thread_def)
  show r: "item_v (backing_handle g) = 0" using fr(1) by (simp add: g collector_new_def)
  show "live_handles s = {0}"
    using insert_handle_live(1) [OF hl ins] r g by (simp add: live_handles_def f collector_new_def)
  show "block_val s 0 = v" using fr(3,4) by (simp add: block_val_def addr_def f)
  show "dropper s = []" "current_collection_number s = 2" "atomics s = []"
    using fr by (simp_all add: f collector_new_def)
  show "target s 0 = 0" using fr(2) r g by (simp add: target_def f)
  show "length (gc_handles s) = 1" using insert_handle_bound(1) [OF ins] by (simp add: f collector_new_def)
  have dl: "data_list t = cll_new" using fr by (simp add: collector_new_def)
  obtain it d where d: "cll_insert 0 cll_new = (it, d :: nat cll)" by (cases "cll_insert 0 cll_new :: nat cll_item \<times> nat cll")
  have "mset (par_iter d) = {#0#}" using cs.put_items [OF cll_inv_new d] by simp
  then show "tracked s = {0}" by (simp add: s' track_from_token_def notify_async_gc_thread_def tracked_def dl d)
qed

lemma first_pointer:
  assumes "at_most_one_panic v" and "owned v = []"
  obtains g s where "gc_new v collector_new = (g, s)"
    and "client_reachable \<lparr>sys = s, held = [backing_handle g], warrants = []\<rparr>"
    and "is_gc \<lparr>sys = s, held = [backing_handle g], warrants = []\<rparr> (backing_handle g)"
proof -
  obtain g s where new: "gc_new v collector_new = (g, s)" by (cases "gc_new v collector_new")
  let ?c = "\<lparr>sys = s, held = [backing_handle g], warrants = []\<rparr>"
  have may: "client_may (New With_Drop v) client_new" using assms by simp
  have run: "client_run (New With_Drop v) client_new = Inr ?c"
    using new assms by (simp add: client_new_def gain_def take_refs_def)
  have "client_reachable ?c" by (rule client_reachable.step [OF client_reachable.init may run])
  moreover have "new_gc With_Drop v (sys client_new) = (g, s)" using new by (simp add: client_new_def)
  from client_New_gives(1) [OF client_inv_new may this] have "is_gc ?c (backing_handle g)"
    using assms by (simp add: gain_def client_new_def take_refs_def)
  ultimately show thesis using new by (intro that)
qed

end
