(* ===== verification/Beside_Collection.thy ===== *)
theory Beside_Collection
  imports Client_Safety
begin

text \<open>
  The calls of other threads while a collection is between its first loop and its clean-up. The collection
  holds its mutex, the spinlock, and the exclusive warrants of the data that was not in use. A call
  that asks for one of these waits; every other call does what it does in the state \<open>unheld\<close>,
  in which all of them are given back. So the theorems on clients carry over, and what such calls may change is
  \<open>grows\<close>.
\<close>

subsection \<open>The state without the collection's locks\<close>

definition unheld :: "nat list \<Rightarrow> gc_state \<Rightarrow> gc_state" where
  "unheld ws s =
     s\<lparr>gc_lock := False, atomic_spinlock := \<lparr>tracker = 0\<rparr>,
       current_collection_number := current_collection_number s + 1,
       gc_datas := upd_all unlock (set ws) (gc_datas s)\<rparr>"

definition held_up :: "nat list \<Rightarrow> gc_state \<Rightarrow> bool" where
  "held_up ws s \<longleftrightarrow> gc_lock s \<and> tracker (atomic_spinlock s) = SENTINEL_VALUE \<and> dropper s = [] \<and>
     (\<forall>d\<in>set ws. d < length (gc_datas s) \<and> lk_exclusive (d_lockout (gc_datas s ! d)))"

abbreviation unheld_client :: "nat list \<Rightarrow> gc_client \<Rightarrow> gc_client" where
  "unheld_client ws c \<equiv> c\<lparr>sys := unheld ws (sys c)\<rparr>"

lemma unheld_frame [simp]:
  "gc_heap (unheld ws s) = gc_heap s" "data_list (unheld ws s) = data_list s"
  "handle_list (unheld ws s) = handle_list s" "gc_handles (unheld ws s) = gc_handles s"
  "atomics (unheld ws s) = atomics s" "dropper (unheld ws s) = dropper s" "trigger (unheld ws s) = trigger s"
  "async_gc_notified (unheld ws s) = async_gc_notified s" "length (gc_datas (unheld ws s)) = length (gc_datas s)"
  "current_collection_number (unheld ws s) = current_collection_number s + 1"
  by (simp_all add: unheld_def)

lemma unheld_data:
  assumes "d < length (gc_datas s)"
  shows "d_allocation (gc_datas (unheld ws s) ! d) = d_allocation (gc_datas s ! d)"
    and "d_deallocated (gc_datas (unheld ws s) ! d) = d_deallocated (gc_datas s ! d)"
    and "mark_of (unheld ws s) d = mark_of s d"
    and "d \<notin> set ws \<Longrightarrow> gc_datas (unheld ws s) ! d = gc_datas s ! d"
    and "d \<in> set ws \<Longrightarrow> lk_count (d_lockout (gc_datas (unheld ws s) ! d)) = 0"
  using assms by (simp_all add: unheld_def unlock_def mark_of_def)

lemma unheld_target [simp]: "target (unheld ws s) = target s" "tracked (unheld ws s) = tracked s"
  "live_handles (unheld ws s) = live_handles s" "registered (unheld ws s) r = registered s r"
  by (simp_all add: target_def tracked_def live_handles_def registered_def fun_eq_iff split: underlying_data.split)

lemma unheld_addr:
  "d < length (gc_datas s) \<Longrightarrow> addr (unheld ws s) d = addr s d"
  "d < length (gc_datas s) \<Longrightarrow> block_val (unheld ws s) d = block_val s d"
  "d < length (gc_datas s) \<Longrightarrow> data_ok (unheld ws s) d = data_ok s d"
  by (simp_all add: addr_def block_val_def data_ok_def unheld_data(1))

lemma unheld_visible:
  assumes "\<forall>d\<in>tracked (sys c). d < length (gc_datas (sys c))"
  shows "visible (unheld_client ws c) r = visible c r"
    and "is_gc (unheld_client ws c) r = is_gc c r" and "is_atomic (unheld_client ws c) r = is_atomic c r"
proof -
  show v: "visible (unheld_client ws c) r = visible c r" for r
    using assms unheld_addr(2) by (simp add: visible_def)
  show "is_gc (unheld_client ws c) r = is_gc c r" "is_atomic (unheld_client ws c) r = is_atomic c r"
    by (simp_all add: is_gc_def is_atomic_def v)
qed

subsection \<open>Calls without the locks\<close>

lemma unheld_insert: "insert_handle u (unheld ws s) = (fst (insert_handle u s), unheld ws (snd (insert_handle u s)))"
  by (simp add: insert_handle_def unheld_def Let_def split: prod.split)

lemma upd_all_snoc: "D \<subseteq> {..<length xs} \<Longrightarrow> upd_all f D (xs @ [x]) = upd_all f D xs @ [x]"
  by (auto simp: list_eq_iff_nth_eq nth_append less_Suc_eq)

lemma unheld_setup:
  assumes "set ws \<subseteq> {..<length (gc_datas s)}" and "setup_gc_reference al s = (d, r, s')"
  shows "setup_gc_reference al (unheld ws s) = (d, r, unheld ws s')"
proof -
  let ?x = "\<lparr>d_allocation = al, d_lockout = lockout_new, d_deallocated = False, d_last_marked = 0\<rparr>"
  have "(unheld ws s)\<lparr>gc_datas := gc_datas (unheld ws s) @ [?x]\<rparr> = unheld ws (s\<lparr>gc_datas := gc_datas s @ [?x]\<rparr>)"
    by (simp add: unheld_def upd_all_snoc [OF assms(1)])
  with assms(2) show ?thesis
    by (auto simp: setup_gc_reference_def Let_def unheld_insert split: prod.splits)
qed

lemma unheld_token: "track_from_token d (unheld ws s) = unheld ws (track_from_token d s)"
  by (simp add: track_from_token_def notify_async_gc_thread_def unheld_def)

lemma unheld_heap: "(unheld ws s)\<lparr>gc_heap := hp\<rparr> = unheld ws (s\<lparr>gc_heap := hp\<rparr>)"
  by (simp add: unheld_def)

lemma unheld_track:
  assumes "set ws \<subseteq> {..<length (gc_datas s)}" and "track_allocated a s = (p, s')"
  shows "track_allocated a (unheld ws s) = (p, unheld ws s')"
proof -
  obtain al hp where a: "a = (al, hp)" by (cases a)
  obtain d r s1 where set: "setup_gc_reference al (s\<lparr>gc_heap := hp\<rparr>) = (d, r, s1)" by (metis prod.exhaust)
  have "setup_gc_reference al (unheld ws (s\<lparr>gc_heap := hp\<rparr>)) = (d, r, unheld ws s1)"
    by (rule unheld_setup [OF _ set]) (use assms(1) in simp)
  then show ?thesis using assms(2) set by (simp add: track_allocated_def track_def a unheld_heap unheld_token)
qed

lemma unheld_new:
  assumes "set ws \<subseteq> {..<length (gc_datas s)}" and "new_gc k v s = (g, s')"
  shows "new_gc k v (unheld ws s) = (g, unheld ws s')"
proof (cases k)
  case From_Box
  let ?s = "s\<lparr>gc_heap := gc_heap s @ [Init v]\<rparr>"
  obtain p s1 where t: "track_allocated (from_box (length (gc_heap s)), gc_heap ?s) ?s = (p, s1)" by (metis prod.exhaust)
  have "track_allocated (from_box (length (gc_heap s)), gc_heap ?s) (unheld ws ?s) = (p, unheld ws s1)"
    by (rule unheld_track [OF _ t]) (use assms(1) in simp)
  then show ?thesis using assms(2) t From_Box by (simp add: gc_from_box_def track_boxed_value_def gc_of_def unheld_heap)
qed (use assms in \<open>auto simp: gc_new_def gc_new_no_drop_def gc_new_with_finalizer_def gc_of_def track_with_drop_def
      track_with_no_drop_def track_with_finalization_def unheld_track [OF assms(1) prod.collapse [symmetric]]\<close>)


text \<open>Data with a guard is none that the collection has locked.\<close>

lemma unheld_bounds:
  assumes "client_inv (unheld_client ws c)"
  shows "\<forall>d\<in>tracked (sys c). d < length (gc_datas (sys c))"
proof -
  have "data_ok (unheld ws (sys c)) d" if "d \<in> tracked (sys c)" for d
    using all_data_ok [OF client_gc_inv [OF assms], of d] that by (simp add: all_data_def tracked_def)
  then show ?thesis by (simp add: data_ok_def)
qed

lemma guarded_not_locked:
  assumes "client_inv (unheld_client ws c)" and "held_up ws (sys c)" and "d \<in> set (warrants c)"
  shows "d \<in> tracked (sys c)" and "d \<notin> set ws"
proof -
  have w: "warrants_ok (warrants c) (unheld ws (sys c))" using assms(1) by (simp add: client_inv_def gc_invx_def)
  then show d: "d \<in> tracked (sys c)" using assms(3) by (auto simp: warrants_ok_def)
  show "d \<notin> set ws"
  proof
    assume "d \<in> set ws"
    then have "lk_count (d_lockout (gc_datas (unheld ws (sys c)) ! d)) = 0"
      using unheld_data(5) assms(2) by (simp add: held_up_def)
    then show False using w d assms(3) by (auto simp: warrants_ok_def)
  qed
qed

lemma unheld_upd:
  assumes "d \<notin> set ws"
  shows "unheld ws (upd_data d f s) = upd_data d f (unheld ws s)"
proof (cases "d < length (gc_datas s)")
  case True
  have "upd_all unlock (set ws) ((gc_datas s)[d := x]) = (upd_all unlock (set ws) (gc_datas s))[d := x]" for x
  proof (rule nth_equalityI, goal_cases)
    case (2 i)
    then show ?case using assms by (cases "i = d") simp_all
  qed simp
  then show ?thesis using assms True by (simp add: unheld_def upd_data_def)
next
  case False
  then show ?thesis by (simp add: unheld_def upd_data_def list_update_beyond)
qed

lemma unheld_warrant:
  assumes "d < length (gc_datas s)" and "held_up ws s"
  shows "h_underlying_data (gc_handles s ! item_v r) = Fixed d \<Longrightarrow> get_data_warrant r s = Inr (e, s') \<Longrightarrow>
      get_data_warrant r (unheld ws s) = Inr (e, unheld ws s')"
    and "drop_data_warrant d s = Inr s' \<Longrightarrow> drop_data_warrant d (unheld ws s) = Inr (unheld ws s')"
proof -
  let ?lk = "d_lockout (gc_datas s ! d)"
  have out: "\<not> lk_exclusive ?lk \<Longrightarrow> d \<notin> set ws" using assms(2) by (auto simp: held_up_def)
  show "get_data_warrant r (unheld ws s) = Inr (e, unheld ws s')"
    if "h_underlying_data (gc_handles s ! item_v r) = Fixed d" "get_data_warrant r s = Inr (e, s')"
  proof (cases "lk_exclusive ?lk")
    case False
    with that assms out show ?thesis
      by (auto simp: get_data_warrant_def get_warrant_eq unheld_data unheld_upd split: if_splits)
  qed (use that in \<open>simp add: get_data_warrant_def get_warrant_eq split: if_splits\<close>)
  show "drop_data_warrant d (unheld ws s) = Inr (unheld ws s')" if "drop_data_warrant d s = Inr s'"
  proof (cases "lk_exclusive ?lk")
    case False
    with that assms out show ?thesis
      by (auto simp: drop_data_warrant_def drop_warrant_eq unheld_data unheld_upd split: if_splits)
  qed (use that in \<open>simp add: drop_data_warrant_def drop_warrant_eq\<close>)
qed

lemma held_up_blocks:
  assumes "held_up ws s"
  shows "lock_gc s = Inl Blocked" and "block_collection s = Inl Blocked"
    and "dropper_step s = Inr s" and "synchronize_destructors s = Inr s"
    and "synchronize_destructors (unheld ws s) = Inr (unheld ws s)" and "dropper_step (unheld ws s) = Inr (unheld ws s)"
proof -
  show "lock_gc s = Inl Blocked" "dropper_step s = Inr s" "synchronize_destructors s = Inr s"
    "synchronize_destructors (unheld ws s) = Inr (unheld ws s)" "dropper_step (unheld ws s) = Inr (unheld ws s)"
    using assms by (simp_all add: held_up_def lock_gc_def dropper_step_def synchronize_destructors_def send_msg_def)
  have "ap_writer (atomic_spinlock s)" using assms by (simp add: held_up_def ap_writer_def)
  then have "get_collection_blocker_spinlock (atomic_spinlock s) = Inl Blocked" by (rule ap.acquire_busy)
  then show "block_collection s = Inl Blocked" by (simp add: block_collection_def)
qed

subsection \<open>What such calls change\<close>

text \<open>
  Marks, exclusive locks and the slots of the data stay; data, handles and atomic cells are only added, and new
  data has no mark, new handles no flag. The locks of the collection and the channel are as they were.
\<close>

definition grows :: "gc_state \<Rightarrow> gc_state \<Rightarrow> bool" where
  "grows s s' \<longleftrightarrow>
     length (gc_datas s) \<le> length (gc_datas s') \<and>
     (\<forall>d<length (gc_datas s). mark_of s' d = mark_of s d \<and>
        d_allocation (gc_datas s' ! d) = d_allocation (gc_datas s ! d) \<and>
        (lk_exclusive (d_lockout (gc_datas s ! d)) \<longrightarrow> lk_exclusive (d_lockout (gc_datas s' ! d)))) \<and>
     (\<forall>d<length (gc_datas s'). length (gc_datas s) \<le> d \<longrightarrow> mark_of s' d = 0) \<and>
     tracked s \<subseteq> tracked s' \<and> (\<forall>d\<in>tracked s'. d < length (gc_datas s) \<longrightarrow> d \<in> tracked s) \<and>
     (\<forall>k d. cll_lookup (data_list s) k = Some d \<longrightarrow> cll_lookup (data_list s') k = Some d) \<and>
     take (length (gc_handles s)) (gc_handles s') = gc_handles s \<and>
     (\<forall>h<length (gc_handles s'). length (gc_handles s) \<le> h \<longrightarrow> h_last_non_rooted (gc_handles s' ! h) = 0) \<and>
     take (length (atomics s)) (atomics s') = atomics s \<and>
     gc_lock s' = gc_lock s \<and> atomic_spinlock s' = atomic_spinlock s \<and> dropper s' = dropper s \<and>
     current_collection_number s' = current_collection_number s"

lemma prefix_trans: "take (length xs) ys = xs \<Longrightarrow> take (length ys) zs = ys \<Longrightarrow> take (length xs) zs = xs"
  by (metis append_assoc append_eq_conv_conj append_take_drop_id)

lemma grows_refl: "grows s s"
  by (simp add: grows_def)

lemma grows_trans:
  assumes "grows s t" and "grows t u"
  shows "grows s u"
proof -
  note g = assms [unfolded grows_def]
  have len: "length (gc_datas s) \<le> length (gc_datas t)" "length (gc_datas t) \<le> length (gc_datas u)" using g by blast+
  have "mark_of u d = 0" if d: "d < length (gc_datas u)" "length (gc_datas s) \<le> d" for d
  proof (cases "d < length (gc_datas t)")
    case True
    then have "mark_of u d = mark_of t d" "mark_of t d = 0" using g d by blast+
    then show ?thesis by simp
  next
    case False
    then show ?thesis using g d by (meson not_less)
  qed
  moreover have "d \<in> tracked s" if d: "d \<in> tracked u" "d < length (gc_datas s)" for d
  proof -
    have "d < length (gc_datas t)" using d(2) len(1) by simp
    then have "d \<in> tracked t" using g d(1) by blast
    then show ?thesis using g d(2) by blast
  qed
  moreover have "mark_of u d = mark_of s d" "d_allocation (gc_datas u ! d) = d_allocation (gc_datas s ! d)"
      "lk_exclusive (d_lockout (gc_datas s ! d)) \<Longrightarrow> lk_exclusive (d_lockout (gc_datas u ! d))"
    if d: "d < length (gc_datas s)" for d
    using g d len(1) by (metis less_le_trans)+
  moreover have "h_last_non_rooted (gc_handles u ! h) = 0" if h: "h < length (gc_handles u)" "length (gc_handles s) \<le> h" for h
  proof (cases "h < length (gc_handles t)")
    case True
    have "gc_handles u ! h = gc_handles t ! h"
      using True g nth_take [of h "length (gc_handles t)" "gc_handles u"] by simp
    then show ?thesis using True g h(2) by simp
  next
    case False
    then show ?thesis using g h(1) by (meson not_less)
  qed
  moreover have "take (length (gc_handles s)) (gc_handles u) = gc_handles s"
    "take (length (atomics s)) (atomics u) = atomics s" "tracked s \<subseteq> tracked u"
    using g prefix_trans by blast+
  ultimately show ?thesis using g len by (simp add: grows_def)
qed

lemma grows_insert_handle:
  assumes "insert_handle u s = (r, s')"
  shows "grows s s'"
  using assms by (auto simp: insert_handle_def Let_def grows_def tracked_def mark_of_def nth_append split: prod.splits)

lemma grows_setup:
  assumes "setup_gc_reference al s = (d, r, s')"
  shows "grows s s'" and "d = length (gc_datas s)"
proof -
  let ?s = "s\<lparr>gc_datas := gc_datas s @ [\<lparr>d_allocation = al, d_lockout = lockout_new, d_deallocated = False, d_last_marked = 0\<rparr>]\<rparr>"
  have "grows s ?s" by (auto simp: grows_def tracked_def mark_of_def nth_append not_less less_Suc_eq)
  then show "grows s s'" "d = length (gc_datas s)"
    using assms grows_trans grows_insert_handle
    by (auto simp: setup_gc_reference_def Let_def split: prod.splits)
qed

lemma grows_token:
  assumes "grows s t" and "cll_inv (data_list t)" and "length (gc_datas s) \<le> d"
  shows "grows s (track_from_token d t)"
proof -
  let ?u = "track_from_token d t"
  obtain it dl where ins: "cll_insert d (data_list t) = (it, dl)" by (cases "cll_insert d (data_list t)")
  have u: "?u = t\<lparr>data_list := dl, async_gc_notified := True\<rparr>"
    by (simp add: track_from_token_def notify_async_gc_thread_def ins)
  have "mset (par_iter dl) = add_mset d (mset (par_iter (data_list t)))" by (rule cs.put_items [OF assms(2) ins])
  from arg_cong [OF this, of set_mset] have "tracked ?u = insert d (tracked t)" by (simp add: u tracked_def)
  moreover have "cll_lookup (data_list t) k = Some e \<Longrightarrow> cll_lookup (data_list ?u) k = Some e" for k e
    using cs.put_law [OF assms(2) ins] by (auto simp: u)
  ultimately show ?thesis using assms(1,3) unfolding grows_def by (auto simp: u mark_of_def)
qed

lemma grows_heap: "grows s t \<Longrightarrow> grows s (t\<lparr>gc_heap := hp\<rparr>)" "grows (s\<lparr>gc_heap := hp\<rparr>) t \<Longrightarrow> grows s t"
  by (simp_all add: grows_def tracked_def mark_of_def)

lemma grows_upd_data:
  assumes "grows s t" and "\<And>x. d_last_marked (f x) = d_last_marked x" and "\<And>x. d_allocation (f x) = d_allocation x"
    and "lk_exclusive (d_lockout (gc_datas t ! d)) \<Longrightarrow> lk_exclusive (d_lockout (f (gc_datas t ! d)))"
  shows "grows s (upd_data d f t)"
proof -
  have "mark_of (upd_data d f t) e = mark_of t e"
      "d_allocation (gc_datas (upd_data d f t) ! e) = d_allocation (gc_datas t ! e)" if "e < length (gc_datas t)" for e
    using that assms(2,3) by (cases "d = e"; simp add: mark_of_def upd_data_def)+
  moreover have "lk_exclusive (d_lockout (gc_datas t ! e)) \<Longrightarrow> lk_exclusive (d_lockout (gc_datas (upd_data d f t) ! e))"
    if "e < length (gc_datas t)" for e
    using that assms(4) by (cases "d = e") (simp_all add: upd_data_def)
  moreover have "tracked (upd_data d f t) = tracked t" "length (gc_datas (upd_data d f t)) = length (gc_datas t)"
    "gc_handles (upd_data d f t) = gc_handles t" "atomics (upd_data d f t) = atomics t"
    "gc_lock (upd_data d f t) = gc_lock t" "atomic_spinlock (upd_data d f t) = atomic_spinlock t"
    "data_list (upd_data d f t) = data_list t" "dropper (upd_data d f t) = dropper t" "current_collection_number (upd_data d f t) = current_collection_number t"
    by (simp_all add: upd_data_def tracked_def)
  ultimately show ?thesis using assms(1) unfolding grows_def by simp
qed

subsection \<open>A call beside the collection\<close>

lemma unheld_clone:
  "clone_handle r s = Inr (q, s') \<Longrightarrow> clone_handle r (unheld ws s) = Inr (q, unheld ws s')"
  by (auto simp: clone_handle_def ref_data_def res_bind_def unheld_insert split: underlying_data.splits)

lemma unheld_set_deallocated:
  assumes "set_deallocated b r s = Inr s'" and "ref_data r s = Inr d" and "d \<notin> set ws"
  shows "set_deallocated b r (unheld ws s) = Inr (unheld ws s')" and "ref_data r s' = Inr d"
    and "length (gc_datas s') = length (gc_datas s)"
proof -
  have s': "s' = upd_data d (\<lambda>x. x\<lparr>d_deallocated := b\<rparr>) s" using assms(1,2) by (simp add: set_deallocated_def)
  show "ref_data r s' = Inr d" "length (gc_datas s') = length (gc_datas s)"
    using assms(2) by (simp_all add: s' ref_data_def upd_data_def)
  have "ref_data r (unheld ws s) = Inr d" using assms(2) by (simp add: ref_data_def)
  then show "set_deallocated b r (unheld ws s) = Inr (unheld ws s')"
    by (simp add: set_deallocated_def s' unheld_upd [OF assms(3)])
qed

lemma unheld_initialized:
  assumes ws: "set ws \<subseteq> {..<length (gc_datas s)}"
    and run: "track_initialized a (cyclic_initializer (\<lambda>gc s. Inr (build (backing_handle gc), s))) s = Inr (p, s')"
  shows "track_initialized a (cyclic_initializer (\<lambda>gc s. Inr (build (backing_handle gc), s))) (unheld ws s) =
      Inr (p, unheld ws s')" and "length (gc_datas s) < length (gc_datas s')"
    and "cll_inv (data_list s) \<Longrightarrow> grows s s'"
proof -
  obtain al hp where a: "a = (al, hp)" by (cases a)
  obtain d r s1 where set: "setup_gc_reference al (s\<lparr>gc_heap := hp\<rparr>) = (d, r, s1)" by (metis prod.exhaust)
  then have d: "d = length (gc_datas s)" and ins: "\<exists>t. insert_handle (Fixed d) t = (r, s1) \<and> length (gc_datas t) = Suc d"
    by (auto simp: setup_gc_reference_def Let_def split: prod.splits)
  then have r: "ref_data r s1 = Inr d" and len1: "length (gc_datas s1) = Suc d"
    using ref_data_new insert_handle_frame(3) by (blast, metis)
  obtain own s2 where i2: "insert_handle (Fixed d) s1 = (own, s2)" by (cases "insert_handle (Fixed d) s1")
  then have clone: "clone_handle r s1 = Inr (own, s2)" using r by (simp add: clone_handle_def)
  have own: "ref_data own s2 = Inr d" using ref_data_new [OF i2] .
  have dw: "d \<notin> set ws" using ws d by auto
  obtain s3 where s3: "set_deallocated True own s2 = Inr s3" using own by (simp add: set_deallocated_def)
  note u3 = unheld_set_deallocated [OF s3 own dw]
  obtain s4 where s4: "set_deallocated False own s3 = Inr s4" using u3(2) by (simp add: set_deallocated_def)
  note u4 = unheld_set_deallocated [OF s4 u3(2) dw]
  have s': "p = (r, scan_ptr al)" "s' = track_from_token d (s4\<lparr>gc_heap := ptr_write (scan_ptr al) (build own) (gc_heap s4)\<rparr>)"
    using run set by (simp_all add: track_initialized_def a clone cyclic_initializer_def s3 s4 Let_def)
  have "setup_gc_reference al (unheld ws (s\<lparr>gc_heap := hp\<rparr>)) = (d, r, unheld ws s1)"
    by (rule unheld_setup [OF _ set]) (use ws in simp)
  then show "track_initialized a (cyclic_initializer (\<lambda>gc s. Inr (build (backing_handle gc), s))) (unheld ws s) =
      Inr (p, unheld ws s')"
    by (simp add: track_initialized_def a unheld_heap unheld_clone [OF clone] cyclic_initializer_def u3(1) u4(1) Let_def
        s' unheld_token)
  show "length (gc_datas s) < length (gc_datas s')"
    using u3(3) u4(3) len1 insert_handle_frame(3) [OF i2] d
    by (simp add: s' track_from_token_def notify_async_gc_thread_def)
  have eq: "s3 = upd_data d (\<lambda>x. x\<lparr>d_deallocated := True\<rparr>) s2" "s4 = upd_data d (\<lambda>x. x\<lparr>d_deallocated := False\<rparr>) s3"
    using s3 s4 own u3(2) by (simp_all add: set_deallocated_def)
  have "data_list s1 = data_list s" using setup_control [OF set] by (simp add: same_control_def)
  then have dl: "data_list s4 = data_list s" using insert_handle_frame(6) [OF i2] by (simp add: eq upd_data_def)
  have "grows s s1" using grows_setup(1) [OF set] by (rule grows_heap(2))
  then have "grows s s2" using grows_insert_handle [OF i2] by (rule grows_trans)
  then have "grows s s4" unfolding eq by (intro grows_upd_data) simp_all
  then show "cll_inv (data_list s) \<Longrightarrow> grows s s'"
    unfolding s'(2) by (intro grows_token grows_heap(1)) (simp_all add: dl d)
qed

lemma unheld_cyclic:
  assumes "set ws \<subseteq> {..<length (gc_datas s)}"
    and "(if fin then gc_new_cyclic_with_finalizer else gc_new_cyclic) (\<lambda>gc s. Inr (build (backing_handle gc), s)) s = Inr (g, s')"
  shows "(if fin then gc_new_cyclic_with_finalizer else gc_new_cyclic) (\<lambda>gc s. Inr (build (backing_handle gc), s)) (unheld ws s) =
      Inr (g, unheld ws s')" and "length (gc_datas s) < length (gc_datas s')"
    and "cll_inv (data_list s) \<Longrightarrow> grows s s'"
proof -
  let ?a = "(if fin then allocate_uninitialized_with_finalization else allocate_uninitialized_with_drop) (gc_heap s)"
  let ?init = "\<lambda>s. track_initialized ?a (cyclic_initializer (\<lambda>gc s. Inr (build (backing_handle gc), s))) s"
  have eq: "(if fin then gc_new_cyclic_with_finalizer else gc_new_cyclic) (\<lambda>gc s. Inr (build (backing_handle gc), s)) t =
      res_bind (?init t) (\<lambda>t. Inr (gc_of t))" if "gc_heap t = gc_heap s" for t
    using that by (simp add: gc_new_cyclic_with_finalizer_def gc_new_cyclic_def track_with_initializer_def
        track_with_initializer_and_finalize_def)
  obtain p where run: "?init s = Inr (p, s')" and g: "g = fst (gc_of (p, s'))"
    using assms(2) eq [OF refl] by (auto simp: res_bind_def gc_of_def split: sum.splits)
  from unheld_initialized [OF assms(1) run] show "length (gc_datas s) < length (gc_datas s')"
    "cll_inv (data_list s) \<Longrightarrow> grows s s'" "(if fin then gc_new_cyclic_with_finalizer else gc_new_cyclic) (\<lambda>gc s. Inr (build (backing_handle gc), s)) (unheld ws s) =
      Inr (g, unheld ws s')"
    unfolding eq [OF unheld_frame(1)] by (simp_all add: g gc_of_def)
qed

lemma grows_new:
  assumes "new_gc k v s = (g, s')" and "cll_inv (data_list s)"
  shows "grows s s'"
proof -
  obtain act r p s2 where run: "track_allocated (\<lparr>scan_ptr = length (gc_heap s), deallocation_action = act\<rparr>, gc_heap s @ [Init v]) s
      = ((r, p), s2)" and "new_gc k v s = (\<lparr>backing_handle = r, direct_ptr = length (gc_heap s)\<rparr>, s2)"
    by (rule new_gc_tracks)
  then have s2: "s2 = s'" using assms(1) by simp
  let ?al = "\<lparr>scan_ptr = length (gc_heap s), deallocation_action = act\<rparr>"
  obtain d q s1 where set: "setup_gc_reference ?al (s\<lparr>gc_heap := gc_heap s @ [Init v]\<rparr>) = (d, q, s1)" by (metis prod.exhaust)
  have "s' = track_from_token d s1" using run set by (simp add: s2 track_allocated_def track_def)
  moreover have "grows s s1" "d = length (gc_datas s)" "data_list s1 = data_list s"
    using grows_setup [OF set] grows_heap(2) setup_control [OF set] by (simp_all add: same_control_def)
  ultimately show ?thesis using grows_token assms(2) by simp
qed

text \<open>A call that comes back while the locks are held does what it does without them.\<close>

lemma unheld_run:
  assumes inv: "client_inv (unheld_client ws c)" and hu: "held_up ws (sys c)"
    and may: "client_may op c" and run: "client_run op c = Inr c'"
  shows "client_may op (unheld_client ws c)" and "client_run op (unheld_client ws c) = Inr (unheld_client ws c')"
proof -
  let ?s = "sys c" and ?u = "unheld ws (sys c)" and ?c = "unheld_client ws c"
  note b = unheld_bounds [OF inv] and vis = unheld_visible [OF unheld_bounds [OF inv]]
  have ws: "set ws \<subseteq> {..<length (gc_datas ?s)}" using hu by (auto simp: held_up_def)
  have home: "target ?s (item_v r) < length (gc_datas ?s)" if "visible c r" for r
    using visible_target(2) [OF inv, of r] that b vis(1) by simp
  have ptr: "ptr_at ?u r = ptr_at ?s r" if "visible c r" for r
    using unheld_addr(1) [OF home [OF that]] by (simp add: ptr_at_def)
  have blk: "block_val ?u d = block_val ?s d" "addr ?u d = addr ?s d" "d < length (gc_datas ?s)" if "d \<in> set (warrants c)" for d
    using guarded_not_locked(1) [OF inv hu that] b unheld_addr by auto
  note blocks = held_up_blocks [OF hu]
  have "client_may op ?c \<and> client_run op ?c = Inr (unheld_client ws c')"
  proof (cases op)
    case (New k v)
    obtain g s' where new: "new_gc k v ?s = (g, s')" by (cases "new_gc k v ?s")
    with unheld_new [OF ws new] may run New show ?thesis by (auto simp: gain_def data_room_def)
  next
    case (CloneGc r)
    then have "is_gc c r" using may by simp
    then show ?thesis using run CloneGc ptr [OF is_gc_visible] vis(2)
      by (auto simp: gc_clone_def clone_handle_def ref_data_def unheld_insert gain_def res_bind_def
          split: sum.splits underlying_data.splits prod.splits)
  next
    case (DropRef r)
    then show ?thesis using run may by (auto simp: gc_drop_def ptr_at_def drop_handle_def unheld_def)
  next
    case (GetGuard r)
    then have r: "is_gc c r" using may by simp
    note f = is_gc_data(2) [OF r]
    obtain d s' where w: "get_data_warrant r ?s = Inr (d, s')" and c': "c' = c\<lparr>sys := s', warrants := d # warrants c\<rparr>"
      using run GetGuard by (auto simp: gc_get_def ptr_at_def res_bind_def split: sum.splits)
    from unheld_warrant(1) [OF home hu f w] is_gc_visible [OF r] show ?thesis
      using GetGuard may c' vis(2) by (simp add: gc_get_def ptr_at_def warrant_room_def)
  next
    case (DropGuard d)
    then have d: "d \<in> set (warrants c)" using may by simp
    obtain s' where w: "drop_data_warrant d ?s = Inr s'" and c': "c' = c\<lparr>sys := s', warrants := remove1 d (warrants c)\<rparr>"
      using run DropGuard by (auto simp: res_bind_def split: sum.splits)
    from unheld_warrant(2) [OF blk(3) [OF d] hu w] show ?thesis using DropGuard d c' by simp
  next
    case (WriteData d v)
    then have "d \<in> set (warrants c)" using may by simp
    then show ?thesis using WriteData may run blk by (auto simp: unheld_heap)
  next
    case (NewAtomic r)
    then have r: "is_gc c r" using may by simp
    note h = home [OF is_gc_visible [OF r]]
    have "(unheld ws ?s)\<lparr>atomics := x\<rparr> = unheld ws (?s\<lparr>atomics := x\<rparr>)" for x by (simp add: unheld_def)
    then show ?thesis using NewAtomic run r vis(2) is_gc_data(1) [OF r] unheld_data(2) [OF h]
      by (auto simp: atomic_gc_new_def assert_live_def new_handle_for_atomic_def Let_def ptr_at_def ref_data_def
          unheld_insert split: if_splits prod.splits)
  next
    case (NewCyclic fin build)
    obtain g s' where cyc: "(if fin then gc_new_cyclic_with_finalizer else gc_new_cyclic)
          (\<lambda>gc s. Inr (build (backing_handle gc), s)) ?s = Inr (g, s')"
      and c': "c' = gain (c\<lparr>held := take_refs (owned (block_val s' (length (gc_datas ?s)))) (held c)\<rparr>) (g, s')"
      using run NewCyclic by (auto simp: res_bind_def split: sum.splits)
    note cy = unheld_cyclic [OF ws cyc]
    have "(if fin then gc_new_cyclic_with_finalizer else gc_new_cyclic)
        (\<lambda>gc s. Inr (build (backing_handle gc), s)) ?u = Inr (g, unheld ws s')" by (rule cy(1))
    moreover have "block_val (unheld ws s') (length (gc_datas ?s)) = block_val s' (length (gc_datas ?s))"
      by (rule unheld_addr(2) [OF cy(2)])
    ultimately show ?thesis using NewCyclic may c' by (simp add: gain_def data_room_def)
  next
    case RunDropper
    then show ?thesis using run blocks by auto
  next
    case RunSync
    then show ?thesis using run blocks by auto
  next
    case RunAsync
    have "lock_gc (?s\<lparr>async_gc_notified := False\<rparr>) = Inl Blocked" using hu by (simp add: lock_gc_def held_up_def)
    then show ?thesis using run RunAsync by (auto simp: async_gc_step_def check_then_collect_def res_bind_def split: if_splits)
  qed (use run blocks in \<open>auto simp: atomic_load_def atomic_store_def atomic_swap_def atomic_compare_exchange_def
        collect_def res_bind_def split: sum.splits\<close>)
  then show "client_may op (unheld_client ws c)" "client_run op (unheld_client ws c) = Inr (unheld_client ws c')"
    by simp_all
qed

lemma grows_run:
  assumes inv: "client_inv (unheld_client ws c)" and hu: "held_up ws (sys c)"
    and may: "client_may op c" and run: "client_run op c = Inr c'"
  shows "grows (sys c) (sys c')"
proof -
  let ?s = "sys c"
  have ws: "set ws \<subseteq> {..<length (gc_datas ?s)}" using hu by (auto simp: held_up_def)
  have dl: "cll_inv (data_list ?s)" using client_inv_data_list [OF inv] by simp
  note blocks = held_up_blocks [OF hu]
  show ?thesis
  proof (cases op)
    case (New k v)
    obtain g s' where new: "new_gc k v ?s = (g, s')" by (cases "new_gc k v ?s")
    with grows_new [OF new dl] run New show ?thesis by (auto simp: gain_def)
  next
    case (NewCyclic fin build)
    then obtain g s' where cyc: "(if fin then gc_new_cyclic_with_finalizer else gc_new_cyclic)
          (\<lambda>gc s. Inr (build (backing_handle gc), s)) ?s = Inr (g, s')" and "sys c' = s'"
      using run by (auto simp: res_bind_def gain_def split: sum.splits)
    then show ?thesis using unheld_cyclic(3) [OF ws cyc dl] by simp
  next
    case (CloneGc r)
    then show ?thesis using run grows_insert_handle
      by (auto simp: gc_clone_def clone_handle_def res_bind_def gain_def split: sum.splits prod.splits)
  next
    case (GetGuard r)
    then show ?thesis using run
      by (auto simp: gc_get_def get_data_warrant_def get_warrant_eq res_bind_def split: sum.splits underlying_data.splits if_splits
          intro!: grows_upd_data grows_refl)
  next
    case (DropGuard d)
    then show ?thesis using run
      by (auto simp: drop_data_warrant_def drop_warrant_eq res_bind_def split: sum.splits if_splits intro!: grows_upd_data grows_refl)
  next
    case (NewAtomic r)
    have "grows ?s s'" if "insert_handle u (?s\<lparr>atomics := atomics ?s @ x\<rparr>) = (q, s')" for u x q s'
    proof (rule grows_trans [OF _ grows_insert_handle [OF that]])
      show "grows ?s (?s\<lparr>atomics := atomics ?s @ x\<rparr>)" by (auto simp: grows_def mark_of_def tracked_def)
    qed
    then show ?thesis using NewAtomic run
      by (auto simp: atomic_gc_new_def new_handle_for_atomic_def res_bind_def Let_def split: sum.splits prod.splits)
  next
    case RunAsync
    have "lock_gc (?s\<lparr>async_gc_notified := False\<rparr>) = Inl Blocked" using hu by (simp add: lock_gc_def held_up_def)
    then show ?thesis using run RunAsync by (auto simp: async_gc_step_def check_then_collect_def res_bind_def split: if_splits)
  next
    case (DropRef r)
    then show ?thesis using run by (auto simp: gc_drop_def drop_handle_def grows_def mark_of_def tracked_def)
  next
    case (WriteData d v)
    then show ?thesis using run grows_heap(1) [OF grows_refl] by auto
  qed (use run blocks grows_refl in \<open>auto simp: atomic_load_def atomic_store_def atomic_swap_def atomic_compare_exchange_def
        collect_def res_bind_def split: sum.splits\<close>)
qed

text \<open>Only a write through a guard changes a block that is there already.\<close>

lemma insert_handle_keeps_heap: "insert_handle u s = (r, s') \<Longrightarrow> gc_heap s' = gc_heap s"
  by (rule insert_handle_frame(4))

lemma new_gc_heap:
  assumes "new_gc k v s = (g, s')"
  shows "gc_heap s' = gc_heap s @ [Init v]"
proof -
  obtain act r p s2 where run: "track_allocated (\<lparr>scan_ptr = length (gc_heap s), deallocation_action = act\<rparr>, gc_heap s @ [Init v]) s
      = ((r, p), s2)" and "new_gc k v s = (\<lparr>backing_handle = r, direct_ptr = length (gc_heap s)\<rparr>, s2)"
    by (rule new_gc_tracks)
  then show ?thesis using assms insert_handle_keeps_heap
    by (auto simp: track_allocated_def track_def setup_gc_reference_def track_from_token_def notify_async_gc_thread_def
        Let_def split: prod.splits)
qed

lemma new_cyclic_heap:
  assumes "(if fin then gc_new_cyclic_with_finalizer else gc_new_cyclic) (\<lambda>gc s. Inr (build (backing_handle gc), s)) s = Inr (g, s')"
  shows "\<exists>v. gc_heap s' = gc_heap s @ [Init v]"
proof -
  let ?n = "length (gc_heap s)" and ?D = "length (gc_datas s)"
  define act where "act = (if fin then RunFinalizer ?n else RunDrop)"
  define s0 where "s0 v = s\<lparr>gc_heap := gc_heap s @ [Init v], gc_datas := gc_datas s @
      [\<lparr>d_allocation = \<lparr>scan_ptr = ?n, deallocation_action = act\<rparr>, d_lockout = lockout_new,
        d_deallocated = False, d_last_marked = 0\<rparr>]\<rparr>" for v
  define cyc where "cyc = (if fin then gc_new_cyclic_with_finalizer else gc_new_cyclic)"
  obtain r own s1 s2 where "item_v own = Suc (length (gc_handles s))"
    and i: "insert_handle (Fixed ?D) (s0 (build own)) = (r, s1)" "insert_handle (Fixed ?D) s1 = (own, s2)"
    and run: "cyc (\<lambda>gc s. Inr (build (backing_handle gc), s)) s =
      Inr (\<lparr>backing_handle = r, direct_ptr = ?n\<rparr>, track_from_token ?D s2)"
    by (rule gc_new_cyclic_runs [OF refl refl cyc_def act_def s0_def, of build], elim exE conjE) (rule that)
  have "s' = track_from_token ?D s2" using run assms by (simp add: cyc_def)
  then have "gc_heap s' = gc_heap s @ [Init (build own)]"
    using insert_handle_keeps_heap [OF i(1)] insert_handle_keeps_heap [OF i(2)]
    by (simp add: track_from_token_def notify_async_gc_thread_def s0_def)
  then show ?thesis by blast
qed

lemma frozen_run:
  assumes inv: "client_inv (unheld_client ws c)" and hu: "held_up ws (sys c)"
    and may: "client_may op c" and run: "client_run op c = Inr c'"
    and d: "d \<in> tracked (sys c)" "d \<notin> set (warrants c)"
  shows "block_val (sys c') d = block_val (sys c) d"
proof -
  let ?s = "sys c"
  have g: "gc_inv (pending (unheld ws ?s)) (held c) (warrants c) (unheld ws ?s)" using client_gc_inv [OF inv] by simp
  note b = unheld_bounds [OF inv] and blocks = held_up_blocks [OF hu]
  have len: "d < length (gc_datas ?s)" using b d(1) by blast
  have "data_ok (unheld ws ?s) d" using all_data_ok [OF g, of d] d(1) by (simp add: all_data_def tracked_def)
  then have ad: "addr ?s d < length (gc_heap ?s)" using unheld_addr(3) [OF len] by (simp add: data_ok_def)
  have "d_allocation (gc_datas (sys c') ! d) = d_allocation (gc_datas ?s ! d)"
    using grows_run [OF inv hu may run] len by (simp add: grows_def)
  then have same: "block_val (sys c') d = block_val ?s d" if "gc_heap (sys c') ! addr ?s d = gc_heap ?s ! addr ?s d"
    using that by (simp add: block_val_def addr_def)
  have grown: "block_val (sys c') d = block_val ?s d" if "\<exists>v. gc_heap (sys c') = gc_heap ?s @ v"
    using that ad by (intro same) (auto simp: nth_append)
  show ?thesis
  proof (cases op)
    case (New k v)
    obtain p s' where new: "new_gc k v ?s = (p, s')" by (cases "new_gc k v ?s")
    show ?thesis by (rule grown) (use new_gc_heap [OF new] new run New in \<open>auto simp: gain_def\<close>)
  next
    case (NewCyclic fin build)
    then obtain p s' where cyc: "(if fin then gc_new_cyclic_with_finalizer else gc_new_cyclic)
          (\<lambda>gc s. Inr (build (backing_handle gc), s)) ?s = Inr (p, s')" and "sys c' = s'"
      using run by (auto simp: res_bind_def gain_def split: sum.splits)
    then show ?thesis using grown new_cyclic_heap [OF cyc] by auto
  next
    case (WriteData e v)
    then have e: "e \<in> set (warrants c)" "e \<noteq> d" using may d(2) by auto
    then have "e \<in> tracked ?s" using guarded_not_locked(1) [OF inv hu] by blast
    moreover have "inj_on (addr (unheld ws ?s)) (tracked ?s)"
      using g by (auto simp: gc_invx_def datas_ok_def all_data_def tracked_def intro: inj_on_subset)
    ultimately have "addr ?s e \<noteq> addr ?s d"
      using e(2) d(1) b unheld_addr(1) by (metis inj_onD)
    then show ?thesis using run WriteData by (intro same) (auto simp: ptr_write_def)
  next
    case (CloneGc r)
    then show ?thesis using run
      by (intro grown) (auto simp: gc_clone_def clone_handle_def res_bind_def gain_def insert_handle_keeps_heap split: sum.splits prod.splits)
  next
    case (GetGuard r)
    then show ?thesis using run
      by (intro grown) (auto simp: gc_get_def get_data_warrant_def upd_data_def res_bind_def split: sum.splits underlying_data.splits if_splits)
  next
    case (DropGuard e)
    then show ?thesis using run
      by (intro grown) (auto simp: drop_data_warrant_def upd_data_def res_bind_def split: sum.splits)
  next
    case (NewAtomic r)
    then show ?thesis using run
      by (intro grown) (auto simp: atomic_gc_new_def new_handle_for_atomic_def res_bind_def Let_def
          dest: insert_handle_keeps_heap split: sum.splits prod.splits)
  next
    case RunAsync
    have "lock_gc (?s\<lparr>async_gc_notified := False\<rparr>) = Inl Blocked" using hu by (simp add: lock_gc_def held_up_def)
    then show ?thesis using run RunAsync by (auto simp: async_gc_step_def check_then_collect_def res_bind_def split: if_splits)
  next
    case (DropRef r)
    then show ?thesis using run by (intro grown) (auto simp: gc_drop_def drop_handle_def)
  qed (use run blocks in \<open>auto simp: atomic_load_def atomic_store_def atomic_swap_def atomic_compare_exchange_def
        collect_def res_bind_def split: sum.splits\<close>)
qed

text \<open>So the collection stays where it is, whatever the other threads do in the meantime.\<close>

lemma beside_run:
  assumes "client_inv (unheld_client ws c)" and "held_up ws (sys c)"
    and "client_may op c" and "client_run op c = Inr c'"
  shows "client_inv (unheld_client ws c')" and "held_up ws (sys c')" and "grows (sys c) (sys c')"
proof -
  note u = unheld_run [OF assms]
  from client_progress [OF assms(1) u(1)] u(2) show "client_inv (unheld_client ws c')" by auto
  show g: "grows (sys c) (sys c')" by (rule grows_run [OF assms])
  show "held_up ws (sys c')"
    using assms(2) g unfolding held_up_def grows_def by (metis less_le_trans)
qed

text \<open>The invariant does not depend on marks, flags and locks beyond this.\<close>

lemma gc_inv_remark:
  assumes inv: "gc_invx {} P H W s"
    and same: "data_list s' = data_list s" "handle_list s' = handle_list s" "gc_heap s' = gc_heap s"
      "atomics s' = atomics s" "length (gc_datas s') = length (gc_datas s)" "length (gc_handles s') = length (gc_handles s)"
    and datas: "\<And>d. d < length (gc_datas s) \<Longrightarrow> d_allocation (gc_datas s' ! d) = d_allocation (gc_datas s ! d) \<and>
      d_deallocated (gc_datas s' ! d) = d_deallocated (gc_datas s ! d)"
    and locks: "\<And>d. d \<in> tracked s \<Longrightarrow> d_lockout (gc_datas s' ! d) = d_lockout (gc_datas s ! d)"
    and marks: "2 \<le> current_collection_number s'" "\<And>d. d \<in> tracked s \<Longrightarrow> mark_of s' d < current_collection_number s'"
    and handles: "\<And>h. h < length (gc_handles s) \<Longrightarrow>
      h_underlying_data (gc_handles s' ! h) = h_underlying_data (gc_handles s ! h) \<and>
      h_last_non_rooted (gc_handles s' ! h) < current_collection_number s'"
  shows "gc_invx {} P H W s'"
proof -
  have all: "d < length (gc_datas s') \<and> d_allocation (gc_datas s' ! d) = d_allocation (gc_datas s ! d) \<and>
      addr s d < length (gc_heap s') \<and> gc_heap s' ! addr s d = gc_heap s ! addr s d"
    if "d \<in> set (all_data s P)" for d
    using all_data_ok [OF inv that] datas [of d] by (simp add: data_ok_def same)
  note cong = data_cong [OF all same(1)]
  have b: "d < length (gc_datas s)" if "d \<in> tracked s" for d
    using all_data_ok [OF inv, of d] that by (simp add: all_data_def tracked_def data_ok_def)
  have tgt: "target s' h = target s h" if "h < length (gc_handles s)" for h
    using handles [OF that] by (simp add: target_def same(4) split: underlying_data.split)
  have live: "live_handles s' = live_handles s" by (simp add: live_handles_def same)
  have "lists_ok s'" "datas_ok P s'" "refs_ok P H s'"
    using inv cong by (simp_all add: gc_invx_def lists_ok_def refs_ok_def registered_def same)
  moreover have "handles_ok {} P s'"
    using inv tgt handles live_bound [OF inv] by (simp add: gc_invx_def handles_ok_def live cong same)
  moreover have "warrants_ok W s'"
    using inv locks datas b by (simp add: gc_invx_def warrants_ok_def cong)
  moreover have "marks_ok s'" using marks handles by (simp add: marks_ok_def cong same)
  ultimately show ?thesis by (simp add: gc_invx_def)
qed

end
