(* ===== verification/Root_Race.thy ===== *)
theory Root_Race
  imports Beside_Collection
begin

text \<open>
  The search for roots of \<open>do_collect\<close> walks the list of handles slot by slot while other threads go on
  using their \<open>Gc\<close>s; nothing locks the list. Here the walk is a step relation interleaved with any
  calls. A handle that stays in its slot is always found, and new and guarded data is kept; a pointer
  that is cloned into a slot behind the walk and whose source is dropped in front of it is not found,
  and its data is collected although the client still holds it.
\<close>

text \<open>A task per chunk, as for \<open>par_iter\<close>, and the handles pushed to \<open>roots\<close>.\<close>

record root_search =
  rs_cursors :: "nat list"
  rs_roots :: "nat list"

definition root_search_start :: "gc_state \<Rightarrow> root_search" where
  "root_search_start s =
     \<lparr>rs_cursors = replicate (Suc (chunk_addr (cll_head (handle_list s)))) 0, rs_roots = []\<rparr>"

definition visit_slot :: "u64 \<Rightarrow> gc_state \<Rightarrow> slot_key \<Rightarrow> nat list \<Rightarrow> nat list" where
  "visit_slot cur s k roots =
     (case cll_lookup (handle_list s) k of
        Some h \<Rightarrow> if h_last_non_rooted (gc_handles s ! h) \<noteq> cur then roots @ [h] else roots
      | None \<Rightarrow> roots)"

text \<open>
  Any other thread may make any call in the meantime. One that waits for the collection does not come
  back (\<open>Beside_Collection\<close>).
\<close>

inductive root_step :: "u64 \<Rightarrow> root_search \<times> gc_client \<Rightarrow> root_search \<times> gc_client \<Rightarrow> bool" for cur where
  visit: "a < length (rs_cursors rs) \<Longrightarrow> rs_cursors rs ! a = i \<Longrightarrow> i < CHUNK_SIZE \<Longrightarrow>
     root_step cur (rs, c) (\<lparr>rs_cursors = (rs_cursors rs)[a := Suc i],
                             rs_roots = visit_slot cur (sys c) (a, i) (rs_roots rs)\<rparr>, c)"
| call: "client_may op c \<Longrightarrow> client_run op c = Inr c' \<Longrightarrow> root_step cur (rs, c) (rs, c')"

text \<open>
  A collection up to the end of its first loop, and from the search through the object graph on. With
  the sequential search for roots between them they are \<open>collect\<close>.
\<close>

definition begin_collection :: "gc_state \<Rightarrow> (u64 \<times> nat list \<times> gc_state) result" where
  "begin_collection s =
     res_bind (lock_gc s) (\<lambda>s0.
     case lock_exclusive (atomic_spinlock s0) of
       None \<Rightarrow> Inl Blocked
     | Some guard \<Rightarrow>
         (let s1 = s0\<lparr>atomic_spinlock := guard\<rparr>; cur = current_collection_number s1
          in res_bind (synchronize_destructors s1) (\<lambda>s2.
             res_bind (fold_res (observe_data cur) (par_iter (data_list s2)) (s2, [])) (\<lambda>(s3, ws).
             Inr (cur, ws, s3)))))"

definition end_collection :: "u64 \<Rightarrow> gc_state \<Rightarrow> gc_state" where
  "end_collection cur s5 =
     (let (s6, to_drop) = clean_up cur s5;
          s7 = send_msg (DataToDrop to_drop) s6;
          s8 = s7\<lparr>trigger := set_data_count_after_collection (tracked_data_count s7) (trigger s7)\<rparr>
      in s8\<lparr>current_collection_number := current_collection_number s8 + 1, gc_lock := False,
            atomic_spinlock := drop_exclusive_guard (atomic_spinlock s8)\<rparr>)"

definition finish_collection :: "u64 \<Rightarrow> nat list \<Rightarrow> nat list \<Rightarrow> gc_state \<Rightarrow> gc_state result" where
  "finish_collection cur ws roots s3 =
     res_bind (dfs cur roots s3) (\<lambda>s4.
     res_bind (release_warrants ws s4) (\<lambda>s5. Inr (end_collection cur s5)))"

lemma res_bind_assoc: "res_bind (res_bind r f) g = res_bind r (\<lambda>x. res_bind (f x) g)"
  by (simp add: res_bind_def split: sum.split)

lemma collect_split:
  "collect s = res_bind (begin_collection s) (\<lambda>(cur, ws, s3).
     finish_collection cur ws (find_roots cur s3) s3)"
proof -
  have phases: "mark_and_sweep cur s2 =
      res_bind (fold_res (observe_data cur) (par_iter (data_list s2)) (s2, [])) (\<lambda>(s3, ws).
        finish_collection cur ws (find_roots cur s3) s3)" for cur s2
    unfolding mark_and_sweep_def finish_collection_def end_collection_def
    by (auto simp: Let_def case_prod_beta' intro!: arg_cong2 [where f = res_bind])
  show ?thesis
    unfolding collect_def begin_collection_def do_collect_def phases
    by (auto simp: res_bind_assoc Let_def case_prod_beta' intro!: arg_cong2 [where f = res_bind] split: option.split)
qed

inductive raced_collect :: "gc_client \<Rightarrow> gc_client \<Rightarrow> bool" where
  "begin_collection (sys c) = Inr (cur, ws, s3) \<Longrightarrow>
     (root_step cur)\<^sup>*\<^sup>* (root_search_start s3, c\<lparr>sys := s3\<rparr>) (rs, c4) \<Longrightarrow>
     set (rs_cursors rs) \<subseteq> {CHUNK_SIZE} \<Longrightarrow>
     finish_collection cur ws (rs_roots rs) (sys c4) = Inr s5 \<Longrightarrow>
     raced_collect c (c4\<lparr>sys := s5\<rparr>)"

subsection \<open>The walk undisturbed\<close>

text \<open>Steps of the walk alone.\<close>

abbreviation quiet_walk :: "u64 \<Rightarrow> root_search \<times> gc_client \<Rightarrow> root_search \<times> gc_client \<Rightarrow> bool" where
  "quiet_walk cur \<equiv> (\<lambda>x y. root_step cur x y \<and> snd y = snd x)\<^sup>*\<^sup>*"

lemma quiet_walk_steps: "quiet_walk cur x y \<Longrightarrow> (root_step cur)\<^sup>*\<^sup>* x y"
  by (erule rtranclp_mono [THEN predicate2D, rotated]) blast

lemma root_walk:
  assumes "a < length cs" and "cs ! a \<le> m" and "m \<le> CHUNK_SIZE"
  shows "quiet_walk cur (\<lparr>rs_cursors = cs, rs_roots = roots\<rparr>, c)
    (\<lparr>rs_cursors = cs[a := m], rs_roots = fold (\<lambda>j. visit_slot cur (sys c) (a, j)) [cs ! a..<m] roots\<rparr>, c)"
  using assms(2,3)
proof (induction m rule: dec_induct)
  case base
  then show ?case by simp
next
  case (step m)
  let ?rs = "\<lparr>rs_cursors = cs[a := m], rs_roots = fold (\<lambda>j. visit_slot cur (sys c) (a, j)) [cs ! a..<m] roots\<rparr>"
  have "root_step cur (?rs, c) (\<lparr>rs_cursors = (rs_cursors ?rs)[a := Suc m],
      rs_roots = visit_slot cur (sys c) (a, m) (rs_roots ?rs)\<rparr>, c)"
    by (rule root_step.visit) (use step assms(1) in simp_all)
  with step show ?case by (auto intro: rtranclp.rtrancl_into_rtrancl)
qed

lemma visit_chunk:
  assumes "\<And>j. j < length vs \<Longrightarrow> cll_lookup (handle_list s) (a, j) = vs ! j"
  shows "fold (\<lambda>j. visit_slot cur s (a, j)) [0..<length vs] roots =
    roots @ filter (\<lambda>h. h_last_non_rooted (gc_handles s ! h) \<noteq> cur) (iter_this vs)"
  using assms
proof (induction vs rule: rev_induct)
  case (snoc v vs)
  have "cll_lookup (handle_list s) (a, j) = vs ! j" if "j < length vs" for j
    using snoc(2) [of j] that by (simp add: nth_append)
  moreover have "cll_lookup (handle_list s) (a, length vs) = v" using snoc(2) [of "length vs"] by simp
  ultimately show ?case
    using snoc(1) by (cases v) (simp_all add: visit_slot_def iter_this_def map_filter_def)
qed (simp add: iter_this_def map_filter_simps)

lemma visit_rest:
  assumes "chunk_wf ch" and "\<And>b j. b \<le> chunk_addr ch \<Longrightarrow> cll_lookup (handle_list (sys c)) (b, j) = chunk_slot ch b j"
  shows "(root_step cur)\<^sup>*\<^sup>* (\<lparr>rs_cursors = replicate (Suc (chunk_addr ch)) 0 @ zs, rs_roots = roots\<rparr>, c)
    (\<lparr>rs_cursors = replicate (Suc (chunk_addr ch)) CHUNK_SIZE @ zs,
      rs_roots = roots @ filter (\<lambda>h. h_last_non_rooted (gc_handles (sys c) ! h) \<noteq> cur) (par_iter_rest ch)\<rparr>, c)"
  using assms
proof (induction ch arbitrary: zs roots rule: chunk_wf.induct)
  case (1 a vs)
  have "cll_lookup (handle_list (sys c)) (a, j) = vs ! j" if "j < length vs" for j using 1 that by simp
  from visit_chunk [of vs "sys c" a cur roots, OF this]
    quiet_walk_steps [OF root_walk [of a "replicate (Suc a) 0 @ zs" CHUNK_SIZE cur roots c]] 1 show ?case by simp
next
  case (2 a vs ch)
  let ?P = "\<lambda>h. h_last_non_rooted (gc_handles (sys c) ! h) \<noteq> cur" and ?n = "Suc (chunk_addr ch)"
  have a: "a = ?n" "length vs = CHUNK_SIZE" using 2(2) by simp_all
  have "cll_lookup (handle_list (sys c)) (a, j) = vs ! j" if "j < length vs" for j using 2(2,3) that by simp
  note chunk = visit_chunk [of vs "sys c" a cur roots, OF this]
  have split: "replicate (Suc a) x @ zs = replicate ?n x @ x # zs" for x :: nat
    by (simp add: a(1) replicate_app_Cons_same)
  have "(root_step cur)\<^sup>*\<^sup>* (\<lparr>rs_cursors = replicate ?n 0 @ 0 # zs, rs_roots = roots\<rparr>, c)
      (\<lparr>rs_cursors = replicate ?n 0 @ CHUNK_SIZE # zs, rs_roots = roots @ filter ?P (iter_this vs)\<rparr>, c)"
    using quiet_walk_steps [OF root_walk [of a "replicate ?n 0 @ 0 # zs" CHUNK_SIZE cur roots c]] chunk
    by (simp add: a nth_append list_update_append del: replicate.simps)
  moreover have "cll_lookup (handle_list (sys c)) (b, j) = chunk_slot ch b j" if "b \<le> chunk_addr ch" for b j
    using 2(3) [of b j] a that by simp
  then have "(root_step cur)\<^sup>*\<^sup>* (\<lparr>rs_cursors = replicate ?n 0 @ CHUNK_SIZE # zs, rs_roots = roots @ filter ?P (iter_this vs)\<rparr>, c)
      (\<lparr>rs_cursors = replicate ?n CHUNK_SIZE @ CHUNK_SIZE # zs,
        rs_roots = (roots @ filter ?P (iter_this vs)) @ filter ?P (par_iter_rest ch)\<rparr>, c)"
    using 2(2) by (intro 2(1)) simp_all
  ultimately show ?case unfolding chunk.sel split by simp
qed

subsection \<open>A collection beside handle calls\<close>

lemma begin_collection_spec:
  assumes inv: "client_inv c" and room: "number_room (sys c)"
  obtains s2 where "begin_collection (sys c) = Inr (current_collection_number s2,
      filter (\<lambda>d. \<not> in_use s2 d) (par_iter (data_list s2)),
      observe_state (current_collection_number s2) (tracked s2) s2)"
    and "gc_inv [] (held c) (warrants c) s2" and "current_collection_number s2 = current_collection_number (sys c)"
    and "synchronize_destructors ((sys c)\<lparr>gc_lock := True, atomic_spinlock := \<lparr>tracker = SENTINEL_VALUE\<rparr>\<rparr>) = Inr s2"
    and "dropper s2 = []" and "data_list s2 = data_list (sys c)" and "trigger s2 = trigger (sys c)"
    and "gc_lock s2" and "tracker (atomic_spinlock s2) = SENTINEL_VALUE"
proof -
  let ?s = "sys c" and ?s1 = "(sys c)\<lparr>gc_lock := True, atomic_spinlock := \<lparr>tracker = SENTINEL_VALUE\<rparr>\<rparr>"
  have g: "gc_inv (pending ?s) (held c) (warrants c) ?s" by (rule client_gc_inv [OF inv])
  have idle: "\<not> gc_lock ?s" "tracker (atomic_spinlock ?s) = 0" using inv by (simp_all add: client_inv_def idle_def)
  then have lock: "lock_exclusive (atomic_spinlock ?s) = Some \<lparr>tracker = SENTINEL_VALUE\<rparr>"
    by (cases "atomic_spinlock ?s") (simp add: lock_exclusive_def compare_exchange_def is_ok_def)
  have "gc_inv (pending ?s) (held c) (warrants c) ?s1"
    by (rule gc_inv_frame [OF g])
      (use all_data_ok [OF g] in \<open>auto simp: data_ok_def mark_of_def warrants_ok_def tracked_def\<close>)
  then have "gc_inv (pending ?s1) (held c) (warrants c) ?s1" by (simp add: pending_def)
  then obtain s2 where sync: "synchronize_destructors ?s1 = Inr s2" and inv2: "gc_inv [] (held c) (warrants c) s2"
      and ctl: "same_control (?s1\<lparr>dropper := []\<rparr>) s2"
    by (rule gc_inv_synchronize)
  have col: "collectable s2" by (rule gc_inv_collectable [OF inv2])
  have cur: "current_collection_number s2 = current_collection_number ?s" using ctl by (simp add: same_control_def)
  have "fold_res (observe_data (current_collection_number s2)) (par_iter (data_list s2)) (s2, []) =
      Inr (observe_state (current_collection_number s2) (tracked s2) s2,
           filter (\<lambda>d. \<not> in_use s2 d) (par_iter (data_list s2)))"
    using observe_all [of "par_iter (data_list s2)" s2] col by (simp add: collectable_def tracked_def)
  then have "begin_collection ?s = Inr (current_collection_number s2,
      filter (\<lambda>d. \<not> in_use s2 d) (par_iter (data_list s2)),
      observe_state (current_collection_number s2) (tracked s2) s2)"
    using idle lock sync cur by (simp add: begin_collection_def lock_gc_def Let_def)
  then show thesis using inv2 cur sync ctl by (intro that [of s2]) (simp_all add: same_control_def)
qed

text \<open>
  What holds while the walk goes on: the calls have left the collection where it was, and every handle
  that is found leads to tracked data.
\<close>

definition leads_home :: "gc_state \<Rightarrow> nat \<Rightarrow> bool" where
  "leads_home s h \<longleftrightarrow> h < length (gc_handles s) \<and> target s h \<in> tracked s \<and>
     (\<forall>a. h_underlying_data (gc_handles s ! h) = DynamicForAtomic a \<longrightarrow> a < length (atomics s))"

definition race_inv :: "nat list \<Rightarrow> gc_state \<Rightarrow> root_search \<Rightarrow> gc_client \<Rightarrow> bool" where
  "race_inv ws s3 rs c \<longleftrightarrow>
     client_inv (unheld_client ws c) \<and> held_up ws (sys c) \<and> grows s3 (sys c) \<and>
     (\<forall>h\<in>set (rs_roots rs). leads_home (sys c) h)"

lemma race_facts:
  assumes "race_inv ws s3 rs c"
  shows "\<And>h. h \<in> live_handles (sys c) \<Longrightarrow> leads_home (sys c) h"
    and "\<And>r. visible c r \<Longrightarrow> leads_home (sys c) (item_v r)"
    and "\<forall>d\<in>tracked (sys c). data_ok (sys c) d"
    and "cll_inv (data_list (sys c))" and "distinct (par_iter (data_list (sys c)))" and "cll_inv (handle_list (sys c))"
proof -
  have inv: "client_inv (unheld_client ws c)" and dr: "dropper (sys c) = []"
    using assms by (simp_all add: race_inv_def held_up_def)
  have g: "gc_inv [] (held c) (warrants c) (unheld ws (sys c))"
    using client_gc_inv [OF inv] dr by (simp add: pending_def)
  show live: "leads_home (sys c) h" if "h \<in> live_handles (sys c)" for h
    using that g by (simp add: leads_home_def gc_invx_def handles_ok_def doomed_def)
  show "leads_home (sys c) (item_v r)" if "visible c r" for r
    using live visible_target(1) [OF inv] unheld_visible(1) [OF unheld_bounds [OF inv]] that by simp
  have "data_ok (unheld ws (sys c)) d" if "d \<in> tracked (sys c)" for d
    using all_data_ok [OF g] that by (simp add: all_data_def tracked_def)
  then show "\<forall>d\<in>tracked (sys c). data_ok (sys c) d"
    using unheld_bounds [OF inv] unheld_addr(3) by blast
  show "cll_inv (data_list (sys c))" "distinct (par_iter (data_list (sys c)))" "cll_inv (handle_list (sys c))"
    using g by (simp_all add: gc_invx_def lists_ok_def datas_ok_def all_data_def)
qed

lemma grows_handle: "grows s s' \<Longrightarrow> h < length (gc_handles s) \<Longrightarrow> gc_handles s' ! h = gc_handles s ! h"
  using nth_take [of h "length (gc_handles s)" "gc_handles s'"] by (simp add: grows_def)

lemma target_grows:
  assumes "grows s s'" and "leads_home s h"
  shows "target s' h = target s h"
proof -
  have h: "h < length (gc_handles s)" and same: "gc_handles s' ! h = gc_handles s ! h"
    using assms grows_handle by (simp_all add: leads_home_def)
  show ?thesis
  proof (cases "h_underlying_data (gc_handles s ! h)")
    case (DynamicForAtomic a)
    then have "a < length (atomics s)" using assms(2) by (simp add: leads_home_def)
    then have "atomics s' ! a = atomics s ! a"
      using assms(1) nth_take [of a "length (atomics s)" "atomics s'"] by (simp add: grows_def)
    then show ?thesis using DynamicForAtomic same by (simp add: target_def)
  qed (simp add: target_def same)
qed

lemma leads_home_grows:
  assumes "grows s s'" and "leads_home s h"
  shows "leads_home s' h"
proof -
  have h: "h < length (gc_handles s)" using assms(2) by (simp add: leads_home_def)
  have pre: "take (length (gc_handles s)) (gc_handles s') = gc_handles s" "take (length (atomics s)) (atomics s') = atomics s"
    "tracked s \<subseteq> tracked s'" using assms(1) by (simp_all add: grows_def)
  have len: "length (gc_handles s) \<le> length (gc_handles s')" "length (atomics s) \<le> length (atomics s')"
    using arg_cong [OF pre(1), of length] arg_cong [OF pre(2), of length] by simp_all
  then show ?thesis
    using assms(2) h pre(3) target_grows [OF assms] grows_handle [OF assms(1) h] by (auto simp: leads_home_def)
qed

text \<open>It holds when the walk begins.\<close>

lemma observed_unheld:
  fixes s2 :: gc_state
  assumes inv: "gc_inv [] H W s2" and room: "current_collection_number s2 < current_collection_number s2 + 1"
  defines "cur \<equiv> current_collection_number s2" and "ws \<equiv> filter (\<lambda>d. \<not> in_use s2 d) (par_iter (data_list s2))"
  defines "s3 \<equiv> observe_state cur (tracked s2) s2"
  shows "gc_inv [] H W (unheld ws s3)"
    and "d \<in> set ws \<Longrightarrow> d \<in> tracked s3 \<and> d < length (gc_datas s3) \<and> lk_exclusive (d_lockout (gc_datas s3 ! d))"
    and "d \<in> tracked s3 \<Longrightarrow> d \<notin> set ws \<Longrightarrow> mark_of s3 d = cur"
proof -
  let ?u = "unheld ws s3"
  have ok: "data_ok s2 d" if "d \<in> tracked s2" for d
    using that all_data_ok [OF inv] by (simp add: all_data_def tracked_def)
  have len: "length (gc_datas s3) = length (gc_datas s2)" "length (gc_handles s3) = length (gc_handles s2)"
    by (simp_all add: s3_def observe_state_def)
  have b: "d < length (gc_datas s2)" if "d \<in> tracked s2" for d using ok [OF that] by (simp add: data_ok_def)
  have at: "gc_datas s3 ! d = observed cur (gc_datas s2 ! d)" if "d \<in> tracked s2" for d
    using b [OF that] that by (simp add: s3_def observe_state_def)
  have same: "tracked s3 = tracked s2" "live_handles s3 = live_handles s2" "gc_heap s3 = gc_heap s2"
    "data_list s3 = data_list s2" "handle_list s3 = handle_list s2" "atomics s3 = atomics s2"
    "current_collection_number s3 = cur"
    by (simp_all add: s3_def observe_state_def tracked_def live_handles_def cur_def)
  have ws: "d \<in> set ws \<longleftrightarrow> d \<in> tracked s2 \<and> \<not> in_use s2 d" for d by (auto simp: ws_def tracked_def)
  show "d \<in> tracked s3 \<and> d < length (gc_datas s3) \<and> lk_exclusive (d_lockout (gc_datas s3 ! d))" if "d \<in> set ws" for d
    using that b at by (simp add: ws same(1) len observed_def in_use_def lk_exclusive_def)
  show "mark_of s3 d = cur" if "d \<in> tracked s3" "d \<notin> set ws" for d
    using that at [of d] by (simp add: ws same(1) mark_of_def observed_def in_use_def)
  have m: "2 \<le> cur" "\<forall>d\<in>tracked s2. mark_of s2 d < cur" "\<forall>h<length (gc_handles s2). h_last_non_rooted (gc_handles s2 ! h) < cur"
    using inv by (simp_all add: gc_invx_def marks_ok_def cur_def)
  have "cur \<noteq> 0" using m(1) by auto
  then have less: "cur - 1 < cur" "cur < cur + 1"
    using room measure_unat [of cur] by (simp_all add: cur_def word_less_nat_alt)
  show "gc_inv [] H W ?u"
  proof (rule gc_inv_remark [OF inv])
    fix d assume d: "d < length (gc_datas s2)"
    then show "d_allocation (gc_datas ?u ! d) = d_allocation (gc_datas s2 ! d) \<and>
        d_deallocated (gc_datas ?u ! d) = d_deallocated (gc_datas s2 ! d)"
      using unheld_data(1,2) [of d s3 ws] by (simp add: len) (simp add: s3_def observe_state_def observed_def)
  next
    fix d assume d: "d \<in> tracked s2"
    show "d_lockout (gc_datas ?u ! d) = d_lockout (gc_datas s2 ! d)"
    proof (cases "in_use s2 d")
      case True
      then show ?thesis using unheld_data(4) [of d s3 ws] b [OF d] at [OF d] by (simp add: ws len observed_def in_use_def)
    next
      case False
      then have "lk_count (d_lockout (gc_datas ?u ! d)) = 0" using unheld_data(5) [of d s3 ws] b [OF d] d
        by (simp add: ws len)
      with False show ?thesis by (simp add: in_use_def)
    qed
    have "mark_of ?u d < cur + 1"
      using unheld_data(3) [of d s3 ws] b [OF d] at [OF d] m(2) d less
      by (auto simp: mark_of_def observed_def len intro: less_trans)
    then show "mark_of ?u d < current_collection_number ?u" by (simp add: same)
  next
    fix h assume h: "h < length (gc_handles s2)"
    have "gc_handles s3 ! h = gc_handles s2 ! h \<or> gc_handles s3 ! h = flagged cur (gc_handles s2 ! h)"
      using h by (simp add: s3_def observe_state_def)
    then show "h_underlying_data (gc_handles ?u ! h) = h_underlying_data (gc_handles s2 ! h) \<and>
        h_last_non_rooted (gc_handles ?u ! h) < current_collection_number ?u"
      using m(3) h less by (auto simp: flagged_def same intro: less_trans)
  qed (use m(1) less in \<open>auto simp: same len\<close>)
qed

lemma lookup_live:
  assumes "cll_inv (handle_list s)"
  shows "h \<in> live_handles s \<longleftrightarrow> (\<exists>k. cll_lookup (handle_list s) k = Some h)"
  unfolding live_handles_def by (rule cs.items_iff [OF assms])

lemma race_inv_step:
  assumes "root_step cur (rs, c) (rs', c')" and inv: "race_inv ws s3 rs c"
  shows "race_inv ws s3 rs' c'"
  using assms(1)
proof cases
  case (visit a i)
  have "set (rs_roots rs') \<subseteq> set (rs_roots rs) \<union> live_handles (sys c)"
    using lookup_live [OF race_facts(6) [OF inv]]
    by (auto simp: visit(1) visit_slot_def split: option.splits if_splits)
  then show ?thesis using inv visit(2) race_facts(1) [OF inv] by (auto simp: race_inv_def)
next
  case (call op)
  have i: "client_inv (unheld_client ws c)" "held_up ws (sys c)" "grows s3 (sys c)"
    using inv by (simp_all add: race_inv_def)
  note r = beside_run [OF i(1,2) call(2,3)]
  show ?thesis
    using r inv grows_trans [OF i(3) r(3)] leads_home_grows [OF r(3)] by (simp add: race_inv_def call(1))
qed

lemma race_inv_steps:
  "(root_step cur)\<^sup>*\<^sup>* (rs, c) (rs', c') \<Longrightarrow> race_inv ws s3 rs c \<Longrightarrow> race_inv ws s3 rs' c'"
proof (induction rule: rtranclp_induct2)
  case (step rs1 c1 rs2 c2)
  then show ?case using race_inv_step by blast
qed simp

text \<open>So the search through the object graph finds nothing but tracked data, and cannot fail.\<close>

lemma race_searchable:
  assumes inv: "race_inv ws s3 rs c"
  shows "searchable cur (tracked (sys c)) (sys c) (set (rs_roots rs))"
    and "\<And>h. leads_home (sys c) h \<Longrightarrow> points_to (sys c) h (target (sys c) h)"
proof -
  let ?s = "sys c"
  note ok = race_facts(3) [OF inv]
  then have b: "\<forall>d\<in>tracked ?s. d < length (gc_datas ?s)" by (simp add: data_ok_def)
  show pt: "points_to ?s h (target ?s h)" if "leads_home ?s h" for h
    using that b by (intro points_to_target) (simp_all add: leads_home_def)
  have scans: "leads_home ?s (item_v r)" if "d \<in> tracked ?s" "r \<in> set (scan (block_val ?s d))" for d r
  proof -
    have "visible c r" using that set_scan_owned by (auto simp: visible_def)
    then show ?thesis by (rule race_facts(2) [OF inv])
  qed
  show "searchable cur (tracked ?s) ?s (set (rs_roots rs))"
    unfolding searchable_def
  proof (intro conjI ballI allI impI)
    fix h assume "h \<in> set (rs_roots rs)"
    then have "leads_home ?s h" using inv by (simp add: race_inv_def)
    then show "\<exists>d. points_to ?s h d \<and> (fresh cur ?s d \<longrightarrow> d \<in> tracked ?s)"
      using pt by (auto simp: leads_home_def)
  next
    fix d h d' assume d: "d \<in> tracked ?s" "h \<in> scanned ?s d" "points_to ?s h d'"
    then have "leads_home ?s h" using scans ok scanned_ok by auto
    then show "d' \<in> tracked ?s" using points_to_unique [OF pt d(3)] by (simp add: leads_home_def)
  next
    fix d assume d: "d \<in> tracked ?s"
    then have "scan_data d ?s = Inr (scan (block_val ?s d))" using ok scan_data_ok by blast
    moreover have "item_v r < length (gc_handles ?s) \<and> (\<exists>d'. points_to ?s (item_v r) d')"
      if "r \<in> set (scan (block_val ?s d))" for r
      using scans [OF d that] pt by (auto simp: leads_home_def)
    ultimately show "scannable ?s d" using b d by (auto simp: scannable_def)
  qed
qed

lemma end_collection_spec:
  assumes lists: "cll_inv (data_list s)" "distinct (par_iter (data_list s))" and b: "\<forall>d\<in>tracked s. d < length (gc_datas s)"
  shows "tracked (end_collection cur s) = {d \<in> tracked s. mark_of s d = 0 \<or> mark_of s d = cur}"
    and "dropper (end_collection cur s) =
      dropper s @ [DataToDrop (filter (\<lambda>d. d \<notin> tracked (end_collection cur s)) (par_iter (data_list s)))]"
    and "gc_heap (end_collection cur s) = gc_heap s" and "gc_handles (end_collection cur s) = gc_handles s"
    and "atomics (end_collection cur s) = atomics s" and "length (gc_datas (end_collection cur s)) = length (gc_datas s)"
    and "d < length (gc_datas s) \<Longrightarrow> d_allocation (gc_datas (end_collection cur s) ! d) = d_allocation (gc_datas s ! d)"
proof -
  obtain dl where clean: "clean_up cur s = (s\<lparr>gc_datas := upd_all (renew cur) (tracked s) (gc_datas s), data_list := dl\<rparr>,
       filter (\<lambda>d. mark_of s d \<noteq> 0 \<and> mark_of s d \<noteq> cur) (par_iter (data_list s)))"
    and dl: "par_iter dl = filter (\<lambda>d. mark_of s d = 0 \<or> mark_of s d = cur) (par_iter (data_list s))"
    by (rule clean_up_all [of s cur]) (use lists b in simp_all)
  have tr: "tracked (end_collection cur s) = set (par_iter dl)"
    by (simp add: end_collection_def clean send_msg_def tracked_def Let_def)
  then show "tracked (end_collection cur s) = {d \<in> tracked s. mark_of s d = 0 \<or> mark_of s d = cur}"
    by (auto simp: dl tracked_def)
  have "filter (\<lambda>d. mark_of s d \<noteq> 0 \<and> mark_of s d \<noteq> cur) (par_iter (data_list s)) =
      filter (\<lambda>d. d \<notin> set (par_iter dl)) (par_iter (data_list s))"
    by (rule filter_cong) (auto simp: dl)
  then show "dropper (end_collection cur s) =
      dropper s @ [DataToDrop (filter (\<lambda>d. d \<notin> tracked (end_collection cur s)) (par_iter (data_list s)))]"
    unfolding tr by (simp add: end_collection_def clean send_msg_def Let_def)
  show "gc_heap (end_collection cur s) = gc_heap s" "gc_handles (end_collection cur s) = gc_handles s"
    "atomics (end_collection cur s) = atomics s" "length (gc_datas (end_collection cur s)) = length (gc_datas s)"
    by (simp_all add: end_collection_def clean send_msg_def Let_def)
  show "d < length (gc_datas s) \<Longrightarrow> d_allocation (gc_datas (end_collection cur s) ! d) = d_allocation (gc_datas s ! d)"
    by (simp add: end_collection_def clean send_msg_def Let_def renew_def set_mark_def)
qed

lemma finish_raced:
  assumes inv: "race_inv ws s3 rs c" and ws: "distinct ws"
  obtains s5 where "finish_collection cur ws (rs_roots rs) (sys c) = Inr s5"
    and "tracked s5 = {d \<in> tracked (sys c). d \<in> spread cur (sys c) (set (rs_roots rs)) \<or>
           mark_of (sys c) d = 0 \<or> mark_of (sys c) d = cur}"
    and "dropper s5 = dropper (sys c) @ [DataToDrop (filter (\<lambda>d. d \<notin> tracked s5) (par_iter (data_list (sys c))))]"
    and "gc_heap s5 = gc_heap (sys c)" and "gc_handles s5 = gc_handles (sys c)"
    and "\<forall>d<length (gc_datas (sys c)). d_allocation (gc_datas s5 ! d) = d_allocation (gc_datas (sys c) ! d)"
    and "length (gc_datas s5) = length (gc_datas (sys c))" and "atomics s5 = atomics (sys c)"
proof -
  let ?s = "sys c" and ?R = "spread cur (sys c) (set (rs_roots rs))"
  define s4 where "s4 = mark_all cur ?R ?s"
  define s5 where "s5 = s4\<lparr>gc_datas := upd_all unlock (set ws) (gc_datas s4)\<rparr>"
  note search = race_searchable [OF inv] and lists = race_facts(4,5) [OF inv]
  have b: "d < length (gc_datas ?s)" if "d \<in> tracked ?s" for d using that race_facts(3) [OF inv] by (simp add: data_ok_def)
  have dfs: "dfs cur (rs_roots rs) ?s = Inr s4" using dfs_marks_spread [OF search(1)] by (simp add: s4_def)
  have lock4: "d_lockout (gc_datas s4 ! d) = d_lockout (gc_datas ?s ! d)" if "d < length (gc_datas ?s)" for d
    using that by (simp add: s4_def mark_all_def set_mark_def)
  have "\<forall>d\<in>set ws. d < length (gc_datas s4) \<and> lk_exclusive (d_lockout (gc_datas s4 ! d))"
    using inv lock4 by (simp add: race_inv_def held_up_def) (simp add: s4_def mark_all_def)
  then have rel: "release_warrants ws s4 = Inr s5" using release_all [OF ws] by (simp add: s5_def)
  have s5: "data_list s5 = data_list ?s" "tracked s5 = tracked ?s" "length (gc_datas s5) = length (gc_datas ?s)"
    "gc_heap s5 = gc_heap ?s" "gc_handles s5 = gc_handles ?s" "atomics s5 = atomics ?s" "dropper s5 = dropper ?s"
    by (simp_all add: s5_def s4_def mark_all_def tracked_def)
  have mk: "mark_of s5 d = 0 \<or> mark_of s5 d = cur \<longleftrightarrow> d \<in> ?R \<or> mark_of ?s d = 0 \<or> mark_of ?s d = cur"
    if "d \<in> tracked ?s" for d
    using b [OF that] by (auto simp: s5_def s4_def mark_of_def mark_all_def unlock_def set_mark_def)
  have al: "d_allocation (gc_datas s5 ! d) = d_allocation (gc_datas ?s ! d)" if "d < length (gc_datas ?s)" for d
    using that by (simp add: s5_def s4_def mark_all_def unlock_def set_mark_def)
  have ends: "cll_inv (data_list s5)" "distinct (par_iter (data_list s5))" "\<forall>d\<in>tracked s5. d < length (gc_datas s5)"
    using lists b by (simp_all add: s5)
  note spec = end_collection_spec [OF ends, where cur = cur]
  show thesis
  proof (rule that [of "end_collection cur s5"])
    show "finish_collection cur ws (rs_roots rs) ?s = Inr (end_collection cur s5)"
      by (simp add: finish_collection_def dfs rel)
  qed (use spec(1-6) spec(7) al mk in \<open>auto simp: s5\<close>)
qed

subsection \<open>Handles that stay\<close>

definition slots_hold :: "(slot_key \<times> nat) set \<Rightarrow> gc_client \<Rightarrow> bool" where
  "slots_hold M c \<longleftrightarrow> (\<forall>(k, h)\<in>M. cll_lookup (handle_list (sys c)) k = Some h)"

text \<open>A walk during which the handles in \<open>M\<close> stay in their slots.\<close>

abbreviation lasting_walk ::
    "u64 \<Rightarrow> (slot_key \<times> nat) set \<Rightarrow> root_search \<times> gc_client \<Rightarrow> root_search \<times> gc_client \<Rightarrow> bool" where
  "lasting_walk cur M \<equiv> (\<lambda>x y. root_step cur x y \<and> slots_hold M (snd y))\<^sup>*\<^sup>*"

lemma lasting_walk_steps: "lasting_walk cur M x y \<Longrightarrow> (root_step cur)\<^sup>*\<^sup>* x y"
  by (erule rtranclp_mono [THEN predicate2D, rotated]) blast

lemma quiet_walk_lasting:
  "quiet_walk cur x y \<Longrightarrow> slots_hold M (snd x) \<Longrightarrow> lasting_walk cur M x y \<and> snd y = snd x"
proof (induction rule: rtranclp_induct)
  case (step y z)
  then show ?case by (auto intro: rtranclp.rtrancl_into_rtrancl)
qed simp

lemma lasting_found:
  assumes "lasting_walk cur M (root_search_start s3, c) (rs, c')" and "sys c = s3"
    and "race_inv ws s3 (root_search_start s3) c" and "slots_hold M c" and M: "(k, h) \<in> M"
    and "h_last_non_rooted (gc_handles s3 ! h) \<noteq> cur"
  shows "race_inv ws s3 rs c' \<and> slots_hold M c' \<and> fst k < length (rs_cursors rs) \<and>
    (snd k < rs_cursors rs ! fst k \<longrightarrow> h \<in> set (rs_roots rs))"
proof -
  note facts = race_facts [OF assms(3)]
  have hl: "cll_inv (handle_list s3)" using facts(6) assms(2) by simp
  then have wf: "chunk_wf (cll_head (handle_list s3))" by (simp add: cll_inv_def)
  have here: "cll_lookup (handle_list s3) k = Some h" using assms(2,4) M by (auto simp: slots_hold_def)
  then have "h \<in> live_handles s3" using lookup_live [OF hl] by blast
  then have h: "h < length (gc_handles s3)" using facts(1) assms(2) by (simp add: leads_home_def)
  have start: "fst k \<le> chunk_addr (cll_head (handle_list s3))"
    using chunk_slot_addr [OF wf, of "fst k" "snd k" h] here by (simp add: cll_lookup_def)
  show ?thesis
    using assms(1)
  proof (induction rule: rtranclp_induct2)
    case refl
    then show ?case
      using assms(3,4) start by (simp add: root_search_start_def nth_append del: replicate.simps)
  next
    case (step rs1 c1 rs2 c2)
    then have st: "root_step cur (rs1, c1) (rs2, c2)" and holds2: "slots_hold M c2"
      and inv1: "race_inv ws s3 rs1 c1" and holds1: "cll_lookup (handle_list (sys c1)) k = Some h"
      using M by (auto simp: slots_hold_def)
    have inv2: "race_inv ws s3 rs2 c2" by (rule race_inv_step [OF st inv1])
    from st show ?case
    proof cases
      case (visit a i)
      have flag: "h_last_non_rooted (gc_handles (sys c1) ! h) \<noteq> cur"
        using grows_handle [OF _ h] inv1 assms(6) by (simp add: race_inv_def)
      have mono: "set (rs_roots rs1) \<subseteq> set (visit_slot cur (sys c1) (a, i) (rs_roots rs1))"
        by (auto simp: visit_slot_def split: option.split)
      show ?thesis
      proof (cases "k = (a, i)")
        case True
        then have "h \<in> set (visit_slot cur (sys c1) (a, i) (rs_roots rs1))"
          using holds1 flag by (simp add: visit_slot_def)
        then show ?thesis using inv2 holds2 step(3) by (simp add: visit(1))
      next
        case False
        then show ?thesis
          using inv2 holds2 step(3) mono visit(3,4) by (cases k) (auto simp: visit(1) nth_list_update less_Suc_eq)
      qed
    next
      case (call op)
      then show ?thesis using inv2 holds2 step(3) by simp
    qed
  qed
qed

text \<open>Everything the search can get at from a handle.\<close>

definition found_from :: "u64 \<Rightarrow> gc_state \<Rightarrow> nat \<Rightarrow> nat set" where
  "found_from cur s h = insert (target s h) (spread cur s {h})"

lemma spread_mono: "d \<in> spread cur s Q \<Longrightarrow> Q \<subseteq> Q' \<Longrightarrow> d \<in> spread cur s Q'"
  by (induction rule: spread.induct) (auto intro: spread.intros)

lemma spread_tracked:
  assumes "race_inv ws s3 rs c" and "d \<in> spread cur (sys c) (set (rs_roots rs))"
  shows "d \<in> tracked (sys c)"
  using assms(2)
proof induction
  case (start h d)
  then have "leads_home (sys c) h" using assms(1) by (simp add: race_inv_def)
  then show ?case using points_to_unique [OF race_searchable(2) [OF assms(1)] start(2)] by (simp add: leads_home_def)
next
  case (follow d h d')
  then show ?case using race_searchable(1) [OF assms(1), of cur] by (simp add: searchable_def)
qed

text \<open>What \<open>begin_collection\<close> hands over is what the rest needs.\<close>

lemma begin_collection_hands_over:
  assumes inv: "client_inv c" and room: "number_room (sys c)" and run: "begin_collection (sys c) = Inr (cur, ws, s3)"
  shows "race_inv ws s3 (root_search_start s3) (c\<lparr>sys := s3\<rparr>)" and "distinct ws"
    and "d \<in> tracked s3 \<Longrightarrow> d \<notin> set ws \<Longrightarrow> mark_of s3 d = cur"
proof -
  obtain s2 where b: "begin_collection (sys c) = Inr (current_collection_number s2,
      filter (\<lambda>d. \<not> in_use s2 d) (par_iter (data_list s2)),
      observe_state (current_collection_number s2) (tracked s2) s2)"
    and g: "gc_inv [] (held c) (warrants c) s2" and num: "current_collection_number s2 = current_collection_number (sys c)"
    and sync: "synchronize_destructors ((sys c)\<lparr>gc_lock := True, atomic_spinlock := \<lparr>tracker = SENTINEL_VALUE\<rparr>\<rparr>) = Inr s2"
    and ctl: "dropper s2 = []" "data_list s2 = data_list (sys c)" "trigger s2 = trigger (sys c)" "gc_lock s2"
      "tracker (atomic_spinlock s2) = SENTINEL_VALUE"
    by (rule begin_collection_spec [OF inv room])
  then have eq: "cur = current_collection_number s2" "ws = filter (\<lambda>d. \<not> in_use s2 d) (par_iter (data_list s2))"
    "s3 = observe_state (current_collection_number s2) (tracked s2) s2"
    using run by simp_all
  have "current_collection_number s2 < current_collection_number s2 + 1" using room num by (simp add: number_room_def)
  note u = observed_unheld [OF g this, folded eq]
  show "d \<in> tracked s3 \<Longrightarrow> d \<notin> set ws \<Longrightarrow> mark_of s3 d = cur" by (rule u(3))
  show "distinct ws" using gc_inv_collectable [OF g] by (simp add: collectable_def eq)
  have s3: "dropper s3 = []" "data_list s3 = data_list (sys c)" "trigger s3 = trigger (sys c)" "gc_lock s3"
    "tracker (atomic_spinlock s3) = SENTINEL_VALUE"
    using ctl by (simp_all add: eq observe_state_def)
  then have "idle (unheld ws s3)" using inv by (simp add: client_inv_def idle_def) (simp add: unheld_def)
  then have "client_inv (unheld_client ws (c\<lparr>sys := s3\<rparr>))"
    using u(1) s3(1) by (simp add: client_inv_def pending_def)
  moreover have "held_up ws s3" using s3 u(2) by (simp add: held_up_def)
  ultimately show "race_inv ws s3 (root_search_start s3) (c\<lparr>sys := s3\<rparr>)"
    by (simp add: race_inv_def root_search_start_def grows_refl)
qed

text \<open>Data with a guard, and data made during the walk, has a mark that the clean-up respects.\<close>

lemma race_marks:
  assumes inv: "race_inv ws s3 rs c" and marks: "\<And>d. d \<in> tracked s3 \<Longrightarrow> d \<notin> set ws \<Longrightarrow> mark_of s3 d = cur"
    and bound: "\<forall>d\<in>tracked s3. d < length (gc_datas s3)" and d: "d \<in> tracked (sys c)" "d \<notin> tracked s3 \<or> d \<in> set (warrants c)"
  shows "mark_of (sys c) d = 0 \<or> mark_of (sys c) d = cur"
proof -
  have g: "grows s3 (sys c)" "client_inv (unheld_client ws c)" "held_up ws (sys c)" using inv by (simp_all add: race_inv_def)
  have len: "d < length (gc_datas (sys c))" using race_facts(3) [OF inv] d(1) by (simp add: data_ok_def)
  show ?thesis
  proof (cases "d < length (gc_datas s3)")
    case True
    then have tr: "d \<in> tracked s3" using g(1) d(1) by (simp add: grows_def)
    then have "d \<notin> set ws" using guarded_not_locked(2) [OF g(2,3)] d(2) by blast
    then have "mark_of s3 d = cur" using marks tr by blast
    then show ?thesis using g(1) True by (simp add: grows_def)
  next
    case False
    then show ?thesis using g(1) len by (simp add: grows_def)
  qed
qed

text \<open>
  However the calls of other threads interleave with the walk over the handles, the collection, undivided otherwise, ends
  without an error and without reading anything that is released. It keeps all that the search can get at
  from a handle that was not found inside of collected data and stayed in its slot while the
  walk went on, all data that was made in the meantime, and all data that somebody has a guard of at the end.
\<close>

theorem raced_collection_keeps_lasting:
  assumes "client_reachable c" and "number_room (sys c)"
    and "begin_collection (sys c) = Inr (cur, ws, s3)"
    and "lasting_walk cur M (root_search_start s3, c\<lparr>sys := s3\<rparr>) (rs, c4)"
    and "slots_hold M (c\<lparr>sys := s3\<rparr>)" and "\<forall>(k, h)\<in>M. h_last_non_rooted (gc_handles s3 ! h) \<noteq> cur"
    and "set (rs_cursors rs) \<subseteq> {CHUNK_SIZE}"
  shows "\<exists>s5. finish_collection cur ws (rs_roots rs) (sys c4) = Inr s5 \<and>
    (\<forall>(k, h)\<in>M. found_from cur (sys c4) h \<subseteq> tracked s5) \<and>
    tracked (sys c4) - tracked s3 \<subseteq> tracked s5 \<and> set (warrants c4) \<subseteq> tracked s5"
proof -
  have inv: "client_inv c" by (rule client_reachable_inv [OF assms(1)])
  note b = begin_collection_hands_over [OF inv assms(2,3)]
  have r: "race_inv ws s3 rs c4" by (rule race_inv_steps [OF lasting_walk_steps [OF assms(4)] b(1)])
  let ?R = "spread cur (sys c4) (set (rs_roots rs))"
  obtain s5 where s5: "finish_collection cur ws (rs_roots rs) (sys c4) = Inr s5"
    "tracked s5 = {d \<in> tracked (sys c4). d \<in> ?R \<or> mark_of (sys c4) d = 0 \<or> mark_of (sys c4) d = cur}"
    by (rule finish_raced [OF r b(2), of cur])
  have bound: "\<forall>d\<in>tracked s3. d < length (gc_datas s3)" using race_facts(3) [OF b(1)] by (simp add: data_ok_def)
  have kept: "d \<in> tracked s5" if "d \<in> tracked (sys c4)" "d \<notin> tracked s3 \<or> d \<in> set (warrants c4)" for d
    using race_marks [OF r b(3) bound that] that(1) by (simp add: s5(2))
  have "d \<in> tracked (sys c4)" if "d \<in> set (warrants c4)" for d
    using guarded_not_locked(1) [OF _ _ that] r unfolding race_inv_def by blast
  moreover have "found_from cur (sys c4) h \<subseteq> tracked s5" if M: "(k, h) \<in> M" for k h
  proof -
    note found = lasting_found [OF assms(4) _ b(1) assms(5) M]
    then have l: "slots_hold M c4" "fst k < length (rs_cursors rs)" "snd k < rs_cursors rs ! fst k \<longrightarrow> h \<in> set (rs_roots rs)"
      using assms(6) M by auto
    have "snd k < CHUNK_SIZE"
      using chunk_slot_addr [of "cll_head (handle_list (sys c4))" "fst k" "snd k" h] race_facts(6) [OF r] l(1) M
      by (auto simp: cll_inv_def slots_hold_def cll_lookup_def)
    moreover have "rs_cursors rs ! fst k = CHUNK_SIZE" using assms(7) nth_mem [OF l(2)] by blast
    ultimately have h: "h \<in> set (rs_roots rs)" using l(3) by simp
    then have home: "leads_home (sys c4) h" using r by (simp add: race_inv_def)
    have in_R: "d \<in> tracked s5" if "d \<in> ?R" for d using spread_tracked [OF r that] that by (simp add: s5(2))
    have "target (sys c4) h \<in> tracked s5"
    proof (cases "fresh cur (sys c4) (target (sys c4) h)")
      case True
      from spread.start [OF h race_searchable(2) [OF r home] this] show ?thesis by (rule in_R)
    next
      case False
      with home show ?thesis by (auto simp: s5(2) leads_home_def fresh_def)
    qed
    moreover have "spread cur (sys c4) {h} \<subseteq> tracked s5"
      using in_R spread_mono [of _ cur "sys c4" "{h}" "set (rs_roots rs)"] h by blast
    ultimately show ?thesis by (simp add: found_from_def)
  qed
  ultimately show ?thesis using s5(1) kept by blast
qed

text \<open>Without any call in between, the walk finds the roots of the sequential definition.\<close>

lemma undisturbed_collection:
  assumes "client_inv c" and "number_room (sys c)" and "collect (sys c) = Inr s"
  shows "raced_collect c (c\<lparr>sys := s\<rparr>)"
proof -
  obtain s2 where b: "begin_collection (sys c) = Inr (current_collection_number s2,
      filter (\<lambda>d. \<not> in_use s2 d) (par_iter (data_list s2)),
      observe_state (current_collection_number s2) (tracked s2) s2)"
    by (rule begin_collection_spec [OF assms(1,2)])
  let ?cur = "current_collection_number s2" and ?s3 = "observe_state (current_collection_number s2) (tracked s2) s2"
  let ?n = "Suc (chunk_addr (cll_head (handle_list ?s3)))"
  have "chunk_wf (cll_head (handle_list ?s3))"
    using race_facts(6) [OF begin_collection_hands_over(1) [OF assms(1,2) b]] by (simp add: cll_inv_def)
  from visit_rest [of _ "c\<lparr>sys := ?s3\<rparr>" ?cur "[]" "[]", OF this]
  have "(root_step ?cur)\<^sup>*\<^sup>* (root_search_start ?s3, c\<lparr>sys := ?s3\<rparr>)
      (\<lparr>rs_cursors = replicate ?n CHUNK_SIZE, rs_roots = find_roots ?cur ?s3\<rparr>, c\<lparr>sys := ?s3\<rparr>)"
    by (simp add: root_search_start_def find_roots_def par_iter_def cll_lookup_def del: replicate.simps)
  from raced_collect.intros [OF b this] assms(3) show ?thesis
    by (simp add: collect_split b del: replicate.simps)
qed

subsection \<open>A pointer that gets away\<close>

text \<open>
  The free queue is first in, first out, so a clone lands behind its source only after the queue has
  come round. A client that clones its only pointer and drops the old one again and again gets there.
  \<open>sole c r k js\<close>: \<open>r\<close> is the only pointer of \<open>c\<close>; its handle is in slot \<open>k\<close> of
  the one chunk, whose free slots are \<open>js\<close>.
\<close>

definition sole :: "gc_client \<Rightarrow> internal_ref \<Rightarrow> nat \<Rightarrow> nat list \<Rightarrow> bool" where
  "sole c r k js \<longleftrightarrow> held c = [r] \<and> h_underlying_data (gc_handles (sys c) ! item_v r) = Fixed 0 \<and>
     cll_lookup (handle_list (sys c)) (0, k) = Some (item_v r) \<and>
     item_key r = (0, k) \<and> cll_inv (handle_list (sys c)) \<and>
     free_entries (handle_list (sys c)) = map (Pair 0) js \<and> chunk_addr (cll_head (handle_list (sys c))) = 0"

text \<open>Cloning the pointer puts its new handle into the first free slot.\<close>

lemma clone_slot:
  assumes "insert_handle u s = (q, s')" and "free_entries (handle_list s) = (b, i) # rest"
  shows "item_key q = (b, i)" and "free_entries (handle_list s') = rest"
    and "chunk_addr (cll_head (handle_list s')) = chunk_addr (cll_head (handle_list s))"
  using assms by (auto simp: insert_handle_def Let_def cll_insert.simps [of _ "handle_list s"] item_key_def)

lemma drop_slot:
  assumes "registered s r"
  shows "free_entries (handle_list (drop_handle r s)) = free_entries (handle_list s) @ [item_key r]"
    and "chunk_addr (cll_head (handle_list (drop_handle r s))) = chunk_addr (cll_head (handle_list s))"
  using assms by (auto simp: registered_def drop_handle_def cll_remove_def Let_def item_key_def cll_lookup_def)

lemma sole_is_gc:
  "sole c r k js \<Longrightarrow> is_gc c r \<and> target (sys c) (item_v r) = 0 \<and> registered (sys c) r"
  by (simp add: sole_def is_gc_def visible_def target_def registered_def)

lemma sole_cong:
  "sole c r k js \<Longrightarrow> handle_list s' = handle_list (sys c) \<Longrightarrow> gc_handles s' = gc_handles (sys c) \<Longrightarrow>
     sole (c\<lparr>sys := s'\<rparr>) r k js"
  by (simp add: sole_def)

lemma sole_free:
  assumes "sole c r k js"
  shows "j \<in> set js \<Longrightarrow> cll_lookup (handle_list (sys c)) (0, j) = None" and "k \<notin> set js"
proof -
  have free: "cll_lookup (handle_list (sys c)) (0, j) = None" if "j \<in> set js" for j
  proof -
    have "(0, j) \<in> set (free_entries (handle_list (sys c)))" using assms that by (simp add: sole_def)
    moreover have "cll_inv (handle_list (sys c))" using assms by (simp add: sole_def)
    ultimately show ?thesis unfolding cll_inv_def by blast
  qed
  then show "j \<in> set js \<Longrightarrow> cll_lookup (handle_list (sys c)) (0, j) = None" .
  show "k \<notin> set js"
  proof
    assume "k \<in> set js"
    then have "cll_lookup (handle_list (sys c)) (0, k) = None" by (rule free)
    then show False using assms by (simp add: sole_def)
  qed
qed

lemma sole_respin:
  assumes sole: "sole c r k (j # js)"
  obtains c1 c2 q where "client_run (CloneGc r) c = Inr c1" and "client_run (DropRef r) c1 = Inr c2"
    and "client_may (DropRef r) c1" and "sole c2 q j (js @ [k])" and "warrants c2 = warrants c"
    and "gc_datas (sys c2) = gc_datas (sys c)" and "gc_heap (sys c2) = gc_heap (sys c)"
    and "data_list (sys c2) = data_list (sys c)" and "dropper (sys c2) = dropper (sys c)"
    and "current_collection_number (sys c2) = current_collection_number (sys c)"
proof -
  let ?s = "sys c"
  have gc: "is_gc c r" and tg: "target ?s (item_v r) = 0" and held: "held c = [r]" and reg: "registered ?s r"
    and inv: "cll_inv (handle_list ?s)" and free: "free_entries (handle_list ?s) = (0, j) # map (Pair 0) js"
    and key: "item_key r = (0, k)"
    using sole sole_is_gc [OF sole] by (simp_all add: sole_def)
  obtain q s1 where ins: "insert_handle (Fixed 0) ?s = (q, s1)" by (cases "insert_handle (Fixed 0) ?s")
  let ?c1 = "c\<lparr>sys := s1, held := [q, r]\<rparr>" and ?s2 = "drop_handle r s1"
  let ?c2 = "c\<lparr>sys := ?s2, held := [q]\<rparr>"
  note sl = clone_slot [OF ins free] and fr = insert_handle_frame [OF ins]
  obtain hl where put: "cll_insert (length (gc_handles ?s)) (handle_list ?s) = (q, hl)" "handle_list s1 = hl"
    using ins by (auto simp: insert_handle_def Let_def split: prod.splits)
  have inv1: "cll_inv (handle_list s1)" using insert_handle_live(2) [OF inv ins] .
  have kj: "k \<noteq> j" using sole_free(2) [OF sole] by simp
  then have ne: "q \<noteq> r" using sl(1) key by auto
  have law: "cll_lookup (handle_list s1) = (cll_lookup (handle_list ?s))((0, j) \<mapsto> item_v q)"
    using cs.put_law [OF inv put(1)] put(2) sl(1) by simp
  then have reg1: "registered s1 r" using reg key kj by (simp add: registered_def)
  have "cll_lookup (handle_list ?s2) (0, j) = Some (item_v q)"
    using reg1 law kj key sl(1) by (simp add: registered_def drop_handle_def cs.take_lookup [OF inv1])
  moreover have "h_underlying_data (gc_handles ?s2 ! item_v q) = Fixed 0"
    using fr(2) by (simp add: drop_handle_def)
  moreover have "cll_inv (handle_list ?s2)" using cs.take_invar [OF inv1] by (simp add: drop_handle_def)
  ultimately have "sole ?c2 q j (js @ [k])"
    using drop_slot [OF reg1] sl key sole by (simp add: sole_def)
  moreover have "client_run (CloneGc r) c = Inr ?c1"
    using ins is_gc_data(1) [OF gc] held by (simp add: gc_clone_def clone_handle_def ptr_at_def gain_def tg)
  moreover have "client_run (DropRef r) ?c1 = Inr ?c2" using ne by (simp add: gc_drop_def ptr_at_def)
  moreover have "gc_datas ?s2 = gc_datas ?s" "gc_heap ?s2 = gc_heap ?s" "data_list ?s2 = data_list ?s"
    "dropper ?s2 = dropper ?s" "current_collection_number ?s2 = current_collection_number ?s"
    using fr by (simp_all add: drop_handle_def)
  ultimately show thesis by (intro that [of ?c1 ?c2 q]) simp_all
qed

text \<open>After \<open>k\<close> rounds the handle is in slot \<open>k\<close>.\<close>

definition spinning :: "nat \<Rightarrow> gc_client \<Rightarrow> internal_ref \<Rightarrow> bool" where
  "spinning k c r \<longleftrightarrow> client_reachable c \<and> sole c r k ([Suc k..<CHUNK_SIZE] @ [0..<k]) \<and> warrants c = [] \<and>
     tracked (sys c) = {0} \<and> block_val (sys c) 0 = V_Plain 7 \<and> dropper (sys c) = [] \<and>
     current_collection_number (sys c) = 2"

lemma spin_once:
  assumes spin: "spinning k c r" and k: "Suc k < CHUNK_SIZE"
  obtains c' q where "spinning (Suc k) c' q"
proof -
  let ?js = "[Suc (Suc k)..<CHUNK_SIZE] @ [0..<k]"
  have "sole c r k (Suc k # ?js)" using spin k by (simp add: spinning_def upt_conv_Cons)
  then obtain c1 c2 q where run: "client_run (CloneGc r) c = Inr c1" "client_run (DropRef r) c1 = Inr c2"
      and may: "client_may (DropRef r) c1" and sole: "sole c2 q (Suc k) (?js @ [k])" and w: "warrants c2 = warrants c"
      and same: "gc_datas (sys c2) = gc_datas (sys c)" "gc_heap (sys c2) = gc_heap (sys c)"
        "data_list (sys c2) = data_list (sys c)" "dropper (sys c2) = dropper (sys c)"
        "current_collection_number (sys c2) = current_collection_number (sys c)"
    by (rule sole_respin)
  have "client_reachable c" "is_gc c r" using spin sole_is_gc by (auto simp: spinning_def)
  then have "client_reachable c1" using client_reachable.step [OF _ _ run(1)] by simp
  then have "client_reachable c2" using may run(2) by (rule client_reachable.step)
  moreover note sd = same_data [OF same(2,1,3)]
  ultimately have "spinning (Suc k) c2 q" using spin sole w same by (simp add: spinning_def sd)
  then show thesis by (rule that)
qed

lemma spin_start:
  obtains c r where "spinning 0 c r"
proof -
  obtain g s where new: "gc_new (V_Plain 7) collector_new = (g, s)"
    and re: "client_reachable \<lparr>sys = s, held = [backing_handle g], warrants = []\<rparr>" (is "client_reachable ?c")
    and gc: "is_gc \<lparr>sys = s, held = [backing_handle g], warrants = []\<rparr> (backing_handle g)"
    by (rule first_pointer [of "V_Plain 7"]) (simp_all add: at_most_one_panic_def)
  obtain al t where ins: "insert_handle (Fixed 0) t = (backing_handle g, al)" and t: "handle_list t = cll_new"
    and s: "handle_list s = handle_list al"
    using new
    by (auto simp: gc_new_def gc_of_def track_with_drop_def track_allocated_def track_def setup_gc_reference_def
        track_from_token_def notify_async_gc_thread_def Let_def collector_new_def split: prod.splits)
  have "free_entries (handle_list t) = (0, 0) # map (Pair 0) [1..<CHUNK_SIZE]"
    by (simp add: t cll_new_def upt_conv_Cons)
  note sl = clone_slot [OF ins this]
  have addr: "chunk_addr (cll_head (handle_list s)) = 0" using sl(3) by (simp add: s t) (simp add: cll_new_def)
  have g: "gc_inv (pending s) [backing_handle g] [] s" using client_gc_inv [OF client_reachable_inv [OF re]] by simp
  then have "registered s (backing_handle g)" "cll_inv (handle_list s)"
    by (simp_all add: gc_invx_def refs_ok_def refs_def lists_ok_def)
  moreover have "h_underlying_data (gc_handles s ! item_v (backing_handle g)) = Fixed 0"
    using is_gc_data(2) [OF gc] first_gc [OF new] by simp
  ultimately have "spinning 0 ?c (backing_handle g)"
    using first_gc [OF new] re sl addr by (simp add: spinning_def sole_def s registered_def)
  then show thesis by (rule that)
qed

lemma spin_round:
  assumes "k < CHUNK_SIZE"
  shows "\<exists>c r. spinning k c r"
  using assms
proof (induction k)
  case 0
  then show ?case using spin_start by metis
next
  case (Suc k)
  then obtain c r where "spinning k c r" by auto
  with Suc(2) show ?case using spin_once by metis
qed

text \<open>The state a collection of such a client searches for roots in.\<close>

lemma spinning_begins:
  assumes spin: "spinning k c r"
  obtains ws s3 where "begin_collection (sys c) = Inr (2, ws, s3)" and "number_room (sys c)"
    and "sole (c\<lparr>sys := s3\<rparr>) r k ([Suc k..<CHUNK_SIZE] @ [0..<k])" and "tracked s3 = {0}"
    and "mark_of s3 0 \<noteq> 0" and "mark_of s3 0 \<noteq> 2" and "dropper s3 = []" and "block_val s3 0 = V_Plain 7"
    and "h_last_non_rooted (gc_handles s3 ! item_v r) \<noteq> 2"
proof -
  have inv: "client_inv c" using spin by (auto simp: spinning_def intro: client_reachable_inv)
  have room: "number_room (sys c)" using spin by (simp add: spinning_def number_room_def)
  obtain s2 where b: "begin_collection (sys c) = Inr (current_collection_number s2,
      filter (\<lambda>d. \<not> in_use s2 d) (par_iter (data_list s2)),
      observe_state (current_collection_number s2) (tracked s2) s2)"
    and g: "gc_inv [] (held c) (warrants c) s2"
    and cur: "current_collection_number s2 = current_collection_number (sys c)"
    and sync: "synchronize_destructors ((sys c)\<lparr>gc_lock := True, atomic_spinlock := \<lparr>tracker = SENTINEL_VALUE\<rparr>\<rparr>) = Inr s2"
    and dr: "dropper s2 = []" and dl: "data_list s2 = data_list (sys c)"
    by (rule begin_collection_spec [OF inv room])
  let ?s3 = "observe_state 2 {0} s2"
  have s2: "s2 = (sys c)\<lparr>gc_lock := True, atomic_spinlock := \<lparr>tracker = SENTINEL_VALUE\<rparr>, dropper := []\<rparr>"
    using sync spin by (simp add: synchronize_destructors_def send_msg_def spinning_def)
  have tr: "tracked s2 = {0}" using dl spin by (simp add: tracked_def spinning_def)
  have two: "current_collection_number s2 = 2" using cur spin by (simp add: spinning_def)
  have bv: "block_val s2 0 = V_Plain 7" using spin by (simp add: s2 spinning_def block_val_def addr_def)
  have ok: "data_ok s2 0" using all_data_ok [OF g] tr by (simp add: all_data_def tracked_def)
  then have len: "0 < length (gc_datas s2)" by (simp add: data_ok_def)
  have idle: "\<not> in_use s2 0" "mark_of s2 0 < 2"
    using g tr spin two by (auto simp: gc_invx_def warrants_ok_def marks_ok_def in_use_def spinning_def unat_eq_0)
  have none: "scanned s2 0 = {}" using scanned_ok [OF ok] by (simp add: bv)
  have h3: "gc_handles ?s3 = gc_handles s2" by (simp add: observe_state_def none upd_all_def map_nth cong: if_cong)
  have nd: "gc_datas ?s3 ! 0 = observed 2 (gc_datas s2 ! 0)" using len by (simp add: observe_state_def)
  have "mark_of ?s3 0 \<noteq> 0" "mark_of ?s3 0 \<noteq> 2"
    using idle by (auto simp: mark_of_def nd observed_def in_use_def)
  moreover have bv3: "block_val ?s3 0 = V_Plain 7"
    using bv by (simp add: block_val_def addr_def nd observed_def) (simp add: observe_state_def)
  moreover have tr3: "tracked ?s3 = {0}" "dropper ?s3 = []"
    using tr dr by (simp_all add: observe_state_def tracked_def)
  moreover have "sole (c\<lparr>sys := ?s3\<rparr>) r k ([Suc k..<CHUNK_SIZE] @ [0..<k])"
  proof (rule sole_cong)
    show "gc_handles ?s3 = gc_handles (sys c)" unfolding h3 by (simp add: s2)
    show "handle_list ?s3 = handle_list (sys c)" by (simp add: observe_state_def s2)
  qed (use spin in \<open>simp add: spinning_def\<close>)
  moreover have "h_last_non_rooted (gc_handles ?s3 ! item_v r) \<noteq> 2"
  proof -
    have "item_v r < length (gc_handles s2)"
      using live_bound [OF g gc_inv_target(1) [OF g]] spin by (simp add: spinning_def sole_def)
    then show ?thesis using g two by (auto simp: gc_invx_def marks_ok_def h3)
  qed
  ultimately show thesis using b room by (intro that [of _ ?s3]) (simp_all add: two tr)
qed

lemma walk_one_chunk:
  assumes "\<And>j. i \<le> j \<Longrightarrow> j < m \<Longrightarrow> cll_lookup (handle_list (sys c)) (0, j) = None" and "i \<le> m" and "m \<le> CHUNK_SIZE"
  shows "(root_step cur)\<^sup>*\<^sup>* (\<lparr>rs_cursors = [i], rs_roots = roots\<rparr>, c) (\<lparr>rs_cursors = [m], rs_roots = roots\<rparr>, c)"
proof -
  have "fold (\<lambda>j. visit_slot cur (sys c) (0, j)) js roots = roots" if "set js \<subseteq> {i..<m}" for js
    using that by (induction js) (auto simp: visit_slot_def assms(1))
  then show ?thesis using quiet_walk_steps [OF root_walk [of 0 "[i]" m cur roots c]] assms(2,3) by simp
qed

lemma spinning_start:
  "sole c r k js \<Longrightarrow> root_search_start (sys c) = \<lparr>rs_cursors = [0], rs_roots = []\<rparr>"
  by (simp add: root_search_start_def sole_def)

text \<open>
  The walk has passed the free slots in front of the last one when the client clones its pointer into
  the first and drops the old one.
\<close>

lemma spinning_missed:
  assumes spin: "spinning (CHUNK_SIZE - 1) c r" and b: "begin_collection (sys c) = Inr (2, ws, s3)"
    and sole: "sole (c\<lparr>sys := s3\<rparr>) r (CHUNK_SIZE - 1) [0..<CHUNK_SIZE - 1]"
  obtains c4 q js where "(root_step 2)\<^sup>*\<^sup>* (root_search_start s3, c\<lparr>sys := s3\<rparr>)
      (\<lparr>rs_cursors = [CHUNK_SIZE], rs_roots = []\<rparr>, c4)" and "sole c4 q 0 js"
    and "gc_datas (sys c4) = gc_datas s3" and "data_list (sys c4) = data_list s3" and "dropper (sys c4) = dropper s3"
proof -
  let ?c = "c\<lparr>sys := s3\<rparr>" and ?n = "CHUNK_SIZE - 1"
  let ?rs = "\<lambda>i. \<lparr>rs_cursors = [i], rs_roots = []\<rparr>"
  have n: "?n < CHUNK_SIZE" "Suc ?n = CHUNK_SIZE" by (simp_all add: CHUNK_SIZE_def)
  have "0 < ?n" by (simp add: CHUNK_SIZE_def)
  from upt_conv_Cons [OF this] have js: "[0..<?n] = 0 # [1..<?n]" by simp
  obtain c1 c2 q where run: "client_run (CloneGc r) ?c = Inr c1" "client_run (DropRef r) c1 = Inr c2"
      and may: "client_may (DropRef r) c1" and sole2: "sole c2 q 0 ([1..<?n] @ [?n])" and "warrants c2 = warrants ?c"
      and same: "gc_datas (sys c2) = gc_datas (sys ?c)" "gc_heap (sys c2) = gc_heap (sys ?c)"
        "data_list (sys c2) = data_list (sys ?c)" "dropper (sys c2) = dropper (sys ?c)"
    by (rule sole_respin [OF sole [unfolded js]])
  have "(root_step 2)\<^sup>*\<^sup>* (?rs 0, ?c) (?rs ?n, ?c)"
    by (rule walk_one_chunk) (use sole_free(1) [OF sole] n in simp_all)
  also have "root_step 2 (?rs ?n, ?c) (?rs ?n, c1)"
    by (rule root_step.call [OF _ run(1)]) (use sole_is_gc [OF sole] in simp)
  also have "root_step 2 (?rs ?n, c1) (?rs ?n, c2)" by (rule root_step.call [OF may run(2)])
  also have "(root_step 2)\<^sup>*\<^sup>* (?rs ?n, c2) (?rs CHUNK_SIZE, c2)"
  proof (rule walk_one_chunk)
    fix j assume "?n \<le> j" "j < CHUNK_SIZE"
    then have "j = ?n" using n by linarith
    then show "cll_lookup (handle_list (sys c2)) (0, j) = None" using sole_free(1) [OF sole2] by simp
  qed (use n in linarith, rule order_refl)
  finally show thesis using sole2 same spinning_start [OF sole] by (intro that) simp_all
qed

text \<open>The dropper then ends the block.\<close>

lemma dropper_ends:
  assumes "dropper s = [DataToDrop [d]]" and "data_ok s d"
  obtains s' where "synchronize_destructors s = Inr s'" and "released {d} {d} s s'"
proof -
  have "data_ok (mark_deallocated d (s\<lparr>dropper := []\<rparr>)) d"
    using assms(2) by (simp add: data_ok_def mark_deallocated_def upd_data_def addr_def block_val_def)
  then obtain s' where "run_drop d (mark_deallocated d (s\<lparr>dropper := []\<rparr>)) = Inr s'"
    by (rule deallocate_data_ok) (simp add: run_drop_def)
  then have "synchronize_destructors s = Inr s'"
    using assms(1) by (simp add: synchronize_destructors_def send_msg_def)
  moreover from synchronize_released [OF this] have "released {d} {d} s s'"
    using assms(1) by (simp add: pending_def)
  ultimately show thesis by (rule that)
qed

lemma raced_loss:
  obtains c c' q s' where "client_reachable c" and "raced_collect c c'" and "held c' = [q]" and "is_gc c' q"
    and "synchronize_destructors (sys c') = Inr s'"
    and "released {target (sys c') (item_v q)} {target (sys c') (item_v q)} (sys c') s'"
    and "target (sys c') (item_v q) < length (gc_datas (sys c'))"
proof -
  let ?n = "CHUNK_SIZE - 1"
  have n: "?n < CHUNK_SIZE" "Suc ?n = CHUNK_SIZE" by (simp_all add: CHUNK_SIZE_def)
  obtain c r where spin: "spinning ?n c r" using spin_round [OF n(1)] by blast
  then have re: "client_reachable c" by (simp add: spinning_def)
  obtain ws s3 where b: "begin_collection (sys c) = Inr (2, ws, s3)" and room: "number_room (sys c)"
    and sole: "sole (c\<lparr>sys := s3\<rparr>) r ?n ([Suc ?n..<CHUNK_SIZE] @ [0..<?n])" and tr: "tracked s3 = {0}"
    and mark: "mark_of s3 0 \<noteq> 0" "mark_of s3 0 \<noteq> 2" and dr: "dropper s3 = []"
    by (rule spinning_begins [OF spin])
  have sole': "sole (c\<lparr>sys := s3\<rparr>) r ?n [0..<?n]" using sole unfolding n(2) by simp
  obtain c4 q js where walk: "(root_step 2)\<^sup>*\<^sup>* (root_search_start s3, c\<lparr>sys := s3\<rparr>)
      (\<lparr>rs_cursors = [CHUNK_SIZE], rs_roots = []\<rparr>, c4)" and sole4: "sole c4 q 0 js"
    and same3: "gc_datas (sys c4) = gc_datas s3" "data_list (sys c4) = data_list s3" "dropper (sys c4) = dropper s3"
    by (rule spinning_missed [OF spin b sole'])
  let ?rs = "\<lparr>rs_cursors = [CHUNK_SIZE], rs_roots = []\<rparr>"
  note hand = begin_collection_hands_over [OF client_reachable_inv [OF re] room b]
  have inv4: "race_inv ws s3 ?rs c4" by (rule race_inv_steps [OF walk hand(1)])
  note same = same3 [unfolded dr]
  obtain s5 where fin: "finish_collection 2 ws (rs_roots ?rs) (sys c4) = Inr s5"
    and tr5: "tracked s5 = {d \<in> tracked (sys c4). d \<in> spread 2 (sys c4) (set (rs_roots ?rs)) \<or>
           mark_of (sys c4) d = 0 \<or> mark_of (sys c4) d = 2}"
    and dr5: "dropper s5 = dropper (sys c4) @ [DataToDrop (filter (\<lambda>d. d \<notin> tracked s5) (par_iter (data_list (sys c4))))]"
    and frame: "gc_heap s5 = gc_heap (sys c4)" "gc_handles s5 = gc_handles (sys c4)"
      "\<forall>d<length (gc_datas (sys c4)). d_allocation (gc_datas s5 ! d) = d_allocation (gc_datas (sys c4) ! d)"
      "length (gc_datas s5) = length (gc_datas (sys c4))" "atomics s5 = atomics (sys c4)"
    by (rule finish_raced [OF inv4 hand(2), of 2])
  let ?c' = "c4\<lparr>sys := s5\<rparr>"
  have ok4: "data_ok (sys c4) 0" using race_facts(3) [OF inv4] tr same by (simp add: tracked_def)
  then have len: "0 < length (gc_datas (sys c4))" by (simp add: data_ok_def)
  have same0: "addr s5 0 = addr (sys c4) 0" "block_val s5 0 = block_val (sys c4) 0"
    using frame len by (simp_all add: addr_def block_val_def)
  then have ok5: "data_ok s5 0" using ok4 frame len by (simp add: data_ok_def)
  have "d \<notin> spread 2 (sys c4) {}" for d
  proof
    assume "d \<in> spread 2 (sys c4) {}" then show False by induction simp_all
  qed
  then have "tracked s5 = {}" using tr5 tr mark same by (auto simp: tracked_def mark_of_def)
  moreover have "par_iter (data_list s3) = [0]"
    using race_facts(5) [OF hand(1)] tr by (cases "par_iter (data_list s3)") (auto simp: tracked_def insert_eq_iff subset_singleton_iff)
  ultimately have "dropper s5 = [DataToDrop [0]]" using dr5 same by simp
  then obtain s' where s': "synchronize_destructors s5 = Inr s'" "released {0} {0} s5 s'"
    using dropper_ends ok5 by metis
  have "sole ?c' q 0 js \<or> h_underlying_data (gc_handles s5 ! item_v q) = Fixed 0 \<and> held ?c' = [q]"
    using sole4 frame by (simp add: sole_def)
  then have h: "h_underlying_data (gc_handles s5 ! item_v q) = Fixed 0" "held ?c' = [q]" by (auto simp: sole_def)
  then have gc: "is_gc ?c' q" "target s5 (item_v q) = 0" by (simp_all add: is_gc_def visible_def target_def)
  have "raced_collect c ?c'" by (rule raced_collect.intros [OF b walk _ fin]) simp
  then show thesis using re h gc s' len frame by (intro that [of c ?c' q s']) simp_all
qed

text \<open>
  C14: A client that only clones and drops its pointers can lose its data to a collection that
  runs beside it. Its pointer is cloned into a slot that the walk over the handles has passed, and the
  old pointer is dropped before the walk gets there: neither is taken for a root. The client
  still holds the clone; \<open>get\<close> on it panics, and \<open>deref\<close> on the same pointer as a
  \<open>DerefGc\<close> reads a block that has been freed.
\<close>

theorem raced_collection_loses_data:
  "\<exists>c c' q s'. client_reachable c \<and> raced_collect c c' \<and> held c' = [q] \<and> is_gc c' q \<and>
     synchronize_destructors (sys c') = Inr s' \<and>
     gc_get (ptr_at (sys c') q) s' = Inl Panic \<and> deref_gc_deref (ptr_at (sys c') q) s' = Inl Undefined"
proof -
  obtain c c' q s' where re: "client_reachable c" "raced_collect c c'" and q: "held c' = [q]" "is_gc c' q"
    and sync: "synchronize_destructors (sys c') = Inr s'"
    and rel: "released {target (sys c') (item_v q)} {target (sys c') (item_v q)} (sys c') s'"
    and len: "target (sys c') (item_v q) < length (gc_datas (sys c'))"
    by (rule raced_loss)
  let ?d = "target (sys c') (item_v q)"
  have "ref_data q s' = ref_data q (sys c')" using rel by (simp add: released_def ref_data_def)
  then have "ref_data (backing_handle (ptr_at (sys c') q)) s' = Inr ?d"
    using is_gc_data(1) [OF q(2)] by (simp add: ptr_at_def)
  moreover have "d_deallocated (gc_datas s' ! ?d)" using rel len by (simp add: released_def)
  ultimately have "gc_get (ptr_at (sys c') q) s' = Inl Panic" by (rule gc_get_deallocated)
  moreover have "ended s' (addr (sys c') ?d)" using rel by (simp add: released_def)
  then have "deref_gc_deref (ptr_at (sys c') q) s' = Inl Undefined"
    by (auto simp: deref_gc_deref_def ptr_at_def read_cell_def ended_def split: if_splits)
  ultimately show ?thesis using re q sync by blast
qed

theorem raced_collection_keeps_lasting_witness:
  "\<exists>c r ws s3 rs s5. spinning 0 c r \<and> begin_collection (sys c) = Inr (2, ws, s3) \<and>
     lasting_walk 2 {((0, 0), item_v r)} (root_search_start s3, c\<lparr>sys := s3\<rparr>) (rs, c\<lparr>sys := s3\<rparr>) \<and>
     finish_collection 2 ws (rs_roots rs) s3 = Inr s5 \<and> found_from 2 s3 (item_v r) \<subseteq> tracked s5"
proof -
  obtain c r where spin: "spinning 0 c r" by (rule spin_start)
  then have re: "client_reachable c" by (simp add: spinning_def)
  obtain ws s3 where b: "begin_collection (sys c) = Inr (2, ws, s3)" and room: "number_room (sys c)"
    and sole: "sole (c\<lparr>sys := s3\<rparr>) r 0 ([Suc 0..<CHUNK_SIZE] @ [0..<0])"
    and flag: "h_last_non_rooted (gc_handles s3 ! item_v r) \<noteq> 2"
    by (rule spinning_begins [OF spin])
  let ?c = "c\<lparr>sys := s3\<rparr>"
  let ?M = "{((0, 0), item_v r)}"
  have holds: "slots_hold ?M ?c" using sole by (simp add: slots_hold_def sole_def)
  have flags: "\<forall>(k, h)\<in>?M. h_last_non_rooted (gc_handles s3 ! h) \<noteq> 2" using flag by simp
  define rs where "rs = \<lparr>rs_cursors = [CHUNK_SIZE],
    rs_roots = fold (\<lambda>j. visit_slot 2 s3 (0, j)) [0..<CHUNK_SIZE] []\<rparr>"
  have start: "root_search_start s3 = \<lparr>rs_cursors = [0], rs_roots = []\<rparr>" using spinning_start [OF sole] by simp
  have "quiet_walk 2 (root_search_start s3, ?c) (rs, ?c)"
    using root_walk [of 0 "[0]" CHUNK_SIZE 2 "[]" ?c] unfolding start rs_def by simp
  from quiet_walk_lasting [OF this, of ?M] holds
  have walk: "lasting_walk 2 ?M (root_search_start s3, ?c) (rs, ?c)" unfolding snd_conv by blast
  have "set (rs_cursors rs) \<subseteq> {CHUNK_SIZE}" by (simp add: rs_def)
  from raced_collection_keeps_lasting [OF re room b walk holds flags this] obtain s5
    where "finish_collection 2 ws (rs_roots rs) s3 = Inr s5" "found_from 2 s3 (item_v r) \<subseteq> tracked s5"
    by auto
  with spin b walk show ?thesis by blast
qed

end
