(* ===== verification/Parallel_Mark.thy ===== *)
theory Parallel_Mark
  imports Client_Safety
begin

text \<open>
  The search of \<open>do_collect\<close> (\<open>src/collector/collect_impl.rs\<close>) as it runs: any number of worker
  threads share a queue of handles and interleave their accesses to the marks. \<open>Collect.dfs\<close> is
  the run of a single worker. The theorems show that every run marks what that one marks, that no two workers
  scan the same data, and that the workers neither get stuck nor go on for ever.

  A worker has taken a handle and loaded the data it leads to (\<open>Visiting\<close>), has found the data not to be new
  and is about to swap its mark (\<open>Swapping\<close>), has found it unmarked and is about to scan it
  (\<open>Scanning\<close>), or is in the callback of the scan with the handles that are left (\<open>Enqueueing\<close>). The
  queue gives its elements in any order.
\<close>

datatype worker = Idle | Visiting nat | Swapping nat | Scanning nat | Enqueueing nat "nat list"

type_synonym search = "nat list \<times> worker list \<times> gc_state"

inductive mark_step :: "u64 \<Rightarrow> search \<Rightarrow> search \<Rightarrow> bool" for cur where
  take_handle: "i < length ws \<Longrightarrow> ws ! i = Idle \<Longrightarrow> h \<in> set q \<Longrightarrow> with_data h s = Inr d \<Longrightarrow>
    mark_step cur (q, ws, s) (remove1 h q, ws[i := Visiting d], s)"
| load_mark: "i < length ws \<Longrightarrow> ws ! i = Visiting d \<Longrightarrow>
    mark_step cur (q, ws, s) (q, ws[i := if d_last_marked (gc_datas s ! d) \<noteq> 0 then Swapping d else Idle], s)"
| swap_mark: "i < length ws \<Longrightarrow> ws ! i = Swapping d \<Longrightarrow>
    mark_step cur (q, ws, s)
      (q, ws[i := if d_last_marked (gc_datas s ! d) \<noteq> cur then Scanning d else Idle], upd_data d (set_mark cur) s)"
| begin_scan: "i < length ws \<Longrightarrow> ws ! i = Scanning d \<Longrightarrow> scan_data d (upd_data d (set_mark cur) s) = Inr hs \<Longrightarrow>
    mark_step cur (q, ws, s) (q, ws[i := Enqueueing d (map item_v hs)], upd_data d (set_mark cur) s)"
| scanned_handle: "i < length ws \<Longrightarrow> ws ! i = Enqueueing d (h # hs) \<Longrightarrow> should_enqueue cur s h = Inr b \<Longrightarrow>
    mark_step cur (q, ws, s) (if b then q @ [h] else q, ws[i := Enqueueing d hs], s)"
| end_scan: "i < length ws \<Longrightarrow> ws ! i = Enqueueing d [] \<Longrightarrow> mark_step cur (q, ws, s) (q, ws[i := Idle], s)"

inductive_cases mark_stepE [elim]: "mark_step cur (q, ws, s) c"

definition search_done :: "search \<Rightarrow> bool" where
  "search_done c \<longleftrightarrow> fst c = [] \<and> set (fst (snd c)) \<subseteq> {Idle}"

fun scan_of :: "worker \<Rightarrow> nat option" where
  "scan_of (Scanning d) = Some d"
| "scan_of (Enqueueing d hs) = Some d"
| "scan_of _ = None"

subsection \<open>The invariant\<close>

text \<open>Someone will get to the data, from a handle in the queue or with the data already at hand.\<close>

definition due :: "gc_state \<Rightarrow> nat list \<Rightarrow> worker list \<Rightarrow> nat \<Rightarrow> bool" where
  "due s q ws d \<longleftrightarrow> (\<exists>h\<in>set q. points_to s h d) \<or> Visiting d \<in> set ws \<or> Swapping d \<in> set ws"

definition worker_ok :: "u64 \<Rightarrow> gc_state \<Rightarrow> nat set \<Rightarrow> nat set \<Rightarrow> worker \<Rightarrow> bool" where
  "worker_ok cur s T M w =
     (case w of
        Idle \<Rightarrow> True
      | Visiting d \<Rightarrow> d < length (gc_datas s) \<and> (fresh cur s d \<longrightarrow> d \<in> T)
      | Swapping d \<Rightarrow> d < length (gc_datas s) \<and> mark_of s d \<noteq> 0 \<and> (fresh cur s d \<longrightarrow> d \<in> T)
      | Scanning d \<Rightarrow> d \<in> M
      | Enqueueing d hs \<Rightarrow> d \<in> M \<and> set hs \<subseteq> scanned s d)"

definition followed :: "u64 \<Rightarrow> gc_state \<Rightarrow> nat set \<Rightarrow> nat list \<Rightarrow> worker list \<Rightarrow> nat \<Rightarrow> bool" where
  "followed cur s M q ws d \<longleftrightarrow>
     Scanning d \<in> set ws \<or>
     (\<forall>h\<in>scanned s d. \<forall>e. points_to s h e \<longrightarrow> fresh cur s e \<longrightarrow>
        e \<in> M \<or> due s q ws e \<or> (\<exists>hs. Enqueueing d hs \<in> set ws \<and> h \<in> set hs))"

text \<open>
  \<open>s\<close> is the state in which the search has begun, \<open>R\<close> the roots, \<open>T\<close> what is to be marked and \<open>M\<close>
  what is marked by now.
\<close>

definition search_inv :: "u64 \<Rightarrow> gc_state \<Rightarrow> nat set \<Rightarrow> nat set \<Rightarrow> nat set \<Rightarrow> search \<Rightarrow> bool" where
  "search_inv cur s R T M c =
     (case c of (q, ws, s') \<Rightarrow>
        s' = mark_all cur M s \<and> M \<subseteq> T \<and>
        (\<forall>h\<in>set q. \<exists>d. points_to s h d \<and> (fresh cur s d \<longrightarrow> d \<in> T)) \<and>
        (\<forall>w\<in>set ws. worker_ok cur s T M w) \<and>
        (\<forall>h\<in>R. \<forall>d. points_to s h d \<longrightarrow> fresh cur s d \<longrightarrow> d \<in> M \<or> due s q ws d) \<and>
        (\<forall>d\<in>M. followed cur s M q ws d) \<and>
        (\<forall>i<length ws. \<forall>j<length ws. scan_of (ws ! i) = scan_of (ws ! j) \<longrightarrow> scan_of (ws ! i) \<noteq> None \<longrightarrow> i = j))"

text \<open>What the search needs of the data it is to mark.\<close>

definition target_ok :: "u64 \<Rightarrow> gc_state \<Rightarrow> nat set \<Rightarrow> bool" where
  "target_ok cur s T \<longleftrightarrow>
     (\<forall>d\<in>T. d < length (gc_datas s) \<and> fresh cur s d \<and> scannable s d \<and>
        (\<forall>h\<in>scanned s d. \<forall>e. points_to s h e \<longrightarrow> fresh cur s e \<longrightarrow> e \<in> T))"

lemma target_okD:
  assumes "target_ok cur s T" and "d \<in> T"
  shows "d < length (gc_datas s)" and "fresh cur s d" and "scannable s d"
    and "h \<in> scanned s d \<Longrightarrow> points_to s h e \<Longrightarrow> fresh cur s e \<Longrightarrow> e \<in> T"
  using bspec [OF assms(1) [unfolded target_ok_def] assms(2)] by blast+

lemma spread_target:
  assumes ok: "searchable cur D s R"
  shows "target_ok cur s (spread cur s R)"
proof -
  have R: "\<exists>d. points_to s h d \<and> (fresh cur s d \<longrightarrow> d \<in> D)" if "h \<in> R" for h
    using ok that by (simp add: searchable_def)
  have D: "scannable s d" "\<forall>h\<in>scanned s d. \<forall>e. points_to s h e \<longrightarrow> fresh cur s e \<longrightarrow> e \<in> D" if "d \<in> D" for d
    using ok that by (simp_all add: searchable_def)
  have sp: "d \<in> D \<and> fresh cur s d" if "d \<in> spread cur s R" for d
    using that
  proof induction
    case (start h d)
    from R [OF start(1)] obtain e where e: "points_to s h e" "fresh cur s e \<longrightarrow> e \<in> D" by blast
    have "e = d" by (rule points_to_unique [OF start(2) e(1)])
    with e(2) start(3) show ?case by simp
  next
    case (follow d h d')
    then have "d \<in> D" by simp
    from D(2) [OF this] follow(2,3,4) show ?case by simp
  qed
  show ?thesis
    unfolding target_ok_def
  proof (intro ballI conjI allI impI)
    fix d assume d: "d \<in> spread cur s R"
    with sp have "d \<in> D" by simp
    with D(1) show "scannable s d" .
    then show "d < length (gc_datas s)" by (simp add: scannable_def)
    show "fresh cur s d" using sp [OF d] by simp
    fix h e assume "h \<in> scanned s d" "points_to s h e" "fresh cur s e"
    with d show "e \<in> spread cur s R" by (rule spread.follow)
  qed
qed

text \<open>One worker moves on; what it was to do is done, or handed on.\<close>

lemma kept_worker: "x \<in> set ws \<Longrightarrow> x \<noteq> ws ! i \<Longrightarrow> x \<in> set (ws[i := w])"
  by (metis in_set_conv_nth length_list_update nth_list_update_neq)

lemma worker_ok_mono: "worker_ok cur s T M w \<Longrightarrow> M \<subseteq> M' \<Longrightarrow> worker_ok cur s T M' w"
  by (cases w) (auto simp: worker_ok_def)

lemma search_inv_move:
  assumes inv: "search_inv cur s R T M (q, ws, mark_all cur M s)" and i: "i < length ws"
    and M: "M \<subseteq> M'" "M' \<subseteq> T"
    and q: "\<And>h. h \<in> set q' \<Longrightarrow> h \<in> set q \<or> (\<exists>d. points_to s h d \<and> (fresh cur s d \<longrightarrow> d \<in> T))"
    and w: "worker_ok cur s T M' w"
    and due: "\<And>e. fresh cur s e \<Longrightarrow> due s q ws e \<Longrightarrow> e \<in> M' \<or> due s q' (ws[i := w]) e"
    and scan: "\<And>d. scan_of (ws ! i) = Some d \<Longrightarrow> followed cur s M' q' (ws[i := w]) d"
    and new: "\<And>d. d \<in> M' \<Longrightarrow> d \<notin> M \<Longrightarrow> followed cur s M' q' (ws[i := w]) d"
    and alone: "\<And>j. j < length ws \<Longrightarrow> j \<noteq> i \<Longrightarrow> scan_of w \<noteq> None \<Longrightarrow> scan_of (ws ! j) \<noteq> scan_of w"
  shows "search_inv cur s R T M' (q', ws[i := w], mark_all cur M' s)"
proof -
  note inv' = inv [unfolded search_inv_def prod.case]
  have fol: "followed cur s M' q' (ws[i := w]) d" if "d \<in> M" for d
  proof (cases "scan_of (ws ! i) = Some d")
    case False
    have old: "followed cur s M q ws d" using inv' that by blast
    show ?thesis
    proof (cases "Scanning d \<in> set ws")
      case True
      with False have "Scanning d \<in> set (ws[i := w])" by (metis kept_worker scan_of.simps(1))
      then show ?thesis by (simp add: followed_def)
    next
      case scanned: False
      have "Enqueueing d hs \<in> set (ws[i := w])" if "Enqueueing d hs \<in> set ws" for hs
        using False that by (metis kept_worker scan_of.simps(2))
      with old scanned due M(1) show ?thesis unfolding followed_def by blast
    qed
  qed (rule scan)
  have "\<forall>x\<in>set (ws[i := w]). worker_ok cur s T M' x"
    using inv' w worker_ok_mono [OF _ M(1)] set_update_subset_insert [of ws i w] by blast
  moreover have "\<forall>h\<in>R. \<forall>d. points_to s h d \<longrightarrow> fresh cur s d \<longrightarrow> d \<in> M' \<or> due s q' (ws[i := w]) d"
    using inv' due M(1) by blast
  moreover have "\<forall>d\<in>M'. followed cur s M' q' (ws[i := w]) d" using fol new by blast
  moreover have "\<forall>h\<in>set q'. \<exists>d. points_to s h d \<and> (fresh cur s d \<longrightarrow> d \<in> T)" using inv' q by blast
  moreover have "j = k" if "j < length ws" "k < length ws"
    "scan_of (ws[i := w] ! j) = scan_of (ws[i := w] ! k)" "scan_of (ws[i := w] ! j) \<noteq> None" for j k
    using that inv' alone [of j] alone [of k] i
    by (cases "j = i"; cases "k = i") (auto simp: nth_list_update)
  ultimately show ?thesis using M(2) unfolding search_inv_def by auto
qed

lemma search_inv_alone:
  assumes inv: "search_inv cur s R T M (q, ws, s')" and i: "i < length ws" "scan_of (ws ! i) = Some d"
    and x: "x \<in> set ws" "scan_of x = Some d"
  shows "x = ws ! i"
proof -
  from x(1) obtain j where "j < length ws" "ws ! j = x" by (auto simp: in_set_conv_nth)
  moreover have "\<forall>i<length ws. \<forall>j<length ws. scan_of (ws ! i) = scan_of (ws ! j) \<longrightarrow> scan_of (ws ! i) \<noteq> None \<longrightarrow> i = j"
    using inv by (simp add: search_inv_def)
  ultimately show ?thesis using i x(2) by fastforce
qed

lemma search_inv_worker:
  "search_inv cur s R T M (q, ws, s') \<Longrightarrow> i < length ws \<Longrightarrow> worker_ok cur s T M (ws ! i)"
  by (simp add: search_inv_def)

lemma due_move:
  assumes "due s q ws e" and "set q \<subseteq> set q'" and "ws ! i \<noteq> Visiting e" and "ws ! i \<noteq> Swapping e"
  shows "due s q' (ws[i := w]) e"
  using assms kept_worker [of "Visiting e" ws i w] kept_worker [of "Swapping e" ws i w]
  unfolding due_def by auto

text \<open>What the marks of a state of the search say.\<close>

lemma search_inv_marks:
  assumes inv: "search_inv cur s R T M (q, ws, s')" and T: "target_ok cur s T"
  shows "s' = mark_all cur M s" and "M \<subseteq> T"
    and "d \<in> M \<Longrightarrow> fresh cur s d \<and> d < length (gc_datas s) \<and> scannable s d"
    and "d < length (gc_datas s) \<Longrightarrow> d_last_marked (gc_datas s' ! d) = (if d \<in> M then cur else mark_of s d)"
    and "d < length (gc_datas s) \<Longrightarrow> mark_of s' d = cur \<Longrightarrow> upd_data d (set_mark cur) s' = mark_all cur M s"
proof -
  show s': "s' = mark_all cur M s" and MT: "M \<subseteq> T" using inv by (simp_all add: search_inv_def)
  show "d \<in> M \<Longrightarrow> fresh cur s d \<and> d < length (gc_datas s) \<and> scannable s d"
    using MT target_okD(1-3) [OF T] by blast
  show "d < length (gc_datas s) \<Longrightarrow> d_last_marked (gc_datas s' ! d) = (if d \<in> M then cur else mark_of s d)"
    using mark_of_mark_all [of d s cur M] by (simp add: s' mark_of_def)
  show "upd_data d (set_mark cur) s' = mark_all cur M s" if "d < length (gc_datas s)" "mark_of s' d = cur"
  proof -
    have len: "d < length (gc_datas s')" using that(1) by (simp add: s' mark_all_def)
    show ?thesis using upd_data_mark_all [OF len] mark_all_already [OF that(2) len] by (simp add: s')
  qed
qed

lemma search_inv_take_handle:
  assumes inv: "search_inv cur s R T M (q, ws, s')" and T: "target_ok cur s T"
    and step: "i < length ws" "ws ! i = Idle" "h \<in> set q" "with_data h s' = Inr d"
  shows "\<exists>M'. search_inv cur s R T M' (remove1 h q, ws[i := Visiting d], s')"
proof -
  note s' = search_inv_marks(1) [OF inv T] and MT = search_inv_marks(2) [OF inv T]
  note inv_M = inv [unfolded s']
  have fr: "fresh cur s d" "d < length (gc_datas s)" "scannable s d" if "d \<in> M" for d
    using search_inv_marks(3) [OF inv T that] by simp_all
  note mk = search_inv_marks(4) [OF inv T] and same = search_inv_marks(5) [OF inv T]
  have pt: "points_to s h d" using step(4) by (simp add: points_to_def s')
  have ok: "fresh cur s d \<longrightarrow> d \<in> T"
    using inv step(3) points_to_unique [OF pt] by (auto simp: search_inv_def)
  have "search_inv cur s R T M (remove1 h q, ws[i := Visiting d], mark_all cur M s)"
  proof (rule search_inv_move [OF inv_M step(1) order_refl MT])
    fix e assume "fresh cur s e" and due: "due s q ws e"
    show "e \<in> M \<or> due s (remove1 h q) (ws[i := Visiting d]) e"
    proof (cases "e = d")
      case True
      then show ?thesis using step(1) by (simp add: due_def set_update_memI)
    next
      case False
      then have "\<And>h'. h' \<in> set q \<Longrightarrow> points_to s h' e \<Longrightarrow> h' \<in> set (remove1 h q)"
        using points_to_unique [OF pt] in_set_remove1 [of _ h q] by metis
      with due kept_worker [of _ ws i "Visiting d"] step(2) show ?thesis
        unfolding due_def by (metis worker.distinct(1,3))
    qed
  qed (use step(2) ok points_to_bound [OF pt] set_remove1_subset [of h q] in
        \<open>auto simp: worker_ok_def\<close>)
  then show ?thesis using step s' by blast
qed

lemma search_inv_load_mark:
  assumes inv: "search_inv cur s R T M (q, ws, s')" and T: "target_ok cur s T"
    and step: "i < length ws" "ws ! i = Visiting d"
  shows "\<exists>M'. search_inv cur s R T M' (q, ws[i := if d_last_marked (gc_datas s' ! d) \<noteq> 0 then Swapping d else Idle], s')"
proof -
  note s' = search_inv_marks(1) [OF inv T] and MT = search_inv_marks(2) [OF inv T]
  note inv_M = inv [unfolded s']
  have fr: "fresh cur s d" "d < length (gc_datas s)" "scannable s d" if "d \<in> M" for d
    using search_inv_marks(3) [OF inv T that] by simp_all
  note mk = search_inv_marks(4) [OF inv T] and same = search_inv_marks(5) [OF inv T]
  have w: "d < length (gc_datas s)" "fresh cur s d \<longrightarrow> d \<in> T"
    using search_inv_worker [OF inv step(1)] step(2) by (simp_all add: worker_ok_def)
  let ?w = "if d_last_marked (gc_datas s' ! d) \<noteq> 0 then Swapping d else Idle"
  have "search_inv cur s R T M (q, ws[i := ?w], mark_all cur M s)"
  proof (rule search_inv_move [OF inv_M step(1) order_refl MT])
    fix e assume e: "fresh cur s e" and due: "due s q ws e"
    show "e \<in> M \<or> due s q (ws[i := ?w]) e"
    proof (cases "e = d")
      case True
      with e mk [OF w(1)] show ?thesis using step(1) by (auto simp: due_def set_update_memI fresh_def)
    qed (use due due_move [OF due order_refl] step(2) in auto)
  qed (use step(2) w mk [OF w(1)] fr(1) [of d] in \<open>auto simp: worker_ok_def fresh_def\<close>)
  then show ?thesis using step s' by blast
qed

lemma search_inv_swap_mark:
  assumes inv: "search_inv cur s R T M (q, ws, s')" and T: "target_ok cur s T"
    and step: "i < length ws" "ws ! i = Swapping d"
  shows "\<exists>M'. search_inv cur s R T M' (q, ws[i := if d_last_marked (gc_datas s' ! d) \<noteq> cur then Scanning d else Idle], upd_data d (set_mark cur) s')"
proof -
  note s' = search_inv_marks(1) [OF inv T] and MT = search_inv_marks(2) [OF inv T]
  note inv_M = inv [unfolded s']
  have fr: "fresh cur s d" "d < length (gc_datas s)" "scannable s d" if "d \<in> M" for d
    using search_inv_marks(3) [OF inv T that] by simp_all
  note mk = search_inv_marks(4) [OF inv T] and same = search_inv_marks(5) [OF inv T]
  have w: "d < length (gc_datas s)" "mark_of s d \<noteq> 0" "fresh cur s d \<longrightarrow> d \<in> T"
    using search_inv_worker [OF inv step(1)] step(2) by (simp_all add: worker_ok_def)
  show ?thesis
  proof (cases "d_last_marked (gc_datas s' ! d) = cur")
    case True
    then have old: "fresh cur s d \<longrightarrow> d \<in> M" using mk [OF w(1)] by (auto simp: fresh_def split: if_splits)
    have "search_inv cur s R T M (q, ws[i := Idle], mark_all cur M s)"
    proof (rule search_inv_move [OF inv_M step(1) order_refl MT])
      fix e assume "fresh cur s e" and due: "due s q ws e"
      then show "e \<in> M \<or> due s q (ws[i := Idle]) e"
        using old due_move [OF due order_refl, of i] step(2) by (cases "e = d") auto
    qed (use step(2) in \<open>auto simp: worker_ok_def\<close>)
    then show ?thesis using step True same [OF w(1)] by (auto simp: mark_of_def)
  next
    case False
    then have new: "d \<notin> M" "fresh cur s d" using mk [OF w(1)] w(2) by (auto simp: fresh_def split: if_splits)
    have "search_inv cur s R T (insert d M) (q, ws[i := Scanning d], mark_all cur (insert d M) s)"
    proof (rule search_inv_move [OF inv_M step(1)])
      show "insert d M \<subseteq> T" using MT new w(3) by blast
      fix e assume "fresh cur s e" and due: "due s q ws e"
      then show "e \<in> insert d M \<or> due s q (ws[i := Scanning d]) e"
        using due_move [OF due order_refl, of i] step(2) by (cases "e = d") auto
    next
      fix e assume "e \<in> insert d M" "e \<notin> M"
      then show "followed cur s (insert d M) q (ws[i := Scanning d]) e"
        using step(1) by (auto simp: followed_def set_update_memI)
    next
      fix j assume j: "j < length ws"
      show "scan_of (ws ! j) \<noteq> scan_of (Scanning d)"
        using search_inv_worker [OF inv j] new(1) by (cases "ws ! j") (auto simp: worker_ok_def)
    qed (use step(2) in \<open>auto simp: worker_ok_def\<close>)
    moreover have "upd_data d (set_mark cur) s' = mark_all cur (insert d M) s"
      using upd_data_mark_all [of d s' cur] w(1) by (simp add: s' mark_all_mark_all) (simp add: mark_all_def)
    ultimately show ?thesis using step False by auto
  qed
qed

lemma search_inv_begin_scan:
  assumes inv: "search_inv cur s R T M (q, ws, s')" and T: "target_ok cur s T"
    and step: "i < length ws" "ws ! i = Scanning d" "scan_data d (upd_data d (set_mark cur) s') = Inr hs"
  shows "\<exists>M'. search_inv cur s R T M' (q, ws[i := Enqueueing d (map item_v hs)], upd_data d (set_mark cur) s')"
proof -
  note s' = search_inv_marks(1) [OF inv T] and MT = search_inv_marks(2) [OF inv T]
  note inv_M = inv [unfolded s']
  have fr: "fresh cur s d" "d < length (gc_datas s)" "scannable s d" if "d \<in> M" for d
    using search_inv_marks(3) [OF inv T that] by simp_all
  note mk = search_inv_marks(4) [OF inv T] and same = search_inv_marks(5) [OF inv T]
  have d: "d \<in> M" using search_inv_worker [OF inv step(1)] step(2) by (simp add: worker_ok_def)
  have un: "upd_data d (set_mark cur) s' = mark_all cur M s"
    using same [OF fr(2) [OF d]] mk [OF fr(2) [OF d]] d by (simp add: mark_of_def)
  then have sc: "scan_data d s = Inr hs" using step(3) fr(2) [OF d] by simp
  have set: "set (map item_v hs) = scanned s d" by (simp add: scanned_def sc)
  have "search_inv cur s R T M (q, ws[i := Enqueueing d (map item_v hs)], mark_all cur M s)"
  proof (rule search_inv_move [OF inv_M step(1) order_refl MT])
    fix e assume "due s q ws e"
    then show "e \<in> M \<or> due s q (ws[i := Enqueueing d (map item_v hs)]) e"
      using due_move [OF _ order_refl, of s q ws e i] step(2) by simp
  next
    fix e assume "scan_of (ws ! i) = Some e"
    then have "e = d" using step(2) by simp
    moreover have "Enqueueing d (map item_v hs) \<in> set (ws[i := Enqueueing d (map item_v hs)])"
      using step(1) by (rule set_update_memI)
    ultimately show "followed cur s M q (ws[i := Enqueueing d (map item_v hs)]) e"
      using set unfolding followed_def by blast
  next
    fix j assume "j < length ws" "j \<noteq> i"
    then show "scan_of (ws ! j) \<noteq> scan_of (Enqueueing d (map item_v hs))"
      using inv step(1,2) by (auto simp: search_inv_def)
  qed (use set d in \<open>auto simp: worker_ok_def\<close>)
  then show ?thesis using step un by auto
qed

lemma search_inv_scanned_handle:
  assumes inv: "search_inv cur s R T M (q, ws, s')" and T: "target_ok cur s T"
    and step: "i < length ws" "ws ! i = Enqueueing d (h # hs)" "should_enqueue cur s' h = Inr b"
  shows "\<exists>M'. search_inv cur s R T M' (if b then q @ [h] else q, ws[i := Enqueueing d hs], s')"
proof -
  note s' = search_inv_marks(1) [OF inv T] and MT = search_inv_marks(2) [OF inv T]
  note inv_M = inv [unfolded s']
  have fr: "fresh cur s d" "d < length (gc_datas s)" "scannable s d" if "d \<in> M" for d
    using search_inv_marks(3) [OF inv T that] by simp_all
  note mk = search_inv_marks(4) [OF inv T] and same = search_inv_marks(5) [OF inv T]
  let ?w = "Enqueueing d hs"
  define q' where "q' = (if b then q @ [h] else q)"
  have d: "d \<in> M" "h \<in> scanned s d" "set hs \<subseteq> scanned s d"
    using search_inv_worker [OF inv step(1)] step(2) by (simp_all add: worker_ok_def)
  from step(3) obtain e where pt: "points_to s h e" and b: "b \<longleftrightarrow> d_last_marked (gc_datas s' ! e) \<noteq> cur"
    by (auto simp: should_enqueue_def res_bind_eq_Inr points_to_def s')
  have q: "set q \<subseteq> set q'" "set q' \<subseteq> insert h (set q)" "b \<Longrightarrow> h \<in> set q'" by (auto simp: q'_def)
  have due: "due s q' (ws[i := ?w]) x" if "due s q ws x" for x
    by (rule due_move [OF that q(1)]) (simp_all add: step(2))
  have marked: "e \<in> M \<or> due s q' (ws[i := ?w]) e" if "fresh cur s e"
    using b mk [OF points_to_bound [OF pt]] that q(3) pt by (auto simp: due_def fresh_def split: if_splits)
  have alone: "x = Enqueueing d (h # hs)" if "x \<in> set ws" "scan_of x = Some d" for x
    using search_inv_alone [OF inv step(1) _ that] step(2) by simp
  have old: "followed cur s M q ws d" using inv d(1) by (simp add: search_inv_def)
  have "search_inv cur s R T M (q', ws[i := ?w], mark_all cur M s)"
  proof (rule search_inv_move [OF inv_M step(1) order_refl MT])
    fix x assume "x \<in> set q'"
    with q(2) have "x = h \<or> x \<in> set q" by blast
    moreover have "fresh cur s e \<longrightarrow> e \<in> T" using target_okD(4) [OF T _ d(2) pt] d(1) MT by blast
    ultimately show "x \<in> set q \<or> (\<exists>d. points_to s x d \<and> (fresh cur s d \<longrightarrow> d \<in> T))" using pt by blast
  next
    fix x assume "scan_of (ws ! i) = Some x"
    then have "x = d" using step(2) by simp
    have "y \<in> M \<or> due s q' (ws[i := ?w]) y \<or> (\<exists>hs. Enqueueing d hs \<in> set (ws[i := ?w]) \<and> h' \<in> set hs)"
      if y: "h' \<in> scanned s d" "points_to s h' y" "fresh cur s y" for h' y
    proof -
      from old y alone [of "Scanning d"]
      consider "y \<in> M" | "due s q ws y" | xs where "Enqueueing d xs \<in> set ws" "h' \<in> set xs"
        unfolding followed_def by auto
      then show ?thesis
      proof cases
        case (3 xs)
        then have "h' \<in> set (h # hs)" using alone [of "Enqueueing d xs"] by auto
        then show ?thesis
          using marked points_to_unique [OF pt] y step(1) set_update_memI [of i ws ?w] by auto
      qed (use due in auto)
    qed
    with \<open>x = d\<close> show "followed cur s M q' (ws[i := ?w]) x" unfolding followed_def by blast
  next
    fix j assume "j < length ws" "j \<noteq> i"
    then show "scan_of (ws ! j) \<noteq> scan_of ?w"
      using inv step(1,2) by (auto simp: search_inv_def)
  qed (use d due in \<open>auto simp: worker_ok_def\<close>)
  then show ?thesis unfolding s' q'_def by blast
qed

lemma search_inv_end_scan:
  assumes inv: "search_inv cur s R T M (q, ws, s')" and T: "target_ok cur s T"
    and step: "i < length ws" "ws ! i = Enqueueing d []"
  shows "\<exists>M'. search_inv cur s R T M' (q, ws[i := Idle], s')"
proof -
  note s' = search_inv_marks(1) [OF inv T] and MT = search_inv_marks(2) [OF inv T]
  note inv_M = inv [unfolded s']
  have fr: "fresh cur s d" "d < length (gc_datas s)" "scannable s d" if "d \<in> M" for d
    using search_inv_marks(3) [OF inv T that] by simp_all
  note mk = search_inv_marks(4) [OF inv T] and same = search_inv_marks(5) [OF inv T]
  have d: "d \<in> M" using search_inv_worker [OF inv step(1)] step(2) by (simp add: worker_ok_def)
  have due: "due s q (ws[i := Idle]) x" if "due s q ws x" for x
    by (rule due_move [OF that order_refl]) (simp_all add: step(2))
  have alone: "x = Enqueueing d []" if "x \<in> set ws" "scan_of x = Some d" for x
    using search_inv_alone [OF inv step(1) _ that] step(2) by simp
  have old: "followed cur s M q ws d" using inv d by (simp add: search_inv_def)
  have "search_inv cur s R T M (q, ws[i := Idle], mark_all cur M s)"
  proof (rule search_inv_move [OF inv_M step(1) order_refl MT])
    fix x assume "scan_of (ws ! i) = Some x"
    then have "x = d" using step(2) by simp
    have "Scanning d \<notin> set ws" "Enqueueing d xs \<in> set ws \<Longrightarrow> xs = []" for xs
      using alone [of "Scanning d"] alone [of "Enqueueing d xs"] by auto
    with old due show "followed cur s M q (ws[i := Idle]) x" unfolding followed_def \<open>x = d\<close> by fastforce
  qed (use due in \<open>auto simp: worker_ok_def\<close>)
  then show ?thesis using step s' by auto
qed

lemma search_inv_step:
  assumes inv: "search_inv cur s R T M (q, ws, s')" and step: "mark_step cur (q, ws, s') (q', ws', s'')"
    and T: "target_ok cur s T"
  shows "\<exists>M'. search_inv cur s R T M' (q', ws', s'')"
  using step
  by cases (auto simp only: intro: search_inv_take_handle [OF inv T] search_inv_load_mark [OF inv T]
      search_inv_swap_mark [OF inv T] search_inv_begin_scan [OF inv T] search_inv_scanned_handle [OF inv T]
      search_inv_end_scan [OF inv T])

lemma search_inv_start:
  assumes ok: "searchable cur D s (set roots)"
  shows "search_inv cur s (set roots) (spread cur s (set roots)) {} (roots, replicate n Idle, s)"
proof -
  have "\<exists>d. points_to s h d \<and> (fresh cur s d \<longrightarrow> d \<in> spread cur s (set roots))" if h: "h \<in> set roots" for h
  proof -
    obtain d where "points_to s h d" using ok h by (auto simp: searchable_def)
    with h show ?thesis by (blast intro: spread.start)
  qed
  then show ?thesis by (auto simp: search_inv_def worker_ok_def due_def)
qed

lemma search_inv_done:
  assumes inv: "search_inv cur s R (spread cur s R) M (q, ws, s')" and fin: "search_done (q, ws, s')"
  shows "s' = mark_all cur (spread cur s R) s"
proof -
  have q: "q = []" and ws: "set ws \<subseteq> {Idle}" using fin by (simp_all add: search_done_def)
  have due: "\<not> due s q ws d" for d using q ws by (auto simp: due_def)
  have fol: "e \<in> M" if "d \<in> M" "h \<in> scanned s d" "points_to s h e" "fresh cur s e" for d h e
  proof -
    have "followed cur s M q ws d" using inv that(1) by (simp add: search_inv_def)
    with that due ws show ?thesis unfolding followed_def by blast
  qed
  have root: "d \<in> M" if "h \<in> R" "points_to s h d" "fresh cur s d" for h d
    using inv that due by (auto simp: search_inv_def)
  have "x \<in> M" if "x \<in> spread cur s R" for x
    using that by induction (use root fol in blast)+
  moreover have "M \<subseteq> spread cur s R" "s' = mark_all cur M s" using inv by (simp_all add: search_inv_def)
  ultimately have "M = spread cur s R" by blast
  with \<open>s' = mark_all cur M s\<close> show ?thesis by simp
qed

subsection \<open>Progress and termination\<close>

lemma search_progress:
  assumes inv: "search_inv cur s R T M (q, ws, s')" and T: "target_ok cur s T"
    and ws: "ws \<noteq> []" and more: "\<not> search_done (q, ws, s')"
  shows "\<exists>c. mark_step cur (q, ws, s') c"
proof (cases "\<exists>i<length ws. ws ! i \<noteq> Idle")
  case True
  then obtain i where i: "i < length ws" "ws ! i \<noteq> Idle" by blast
  have s': "s' = mark_all cur M s" and MT: "M \<subseteq> T" using inv by (simp_all add: search_inv_def)
  note w = search_inv_worker [OF inv i(1)]
  show ?thesis
  proof (cases "ws ! i")
    case (Scanning d)
    then have "d \<in> T" using w MT by (auto simp: worker_ok_def)
    then obtain hs where hs: "scan_data d s = Inr hs" and d: "d < length (gc_datas s)"
      using target_okD(1,3) [OF T \<open>d \<in> T\<close>] by (auto simp: scannable_def)
    have "upd_data d (set_mark cur) s' = mark_all cur ({d} \<union> M) s"
      using upd_data_mark_all [of d s' cur] d by (simp add: s' mark_all_mark_all) (simp add: mark_all_def)
    then have "scan_data d (upd_data d (set_mark cur) s') = Inr hs" using hs d by simp
    from mark_step.begin_scan [OF i(1) Scanning this] show ?thesis by blast
  next
    case (Enqueueing d hs)
    show ?thesis
    proof (cases hs)
      case Nil
      with mark_step.end_scan [OF i(1)] Enqueueing show ?thesis by blast
    next
      case (Cons h hs')
      with w Enqueueing MT have "d \<in> T" "h \<in> scanned s d" by (auto simp: worker_ok_def)
      then have "\<exists>e. points_to s h e"
        using target_okD(3) [OF T \<open>d \<in> T\<close>] by (auto simp: scannable_def scanned_def)
      then obtain e where "points_to s h e" ..
      then have "\<exists>b. should_enqueue cur s' h = Inr b" by (simp add: should_enqueue_def s' points_to_def)
      with mark_step.scanned_handle [OF i(1)] Enqueueing Cons show ?thesis by blast
    qed
  qed (use i mark_step.load_mark mark_step.swap_mark in blast)+
next
  case False
  then have "set ws \<subseteq> {Idle}" by (auto simp: in_set_conv_nth)
  with more obtain h where h: "h \<in> set q" by (cases q) (auto simp: search_done_def)
  moreover obtain d where "points_to s h d" using inv h by (auto simp: search_inv_def)
  ultimately have "with_data h s' = Inr d" using inv by (simp add: search_inv_def points_to_def)
  moreover have "0 < length ws" "ws ! 0 = Idle" using ws False by auto
  ultimately show ?thesis using mark_step.take_handle [of 0 ws h q s' d cur] h by blast
qed

definition scan_len :: "gc_state \<Rightarrow> nat \<Rightarrow> nat" where
  "scan_len s d = (case scan_data d s of Inr hs \<Rightarrow> length hs | Inl e \<Rightarrow> 0)"

fun worker_weight :: "gc_state \<Rightarrow> worker \<Rightarrow> nat" where
  "worker_weight s Idle = 0"
| "worker_weight s (Visiting d) = 4"
| "worker_weight s (Swapping d) = 3"
| "worker_weight s (Scanning d) = 2 + 6 * scan_len s d"
| "worker_weight s (Enqueueing d hs) = 1 + 6 * length hs"

text \<open>What is unmarked, then the work at hand; both are counted in the state the search began in.\<close>

definition search_measure :: "u64 \<Rightarrow> gc_state \<Rightarrow> search \<Rightarrow> nat \<times> nat" where
  "search_measure cur s c =
     (case c of (q, ws, s') \<Rightarrow>
        (card (unmarked cur s'), 5 * length q + sum_list (map (worker_weight s) ws)))"

lemma worker_weight_update:
  assumes "i < length ws" and "worker_weight s w + k < worker_weight s (ws ! i) + l"
  shows "k + sum_list (map (worker_weight s) (ws[i := w])) < l + sum_list (map (worker_weight s) ws)"
proof -
  have "worker_weight s (ws ! i) \<le> sum_list (map (worker_weight s) ws)"
    using assms(1) by (auto intro!: member_le_sum_list)
  moreover have "sum_list (map (worker_weight s) (ws[i := w])) =
      sum_list (map (worker_weight s) ws) + worker_weight s w - worker_weight s (ws ! i)"
    using assms(1) by (simp add: map_update sum_list_update)
  ultimately show ?thesis using assms(2) by linarith
qed

lemma search_decreases:
  assumes inv: "search_inv cur s R T M (q, ws, s')" and step: "mark_step cur (q, ws, s') c" and T: "target_ok cur s T"
  shows "(search_measure cur s c, search_measure cur s (q, ws, s')) \<in> less_than <*lex*> less_than"
  using step
proof cases
  have s': "s' = mark_all cur M s" and MT: "M \<subseteq> T" using inv by (simp_all add: search_inv_def)
  have len: "length (gc_datas s') = length (gc_datas s)" by (simp add: s' mark_all_def)
  have un: "unmarked cur (upd_data d (set_mark cur) s') = unmarked cur s' - {d}" if "d < length (gc_datas s)" for d
    using that len by (auto simp: unmarked_def upd_data_def set_mark_def nth_list_update)
  {
    case (take_handle i h d)
    then have "4 + 5 * (length q - 1) < 5 * length q" by (cases q) auto
    with take_handle worker_weight_update [of i ws s "Visiting d" "5 * (length q - 1)" "5 * length q"]
    show ?thesis by (simp add: search_measure_def length_remove1)
  next
    case (load_mark i d)
    with worker_weight_update [of i ws s _ "5 * length q" "5 * length q"] show ?thesis
      by (simp add: search_measure_def)
  next
    case (swap_mark i d)
    have w: "d < length (gc_datas s)" "mark_of s d \<noteq> 0"
      using search_inv_worker [OF inv swap_mark(2)] swap_mark(3) by (simp_all add: worker_ok_def)
    show ?thesis
    proof (cases "d_last_marked (gc_datas s' ! d) = cur")
      case True
      then have "d \<notin> unmarked cur s'" by (simp add: unmarked_def)
      then show ?thesis using swap_mark True un [OF w(1)] worker_weight_update [of i ws s Idle "5 * length q" "5 * length q"]
        by (simp add: search_measure_def)
    next
      case False
      then have "mark_of s' d \<noteq> 0" "d \<in> unmarked cur s'"
        using w mark_of_mark_all [OF w(1), of cur M] len by (auto simp: s' mark_of_def unmarked_def split: if_splits)
      then have "card (unmarked cur s' - {d}) < card (unmarked cur s')" by (intro card_Diff1_less finite_unmarked)
      then show ?thesis using swap_mark un [OF w(1)] by (simp add: search_measure_def)
    qed
  next
    case (begin_scan i d hs)
    have "d \<in> M" using search_inv_worker [OF inv begin_scan(2)] begin_scan(3) by (simp add: worker_ok_def)
    with MT have d: "d \<in> M" "d < length (gc_datas s)" using target_okD(1) [OF T] by blast+
    have m: "mark_of s' d = cur" using mark_of_mark_all [OF d(2), of cur M] d(1) by (simp add: s')
    have same: "upd_data d (set_mark cur) s' = s'"
      using upd_data_mark_all [of d s' cur] mark_all_already [OF m] d(2) len by simp
    then have "scan_data d s = Inr hs" using begin_scan(4) d(2) by (simp add: s')
    then have "scan_len s d = length hs" by (simp add: scan_len_def)
    with begin_scan same worker_weight_update [of i ws s "Enqueueing d (map item_v hs)" "5 * length q" "5 * length q"]
    show ?thesis by (simp add: search_measure_def)
  next
    case (scanned_handle i d h hs b)
    with worker_weight_update [of i ws s "Enqueueing d hs" "5 * length q + (if b then 5 else 0)" "5 * length q"]
    show ?thesis by (simp add: search_measure_def split: if_splits)
  next
    case (end_scan i d)
    with worker_weight_update [of i ws s Idle "5 * length q" "5 * length q"] show ?thesis by (simp add: search_measure_def)
  }
qed

lemma search_run_inv:
  assumes ok: "searchable cur D s (set roots)"
    and run: "(mark_step cur)\<^sup>*\<^sup>* (roots, replicate n Idle, s) (q, ws, s')"
  shows "(\<exists>M. search_inv cur s (set roots) (spread cur s (set roots)) M (q, ws, s')) \<and> length ws = n"
  using run
proof (induction "(q, ws, s')" arbitrary: q ws s' rule: rtranclp_induct)
  case base
  then show ?case using search_inv_start [OF ok] by auto
next
  case (step c)
  obtain q0 ws0 s0 where c: "c = (q0, ws0, s0)" by (cases c)
  from step(3) [OF c] obtain M where "search_inv cur s (set roots) (spread cur s (set roots)) M (q0, ws0, s0)"
    and "length ws0 = n" by blast
  moreover have "mark_step cur (q0, ws0, s0) (q, ws, s')" using step(2) c by simp
  moreover from this have "length ws = length ws0" by cases simp_all
  ultimately show ?case using search_inv_step [OF _ _ spread_target [OF ok]] by blast
qed

lemma search_no_infinite:
  assumes ok: "searchable cur D s (set roots)" and start: "f 0 = (roots, replicate n Idle, s)"
    and run: "\<And>k. mark_step cur (f k) (f (Suc k))"
  shows False
proof -
  have reach: "(mark_step cur)\<^sup>*\<^sup>* (roots, replicate n Idle, s) (f k)" for k
    by (induction k) (use start run in \<open>auto intro: rtranclp.rtrancl_into_rtrancl\<close>)
  have less: "(search_measure cur s (f (Suc k)), search_measure cur s (f k)) \<in> less_than <*lex*> less_than" for k
  proof -
    obtain q ws s' where f: "f k = (q, ws, s')" by (cases "f k")
    then obtain M where "search_inv cur s (set roots) (spread cur s (set roots)) M (q, ws, s')"
      using search_run_inv [OF ok, of n q ws s'] reach [of k] by auto
    from search_decreases [OF this _ spread_target [OF ok]] run [of k] show ?thesis by (simp add: f)
  qed
  have "wf (less_than <*lex*> less_than)" by (intro wf_lex_prod wf_less_than)
  then have "\<nexists>g. \<forall>k. (g (Suc k), g k) \<in> less_than <*lex*> less_than" by (rule iffD1 [OF wf_iff_no_infinite_down_chain])
  moreover have "\<exists>g. \<forall>k. (g (Suc k), g k) \<in> less_than <*lex*> less_than"
    by (rule exI [of _ "\<lambda>k. search_measure cur s (f k)"], rule allI, rule less)
  ultimately show False by (rule notE)
qed

subsection \<open>The search of a collection\<close>

text \<open>Where the search starts: the data has been observed, the roots have been found.\<close>

definition search_starts :: "nat \<Rightarrow> gc_state \<Rightarrow> gc_state \<Rightarrow> search \<Rightarrow> bool" where
  "search_starts n s s3 c \<longleftrightarrow>
     (\<exists>warrants. fold_res (observe_data (current_collection_number s)) (par_iter (data_list s)) (s, []) = Inr (s3, warrants)) \<and>
     c = (find_roots (current_collection_number s) s3, replicate n Idle, s3)"

lemma search_starts_searchable:
  assumes col: "collectable s" and start: "search_starts n s s3 c"
  shows "searchable (current_collection_number s) (tracked s) s3 (set (find_roots (current_collection_number s) s3))"
    and "set (fst c) = root_handles s"
proof -
  let ?cur = "current_collection_number s" and ?ds = "par_iter (data_list s)"
  have dist: "distinct ?ds" and ok: "\<forall>d\<in>set ?ds. scannable s d"
    and flags: "\<forall>h\<in>live_handles s. h < length (gc_handles s) \<and> h_last_non_rooted (gc_handles s ! h) \<noteq> ?cur"
    using col collectable_bounds(2) [OF col] by (auto simp: collectable_def tracked_def)
  then have s3: "s3 = observe_state ?cur (tracked s) s"
    using start observe_all [OF dist ok] by (auto simp: search_starts_def tracked_def)
  have roots: "set (find_roots ?cur s3) = root_handles s"
    by (auto simp: s3 find_roots_observed [OF flags] root_handles_def live_handles_def)
  with collectable_search(1) [OF col]
  show "searchable ?cur (tracked s) s3 (set (find_roots ?cur s3))" by (simp add: s3)
  show "set (fst c) = root_handles s" using start roots by (auto simp: search_starts_def)
qed

lemma search_starts_exists:
  assumes col: "collectable s"
  shows "\<exists>s3 c. search_starts n s s3 c"
proof -
  have dist: "distinct (par_iter (data_list s))" and ok: "\<forall>d\<in>set (par_iter (data_list s)). scannable s d"
    using col by (auto simp: collectable_def tracked_def)
  show ?thesis using observe_all [OF dist ok] by (auto simp: search_starts_def)
qed

lemma parallel_search:
  assumes col: "collectable s" and start: "search_starts n s s3 c" and run: "(mark_step (current_collection_number s))\<^sup>*\<^sup>* c (q, ws, s4)"
  shows "i < length ws \<Longrightarrow> j < length ws \<Longrightarrow> i \<noteq> j \<Longrightarrow> scan_of (ws ! i) = scan_of (ws ! j) \<Longrightarrow> scan_of (ws ! i) = None"
    and "search_done (q, ws, s4) \<Longrightarrow>
      dfs (current_collection_number s) (find_roots (current_collection_number s) s3) s3 = Inr s4"
    and "0 < n \<Longrightarrow> \<not> search_done (q, ws, s4) \<Longrightarrow> \<exists>c'. mark_step (current_collection_number s) (q, ws, s4) c'"
proof -
  let ?cur = "current_collection_number s"
  note ok = search_starts_searchable(1) [OF col start]
  have "c = (find_roots ?cur s3, replicate n Idle, s3)" using start by (simp add: search_starts_def)
  with search_run_inv [OF ok] run obtain M where
    inv: "search_inv ?cur s3 (set (find_roots ?cur s3)) (spread ?cur s3 (set (find_roots ?cur s3))) M (q, ws, s4)"
    and len: "length ws = n" by blast
  show "scan_of (ws ! i) = None" if "i < length ws" "j < length ws" "i \<noteq> j" "scan_of (ws ! i) = scan_of (ws ! j)"
  proof -
    have "\<forall>i<length ws. \<forall>j<length ws. scan_of (ws ! i) = scan_of (ws ! j) \<longrightarrow> scan_of (ws ! i) \<noteq> None \<longrightarrow> i = j"
      using inv by (simp add: search_inv_def)
    with that show ?thesis by blast
  qed
  show "dfs ?cur (find_roots ?cur s3) s3 = Inr s4" if "search_done (q, ws, s4)"
    using dfs_marks_spread [OF ok] search_inv_done [OF inv that] by simp
  show "\<exists>c'. mark_step ?cur (q, ws, s4) c'" if "0 < n" "\<not> search_done (q, ws, s4)"
    using search_progress [OF inv spread_target [OF ok] _ that(2)] len that(1) by auto
qed

lemma parallel_search_ends:
  assumes col: "collectable s" and start: "search_starts n s s3 c"
  shows "\<nexists>f. f 0 = c \<and> (\<forall>k. mark_step (current_collection_number s) (f k) (f (Suc k)))"
  using search_no_infinite [OF search_starts_searchable(1) [OF col start], of _ n] start
  by (auto simp: search_starts_def)

text \<open>A run that nothing stops gets to the end.\<close>

lemma search_finishes:
  assumes fin: "\<nexists>f. f 0 = c \<and> (\<forall>k. step (f k) (f (Suc k)))"
    and go: "\<And>d. step\<^sup>*\<^sup>* c d \<Longrightarrow> \<not> P d \<Longrightarrow> \<exists>d'. step d d'"
  shows "\<exists>d. step\<^sup>*\<^sup>* c d \<and> P d"
proof (rule ccontr)
  assume no: "\<not> ?thesis"
  define f where "f = rec_nat c (\<lambda>_ d. SOME d'. step d d')"
  have f: "f 0 = c" "f (Suc k) = (SOME d'. step (f k) d')" for k by (simp_all add: f_def)
  have "step\<^sup>*\<^sup>* c (f k) \<and> step (f k) (f (Suc k))" for k
  proof (induction k)
    case 0
    have "\<exists>d'. step c d'" using no go by blast
    then show ?case using someI_ex [of "step c"] by (simp add: f)
  next
    case (Suc k)
    then have re: "step\<^sup>*\<^sup>* c (f (Suc k))" by (blast intro: rtranclp.rtrancl_into_rtrancl)
    then have "\<exists>d'. step (f (Suc k)) d'" using no go by blast
    then show ?case using re someI_ex [of "step (f (Suc k))"] by (simp add: f(2))
  qed
  with fin f(1) show False by blast
qed

lemma search_reaches_end:
  assumes "collectable s" and "search_starts n s s3 c" and "0 < n"
  shows "\<exists>d. (mark_step (current_collection_number s))\<^sup>*\<^sup>* c d \<and> search_done d"
proof (rule search_finishes [OF parallel_search_ends [OF assms(1,2)]])
  fix d assume run: "(mark_step (current_collection_number s))\<^sup>*\<^sup>* c d" and more: "\<not> search_done d"
  obtain q ws s4 where d: "d = (q, ws, s4)" by (cases d)
  show "\<exists>d'. mark_step (current_collection_number s) d d'"
    using parallel_search(3) [OF assms(1,2) run [unfolded d] assms(3)] more by (simp add: d)
qed

text \<open>One rooted piece of data.\<close>

lemma one_gc_inv:
  assumes new: "gc_new (V_Plain 7) collector_new = (g, s)"
  shows "gc_inv [] [backing_handle g] [] s"
proof -
  have may: "client_may (New With_Drop (V_Plain 7)) client_new" by (simp add: at_most_one_panic_def)
  have "client_run (New With_Drop (V_Plain 7)) client_new = Inr \<lparr>sys = s, held = [backing_handle g], warrants = []\<rparr>"
    using new by (simp add: client_new_def gain_def take_refs_def)
  from client_reachable.step [OF client_reachable.init may this]
  have "client_inv \<lparr>sys = s, held = [backing_handle g], warrants = []\<rparr>" by (rule client_reachable_inv)
  from client_gc_inv [OF this] have "gc_inv (pending s) [backing_handle g] [] s" by simp
  moreover have "pending s = []" by (simp add: pending_def first_gc(5) [OF new])
  ultimately show ?thesis by simp
qed

lemma one_gc_search:
  assumes new: "gc_new (V_Plain 7) collector_new = (g, s)"
  shows "collectable s" and "current_collection_number s = 2" and "search_starts n s s3 c \<Longrightarrow> set (fst c) = {0}"
proof -
  show "current_collection_number s = 2" by (rule first_gc(6) [OF new])
  note inv = one_gc_inv [OF new]
  show col: "collectable s" by (rule gc_inv_collectable [OF inv])
  have "data_ok s 0" by (rule all_data_ok [OF inv tracked_all_data]) (simp add: first_gc(3) [OF new])
  then have "scanned s 0 = {}" by (simp add: scanned_ok first_gc(4) [OF new])
  then show "set (fst c) = {0}" if "search_starts n s s3 c"
    by (simp add: search_starts_searchable(2) [OF col that] root_handles_def non_rooted_def first_gc(2,3) [OF new])
qed

text \<open>
  C22: However many workers search and however their accesses interleave, no two of them are in the
  scan of the same data, and when the search is done the state is the one that a single worker
  with an orderly queue comes to: what a collection marks does not depend on the schedule.
\<close>

theorem parallel_search_deterministic:
  assumes "collectable s" and "search_starts n s s3 c"
    and "(mark_step (current_collection_number s))\<^sup>*\<^sup>* c (q, ws, s4)"
  shows "(\<forall>i<length ws. \<forall>j<length ws. i \<noteq> j \<longrightarrow> scan_of (ws ! i) = scan_of (ws ! j) \<longrightarrow> scan_of (ws ! i) = None) \<and>
    (search_done (q, ws, s4) \<longrightarrow>
       dfs (current_collection_number s) (find_roots (current_collection_number s) s3) s3 = Inr s4)"
  using parallel_search(1,2) [OF assms] by blast

text \<open>
  C23: With at least one worker the search comes to its end on every schedule: it has no infinite run,
  and as long as it is not done some worker can move, in particular without an access to released memory.
\<close>

theorem parallel_search_terminates:
  assumes "collectable s" and "search_starts n s s3 c" and "0 < n"
  shows "(\<nexists>f. f 0 = c \<and> (\<forall>k. mark_step (current_collection_number s) (f k) (f (Suc k)))) \<and>
    (\<forall>d. (mark_step (current_collection_number s))\<^sup>*\<^sup>* c d \<longrightarrow>
       search_done d \<or> (\<exists>d'. mark_step (current_collection_number s) d d'))"
proof -
  have "search_done d \<or> (\<exists>d'. mark_step (current_collection_number s) d d')"
    if "(mark_step (current_collection_number s))\<^sup>*\<^sup>* c d" for d
    using parallel_search(3) [OF assms(1,2) _ assms(3)] that by (cases d) blast
  with parallel_search_ends [OF assms(1,2)] show ?thesis by blast
qed

theorem parallel_search_deterministic_witness:
  "\<exists>g s s3 c q ws s4. gc_new (V_Plain 7) collector_new = (g, s) \<and> search_starts 2 s s3 c \<and> set (fst c) = {0} \<and>
     (mark_step 2)\<^sup>*\<^sup>* c (q, ws, s4) \<and> search_done (q, ws, s4) \<and> dfs 2 (find_roots 2 s3) s3 = Inr s4"
proof -
  obtain g s where new: "gc_new (V_Plain 7) collector_new = (g, s)" by (cases "gc_new (V_Plain 7) collector_new")
  have "collectable s" by (rule one_gc_search(1) [OF new])
  then obtain s3 c where start: "search_starts 2 s s3 c" using search_starts_exists by blast
  note one = \<open>collectable s\<close> one_gc_search(2) [OF new] one_gc_search(3) [OF new start]
  obtain q ws s4 where run: "(mark_step 2)\<^sup>*\<^sup>* c (q, ws, s4)" "search_done (q, ws, s4)"
    using search_reaches_end [OF one(1) start] one(2) by auto
  with parallel_search_deterministic [OF one(1) start, of q ws s4] one(2)
  have "dfs 2 (find_roots 2 s3) s3 = Inr s4" by simp
  with new start one(3) run show ?thesis by blast
qed

theorem parallel_search_terminates_witness:
  "\<exists>g s s3 c d. gc_new (V_Plain 7) collector_new = (g, s) \<and> search_starts 2 s s3 c \<and> mark_step 2 c d \<and>
     (\<nexists>f. f 0 = c \<and> (\<forall>k. mark_step 2 (f k) (f (Suc k))))"
proof -
  obtain g s where new: "gc_new (V_Plain 7) collector_new = (g, s)" by (cases "gc_new (V_Plain 7) collector_new")
  have "collectable s" by (rule one_gc_search(1) [OF new])
  then obtain s3 c where start: "search_starts 2 s s3 c" using search_starts_exists by blast
  note one = \<open>collectable s\<close> one_gc_search(2) [OF new] one_gc_search(3) [OF new start]
  have "\<not> search_done c" using one(3) by (auto simp: search_done_def)
  moreover have "0 < (2 :: nat)" by simp
  note both = parallel_search_terminates [OF one(1) start this, unfolded one(2)]
  from both have "search_done c \<or> (\<exists>d. mark_step 2 c d)" by (blast intro: rtranclp.rtrancl_refl)
  ultimately show ?thesis using new start both by blast
qed

end
