(* ===== verification/Collection_Threads.thy ===== *)
theory Collection_Threads
  imports Root_Race Parallel_Mark
begin

text \<open>
  A whole collection beside other threads. \<open>Root_Race\<close> lets calls in during the search for roots; here every phase
  of \<open>do_collect\<close> between the synchronisation with the dropper and the clean-up is taken in steps (a slot of the
  list of data, a slot of the list of handles, an access of a worker of the search, the release of a
  warrant), and any call of another thread may come between two of them. Here are the steps and what holds in the phases
  before the search through the object graph; \<open>Collection_Search\<close> has the rest.
\<close>

subsection \<open>The steps\<close>

datatype stage = Observing | Finding | Searching | Releasing

record collection =
  cg_stage :: stage
  cg_cursors :: "nat list"
  cg_locked :: "nat list"
  cg_roots :: "nat list"
  cg_queue :: "nat list"
  cg_workers :: "worker list"

text \<open>The walks go through the chunks that the list has when they begin.\<close>

definition chunk_starts :: "nat cll \<Rightarrow> nat list" where
  "chunk_starts l = replicate (Suc (chunk_addr (cll_head l))) 0"

lemma slot_range:
  assumes "cll_inv l" and "cll_lookup l k = Some x"
  shows "snd k < CHUNK_SIZE" and "fst k < length (chunk_starts l)" and "chunk_starts l ! fst k = 0"
proof -
  have "fst k \<le> chunk_addr (cll_head l)" "snd k < CHUNK_SIZE"
    using chunk_slot_addr [of "cll_head l" "fst k" "snd k" x] assms by (simp_all add: cll_inv_def cll_lookup_def)
  then show "snd k < CHUNK_SIZE" "fst k < length (chunk_starts l)" "chunk_starts l ! fst k = 0"
    by (simp_all add: chunk_starts_def nth_append del: replicate.simps)
qed

definition observe_slot :: "u64 \<Rightarrow> slot_key \<Rightarrow> gc_state \<times> nat list \<Rightarrow> (gc_state \<times> nat list) result" where
  "observe_slot cur k sw =
     (case cll_lookup (data_list (fst sw)) k of Some d \<Rightarrow> observe_data cur d sw | None \<Rightarrow> Inr sw)"

definition start_collecting :: "gc_state \<Rightarrow> (u64 \<times> collection \<times> gc_state) result" where
  "start_collecting s =
     res_bind (lock_gc s) (\<lambda>s0.
     case lock_exclusive (atomic_spinlock s0) of
       None \<Rightarrow> Inl Blocked
     | Some guard \<Rightarrow>
         (let s1 = s0\<lparr>atomic_spinlock := guard\<rparr>; cur = current_collection_number s1
          in res_bind (synchronize_destructors s1) (\<lambda>s2.
             Inr (cur, \<lparr>cg_stage = Observing, cg_cursors = chunk_starts (data_list s2), cg_locked = [], cg_roots = [],
                        cg_queue = [], cg_workers = []\<rparr>, s2))))"

inductive own_step :: "u64 \<Rightarrow> nat \<Rightarrow> collection \<times> gc_client \<Rightarrow> collection \<times> gc_client \<Rightarrow> bool" for cur n where
  observe: "cg_stage g = Observing \<Longrightarrow> a < length (cg_cursors g) \<Longrightarrow> cg_cursors g ! a = i \<Longrightarrow> i < CHUNK_SIZE \<Longrightarrow>
     observe_slot cur (a, i) (sys c, cg_locked g) = Inr (s', ws') \<Longrightarrow>
     own_step cur n (g, c) (g\<lparr>cg_cursors := (cg_cursors g)[a := Suc i], cg_locked := ws'\<rparr>, c\<lparr>sys := s'\<rparr>)"
| begin_finding: "cg_stage g = Observing \<Longrightarrow> set (cg_cursors g) \<subseteq> {CHUNK_SIZE} \<Longrightarrow>
     own_step cur n (g, c) (g\<lparr>cg_stage := Finding, cg_cursors := chunk_starts (handle_list (sys c))\<rparr>, c)"
| find: "cg_stage g = Finding \<Longrightarrow> a < length (cg_cursors g) \<Longrightarrow> cg_cursors g ! a = i \<Longrightarrow> i < CHUNK_SIZE \<Longrightarrow>
     own_step cur n (g, c) (g\<lparr>cg_cursors := (cg_cursors g)[a := Suc i],
                              cg_roots := visit_slot cur (sys c) (a, i) (cg_roots g)\<rparr>, c)"
| begin_searching: "cg_stage g = Finding \<Longrightarrow> set (cg_cursors g) \<subseteq> {CHUNK_SIZE} \<Longrightarrow>
     own_step cur n (g, c) (g\<lparr>cg_stage := Searching, cg_queue := cg_roots g, cg_workers := replicate n Idle\<rparr>, c)"
| search: "cg_stage g = Searching \<Longrightarrow> mark_step cur (cg_queue g, cg_workers g, sys c) (q', ws', s') \<Longrightarrow>
     own_step cur n (g, c) (g\<lparr>cg_queue := q', cg_workers := ws'\<rparr>, c\<lparr>sys := s'\<rparr>)"
| begin_releasing: "cg_stage g = Searching \<Longrightarrow> search_done (cg_queue g, cg_workers g, sys c) \<Longrightarrow>
     own_step cur n (g, c) (g\<lparr>cg_stage := Releasing\<rparr>, c)"
| release: "cg_stage g = Releasing \<Longrightarrow> cg_locked g = d # ds \<Longrightarrow>
     drop_exclusive_warrant (d_lockout (gc_datas (sys c) ! d)) = Inr lk \<Longrightarrow>
     own_step cur n (g, c) (g\<lparr>cg_locked := ds\<rparr>, c\<lparr>sys := upd_data d (\<lambda>x. x\<lparr>d_lockout := lk\<rparr>) (sys c)\<rparr>)"

inductive collection_step :: "u64 \<Rightarrow> nat \<Rightarrow> collection \<times> gc_client \<Rightarrow> collection \<times> gc_client \<Rightarrow> bool" for cur n where
  own: "own_step cur n x y \<Longrightarrow> collection_step cur n x y"
| call: "client_may op c \<Longrightarrow> client_run op c = Inr c' \<Longrightarrow> collection_step cur n (g, c) (g, c')"

definition all_released :: "collection \<Rightarrow> bool" where
  "all_released g \<longleftrightarrow> cg_stage g = Releasing \<and> cg_locked g = []"

subsection \<open>What holds at every moment\<close>

definition unvisited :: "collection \<Rightarrow> slot_key \<Rightarrow> bool" where
  "unvisited g k \<longleftrightarrow> cg_stage g = Observing \<and> fst k < length (cg_cursors g) \<and> cg_cursors g ! fst k \<le> snd k"

lemma all_visited:
  assumes "cll_inv (data_list s)" and "set (cg_cursors g) \<subseteq> {CHUNK_SIZE}" and "cll_lookup (data_list s) k = Some d"
  shows "\<not> unvisited g k"
proof
  assume u: "unvisited g k"
  then have "cg_cursors g ! fst k = CHUNK_SIZE" using assms(2) nth_mem by (auto simp: unvisited_def)
  then show False using u slot_range(1) [OF assms(1,3)] by (simp add: unvisited_def)
qed

lemma none_visited:
  assumes "cll_inv (data_list s)" and "cg_stage g = Observing" and "cg_cursors g = chunk_starts (data_list s)"
    and "cll_lookup (data_list s) k = Some d"
  shows "unvisited g k"
  using slot_range(2,3) [OF assms(1,4)] assms(2,3) by (simp add: unvisited_def)

definition base_inv :: "u64 \<Rightarrow> collection \<Rightarrow> gc_client \<Rightarrow> bool" where
  "base_inv cur g c \<longleftrightarrow>
     client_inv (unheld_client (cg_locked g) c) \<and> held_up (cg_locked g) (sys c) \<and>
     current_collection_number (sys c) = cur \<and> 2 \<le> cur \<and> cur < cur + 1 \<and>
     distinct (cg_locked g) \<and> (\<forall>d\<in>set (cg_locked g). d \<in> tracked (sys c) \<and> mark_of (sys c) d \<noteq> 0) \<and>
     (\<forall>h\<in>set (cg_roots g). leads_home (sys c) h)"

text \<open>Data that is not locked is new, was in use when it was observed, or is still to be observed.\<close>

definition covered :: "u64 \<Rightarrow> collection \<Rightarrow> gc_state \<Rightarrow> bool" where
  "covered cur g s \<longleftrightarrow> (\<forall>d\<in>tracked s. d \<in> set (cg_locked g) \<or> mark_of s d = 0 \<or> mark_of s d = cur \<or>
     (\<exists>k. cll_lookup (data_list s) k = Some d \<and> unvisited g k))"

text \<open>Until the search, data that is locked has not been marked, and the flagged handles are those inside of it.\<close>

definition flags_ok :: "u64 \<Rightarrow> collection \<Rightarrow> gc_state \<Rightarrow> bool" where
  "flags_ok cur g s \<longleftrightarrow> (\<forall>d\<in>set (cg_locked g). mark_of s d \<noteq> cur) \<and>
     (\<forall>h<length (gc_handles s). h_last_non_rooted (gc_handles s ! h) = cur \<longrightarrow> (\<exists>d\<in>set (cg_locked g). h \<in> scanned s d))"

definition unseen_ok :: "u64 \<Rightarrow> collection \<Rightarrow> gc_state \<Rightarrow> bool" where
  "unseen_ok cur g s \<longleftrightarrow>
     (\<forall>k d. cll_lookup (data_list s) k = Some d \<longrightarrow> unvisited g k \<longrightarrow> d \<notin> set (cg_locked g) \<and> mark_of s d \<noteq> cur)"

definition early_inv :: "u64 \<Rightarrow> collection \<Rightarrow> gc_client \<Rightarrow> bool" where
  "early_inv cur g c \<longleftrightarrow> base_inv cur g c \<and> covered cur g (sys c) \<and> flags_ok cur g (sys c) \<and> unseen_ok cur g (sys c)"

text \<open>What a state between the phases is known to be.\<close>

lemma base_facts:
  assumes "base_inv cur g c"
  shows "gc_inv [] (held c) (warrants c) (unheld (cg_locked g) (sys c))"
    and "\<And>h. h \<in> live_handles (sys c) \<Longrightarrow> leads_home (sys c) h"
    and "\<And>r. visible c r \<Longrightarrow> leads_home (sys c) (item_v r)"
    and "\<forall>d\<in>tracked (sys c). data_ok (sys c) d"
    and "cll_inv (data_list (sys c))" and "distinct (par_iter (data_list (sys c)))" and "cll_inv (handle_list (sys c))"
    and "\<And>d. d \<in> tracked (sys c) \<Longrightarrow> mark_of (sys c) d \<le> cur"
    and "\<And>h. h < length (gc_handles (sys c)) \<Longrightarrow> h_last_non_rooted (gc_handles (sys c) ! h) \<le> cur"
proof -
  let ?g = "cg_locked g"
  have "race_inv ?g (sys c) \<lparr>rs_cursors = [], rs_roots = []\<rparr> c"
    using assms by (simp add: base_inv_def race_inv_def grows_refl)
  note f = race_facts [OF this]
  show "\<And>h. h \<in> live_handles (sys c) \<Longrightarrow> leads_home (sys c) h" "\<And>r. visible c r \<Longrightarrow> leads_home (sys c) (item_v r)"
    "\<forall>d\<in>tracked (sys c). data_ok (sys c) d" "cll_inv (data_list (sys c))" "distinct (par_iter (data_list (sys c)))"
    "cll_inv (handle_list (sys c))" by (fact f)+
  have inv: "client_inv (unheld_client ?g c)" and dr: "dropper (sys c) = []" and num: "current_collection_number (sys c) = cur"
    using assms by (simp_all add: base_inv_def held_up_def)
  show gi: "gc_inv [] (held c) (warrants c) (unheld ?g (sys c))"
    using client_gc_inv [OF inv] dr by (simp add: pending_def)
  then have m: "marks_ok (unheld ?g (sys c))" by (simp add: gc_invx_def)
  have lt: "cur < cur + 1" using assms by (simp add: base_inv_def)
  have le: "x \<le> cur" if "x < cur + 1" for x using that lt by unat_arith
  show "mark_of (sys c) d \<le> cur" if "d \<in> tracked (sys c)" for d
    using m that f(3) unheld_data(3) by (auto simp: marks_ok_def num data_ok_def intro!: le)
  show "h_last_non_rooted (gc_handles (sys c) ! h) \<le> cur" if "h < length (gc_handles (sys c))" for h
    using m that by (auto simp: marks_ok_def num intro!: le)
qed

text \<open>A call.\<close>

lemma base_call:
  assumes inv: "base_inv cur g c" and may: "client_may op c" and run: "client_run op c = Inr c'"
  shows "base_inv cur g c'" and "grows (sys c) (sys c')"
    and "d \<in> set (cg_locked g) \<Longrightarrow> block_val (sys c') d = block_val (sys c) d"
proof -
  have i: "client_inv (unheld_client (cg_locked g) c)" "held_up (cg_locked g) (sys c)"
    using inv by (simp_all add: base_inv_def)
  note r = beside_run [OF i may run]
  show gr: "grows (sys c) (sys c')" by (rule r(3))
  have "tracked (sys c) \<subseteq> tracked (sys c')" "current_collection_number (sys c') = current_collection_number (sys c)"
    "\<forall>d<length (gc_datas (sys c)). mark_of (sys c') d = mark_of (sys c) d"
    using gr by (simp_all add: grows_def)
  then show "base_inv cur g c'"
    using inv r(1,2) leads_home_grows [OF gr] base_facts(4) [OF inv] by (auto simp: base_inv_def data_ok_def)
  assume d: "d \<in> set (cg_locked g)"
  then have "d \<in> tracked (sys c)" "d \<notin> set (warrants c)"
    using inv guarded_not_locked(2) [OF i] by (auto simp: base_inv_def)
  then show "block_val (sys c') d = block_val (sys c) d" by (rule frozen_run [OF i may run])
qed

lemma grown_mark:
  assumes "grows s s'" and "\<forall>d\<in>tracked s. d < length (gc_datas s)" and "\<forall>d\<in>tracked s'. d < length (gc_datas s')"
    and "d \<in> tracked s'"
  shows "d \<in> tracked s \<and> mark_of s' d = mark_of s d \<or> d \<notin> tracked s \<and> mark_of s' d = 0"
  using assms unfolding grows_def by (meson not_le)

text \<open>The count of a lock as it is without the collection.\<close>

definition client_count :: "nat list \<Rightarrow> gc_state \<Rightarrow> nat \<Rightarrow> u64" where
  "client_count ws s d = (if d \<in> set ws then 0 else lk_count (d_lockout (gc_datas s ! d)))"

lemma unheld_count: "d < length (gc_datas s) \<Longrightarrow> lk_count (d_lockout (gc_datas (unheld ws s) ! d)) = client_count ws s d"
  by (simp add: client_count_def unheld_def unlock_def)

text \<open>A step of the collector changes marks, flags and its own locks only.\<close>

lemma base_remark:
  assumes inv: "base_inv cur g c"
    and same: "data_list s' = data_list (sys c)" "handle_list s' = handle_list (sys c)" "gc_heap s' = gc_heap (sys c)"
      "atomics s' = atomics (sys c)" "length (gc_datas s') = length (gc_datas (sys c))"
      "length (gc_handles s') = length (gc_handles (sys c))" "trigger s' = trigger (sys c)" "gc_lock s' = gc_lock (sys c)"
      "atomic_spinlock s' = atomic_spinlock (sys c)" "dropper s' = dropper (sys c)"
      "current_collection_number s' = current_collection_number (sys c)"
    and datas: "\<And>d. d < length (gc_datas (sys c)) \<Longrightarrow> d_allocation (gc_datas s' ! d) = d_allocation (gc_datas (sys c) ! d) \<and>
      d_deallocated (gc_datas s' ! d) = d_deallocated (gc_datas (sys c) ! d)"
    and marks: "\<And>d. d \<in> tracked (sys c) \<Longrightarrow> mark_of s' d \<le> cur"
    and locks: "\<And>d. d \<in> tracked (sys c) \<Longrightarrow> client_count (cg_locked g') s' d = client_count (cg_locked g) (sys c) d"
    and ex: "\<And>d. d \<in> set (cg_locked g') \<Longrightarrow> d \<in> tracked (sys c) \<and>
      lk_exclusive (d_lockout (gc_datas s' ! d)) \<and> mark_of s' d \<noteq> 0"
    and handles: "\<And>h. h < length (gc_handles (sys c)) \<Longrightarrow>
      h_underlying_data (gc_handles s' ! h) = h_underlying_data (gc_handles (sys c) ! h) \<and>
      h_last_non_rooted (gc_handles s' ! h) \<le> cur"
    and g': "distinct (cg_locked g')" "\<forall>h\<in>set (cg_roots g'). leads_home (sys c) h"
  shows "base_inv cur g' (c\<lparr>sys := s'\<rparr>)" and "leads_home s' = leads_home (sys c)" and "tracked s' = tracked (sys c)"
    and "\<And>d. d \<in> tracked (sys c) \<Longrightarrow> block_val s' d = block_val (sys c) d"
    and "\<And>h. h < length (gc_handles (sys c)) \<Longrightarrow> target s' h = target (sys c) h"
proof -
  let ?s = "sys c" and ?u = "unheld (cg_locked g) (sys c)" and ?u' = "unheld (cg_locked g') s'"
  note f = base_facts [OF inv]
  have b: "d < length (gc_datas ?s)" if "d \<in> tracked ?s" for d using f(4) that by (simp add: data_ok_def)
  have num: "current_collection_number ?s = cur" "2 \<le> cur" "cur < cur + 1" using inv by (simp_all add: base_inv_def)
  show tr: "tracked s' = tracked ?s" by (simp add: tracked_def same)
  show tgt: "target s' h = target ?s h" if "h < length (gc_handles ?s)" for h
    using handles [OF that] by (simp add: target_def same split: underlying_data.split)
  then show home: "leads_home s' = leads_home ?s"
    using handles by (auto simp: leads_home_def fun_eq_iff same tr)
  show "block_val s' d = block_val ?s d" if "d \<in> tracked ?s" for d
    using datas [OF b [OF that]] by (simp add: block_val_def addr_def same)
  have "gc_inv [] (held c) (warrants c) ?u'"
  proof (rule gc_inv_remark [OF f(1)])
    fix d assume d: "d < length (gc_datas ?u)"
    then show "d_allocation (gc_datas ?u' ! d) = d_allocation (gc_datas ?u ! d) \<and>
        d_deallocated (gc_datas ?u' ! d) = d_deallocated (gc_datas ?u ! d)"
      using datas [of d] unheld_data(1,2) [of d s' "cg_locked g'"] unheld_data(1,2) [of d ?s "cg_locked g"] same(5) by simp
  next
    fix d assume d: "d \<in> tracked ?u"
    then have "lk_count (d_lockout (gc_datas ?u' ! d)) = lk_count (d_lockout (gc_datas ?u ! d))"
      using locks [of d] b [of d] unheld_count [of d s' "cg_locked g'"] unheld_count [of d ?s "cg_locked g"] same(5) by simp
    then show "d_lockout (gc_datas ?u' ! d) = d_lockout (gc_datas ?u ! d)" by simp
    show "mark_of ?u' d < current_collection_number ?u'"
      using marks [of d] d b [of d] unheld_data(3) [of d s'] num same(5,11) by (simp add: le_less_trans)
  next
    fix h assume "h < length (gc_handles ?u)"
    then show "h_underlying_data (gc_handles ?u' ! h) = h_underlying_data (gc_handles ?u ! h) \<and>
        h_last_non_rooted (gc_handles ?u' ! h) < current_collection_number ?u'"
      using handles [of h] num same(11) by (auto intro: le_less_trans)
  next
    show "2 \<le> current_collection_number ?u'" using num same(11) by (simp add: order_trans [OF _ less_imp_le])
  qed (simp_all add: same)
  moreover have "idle ?u'"
  proof -
    have "idle ?u" using inv by (simp add: base_inv_def client_inv_def)
    then show ?thesis by (simp add: idle_def same) (simp add: unheld_def)
  qed
  moreover have "held_up (cg_locked g') s'"
    using inv ex b by (simp add: base_inv_def held_up_def same)
  moreover have "pending ?u' = []" using inv by (simp add: base_inv_def held_up_def pending_def same)
  ultimately show "base_inv cur g' (c\<lparr>sys := s'\<rparr>)"
    using num ex g' by (auto simp: base_inv_def client_inv_def tr home same)
qed

subsection \<open>Observing\<close>

text \<open>What the collector can rely on whenever it reads.\<close>

lemma base_reads:
  assumes inv: "base_inv cur g c"
  shows "leads_home (sys c) h \<Longrightarrow> with_data h (sys c) = Inr (target (sys c) h)"
    and "d \<in> tracked (sys c) \<Longrightarrow> scannable (sys c) d"
    and "d \<in> tracked (sys c) \<Longrightarrow> scan_data d (sys c) = Inr (scan (block_val (sys c) d))"
    and "d \<in> tracked (sys c) \<Longrightarrow> scanned (sys c) d = item_v ` set (scan (block_val (sys c) d))"
    and "d \<in> tracked (sys c) \<Longrightarrow> h \<in> scanned (sys c) d \<Longrightarrow> leads_home (sys c) h"
    and "d \<in> tracked (sys c) \<Longrightarrow> d < length (gc_datas (sys c))"
proof -
  have race: "race_inv (cg_locked g) (sys c) \<lparr>rs_cursors = [], rs_roots = []\<rparr> c"
    using inv by (simp add: base_inv_def race_inv_def grows_refl)
  note ok = base_facts(4) [OF inv]
  show "leads_home (sys c) h \<Longrightarrow> with_data h (sys c) = Inr (target (sys c) h)"
    using race_searchable(2) [OF race] by (simp add: points_to_def)
  show "scannable (sys c) d" if "d \<in> tracked (sys c)"
    using race_searchable(1) [OF race, of cur] that by (simp add: searchable_def)
  show "scan_data d (sys c) = Inr (scan (block_val (sys c) d))" if "d \<in> tracked (sys c)"
    using scan_data_ok ok that by blast
  show sc: "scanned (sys c) d = item_v ` set (scan (block_val (sys c) d))" if "d \<in> tracked (sys c)"
    using scanned_ok ok that by blast
  show "leads_home (sys c) h" if "d \<in> tracked (sys c)" "h \<in> scanned (sys c) d"
  proof -
    have "h \<in> item_v ` set (scan (block_val (sys c) d))" using that sc by simp
    then obtain r where r: "r \<in> set (scan (block_val (sys c) d))" "h = item_v r" by blast
    then have "visible c r" using that(1) set_scan_owned by (auto simp: visible_def)
    then show ?thesis using base_facts(3) [OF inv] r(2) by simp
  qed
  show "d \<in> tracked (sys c) \<Longrightarrow> d < length (gc_datas (sys c))" using ok by (simp add: data_ok_def)
qed

lemma base_searchable:
  assumes "base_inv cur g c"
  shows "searchable cur (tracked (sys c)) (sys c) (set (cg_roots g))"
proof -
  have "race_inv (cg_locked g) (sys c) \<lparr>rs_cursors = [], rs_roots = cg_roots g\<rparr> c"
    using assms by (simp add: base_inv_def race_inv_def grows_refl)
  from race_searchable(1) [OF this] show ?thesis by simp
qed

lemma unvisited_advance:
  assumes "cg_stage g = Observing" and "a < length (cg_cursors g)" and "cg_cursors g ! a = i"
  shows "unvisited (g\<lparr>cg_cursors := (cg_cursors g)[a := Suc i], cg_locked := L\<rparr>) k \<longleftrightarrow> unvisited g k \<and> k \<noteq> (a, i)"
  using assms by (cases k) (auto simp: unvisited_def nth_list_update)

lemma observe_slot_data:
  assumes inv: "base_inv cur g c" and look: "cll_lookup (data_list (sys c)) k = Some d"
  shows "d \<in> tracked (sys c)"
    and "observe_slot cur k (sys c, ws) = Inr (observe_state cur {d} (sys c), ws @ (if in_use (sys c) d then [] else [d]))"
    and "cll_lookup (data_list (sys c)) k' = Some d \<Longrightarrow> k' = k"
proof -
  show d: "d \<in> tracked (sys c)"
    unfolding tracked_def using cs.items_iff [OF base_facts(5) [OF inv]] look by blast
  have "observe_data cur d (observe_state cur {} (sys c), ws) =
      Inr (observe_state cur {d} (sys c), ws @ (if in_use (sys c) d then [] else [d]))"
    using base_reads(6,2) [OF inv d] by (intro observe_data_step) simp_all
  then show "observe_slot cur k (sys c, ws) = Inr (observe_state cur {d} (sys c), ws @ (if in_use (sys c) d then [] else [d]))"
    by (simp add: observe_slot_def look) (simp add: observe_state_def)
  show "cll_lookup (data_list (sys c)) k' = Some d \<Longrightarrow> k' = k"
    using cs.lookup_inj [OF base_facts(5,6) [OF inv]] look by blast
qed

lemma observe_state_one:
  assumes "d < length (gc_datas s)" and "scannable s d"
  shows "e < length (gc_datas s) \<Longrightarrow> gc_datas (observe_state cur {d} s) ! e = (if e = d then observed cur (gc_datas s ! d) else gc_datas s ! e)"
    and "h < length (gc_handles s) \<Longrightarrow> gc_handles (observe_state cur {d} s) ! h =
      (if \<not> in_use s d \<and> h \<in> scanned s d then flagged cur (gc_handles s ! h) else gc_handles s ! h)"
  using assms by (auto simp: observe_state_def)

lemma observe_base:
  assumes inv: "base_inv cur g c" and d: "d \<in> tracked (sys c)" "d \<notin> set (cg_locked g)"
    and g': "cg_locked g' = cg_locked g @ (if in_use (sys c) d then [] else [d])" "cg_roots g' = cg_roots g"
  shows "base_inv cur g' (c\<lparr>sys := observe_state cur {d} (sys c)\<rparr>)"
    and "tracked (observe_state cur {d} (sys c)) = tracked (sys c)"
    and "e \<in> tracked (sys c) \<Longrightarrow> scanned (observe_state cur {d} (sys c)) e = scanned (sys c) e"
    and "e \<in> tracked (sys c) \<Longrightarrow> e \<noteq> d \<Longrightarrow> mark_of (observe_state cur {d} (sys c)) e = mark_of (sys c) e"
    and "in_use (sys c) d \<Longrightarrow> mark_of (observe_state cur {d} (sys c)) d = cur"
    and "\<not> in_use (sys c) d \<Longrightarrow> mark_of (sys c) d \<noteq> cur \<Longrightarrow> mark_of (observe_state cur {d} (sys c)) d \<noteq> cur"
proof -
  let ?s = "sys c" and ?t = "observe_state cur {d} (sys c)"
  note rd = base_reads [OF inv] and f = base_facts [OF inv]
  note one = observe_state_one [OF rd(6,2), OF d(1,1), where cur = cur]
  have num: "2 \<le> cur" using inv by (simp add: base_inv_def)
  then have "cur \<noteq> 0" "cur - 1 \<noteq> 0" by (auto simp: word_le_nat_alt)
  moreover from this have "cur - 1 < cur" using measure_unat [of cur] by (simp add: word_less_nat_alt)
  ultimately have pos: "cur \<noteq> 0" "cur - 1 \<noteq> 0" "cur - 1 \<le> cur" "cur - 1 \<noteq> cur" by simp_all
  have mk: "mark_of ?t e = (if e \<noteq> d then mark_of ?s e else if in_use ?s d then cur
      else if mark_of ?s d = 0 then cur - 1 else mark_of ?s d)" if "e \<in> tracked ?s" for e
    using one(1) [OF rd(6) [OF that]] by (simp add: mark_of_def observed_def in_use_def)
  then show "e \<in> tracked ?s \<Longrightarrow> e \<noteq> d \<Longrightarrow> mark_of ?t e = mark_of ?s e" "in_use ?s d \<Longrightarrow> mark_of ?t d = cur"
    "\<not> in_use ?s d \<Longrightarrow> mark_of ?s d \<noteq> cur \<Longrightarrow> mark_of ?t d \<noteq> cur"
    using d(1) pos by auto
  have tr: "tracked ?t = tracked ?s" by (simp add: observe_state_def tracked_def)
  have bv: "block_val ?t e = block_val ?s e" if "e \<in> tracked ?s" for e
    using one(1) [OF rd(6) [OF that]] by (simp add: block_val_def addr_def observed_def) (simp add: observe_state_def)
  have base: "base_inv cur g' (c\<lparr>sys := ?t\<rparr>)"
  proof (rule base_remark(1) [OF inv, where s' = ?t and g' = g'], goal_cases)
    case (12 e)
    then show ?case using one(1) by (simp add: observed_def)
  next
    case (13 e)
    then show ?case using mk f(8) pos by auto
  next
    case (14 e)
    show ?case
      using one(1) [OF rd(6) [OF 14]] d by (auto simp: client_count_def g'(1) observed_def in_use_def)
  next
    case (15 e)
    then consider "e \<in> set (cg_locked g)" "e \<noteq> d" | "e = d" "\<not> in_use ?s d" using d(2) g'(1) by (auto split: if_splits)
    then show ?case
    proof cases
      case 1
      then have "e \<in> tracked ?s" "mark_of ?s e \<noteq> 0" "lk_exclusive (d_lockout (gc_datas ?s ! e))"
        using inv by (simp_all add: base_inv_def held_up_def)
      then show ?thesis using 1 mk one(1) [OF rd(6)] by simp
    next
      case 2
      then show ?thesis using mk [OF d(1)] one(1) [OF rd(6) [OF d(1)]] pos d(1)
        by (simp add: observed_def in_use_def lk_exclusive_def)
    qed
  next
    case (16 h)
    then show ?case using one(2) f(9) by (simp add: flagged_def)
  next
    case 17
    then show ?case using inv d(2) by (simp add: base_inv_def g'(1))
  next
    case 18
    then show ?case using inv by (simp add: base_inv_def g'(2))
  qed (simp_all add: observe_state_def)
  with tr show "base_inv cur g' (c\<lparr>sys := ?t\<rparr>)" "tracked ?t = tracked ?s" by simp_all
  show "scanned ?t e = scanned ?s e" if "e \<in> tracked ?s"
    using base_reads(4) [OF base] rd(4) [OF that] bv [OF that] that tr by simp
qed

lemma observe_flags:
  assumes base: "base_inv cur g c" and flags: "flags_ok cur g (sys c)" and d: "d \<in> tracked (sys c)" "d \<notin> set (cg_locked g)"
    and mark: "mark_of (sys c) d \<noteq> cur" and g': "cg_locked g' = cg_locked g @ (if in_use (sys c) d then [] else [d])"
    "cg_roots g' = cg_roots g"
  shows "flags_ok cur g' (observe_state cur {d} (sys c))"
  unfolding flags_ok_def
proof (intro conjI ballI allI impI)
  let ?s = "sys c" and ?t = "observe_state cur {d} (sys c)"
  note ob = observe_base [OF base d g']
  have tr: "e \<in> tracked ?s" if "e \<in> set (cg_locked g)" for e using base that by (simp add: base_inv_def)
  show "mark_of ?t e \<noteq> cur" if e: "e \<in> set (cg_locked g')" for e
  proof -
    consider "e \<in> set (cg_locked g)" "e \<noteq> d" | "e = d" "\<not> in_use ?s d"
      using e d(2) by (auto simp: g'(1) split: if_splits)
    then show ?thesis
    proof cases
      case 1
      then have "mark_of ?s e \<noteq> cur" using flags by (simp add: flags_ok_def)
      with ob(4) [OF tr, of e] 1 show ?thesis by simp
    qed (use ob(6) mark in simp)
  qed
  fix h assume h: "h < length (gc_handles ?t)" "h_last_non_rooted (gc_handles ?t ! h) = cur"
  have len: "length (gc_handles ?t) = length (gc_handles ?s)" by (simp add: observe_state_def)
  have "(\<not> in_use ?s d \<and> h \<in> scanned ?s d) \<or> h_last_non_rooted (gc_handles ?s ! h) = cur"
    using h observe_state_one(2) [OF base_reads(6,2) [OF base d(1)], of h cur] by (auto simp: len split: if_splits)
  then show "\<exists>e\<in>set (cg_locked g'). h \<in> scanned ?t e"
    using flags h(1) ob(3) d(1) tr by (auto simp: flags_ok_def len g'(1))
qed

text \<open>An empty slot.\<close>

lemma early_skip:
  assumes inv: "early_inv cur g c" and stage: "cg_stage g = Observing"
    and a: "a < length (cg_cursors g)" "cg_cursors g ! a = i" and none: "cll_lookup (data_list (sys c)) (a, i) = None"
  shows "early_inv cur (g\<lparr>cg_cursors := (cg_cursors g)[a := Suc i], cg_locked := cg_locked g\<rparr>) c"
proof -
  let ?s = "sys c" and ?g = "g\<lparr>cg_cursors := (cg_cursors g)[a := Suc i], cg_locked := cg_locked g\<rparr>"
  have lk: "cg_locked ?g = cg_locked g" by simp
  have keep: "unvisited ?g k \<longleftrightarrow> unvisited g k" if "cll_lookup (data_list ?s) k = Some d" for k d
    unfolding unvisited_advance [OF stage a] using none that by auto
  have "covered cur g ?s" "unseen_ok cur g ?s" using inv by (simp_all add: early_inv_def)
  then have "covered cur ?g ?s" "unseen_ok cur ?g ?s" using keep unfolding covered_def unseen_ok_def lk by blast+
  then show ?thesis using inv by (simp add: early_inv_def base_inv_def flags_ok_def)
qed

lemma early_observe_data:
  assumes inv: "early_inv cur g c" and stage: "cg_stage g = Observing"
    and a: "a < length (cg_cursors g)" "cg_cursors g ! a = i" and look: "cll_lookup (data_list (sys c)) (a, i) = Some d"
  shows "early_inv cur (g\<lparr>cg_cursors := (cg_cursors g)[a := Suc i],
      cg_locked := cg_locked g @ (if in_use (sys c) d then [] else [d])\<rparr>) (c\<lparr>sys := observe_state cur {d} (sys c)\<rparr>)"
proof -
  let ?s = "sys c" and ?t = "observe_state cur {d} (sys c)" and ?L = "cg_locked g @ (if in_use (sys c) d then [] else [d])"
  let ?g = "g\<lparr>cg_cursors := (cg_cursors g)[a := Suc i], cg_locked := ?L\<rparr>"
  have base: "base_inv cur g c" and cov: "covered cur g ?s" and flags: "flags_ok cur g ?s" and un: "unseen_ok cur g ?s"
    using inv by (simp_all add: early_inv_def)
  note adv = unvisited_advance [OF stage a]
  have seen: "unvisited g (a, i)" using stage a by (simp add: unvisited_def)
  note sl = observe_slot_data [OF base look]
  have d: "d \<notin> set (cg_locked g)" "mark_of ?s d \<noteq> cur" using un look seen by (simp_all add: unseen_ok_def)
  have g': "cg_locked ?g = ?L" "cg_roots ?g = cg_roots g" by simp_all
  note ob = observe_base [OF base sl(1) d(1) g']
  have dl: "data_list ?t = data_list ?s" by (simp add: observe_state_def)
  have new: "d \<in> set ?L \<or> mark_of ?t d = cur" using ob(5) by auto
  have "covered cur ?g ?t"
    unfolding covered_def ob(2)
  proof
    fix e assume e: "e \<in> tracked ?s"
    show "e \<in> set (cg_locked ?g) \<or> mark_of ?t e = 0 \<or> mark_of ?t e = cur \<or>
        (\<exists>k. cll_lookup (data_list ?t) k = Some e \<and> unvisited ?g k)"
    proof (cases "e = d")
      case False
      then show ?thesis using cov e ob(4) look by (auto simp: covered_def adv dl)
    qed (use new in auto)
  qed
  moreover have "unseen_ok cur ?g ?t"
    unfolding unseen_ok_def
  proof (intro allI impI)
    fix k e assume k: "cll_lookup (data_list ?t) k = Some e" "unvisited ?g k"
    then have "e \<noteq> d" using sl(3) [of k] by (auto simp: adv dl)
    moreover have "e \<in> tracked ?s" using observe_slot_data(1) [OF base, of k e] k(1) by (simp add: dl)
    moreover have "e \<notin> set (cg_locked g) \<and> mark_of ?s e \<noteq> cur" using un k unfolding unseen_ok_def adv dl by blast
    ultimately show "e \<notin> set (cg_locked ?g) \<and> mark_of ?t e \<noteq> cur" using ob(4) by simp
  qed
  ultimately show ?thesis using ob(1) observe_flags [OF base flags sl(1) d g'] by (simp add: early_inv_def)
qed

lemma early_observe:
  assumes inv: "early_inv cur g c" and stage: "cg_stage g = Observing"
    and a: "a < length (cg_cursors g)" "cg_cursors g ! a = i"
    and step: "observe_slot cur (a, i) (sys c, cg_locked g) = Inr (s', ws')"
  shows "early_inv cur (g\<lparr>cg_cursors := (cg_cursors g)[a := Suc i], cg_locked := ws'\<rparr>) (c\<lparr>sys := s'\<rparr>)"
proof (cases "cll_lookup (data_list (sys c)) (a, i)")
  case None
  then have "s' = sys c" "ws' = cg_locked g" using step by (simp_all add: observe_slot_def)
  then show ?thesis using early_skip [OF inv stage a None] by simp
next
  case (Some d)
  have "base_inv cur g c" using inv by (simp add: early_inv_def)
  from observe_slot_data(2) [OF this Some] step early_observe_data [OF inv stage a Some] show ?thesis by simp
qed

text \<open>The search for roots reads only.\<close>

lemma early_cursors:
  assumes "early_inv cur g c" and "cg_stage g = Observing \<Longrightarrow> set (cg_cursors g) \<subseteq> {CHUNK_SIZE}"
    and "cg_stage g' = Finding" and "cg_locked g' = cg_locked g" and "\<forall>h\<in>set (cg_roots g'). leads_home (sys c) h"
  shows "early_inv cur g' c"
proof -
  have base: "base_inv cur g c" and cov: "covered cur g (sys c)" and flags: "flags_ok cur g (sys c)"
    using assms(1) by (simp_all add: early_inv_def)
  have none: "\<not> unvisited g k" if "cll_lookup (data_list (sys c)) k = Some d" for k d
  proof (cases "cg_stage g = Observing")
    case True
    from all_visited [OF base_facts(5) [OF base] assms(2) [OF True] that] show ?thesis .
  qed (simp add: unvisited_def)
  have "covered cur g' (sys c)" using cov none assms(3,4) by (fastforce simp: covered_def)
  then show ?thesis
    using base flags assms(3-5) by (simp add: early_inv_def base_inv_def flags_ok_def unseen_ok_def unvisited_def)
qed

text \<open>A call.\<close>

lemma locked_scan_call:
  assumes inv: "base_inv cur g c" and may: "client_may op c" and run: "client_run op c = Inr c'" and d: "d \<in> set (cg_locked g)"
  shows "scanned (sys c') d = scanned (sys c) d" and "mark_of (sys c') d = mark_of (sys c) d"
proof -
  note b = base_call [OF inv may run]
  have tr: "d \<in> tracked (sys c)" using inv d by (simp add: base_inv_def)
  then have "d \<in> tracked (sys c')" using b(2) by (auto simp: grows_def)
  then show "scanned (sys c') d = scanned (sys c) d"
    using base_reads(4) [OF inv tr] base_reads(4) [OF b(1)] b(3) [OF d] by simp
  show "mark_of (sys c') d = mark_of (sys c) d" using b(2) base_reads(6) [OF inv tr] by (simp add: grows_def)
qed

lemma grows_slot: "grows s s' \<Longrightarrow> cll_lookup (data_list s) k = Some d \<Longrightarrow> cll_lookup (data_list s') k = Some d"
  unfolding grows_def by blast

lemma covered_call:
  assumes inv: "base_inv cur g c" and may: "client_may op c" and run: "client_run op c = Inr c'"
    and cov: "covered cur g (sys c)"
  shows "covered cur g (sys c')"
proof -
  note b = base_call [OF inv may run]
  have bound: "\<forall>d\<in>tracked (sys c). d < length (gc_datas (sys c))" "\<forall>d\<in>tracked (sys c'). d < length (gc_datas (sys c'))"
    using base_reads(6) [OF inv] base_reads(6) [OF b(1)] by blast+
  have slots: "\<forall>k d. cll_lookup (data_list (sys c)) k = Some d \<longrightarrow> cll_lookup (data_list (sys c')) k = Some d"
    using grows_slot [OF b(2)] by blast
  show ?thesis
    unfolding covered_def
  proof
    fix d assume "d \<in> tracked (sys c')"
    from grown_mark [OF b(2) bound this] cov slots
    show "d \<in> set (cg_locked g) \<or> mark_of (sys c') d = 0 \<or> mark_of (sys c') d = cur \<or>
        (\<exists>k. cll_lookup (data_list (sys c')) k = Some d \<and> unvisited g k)"
      unfolding covered_def by metis
  qed
qed

lemma early_call:
  assumes inv: "early_inv cur g c" and may: "client_may op c" and run: "client_run op c = Inr c'"
  shows "early_inv cur g c'"
proof -
  have base: "base_inv cur g c" and cov: "covered cur g (sys c)" and flags: "flags_ok cur g (sys c)"
    and un: "unseen_ok cur g (sys c)" using inv by (simp_all add: early_inv_def)
  note b = base_call [OF base may run] and l = locked_scan_call [OF base may run]
  have bound: "\<forall>d\<in>tracked (sys c). d < length (gc_datas (sys c))" "\<forall>d\<in>tracked (sys c'). d < length (gc_datas (sys c'))"
    using base_reads(6) [OF base] base_reads(6) [OF b(1)] by blast+
  have num: "2 \<le> cur" using base by (simp add: base_inv_def)
  then have nz: "cur \<noteq> 0" by auto
  have "flags_ok cur g (sys c')"
    unfolding flags_ok_def
  proof (intro conjI ballI allI impI)
    show "mark_of (sys c') d \<noteq> cur" if "d \<in> set (cg_locked g)" for d
      using l(2) [OF that] flags that by (simp add: flags_ok_def)
    fix h assume h: "h < length (gc_handles (sys c'))" "h_last_non_rooted (gc_handles (sys c') ! h) = cur"
    show "\<exists>d\<in>set (cg_locked g). h \<in> scanned (sys c') d"
    proof (cases "h < length (gc_handles (sys c))")
      case True
      then show ?thesis using flags h(2) grows_handle [OF b(2) True] l(1) by (simp add: flags_ok_def)
    next
      case False
      then have "h_last_non_rooted (gc_handles (sys c') ! h) = 0" using b(2) h(1) by (simp add: grows_def)
      then show ?thesis using h(2) nz by simp
    qed
  qed
  moreover have "unseen_ok cur g (sys c')"
    unfolding unseen_ok_def
  proof (intro allI impI)
    fix k d assume k: "cll_lookup (data_list (sys c')) k = Some d" "unvisited g k"
    note sl = observe_slot_data [OF b(1) k(1)]
    show "d \<notin> set (cg_locked g) \<and> mark_of (sys c') d \<noteq> cur"
    proof (cases "d \<in> tracked (sys c)")
      case True
      then obtain k' where k': "cll_lookup (data_list (sys c)) k' = Some d"
        using cs.items_iff [OF base_facts(5) [OF base], of d] by (auto simp: tracked_def)
      then have "cll_lookup (data_list (sys c')) k' = Some d" by (rule grows_slot [OF b(2)])
      then have "k' = k" by (rule sl(3))
      moreover have "mark_of (sys c') d = mark_of (sys c) d" using grown_mark [OF b(2) bound sl(1)] True by blast
      ultimately show ?thesis using un k' k(2) unfolding unseen_ok_def by metis
    next
      case False
      then have "mark_of (sys c') d = 0" using grown_mark [OF b(2) bound sl(1)] by blast
      then show ?thesis using False base nz by (auto simp: base_inv_def)
    qed
  qed
  ultimately show ?thesis using b(1) covered_call [OF base may run cov] by (simp add: early_inv_def)
qed

text \<open>The beginning.\<close>

lemma starts_collecting:
  assumes inv: "client_inv c" and room: "number_room (sys c)"
  obtains s2 where "start_collecting (sys c) = Inr (current_collection_number (sys c),
      \<lparr>cg_stage = Observing, cg_cursors = chunk_starts (data_list s2), cg_locked = [], cg_roots = [], cg_queue = [], cg_workers = []\<rparr>, s2)"
    and "early_inv (current_collection_number (sys c))
      \<lparr>cg_stage = Observing, cg_cursors = chunk_starts (data_list s2), cg_locked = [], cg_roots = [], cg_queue = [], cg_workers = []\<rparr>
      (c\<lparr>sys := s2\<rparr>)"
    and "begin_collection (sys c) = Inr (current_collection_number (sys c), filter (\<lambda>d. \<not> in_use s2 d) (par_iter (data_list s2)),
      observe_state (current_collection_number (sys c)) (tracked s2) s2)"
proof -
  let ?s = "sys c"
  obtain s2 where begins: "begin_collection (sys c) = Inr (current_collection_number s2,
        filter (\<lambda>d. \<not> in_use s2 d) (par_iter (data_list s2)),
        observe_state (current_collection_number s2) (tracked s2) s2)"
      and g: "gc_inv [] (held c) (warrants c) s2"
      and cur: "current_collection_number s2 = current_collection_number ?s"
      and sync: "synchronize_destructors (?s\<lparr>gc_lock := True, atomic_spinlock := \<lparr>tracker = SENTINEL_VALUE\<rparr>\<rparr>) = Inr s2"
      and ctl: "dropper s2 = []" "data_list s2 = data_list ?s" "trigger s2 = trigger ?s" "gc_lock s2"
        "tracker (atomic_spinlock s2) = SENTINEL_VALUE"
    by (rule begin_collection_spec [OF inv room])
  let ?cur = "current_collection_number s2"
  let ?g = "\<lparr>cg_stage = Observing, cg_cursors = chunk_starts (data_list s2), cg_locked = [], cg_roots = [], cg_queue = [], cg_workers = []\<rparr>"
  have idle: "\<not> gc_lock ?s" "tracker (atomic_spinlock ?s) = 0" using inv by (simp_all add: client_inv_def idle_def)
  then have "lock_exclusive (atomic_spinlock ?s) = Some \<lparr>tracker = SENTINEL_VALUE\<rparr>"
    by (cases "atomic_spinlock ?s") (simp add: lock_exclusive_def compare_exchange_def is_ok_def)
  with idle sync cur have start: "start_collecting ?s = Inr (?cur, ?g, s2)"
    by (simp add: start_collecting_def lock_gc_def Let_def)
  have m: "2 \<le> ?cur" "\<forall>d\<in>tracked s2. mark_of s2 d < ?cur" "\<forall>h<length (gc_handles s2). h_last_non_rooted (gc_handles s2 ! h) < ?cur"
    using g by (simp_all add: gc_invx_def marks_ok_def)
  have less: "?cur < ?cur + 1" using room cur by (simp add: number_room_def)
  have u: "gc_datas (unheld [] s2) = gc_datas s2" by (simp add: unheld_def upd_all_def map_nth cong: if_cong)
  have "gc_inv [] (held c) (warrants c) (unheld [] s2)"
    by (rule gc_inv_remark [OF g]) (use m less in \<open>auto simp: u mark_of_def intro: less_trans\<close>)
  moreover have "idle (unheld [] s2)" using inv ctl by (simp add: client_inv_def idle_def) (simp add: unheld_def)
  ultimately have base: "base_inv ?cur ?g (c\<lparr>sys := s2\<rparr>)"
    using ctl m less by (simp add: base_inv_def client_inv_def pending_def held_up_def)
  have "covered ?cur ?g s2"
    unfolding covered_def
  proof
    fix d assume "d \<in> tracked s2"
    then obtain k where k: "cll_lookup (data_list s2) k = Some d"
      using cs.items_iff [OF base_facts(5) [OF base], of d] by (auto simp: tracked_def)
    have "unvisited ?g k" by (rule none_visited [OF _ _ _ k]) (use base_facts(5) [OF base] in simp_all)
    with k show "d \<in> set (cg_locked ?g) \<or> mark_of s2 d = 0 \<or> mark_of s2 d = ?cur \<or>
        (\<exists>k. cll_lookup (data_list s2) k = Some d \<and> unvisited ?g k)" by blast
  qed
  moreover have "flags_ok ?cur ?g s2" using m(3) by (auto simp: flags_ok_def)
  moreover have "unseen_ok ?cur ?g s2"
    unfolding unseen_ok_def
  proof (intro allI impI)
    fix k d assume "cll_lookup (data_list s2) k = Some d"
    then have "d \<in> tracked s2" using observe_slot_data(1) [OF base, of k d] by simp
    then show "d \<notin> set (cg_locked ?g) \<and> mark_of s2 d \<noteq> ?cur" using m(2) by auto
  qed
  ultimately have "early_inv ?cur ?g (c\<lparr>sys := s2\<rparr>)" using base by (simp add: early_inv_def)
  with start show thesis using begins unfolding cur by (rule that)
qed

subsection \<open>Searching for roots\<close>

lemma early_find:
  assumes inv: "early_inv cur g c" and stage: "cg_stage g = Finding"
  shows "early_inv cur (g\<lparr>cg_cursors := cs, cg_roots := visit_slot cur (sys c) k (cg_roots g)\<rparr>) c"
proof (rule early_cursors [OF inv])
  have base: "base_inv cur g c" using inv by (simp add: early_inv_def)
  then have "\<forall>h\<in>set (cg_roots g). leads_home (sys c) h" by (simp add: base_inv_def)
  moreover have "set (visit_slot cur (sys c) k (cg_roots g)) \<subseteq> set (cg_roots g) \<union> live_handles (sys c)"
  proof (cases "cll_lookup (handle_list (sys c)) k")
    case (Some h)
    then have "h \<in> live_handles (sys c)" using lookup_live [OF base_facts(7) [OF base]] by blast
    then show ?thesis by (simp add: visit_slot_def Some)
  qed (simp add: visit_slot_def)
  ultimately show "\<forall>h\<in>set (cg_roots (g\<lparr>cg_cursors := cs, cg_roots := visit_slot cur (sys c) k (cg_roots g)\<rparr>)). leads_home (sys c) h"
    using base_facts(2) [OF base] by auto
qed (use stage in simp_all)

text \<open>Handles that stay in their slots, outside of locked data, are found.\<close>

definition outside :: "(slot_key \<times> nat) set \<Rightarrow> collection \<Rightarrow> gc_state \<Rightarrow> bool" where
  "outside M g s \<longleftrightarrow> (\<forall>(k, h)\<in>M. \<forall>d\<in>set (cg_locked g). h \<notin> scanned s d)"

definition finding_inv :: "u64 \<Rightarrow> (slot_key \<times> nat) set \<Rightarrow> collection \<Rightarrow> gc_client \<Rightarrow> bool" where
  "finding_inv cur M g c \<longleftrightarrow> early_inv cur g c \<and> cg_stage g = Finding \<and> slots_hold M c \<and> outside M g (sys c) \<and>
     (\<forall>(k, h)\<in>M. fst k < length (cg_cursors g) \<and> (snd k < cg_cursors g ! fst k \<longrightarrow> h \<in> set (cg_roots g)))"

abbreviation lasting_find ::
    "u64 \<Rightarrow> nat \<Rightarrow> (slot_key \<times> nat) set \<Rightarrow> collection \<times> gc_client \<Rightarrow> collection \<times> gc_client \<Rightarrow> bool" where
  "lasting_find cur n M \<equiv>
     (\<lambda>x y. collection_step cur n x y \<and> cg_stage (fst y) = Finding \<and> slots_hold M (snd y))\<^sup>*\<^sup>*"

lemma unflagged_outside:
  assumes inv: "early_inv cur g c" and out: "outside M g (sys c)" and holds: "slots_hold M c" and M: "(k, h) \<in> M"
  shows "cll_lookup (handle_list (sys c)) k = Some h" and "h_last_non_rooted (gc_handles (sys c) ! h) \<noteq> cur"
proof -
  have base: "base_inv cur g c" using inv by (simp add: early_inv_def)
  show look: "cll_lookup (handle_list (sys c)) k = Some h" using holds M by (auto simp: slots_hold_def)
  then have "h \<in> live_handles (sys c)" using lookup_live [OF base_facts(7) [OF base]] by blast
  then have "h < length (gc_handles (sys c))" using base_facts(2) [OF base] by (simp add: leads_home_def)
  moreover have "\<forall>d\<in>set (cg_locked g). h \<notin> scanned (sys c) d" using bspec [OF out [unfolded outside_def] M] by simp
  ultimately show "h_last_non_rooted (gc_handles (sys c) ! h) \<noteq> cur"
    using inv unfolding early_inv_def flags_ok_def by blast
qed

lemma finding_step:
  assumes inv: "finding_inv cur M g c" and step: "collection_step cur n (g, c) (g', c')"
    and stays: "cg_stage g' = Finding" "slots_hold M c'"
  shows "finding_inv cur M g' c'"
  using step
proof cases
  case own
  have early: "early_inv cur g c" and stage: "cg_stage g = Finding" and out: "outside M g (sys c)" and holds: "slots_hold M c"
    using inv by (simp_all add: finding_inv_def)
  from own show ?thesis
  proof cases
    case (find a i)
    have "early_inv cur g' c'" using early_find [OF early stage] by (simp add: find)
    moreover have "outside M g' (sys c')" using out by (simp add: outside_def find)
    moreover have "fst k < length (cg_cursors g') \<and> (snd k < cg_cursors g' ! fst k \<longrightarrow> h \<in> set (cg_roots g'))"
      if M: "(k, h) \<in> M" for k h
    proof -
      note un = unflagged_outside [OF early out holds M]
      have old: "fst k < length (cg_cursors g)" "snd k < cg_cursors g ! fst k \<longrightarrow> h \<in> set (cg_roots g)"
        using inv M by (auto simp: finding_inv_def)
      have mono: "set (cg_roots g) \<subseteq> set (visit_slot cur (sys c) (a, i) (cg_roots g))"
        by (auto simp: visit_slot_def split: option.split)
      show ?thesis
      proof (cases "k = (a, i)")
        case True
        then have "h \<in> set (visit_slot cur (sys c) (a, i) (cg_roots g))" using un by (simp add: visit_slot_def)
        then show ?thesis using old(1) by (simp add: find(1))
      next
        case False
        then show ?thesis
          using old mono find(4,5) by (cases k) (auto simp: find(1) nth_list_update less_Suc_eq)
      qed
    qed
    ultimately show ?thesis using stays by (auto simp: finding_inv_def)
  qed (use stage stays(1) in simp_all)
next
  case (call op)
  have early: "early_inv cur g c" using inv by (simp add: finding_inv_def)
  then have base: "base_inv cur g c" by (simp add: early_inv_def)
  have "outside M g' (sys c')"
    using inv locked_scan_call(1) [OF base call(2,3)] by (auto simp: finding_inv_def outside_def call(1))
  then show ?thesis
    using inv stays early_call [OF early call(2,3)] by (simp add: finding_inv_def call(1))
qed

lemma finding_steps:
  "lasting_find cur n M (g, c) (g', c') \<Longrightarrow> finding_inv cur M g c \<Longrightarrow> finding_inv cur M g' c'"
proof (induction rule: rtranclp_induct2)
  case (step g1 c1 g2 c2)
  then show ?case using finding_step [of cur M g1 c1 n g2 c2] by simp
qed simp

lemma finding_starts:
  assumes inv: "early_inv cur g c" and stage: "cg_stage g = Finding" "cg_cursors g = chunk_starts (handle_list (sys c))"
    and holds: "slots_hold M c" and out: "outside M g (sys c)"
  shows "finding_inv cur M g c"
proof -
  have base: "base_inv cur g c" using inv by (simp add: early_inv_def)
  have "fst k < length (cg_cursors g) \<and> cg_cursors g ! fst k = 0" if M: "(k, h) \<in> M" for k h
  proof -
    have "cll_lookup (handle_list (sys c)) k = Some h" by (rule unflagged_outside(1) [OF inv out holds M])
    from slot_range(2,3) [OF base_facts(7) [OF base] this] show ?thesis by (simp add: stage(2))
  qed
  then show ?thesis using inv stage(1) holds out by (fastforce simp: finding_inv_def)
qed

lemma finding_found:
  assumes inv: "finding_inv cur M g c" and fin: "set (cg_cursors g) \<subseteq> {CHUNK_SIZE}" and M: "(k, h) \<in> M"
  shows "h \<in> set (cg_roots g)"
proof -
  have base: "base_inv cur g c" using inv by (simp add: finding_inv_def early_inv_def)
  have "cll_lookup (handle_list (sys c)) k = Some h" using inv M by (auto simp: finding_inv_def slots_hold_def)
  then have "snd k < CHUNK_SIZE" by (rule slot_range(1) [OF base_facts(7) [OF base]])
  moreover have k: "fst k < length (cg_cursors g)" "snd k < cg_cursors g ! fst k \<longrightarrow> h \<in> set (cg_roots g)"
    using inv M by (auto simp: finding_inv_def)
  moreover have "cg_cursors g ! fst k = CHUNK_SIZE" using fin nth_mem [OF k(1)] by blast
  ultimately show ?thesis by simp
qed

end
