(* ===== verification/Collection_Search.thy ===== *)
theory Collection_Search
  imports Collection_Threads
begin

text \<open>
  The search through the object graph and the release of the warrants, beside any calls of other threads, and with
  them the whole collection.
\<close>

subsection \<open>The search\<close>

text \<open>The mark of the data needs no more care, or some worker will get to it.\<close>

definition settled :: "u64 \<Rightarrow> nat list \<Rightarrow> worker list \<Rightarrow> gc_state \<Rightarrow> nat \<Rightarrow> bool" where
  "settled cur q ws s d \<longleftrightarrow> mark_of s d = 0 \<or> mark_of s d = cur \<or> Visiting d \<in> set ws \<or> Swapping d \<in> set ws \<or>
     (\<exists>h\<in>set q. target s h = d)"

definition worker_at :: "u64 \<Rightarrow> nat set \<Rightarrow> gc_state \<Rightarrow> worker \<Rightarrow> bool" where
  "worker_at cur L s w =
     (case w of
        Idle \<Rightarrow> True
      | Visiting d \<Rightarrow> d \<in> tracked s
      | Swapping d \<Rightarrow> d \<in> tracked s \<and> mark_of s d \<noteq> 0
      | Scanning d \<Rightarrow> d \<in> L \<and> mark_of s d = cur
      | Enqueueing d hs \<Rightarrow> d \<in> L \<and> mark_of s d = cur \<and> set hs \<subseteq> scanned s d)"

definition handed_on :: "u64 \<Rightarrow> nat list \<Rightarrow> worker list \<Rightarrow> gc_state \<Rightarrow> nat \<Rightarrow> bool" where
  "handed_on cur q ws s d \<longleftrightarrow>
     Scanning d \<in> set ws \<or>
     (\<forall>h\<in>scanned s d. settled cur q ws s (target s h) \<or> (\<exists>hs. Enqueueing d hs \<in> set ws \<and> h \<in> set hs))"

definition searching :: "u64 \<Rightarrow> nat set \<Rightarrow> nat set \<Rightarrow> search \<Rightarrow> bool" where
  "searching cur R L x =
     (case x of (q, ws, s) \<Rightarrow>
        (\<forall>h\<in>set q. leads_home s h) \<and> (\<forall>w\<in>set ws. worker_at cur L s w) \<and>
        (\<forall>h\<in>R. leads_home s h \<and> settled cur q ws s (target s h)) \<and>
        (\<forall>d\<in>L. mark_of s d = cur \<longrightarrow> handed_on cur q ws s d))"

text \<open>One worker moves on, and may mark data.\<close>

lemma searching_move:
  assumes inv: "searching cur R L (q, ws, s)" and i: "i < length ws"
    and same: "gc_handles s' = gc_handles s" "atomics s' = atomics s" "tracked s' = tracked s"
      "\<And>d. d \<in> L \<Longrightarrow> scanned s' d = scanned s d"
    and marks: "\<And>d. d \<in> tracked s \<Longrightarrow> mark_of s' d = mark_of s d \<or> mark_of s' d = cur" and cur: "cur \<noteq> 0"
    and L: "L \<subseteq> tracked s"
    and q: "\<And>h. h \<in> set q' \<Longrightarrow> leads_home s h"
    and w: "worker_at cur L s' w"
    and settled: "\<And>d. d \<in> tracked s \<Longrightarrow> settled cur q ws s d \<Longrightarrow> settled cur q' (ws[i := w]) s' d"
    and scan: "\<And>d. scan_of (ws ! i) = Some d \<Longrightarrow> handed_on cur q' (ws[i := w]) s' d"
    and new: "\<And>d. d \<in> L \<Longrightarrow> mark_of s d \<noteq> cur \<Longrightarrow> mark_of s' d = cur \<Longrightarrow> handed_on cur q' (ws[i := w]) s' d"
    and home: "\<And>d h. d \<in> L \<Longrightarrow> h \<in> scanned s d \<Longrightarrow> target s h \<in> tracked s"
  shows "searching cur R L (q', ws[i := w], s')"
proof -
  have tgt: "target s' = target s" by (simp add: target_def fun_eq_iff same split: underlying_data.split)
  have lh: "leads_home s' = leads_home s" by (simp add: leads_home_def fun_eq_iff same tgt)
  have mk: "mark_of s' d \<noteq> 0" "mark_of s d = cur \<Longrightarrow> mark_of s' d = cur"
    if "d \<in> tracked s" "mark_of s d \<noteq> 0" for d
    using marks [OF that(1)] that(2) cur by auto
  have old: "worker_at cur L s' x" if "worker_at cur L s x" for x
    using that mk cur same(4) L by (cases x) (auto simp: worker_at_def same(3))
  have "\<forall>x\<in>set (ws[i := w]). worker_at cur L s' x"
    using inv w old set_update_subset_insert [of ws i w] by (auto simp: searching_def)
  moreover have "\<forall>h\<in>set q'. leads_home s' h" using q lh by simp
  moreover have "\<forall>h\<in>R. leads_home s' h \<and> settled cur q' (ws[i := w]) s' (target s' h)"
    using inv settled lh by (auto simp: searching_def tgt leads_home_def)
  moreover have "handed_on cur q' (ws[i := w]) s' d" if d: "d \<in> L" "mark_of s' d = cur" for d
  proof (cases "mark_of s d = cur \<and> scan_of (ws ! i) \<noteq> Some d")
    case True
    then have h: "handed_on cur q ws s d" using inv d(1) by (simp add: searching_def)
    have other: "Scanning d \<noteq> ws ! i" "\<And>hs. Enqueueing d hs \<noteq> ws ! i" using True by (metis scan_of.simps)+
    show ?thesis
    proof (cases "Scanning d \<in> set ws")
      case sc: True
      then have "Scanning d \<in> set (ws[i := w])" using other(1) kept_worker by metis
      then show ?thesis by (simp add: handed_on_def)
    next
      case False
      have "Enqueueing d hs \<in> set (ws[i := w])" if "Enqueueing d hs \<in> set ws" for hs
        using other(2) that kept_worker by metis
      then show ?thesis
        using h False settled home [OF d(1)] same(4) [OF d(1)] unfolding handed_on_def tgt by metis
    qed
  qed (use d scan new in blast)
  ultimately show ?thesis by (simp add: searching_def)
qed

lemma settled_move:
  assumes "settled cur q ws s e" and "set q \<subseteq> set q'" and "ws ! i \<noteq> Visiting e" and "ws ! i \<noteq> Swapping e"
    and "target s' = target s" and "mark_of s' e = mark_of s e \<or> mark_of s' e = cur"
  shows "settled cur q' (ws[i := w]) s' e"
proof -
  have "Visiting e \<in> set (ws[i := w])" if "Visiting e \<in> set ws" using that assms(3) kept_worker by metis
  moreover have "Swapping e \<in> set (ws[i := w])" if "Swapping e \<in> set ws" using that assms(4) kept_worker by metis
  ultimately show ?thesis using assms(1,2,5,6) by (auto simp: settled_def)
qed

lemma settled_worker:
  "i < length ws \<Longrightarrow> w = Visiting e \<or> w = Swapping e \<Longrightarrow> settled cur q (ws[i := w]) s e"
  using set_update_memI [of i ws w] by (auto simp: settled_def)

lemma base_cong:
  "cg_locked g' = cg_locked g \<Longrightarrow> cg_roots g' = cg_roots g \<Longrightarrow> base_inv cur g' c = base_inv cur g c"
  by (simp add: base_inv_def)

text \<open>Marking data.\<close>

lemma mark_base:
  assumes inv: "base_inv cur g c" and d: "d \<in> tracked (sys c)"
  defines "t \<equiv> upd_data d (set_mark cur) (sys c)"
  shows "base_inv cur g (c\<lparr>sys := t\<rparr>)" and "tracked t = tracked (sys c)" and "gc_handles t = gc_handles (sys c)"
    and "atomics t = atomics (sys c)" and "e \<in> tracked (sys c) \<Longrightarrow> scanned t e = scanned (sys c) e"
    and "e \<in> tracked (sys c) \<Longrightarrow> mark_of t e = (if e = d then cur else mark_of (sys c) e)"
    and "target t = target (sys c)" and "leads_home t = leads_home (sys c)" and "data_list t = data_list (sys c)"
proof -
  let ?s = "sys c"
  note rd = base_reads [OF inv] and f = base_facts [OF inv]
  have mk: "mark_of t e = (if e = d then cur else mark_of ?s e)" if "e \<in> tracked ?s" for e
    using rd(6) [OF that] by (simp add: t_def mark_of_def upd_data_def set_mark_def)
  then show "e \<in> tracked ?s \<Longrightarrow> mark_of t e = (if e = d then cur else mark_of ?s e)" .
  have nz: "cur \<noteq> 0" using inv by (auto simp: base_inv_def)
  have other: "d_lockout (gc_datas t ! e) = d_lockout (gc_datas ?s ! e) \<and> d_allocation (gc_datas t ! e) = d_allocation (gc_datas ?s ! e) \<and>
      d_deallocated (gc_datas t ! e) = d_deallocated (gc_datas ?s ! e)" if "e < length (gc_datas ?s)" for e
    using that rd(6) [OF d] by (simp add: t_def upd_data_def set_mark_def nth_list_update)
  show base: "base_inv cur g (c\<lparr>sys := t\<rparr>)"
  proof (rule base_remark(1) [OF inv], goal_cases)
    case (15 e)
    then show ?case using inv mk nz other [OF rd(6), of e] by (auto simp: base_inv_def held_up_def)
  qed (use mk f(8,9) other rd(6) inv in \<open>auto simp: t_def client_count_def upd_data_def base_inv_def\<close>)
  show tr: "tracked t = tracked ?s" by (simp add: t_def tracked_def)
  show "gc_handles t = gc_handles ?s" "atomics t = atomics ?s" "data_list t = data_list ?s" by (simp_all add: t_def)
  then show tgt: "target t = target ?s" by (simp add: target_def fun_eq_iff split: underlying_data.split)
  then show "leads_home t = leads_home ?s" by (simp add: leads_home_def fun_eq_iff tr) (simp add: t_def)
  show "scanned t e = scanned ?s e" if "e \<in> tracked ?s"
  proof -
    have "block_val t e = block_val ?s e"
      using other [OF rd(6) [OF that]] by (simp add: block_val_def addr_def) (simp add: t_def)
    then show ?thesis using base_reads(4) [OF base] rd(4) [OF that] that tr by simp
  qed
qed

lemma mark_again:
  assumes "mark_of s d = cur" and "d < length (gc_datas s)"
  shows "upd_data d (set_mark cur) s = s"
proof -
  have "set_mark cur (gc_datas s ! d) = gc_datas s ! d" using assms(1) by (auto simp: set_mark_def mark_of_def)
  with assms(2) show ?thesis by (simp add: upd_data_def)
qed

definition search_ok :: "u64 \<Rightarrow> collection \<Rightarrow> gc_client \<Rightarrow> bool" where
  "search_ok cur g c \<longleftrightarrow> base_inv cur g c \<and> cg_stage g = Searching \<and> covered cur g (sys c) \<and>
     searching cur (set (cg_roots g)) (set (cg_locked g)) (cg_queue g, cg_workers g, sys c)"

lemma searchingD:
  assumes "searching cur R L (q, ws, s)"
  shows "h \<in> set q \<Longrightarrow> leads_home s h" and "i < length ws \<Longrightarrow> worker_at cur L s (ws ! i)"
    and "h \<in> R \<Longrightarrow> leads_home s h" and "h \<in> R \<Longrightarrow> settled cur q ws s (target s h)"
    and "d \<in> L \<Longrightarrow> mark_of s d = cur \<Longrightarrow> handed_on cur q ws s d"
  using assms by (simp_all add: searching_def)

lemma handed_on_next:
  assumes on: "handed_on cur q ws s d" and i: "i < length ws" "ws ! i = Enqueueing d hs" "set hs \<subseteq> insert h (set hs')"
    and settled: "\<And>e. e \<in> target s ` scanned s d \<Longrightarrow> settled cur q ws s e \<Longrightarrow> settled cur q' (ws[i := w]) s e"
    and h: "h \<in> set hs \<Longrightarrow> settled cur q' (ws[i := w]) s (target s h)"
    and w: "hs' = [] \<or> w = Enqueueing d hs'"
  shows "handed_on cur q' (ws[i := w]) s d"
proof (cases "Scanning d \<in> set ws")
  case True
  then have "Scanning d \<in> set (ws[i := w])" using i(2) kept_worker [of "Scanning d" ws i w] by simp
  then show ?thesis by (simp add: handed_on_def)
next
  case False
  have "settled cur q' (ws[i := w]) s (target s h') \<or> (\<exists>hs. Enqueueing d hs \<in> set (ws[i := w]) \<and> h' \<in> set hs)"
    if h': "h' \<in> scanned s d" for h'
  proof -
    from on False h' consider "settled cur q ws s (target s h')" | hs0 where "Enqueueing d hs0 \<in> set ws" "h' \<in> set hs0"
      unfolding handed_on_def by blast
    then show ?thesis
    proof cases
      case 1
      then show ?thesis using settled h' by blast
    next
      case 2
      show ?thesis
      proof (cases "hs0 = hs")
        case True
        then consider "h' = h" | "h' \<in> set hs'" using 2(2) i(3) by blast
        then show ?thesis
        proof cases
          case 1
          then show ?thesis using h 2(2) True by blast
        next
          case tl: 2
          then have "w = Enqueueing d hs'" using w by auto
          then show ?thesis using tl set_update_memI [OF i(1), of w] by auto
        qed
      next
        case False
        then have "Enqueueing d hs0 \<in> set (ws[i := w])" using 2(1) i(2) kept_worker [of "Enqueueing d hs0" ws i w] by simp
        then show ?thesis using 2(2) by blast
      qed
    qed
  qed
  then show ?thesis by (simp add: handed_on_def)
qed

text \<open>A step of a worker that leaves the marks as they are.\<close>

lemma covered_late:
  "cg_stage g \<noteq> Observing \<Longrightarrow>
     covered cur g s \<longleftrightarrow> (\<forall>d\<in>tracked s. d \<in> set (cg_locked g) \<or> mark_of s d = 0 \<or> mark_of s d = cur)"
  by (simp add: covered_def unvisited_def)

lemma search_ok_facts:
  assumes "search_ok cur g c"
  shows "base_inv cur g c" and "searching cur (set (cg_roots g)) (set (cg_locked g)) (cg_queue g, cg_workers g, sys c)"
    and "set (cg_locked g) \<subseteq> tracked (sys c)" and "cur \<noteq> 0"
    and "d \<in> tracked (sys c) \<Longrightarrow> mark_of (sys c) d \<noteq> 0 \<Longrightarrow> mark_of (sys c) d \<noteq> cur \<Longrightarrow> d \<in> set (cg_locked g)"
    and "d \<in> set (cg_locked g) \<Longrightarrow> h \<in> scanned (sys c) d \<Longrightarrow> target (sys c) h \<in> tracked (sys c)"
proof -
  show base: "base_inv cur g c" and "searching cur (set (cg_roots g)) (set (cg_locked g)) (cg_queue g, cg_workers g, sys c)"
    using assms by (simp_all add: search_ok_def)
  show L: "set (cg_locked g) \<subseteq> tracked (sys c)" using base by (auto simp: base_inv_def)
  show "cur \<noteq> 0" using base by (auto simp: base_inv_def)
  show "d \<in> tracked (sys c) \<Longrightarrow> mark_of (sys c) d \<noteq> 0 \<Longrightarrow> mark_of (sys c) d \<noteq> cur \<Longrightarrow> d \<in> set (cg_locked g)"
    using assms by (auto simp: search_ok_def covered_late)
  show "d \<in> set (cg_locked g) \<Longrightarrow> h \<in> scanned (sys c) d \<Longrightarrow> target (sys c) h \<in> tracked (sys c)"
    using base_reads(5) [OF base, of d h] L by (auto simp: leads_home_def)
qed

lemma search_ok_quiet:
  assumes ok: "search_ok cur g c" and i: "i < length (cg_workers g)"
    and q: "\<And>h. h \<in> set q' \<Longrightarrow> leads_home (sys c) h"
    and w: "worker_at cur (set (cg_locked g)) (sys c) w"
    and settled: "\<And>d. d \<in> tracked (sys c) \<Longrightarrow> settled cur (cg_queue g) (cg_workers g) (sys c) d \<Longrightarrow>
      settled cur q' ((cg_workers g)[i := w]) (sys c) d"
    and scan: "\<And>d. scan_of (cg_workers g ! i) = Some d \<Longrightarrow> handed_on cur q' ((cg_workers g)[i := w]) (sys c) d"
  shows "search_ok cur (g\<lparr>cg_queue := q', cg_workers := (cg_workers g)[i := w]\<rparr>) c"
proof -
  note f = search_ok_facts [OF ok]
  have "searching cur (set (cg_roots g)) (set (cg_locked g)) (q', (cg_workers g)[i := w], sys c)"
    by (rule searching_move [OF f(2) i _ _ _ _ _ f(4,3) q w settled scan]) (use f(6) in auto)
  moreover have "covered cur (g\<lparr>cg_queue := q', cg_workers := (cg_workers g)[i := w]\<rparr>) (sys c) = covered cur g (sys c)"
    by (simp add: covered_def unvisited_def)
  ultimately show ?thesis using ok by (simp add: search_ok_def base_inv_def)
qed

lemma search_take_handle:
  assumes ok: "search_ok cur g c" and i: "i < length (cg_workers g)" "cg_workers g ! i = Idle"
    and h: "h \<in> set (cg_queue g)" "with_data h (sys c) = Inr d"
  shows "search_ok cur (g\<lparr>cg_queue := remove1 h (cg_queue g), cg_workers := (cg_workers g)[i := Visiting d]\<rparr>) c"
proof -
  note f = search_ok_facts [OF ok] and s = searchingD [OF search_ok_facts(2) [OF ok]]
  have d: "target (sys c) h = d" "d \<in> tracked (sys c)"
    using base_reads(1) [OF f(1) s(1) [OF h(1)]] h s(1) [OF h(1)] by (simp_all add: leads_home_def)
  show ?thesis
  proof (rule search_ok_quiet [OF ok i(1)])
    fix e assume e: "settled cur (cg_queue g) (cg_workers g) (sys c) e"
    show "settled cur (remove1 h (cg_queue g)) ((cg_workers g)[i := Visiting d]) (sys c) e"
    proof (cases "e = d")
      case True
      then show ?thesis using settled_worker [OF i(1)] by blast
    next
      case False
      then have "h' \<in> set (remove1 h (cg_queue g))" if "h' \<in> set (cg_queue g)" "target (sys c) h' = e" for h'
        using that d(1) by (metis in_set_remove1)
      moreover have "x \<in> set ((cg_workers g)[i := Visiting d])" if "x \<in> set (cg_workers g)" "x = Visiting e \<or> x = Swapping e" for x
        using that i(2) kept_worker [of x "cg_workers g" i "Visiting d"] by auto
      ultimately show ?thesis using e by (auto simp: settled_def)
    qed
  qed (use s(1) d(2) i(2) set_remove1_subset [of h "cg_queue g"] in \<open>auto simp: worker_at_def\<close>)
qed

lemma search_load_mark:
  assumes ok: "search_ok cur g c" and i: "i < length (cg_workers g)" "cg_workers g ! i = Visiting d"
  shows "search_ok cur (g\<lparr>cg_queue := cg_queue g, cg_workers := (cg_workers g)[i :=
      if d_last_marked (gc_datas (sys c) ! d) \<noteq> 0 then Swapping d else Idle]\<rparr>) c"
proof -
  note f = search_ok_facts [OF ok] and s = searchingD [OF search_ok_facts(2) [OF ok]]
  let ?w = "if d_last_marked (gc_datas (sys c) ! d) \<noteq> 0 then Swapping d else Idle"
  have d: "d \<in> tracked (sys c)" using s(2) [OF i(1)] i(2) by (simp add: worker_at_def)
  show ?thesis
  proof (rule search_ok_quiet [OF ok i(1)])
    fix e assume e: "settled cur (cg_queue g) (cg_workers g) (sys c) e"
    show "settled cur (cg_queue g) ((cg_workers g)[i := ?w]) (sys c) e"
    proof (cases "e = d")
      case True
      show ?thesis
      proof (cases "mark_of (sys c) d = 0")
        case False
        then have "?w = Visiting e \<or> ?w = Swapping e" using True by (simp add: mark_of_def)
        then show ?thesis by (rule settled_worker [OF i(1)])
      qed (simp add: settled_def True)
    next
      case False
      then show ?thesis using e i(2) by (intro settled_move [of cur _ _ "sys c"]) auto
    qed
  qed (use s(1) d i(2) in \<open>auto simp: worker_at_def mark_of_def\<close>)
qed

lemma search_swap_mark:
  assumes ok: "search_ok cur g c" and i: "i < length (cg_workers g)" "cg_workers g ! i = Swapping d"
  shows "search_ok cur (g\<lparr>cg_queue := cg_queue g, cg_workers := (cg_workers g)[i :=
      if d_last_marked (gc_datas (sys c) ! d) \<noteq> cur then Scanning d else Idle]\<rparr>) (c\<lparr>sys := upd_data d (set_mark cur) (sys c)\<rparr>)"
proof -
  note f = search_ok_facts [OF ok] and s = searchingD [OF search_ok_facts(2) [OF ok]]
  let ?s = "sys c" and ?t = "upd_data d (set_mark cur) (sys c)"
  let ?w = "if d_last_marked (gc_datas ?s ! d) \<noteq> cur then Scanning d else Idle"
  let ?g = "g\<lparr>cg_queue := cg_queue g, cg_workers := (cg_workers g)[i := ?w]\<rparr>"
  have d: "d \<in> tracked ?s" "mark_of ?s d \<noteq> 0" using s(2) [OF i(1)] i(2) by (simp_all add: worker_at_def)
  note m = mark_base [OF f(1) d(1)]
  have locked: "mark_of ?s d \<noteq> cur \<Longrightarrow> d \<in> set (cg_locked g)" using f(5) d by blast
  have "searching cur (set (cg_roots g)) (set (cg_locked g)) (cg_queue g, (cg_workers g)[i := ?w], ?t)"
  proof (rule searching_move [OF f(2) i(1) m(3,4,2)], goal_cases)
    case (7 e)
    show ?case
    proof (cases "e = d")
      case True
      then show ?thesis using m(6) [OF d(1)] by (simp add: settled_def)
    next
      case False
      then show ?thesis using 7 i(2) m(6,7) by (intro settled_move [of cur _ _ ?s]) auto
    qed
  next
    case (9 e)
    then have "e = d" using m(6) f(3) by (auto split: if_splits)
    then have "?w = Scanning e" using 9 by (simp add: mark_of_def)
    then show ?case using set_update_memI [OF i(1), of ?w] by (auto simp: handed_on_def)
  qed (use f(3,4,6) s(1) i(2) m(5,6) d locked in \<open>auto simp: worker_at_def mark_of_def\<close>)
  moreover have "\<forall>e\<in>tracked ?t. e \<in> set (cg_locked g) \<or> mark_of ?t e = 0 \<or> mark_of ?t e = cur"
    using f(5) m(2,6) by auto
  ultimately show ?thesis
    using m(1) ok by (simp add: search_ok_def covered_late base_inv_def)
qed

lemma search_begin_scan:
  assumes ok: "search_ok cur g c" and i: "i < length (cg_workers g)" "cg_workers g ! i = Scanning d"
    and scan: "scan_data d (upd_data d (set_mark cur) (sys c)) = Inr hs"
  shows "upd_data d (set_mark cur) (sys c) = sys c" and "scan_data d (sys c) = Inr hs"
    and "search_ok cur (g\<lparr>cg_queue := cg_queue g, cg_workers := (cg_workers g)[i := Enqueueing d (map item_v hs)]\<rparr>) c"
proof -
  note f = search_ok_facts [OF ok] and s = searchingD [OF search_ok_facts(2) [OF ok]]
  let ?w = "Enqueueing d (map item_v hs)"
  have d: "d \<in> set (cg_locked g)" "mark_of (sys c) d = cur" using s(2) [OF i(1)] i(2) by (simp_all add: worker_at_def)
  have tr: "d \<in> tracked (sys c)" using d(1) f(3) by blast
  show same: "upd_data d (set_mark cur) (sys c) = sys c" by (rule mark_again [OF d(2) base_reads(6) [OF f(1) tr]])
  then show hs: "scan_data d (sys c) = Inr hs" using scan by simp
  then have sc: "scanned (sys c) d = item_v ` set hs" by (simp add: scanned_def)
  have w: "?w \<in> set ((cg_workers g)[i := ?w])" by (rule set_update_memI [OF i(1)])
  show "search_ok cur (g\<lparr>cg_queue := cg_queue g, cg_workers := (cg_workers g)[i := ?w]\<rparr>) c"
  proof (rule search_ok_quiet [OF ok i(1)])
    fix e assume "settled cur (cg_queue g) (cg_workers g) (sys c) e"
    then show "settled cur (cg_queue g) ((cg_workers g)[i := ?w]) (sys c) e"
      using i(2) by (intro settled_move [of cur _ _ "sys c"]) auto
  next
    fix e assume "scan_of (cg_workers g ! i) = Some e"
    then have "e = d" using i(2) by simp
    moreover have "\<exists>ks. Enqueueing d ks \<in> set ((cg_workers g)[i := ?w]) \<and> h \<in> set ks" if "h \<in> scanned (sys c) d" for h
      by (rule exI [of _ "map item_v hs"]) (use w that sc in simp)
    ultimately show "handed_on cur (cg_queue g) ((cg_workers g)[i := ?w]) (sys c) e" by (simp add: handed_on_def)
  qed (use s(1) d sc in \<open>auto simp: worker_at_def\<close>)
qed

lemma search_scanned_handle:
  assumes ok: "search_ok cur g c" and i: "i < length (cg_workers g)" "cg_workers g ! i = Enqueueing d (h # hs)"
    and b: "should_enqueue cur (sys c) h = Inr b"
  shows "search_ok cur (g\<lparr>cg_queue := if b then cg_queue g @ [h] else cg_queue g,
      cg_workers := (cg_workers g)[i := Enqueueing d hs]\<rparr>) c"
proof -
  note f = search_ok_facts [OF ok] and s = searchingD [OF search_ok_facts(2) [OF ok]]
  let ?q = "if b then cg_queue g @ [h] else cg_queue g" and ?w = "Enqueueing d hs"
  have d: "d \<in> set (cg_locked g)" "mark_of (sys c) d = cur" "set (h # hs) \<subseteq> scanned (sys c) d"
    using s(2) [OF i(1)] i(2) by (simp_all add: worker_at_def)
  have home: "leads_home (sys c) h" using base_reads(5) [OF f(1), of d h] d f(3) by auto
  have b': "b \<longleftrightarrow> mark_of (sys c) (target (sys c) h) \<noteq> cur"
    using b base_reads(1) [OF f(1) home] by (simp add: should_enqueue_def mark_of_def)
  have settled: "settled cur ?q ((cg_workers g)[i := ?w]) (sys c) e" if "settled cur (cg_queue g) (cg_workers g) (sys c) e" for e
    using that i(2) by (intro settled_move [of cur "cg_queue g" _ "sys c"]) auto
  show ?thesis
  proof (rule search_ok_quiet [OF ok i(1) _ _ settled])
    fix e assume "scan_of (cg_workers g ! i) = Some e"
    then have e: "e = d" using i(2) by simp
    show "handed_on cur ?q ((cg_workers g)[i := ?w]) (sys c) e"
      unfolding e
    proof (rule handed_on_next [OF s(5) [OF d(1,2)] i])
      show "settled cur ?q ((cg_workers g)[i := ?w]) (sys c) (target (sys c) h)" using b' by (auto simp: settled_def)
    qed (use settled in auto)
  qed (use s(1) d home in \<open>auto simp: worker_at_def split: if_splits\<close>)
qed

lemma search_end_scan:
  assumes ok: "search_ok cur g c" and i: "i < length (cg_workers g)" "cg_workers g ! i = Enqueueing d []"
  shows "search_ok cur (g\<lparr>cg_queue := cg_queue g, cg_workers := (cg_workers g)[i := Idle]\<rparr>) c"
proof -
  note f = search_ok_facts [OF ok] and s = searchingD [OF search_ok_facts(2) [OF ok]]
  have d: "d \<in> set (cg_locked g)" "mark_of (sys c) d = cur" using s(2) [OF i(1)] i(2) by (simp_all add: worker_at_def)
  have settled: "settled cur (cg_queue g) ((cg_workers g)[i := Idle]) (sys c) e"
    if "settled cur (cg_queue g) (cg_workers g) (sys c) e" for e
    using that i(2) by (intro settled_move [of cur "cg_queue g" _ "sys c"]) auto
  show ?thesis
  proof (rule search_ok_quiet [OF ok i(1) _ _ settled])
    fix e assume "scan_of (cg_workers g ! i) = Some e"
    then have e: "e = d" using i(2) by simp
    show "handed_on cur (cg_queue g) ((cg_workers g)[i := Idle]) (sys c) e"
      unfolding e by (rule handed_on_next [OF s(5) [OF d] i, where h = 0 and hs' = "[]"]) (use settled in auto)
  qed (use s(1) in \<open>auto simp: worker_at_def\<close>)
qed

lemma search_step:
  assumes ok: "search_ok cur g c" and step: "mark_step cur (cg_queue g, cg_workers g, sys c) (q', ws', s')"
  shows "search_ok cur (g\<lparr>cg_queue := q', cg_workers := ws'\<rparr>) (c\<lparr>sys := s'\<rparr>)"
  using step
proof cases
  case (begin_scan i d hs)
  from search_begin_scan [OF ok begin_scan(4,5,6)] show ?thesis by (simp add: begin_scan(1-3))
qed (use search_take_handle [OF ok] search_load_mark [OF ok] search_swap_mark [OF ok] search_scanned_handle [OF ok]
      search_end_scan [OF ok] in simp_all)

text \<open>A call leaves all of it as it was.\<close>

lemma search_call:
  assumes ok: "search_ok cur g c" and may: "client_may op c" and run: "client_run op c = Inr c'"
  shows "search_ok cur g c'"
proof -
  note f = search_ok_facts [OF ok] and s = searchingD [OF search_ok_facts(2) [OF ok]]
  note b = base_call [OF f(1) may run] and l = locked_scan_call [OF f(1) may run]
  have mk: "mark_of (sys c') d = mark_of (sys c) d" "d \<in> tracked (sys c')" if "d \<in> tracked (sys c)" for d
    using b(2) base_reads(6) [OF f(1) that] that by (auto simp: grows_def)
  have home: "leads_home (sys c') h" "target (sys c') h = target (sys c) h" "target (sys c) h \<in> tracked (sys c)"
    if "leads_home (sys c) h" for h
    using leads_home_grows [OF b(2) that] target_grows [OF b(2) that] that by (simp_all add: leads_home_def)
  have worker: "worker_at cur (set (cg_locked g)) (sys c') w" if "worker_at cur (set (cg_locked g)) (sys c) w" for w
    using that mk l by (cases w) (auto simp: worker_at_def)
  have settled: "settled cur (cg_queue g) (cg_workers g) (sys c') d"
    if "settled cur (cg_queue g) (cg_workers g) (sys c) d" "d \<in> tracked (sys c)" for d
    using that mk home(2) s(1) by (auto simp: settled_def)
  have handed: "handed_on cur (cg_queue g) (cg_workers g) (sys c') d"
    if "d \<in> set (cg_locked g)" "handed_on cur (cg_queue g) (cg_workers g) (sys c) d" for d
  proof -
    have "target (sys c') h = target (sys c) h \<and> target (sys c) h \<in> tracked (sys c)" if "h \<in> scanned (sys c) d" for h
      using home base_reads(5) [OF f(1), of d h] that \<open>d \<in> set (cg_locked g)\<close> f(3) by blast
    then show ?thesis using that settled l(1) unfolding handed_on_def by metis
  qed
  have "searching cur (set (cg_roots g)) (set (cg_locked g)) (cg_queue g, cg_workers g, sys c')"
    using f(2) worker home settled handed l(2) by (simp add: searching_def)
  moreover have "cg_stage g = Searching" "covered cur g (sys c)" using ok by (simp_all add: search_ok_def)
  ultimately show ?thesis
    using b(1) covered_call [OF f(1) may run] by (simp add: search_ok_def)
qed

text \<open>The roots have been found, and the data that is locked has no mark yet.\<close>

lemma search_begins:
  assumes inv: "early_inv cur g c" and stage: "cg_stage g = Finding"
  shows "search_ok cur (g\<lparr>cg_stage := Searching, cg_queue := cg_roots g, cg_workers := replicate n Idle\<rparr>) c"
proof -
  let ?g = "g\<lparr>cg_stage := Searching, cg_queue := cg_roots g, cg_workers := replicate n Idle\<rparr>"
  have base: "base_inv cur g c" and cov: "covered cur g (sys c)" and flags: "flags_ok cur g (sys c)"
    using inv by (simp_all add: early_inv_def)
  have home: "\<forall>h\<in>set (cg_roots g). leads_home (sys c) h" using base by (simp add: base_inv_def)
  have "searching cur (set (cg_roots g)) (set (cg_locked g)) (cg_roots g, replicate n Idle, sys c)"
    using home flags by (auto simp: searching_def settled_def flags_ok_def worker_at_def)
  moreover have "covered cur ?g (sys c) = covered cur g (sys c)" using stage by (simp add: covered_late)
  ultimately show ?thesis using base cov by (simp add: search_ok_def base_inv_def)
qed

text \<open>When the search is done, nothing that it can get to from a root is without a mark.\<close>

inductive_set led_to :: "nat set \<Rightarrow> gc_state \<Rightarrow> nat \<Rightarrow> nat set" for L s h where
  start: "target s h \<in> led_to L s h"
| follow: "d \<in> led_to L s h \<Longrightarrow> d \<in> L \<Longrightarrow> h' \<in> scanned s d \<Longrightarrow> target s h' \<in> led_to L s h"

lemma search_ok_done:
  assumes ok: "search_ok cur g c" and fin: "search_done (cg_queue g, cg_workers g, sys c)"
    and h: "h \<in> set (cg_roots g)" and d: "d \<in> led_to (set (cg_locked g)) (sys c) h"
  shows "d \<in> tracked (sys c)" and "mark_of (sys c) d = 0 \<or> mark_of (sys c) d = cur"
proof -
  note f = search_ok_facts [OF ok] and s = searchingD [OF search_ok_facts(2) [OF ok]]
  have q: "cg_queue g = []" "set (cg_workers g) \<subseteq> {Idle}" using fin by (simp_all add: search_done_def)
  have settled: "settled cur (cg_queue g) (cg_workers g) (sys c) e \<longleftrightarrow> mark_of (sys c) e = 0 \<or> mark_of (sys c) e = cur" for e
    using q by (auto simp: settled_def)
  have nz: "mark_of (sys c) e \<noteq> 0" if "e \<in> set (cg_locked g)" for e using f(1) that by (simp add: base_inv_def)
  from d have "d \<in> tracked (sys c) \<and> (mark_of (sys c) d = 0 \<or> mark_of (sys c) d = cur)"
  proof induction
    case start
    then show ?case using s(3,4) [OF h] settled by (simp add: leads_home_def)
  next
    case (follow e h')
    then have "handed_on cur (cg_queue g) (cg_workers g) (sys c) e" using nz s(5) by blast
    then show ?case using follow q settled f(6) by (auto simp: handed_on_def)
  qed
  then show "d \<in> tracked (sys c)" "mark_of (sys c) d = 0 \<or> mark_of (sys c) d = cur" by simp_all
qed

subsection \<open>Releasing, and the whole\<close>

lemma release_base:
  assumes inv: "base_inv cur g c" and locked: "cg_locked g = d # ds"
    and drop: "drop_exclusive_warrant (d_lockout (gc_datas (sys c) ! d)) = Inr lk"
  defines "t \<equiv> upd_data d (\<lambda>x. x\<lparr>d_lockout := lk\<rparr>) (sys c)"
  shows "base_inv cur (g\<lparr>cg_locked := ds\<rparr>) (c\<lparr>sys := t\<rparr>)" and "tracked t = tracked (sys c)"
    and "mark_of t e = mark_of (sys c) e"
proof -
  let ?s = "sys c"
  note f = base_facts [OF inv] and rd = base_reads [OF inv]
  have d: "d \<in> tracked ?s" "d \<notin> set ds" "distinct ds" using inv by (simp_all add: base_inv_def locked)
  have lk: "lk_count lk = 0" using drop by (auto simp: drop_exclusive_warrant_eq split: if_splits)
  have at: "gc_datas t ! e = (if e = d then (gc_datas ?s ! d)\<lparr>d_lockout := lk\<rparr> else gc_datas ?s ! e)" if "e < length (gc_datas ?s)" for e
    using that rd(6) [OF d(1)] by (simp add: t_def upd_data_def nth_list_update)
  show mk: "mark_of t e = mark_of ?s e" for e
    using rd(6) [OF d(1)] by (cases "e = d") (simp_all add: t_def upd_data_def mark_of_def)
  show "tracked t = tracked ?s" by (simp add: t_def tracked_def)
  show "base_inv cur (g\<lparr>cg_locked := ds\<rparr>) (c\<lparr>sys := t\<rparr>)"
  proof (rule base_remark(1) [OF inv], goal_cases)
    case 7
    then show ?case by (simp add: t_def upd_data_def)
  next
    case (14 e)
    then show ?case using at [OF rd(6), of e] lk d(2) by (cases "e = d") (simp_all add: client_count_def locked)
  next
    case (15 e)
    then have "e \<in> set (cg_locked g)" "e \<noteq> d" using d(2) by (auto simp: locked)
    then show ?case using inv at [OF rd(6), of e] mk by (simp add: base_inv_def held_up_def)
  qed (use at mk f(8,9) d(3) inv in \<open>auto simp: t_def base_inv_def\<close>)
qed

definition coll_inv :: "u64 \<Rightarrow> nat \<Rightarrow> collection \<Rightarrow> gc_client \<Rightarrow> bool" where
  "coll_inv cur n g c \<longleftrightarrow> set (cg_cursors g) \<subseteq> {..CHUNK_SIZE} \<and>
     (case cg_stage g of
        Observing \<Rightarrow> early_inv cur g c
      | Finding \<Rightarrow> early_inv cur g c
      | Searching \<Rightarrow> search_ok cur g c \<and> length (cg_workers g) = n
      | Releasing \<Rightarrow> base_inv cur g c)"

lemma mark_step_workers: "mark_step cur (q, ws, s) (q', ws', s') \<Longrightarrow> length ws' = length ws"
  by (erule mark_step.cases) auto

lemma coll_own_step:
  assumes inv: "coll_inv cur n g c" and step: "own_step cur n (g, c) (g', c')"
  shows "coll_inv cur n g' c'"
  using step
proof cases
  case (observe a i s' ws')
  then show ?thesis using early_observe [of cur g c a i s' ws'] inv set_update_subset_insert [of "cg_cursors g" a "Suc i"]
    by (auto simp: coll_inv_def)
next
  case begin_finding
  then show ?thesis using inv early_cursors [of cur g c g']
    by (simp add: coll_inv_def early_inv_def base_inv_def chunk_starts_def del: replicate.simps)
next
  case (find a i)
  then show ?thesis using inv early_find [of cur g c] set_update_subset_insert [of "cg_cursors g" a "Suc i"]
    by (auto simp: coll_inv_def)
next
  case begin_searching
  then show ?thesis using inv search_begins [of cur g c n] by (simp add: coll_inv_def)
next
  case (search q' ws' s')
  then show ?thesis using inv search_step [of cur g c q' ws' s'] mark_step_workers [OF search(4)] by (simp add: coll_inv_def)
next
  case begin_releasing
  then show ?thesis using inv base_cong [of g' g cur c] by (simp add: coll_inv_def search_ok_def)
next
  case (release d ds lk)
  then show ?thesis using inv release_base(1) [of cur g c d ds lk] by (simp add: coll_inv_def)
qed

lemma coll_step:
  assumes inv: "coll_inv cur n g c" and step: "collection_step cur n (g, c) (g', c')"
  shows "coll_inv cur n g' c'"
  using step
proof cases
  case own
  then show ?thesis using coll_own_step [OF inv] by blast
next
  case (call op)
  then show ?thesis
    using inv early_call [of cur g c op c'] search_call [of cur g c op c'] base_call(1) [of cur g c op c']
    by (cases "cg_stage g") (simp_all add: coll_inv_def)
qed

lemma coll_steps:
  "(collection_step cur n)\<^sup>*\<^sup>* (g, c) (g', c') \<Longrightarrow> coll_inv cur n g c \<Longrightarrow> coll_inv cur n g' c'"
proof (induction rule: rtranclp_induct2)
  case (step g1 c1 g2 c2)
  then show ?case using coll_step [of cur n g1 c1 g2 c2] by blast
qed simp

lemma coll_inv_base: "coll_inv cur n g c \<Longrightarrow> base_inv cur g c"
  by (auto simp: coll_inv_def early_inv_def search_ok_def split: stage.splits)

subsection \<open>Never stuck, never without end\<close>

lemma search_ok_progress:
  assumes ok: "search_ok cur g c" and ws: "cg_workers g \<noteq> []" and more: "\<not> search_done (cg_queue g, cg_workers g, sys c)"
  shows "\<exists>x. mark_step cur (cg_queue g, cg_workers g, sys c) x"
proof -
  note f = search_ok_facts [OF ok] and s = searchingD [OF search_ok_facts(2) [OF ok]] and rd = base_reads [OF search_ok_facts(1) [OF ok]]
  show ?thesis
  proof (cases "\<exists>i<length (cg_workers g). cg_workers g ! i \<noteq> Idle")
    case True
    then obtain i where i: "i < length (cg_workers g)" "cg_workers g ! i \<noteq> Idle" by blast
    note w = s(2) [OF i(1)]
    show ?thesis
    proof (cases "cg_workers g ! i")
      case (Scanning d)
      then have d: "d \<in> tracked (sys c)" "mark_of (sys c) d = cur" using w f(3) by (auto simp: worker_at_def)
      have "scan_data d (upd_data d (set_mark cur) (sys c)) = Inr (scan (block_val (sys c) d))"
        using mark_again [OF d(2) rd(6) [OF d(1)]] rd(3) [OF d(1)] by simp
      from mark_step.begin_scan [OF i(1) Scanning this] show ?thesis by blast
    next
      case (Enqueueing d hs)
      show ?thesis
      proof (cases hs)
        case Nil
        with mark_step.end_scan [OF i(1)] Enqueueing show ?thesis by blast
      next
        case (Cons h hs')
        with w Enqueueing have "d \<in> tracked (sys c)" "h \<in> scanned (sys c) d" using f(3) by (auto simp: worker_at_def)
        then have "with_data h (sys c) = Inr (target (sys c) h)" using rd(1,5) by blast
        then have "\<exists>b. should_enqueue cur (sys c) h = Inr b" by (simp add: should_enqueue_def)
        with mark_step.scanned_handle [OF i(1)] Enqueueing Cons show ?thesis by blast
      qed
    qed (use i mark_step.load_mark mark_step.swap_mark in blast)+
  next
    case False
    then have "set (cg_workers g) \<subseteq> {Idle}" by (auto simp: in_set_conv_nth)
    with more obtain h where h: "h \<in> set (cg_queue g)" by (cases "cg_queue g") (auto simp: search_done_def)
    then have "with_data h (sys c) = Inr (target (sys c) h)" using rd(1) s(1) by blast
    moreover have "0 < length (cg_workers g)" "cg_workers g ! 0 = Idle" using ws False by auto
    ultimately show ?thesis using mark_step.take_handle [of 0 "cg_workers g" h "cg_queue g"] h by blast
  qed
qed

lemma cursor_left:
  assumes "set cs \<subseteq> {..CHUNK_SIZE}" and "\<not> set cs \<subseteq> {CHUNK_SIZE}"
  obtains a where "a < length cs" and "cs ! a < CHUNK_SIZE"
proof -
  obtain i where i: "i \<in> set cs" "i \<noteq> CHUNK_SIZE" using assms(2) by blast
  then have "i < CHUNK_SIZE" using assms(1) by auto
  then show thesis using i(1) that by (auto simp: in_set_conv_nth)
qed

lemma coll_progress:
  assumes inv: "coll_inv cur n g c" and n: "0 < n" and more: "\<not> all_released g"
  shows "\<exists>y. own_step cur n (g, c) y"
proof (cases "cg_stage g")
  case Observing
  then have base: "base_inv cur g c" using inv by (simp add: coll_inv_def early_inv_def)
  show ?thesis
  proof (cases "set (cg_cursors g) \<subseteq> {CHUNK_SIZE}")
    case False
    have "set (cg_cursors g) \<subseteq> {..CHUNK_SIZE}" using inv by (simp add: coll_inv_def)
    from this False obtain a where a: "a < length (cg_cursors g)" "cg_cursors g ! a < CHUNK_SIZE" by (rule cursor_left)
    have "\<exists>s' ws'. observe_slot cur (a, cg_cursors g ! a) (sys c, cg_locked g) = Inr (s', ws')"
    proof (cases "cll_lookup (data_list (sys c)) (a, cg_cursors g ! a)")
      case (Some d)
      then show ?thesis using observe_slot_data(2) [OF base Some] by blast
    qed (simp add: observe_slot_def)
    with own_step.observe [OF Observing a(1) refl a(2)] show ?thesis by blast
  qed (use own_step.begin_finding [OF Observing] in blast)
next
  case Finding
  show ?thesis
  proof (cases "set (cg_cursors g) \<subseteq> {CHUNK_SIZE}")
    case False
    have "set (cg_cursors g) \<subseteq> {..CHUNK_SIZE}" using inv by (simp add: coll_inv_def)
    from this False obtain a where a: "a < length (cg_cursors g)" "cg_cursors g ! a < CHUNK_SIZE" by (rule cursor_left)
    with own_step.find [OF Finding a(1) refl a(2)] show ?thesis by blast
  qed (use own_step.begin_searching [OF Finding] in blast)
next
  case Searching
  then have ok: "search_ok cur g c" "cg_workers g \<noteq> []" using inv n by (auto simp: coll_inv_def)
  show ?thesis
  proof (cases "search_done (cg_queue g, cg_workers g, sys c)")
    case False
    then obtain x where x: "mark_step cur (cg_queue g, cg_workers g, sys c) x" using search_ok_progress [OF ok] by blast
    obtain q' ws' s' where "x = (q', ws', s')" by (cases x)
    with x own_step.search [OF Searching] show ?thesis by blast
  qed (use own_step.begin_releasing [OF Searching] in blast)
next
  case Releasing
  then have base: "base_inv cur g c" using inv by (simp add: coll_inv_def)
  obtain d ds where g: "cg_locked g = d # ds" using more Releasing by (cases "cg_locked g") (auto simp: all_released_def)
  then have "lk_exclusive (d_lockout (gc_datas (sys c) ! d))" using base by (simp add: base_inv_def held_up_def)
  then have "\<exists>lk. drop_exclusive_warrant (d_lockout (gc_datas (sys c) ! d)) = Inr lk" by (simp add: drop_exclusive_warrant_eq)
  with own_step.release [OF Releasing g] show ?thesis by blast
qed

text \<open>The phase, then what is left of it.\<close>

fun stage_rank :: "stage \<Rightarrow> nat" where
  "stage_rank Observing = 3"
| "stage_rank Finding = 2"
| "stage_rank Searching = 1"
| "stage_rank Releasing = 0"

definition slots_left :: "nat list \<Rightarrow> nat" where
  "slots_left cs = sum_list (map (\<lambda>i. CHUNK_SIZE - i) cs)"

definition coll_measure :: "u64 \<Rightarrow> collection \<times> gc_client \<Rightarrow> nat \<times> nat \<times> nat" where
  "coll_measure cur x =
     (case x of (g, c) \<Rightarrow>
        (stage_rank (cg_stage g),
         case cg_stage g of
           Observing \<Rightarrow> (slots_left (cg_cursors g), 0)
         | Finding \<Rightarrow> (slots_left (cg_cursors g), 0)
         | Searching \<Rightarrow> search_measure cur (sys c) (cg_queue g, cg_workers g, sys c)
         | Releasing \<Rightarrow> (length (cg_locked g), 0)))"

abbreviation measure_less :: "((nat \<times> nat \<times> nat) \<times> nat \<times> nat \<times> nat) set" where
  "measure_less \<equiv> less_than <*lex*> less_than <*lex*> less_than"

lemma slots_left_advance:
  assumes "a < length cs" and "cs ! a < CHUNK_SIZE"
  shows "slots_left (cs[a := Suc (cs ! a)]) < slots_left cs"
proof -
  have "CHUNK_SIZE - cs ! a \<le> slots_left cs"
    unfolding slots_left_def by (rule member_le_sum_list) (use assms(1) in auto)
  moreover have "slots_left (cs[a := Suc (cs ! a)]) = slots_left cs + (CHUNK_SIZE - Suc (cs ! a)) - (CHUNK_SIZE - cs ! a)"
    using assms(1) by (simp add: slots_left_def map_update sum_list_update)
  ultimately show ?thesis using assms(2) by linarith
qed

lemma search_less:
  assumes ok: "search_ok cur g c" and step: "mark_step cur (cg_queue g, cg_workers g, sys c) (q', ws', s')"
  shows "(search_measure cur s' (q', ws', s'), search_measure cur (sys c) (cg_queue g, cg_workers g, sys c)) \<in> less_than <*lex*> less_than"
  using step
proof cases
  note f = search_ok_facts [OF ok] and s = searchingD [OF search_ok_facts(2) [OF ok]] and rd = base_reads [OF search_ok_facts(1) [OF ok]]
  let ?s = "sys c" and ?q = "cg_queue g" and ?ws = "cg_workers g"
  {
    case (take_handle i h d)
    then have "4 + 5 * (length ?q - 1) < 5 * length ?q" by (cases ?q) auto
    with take_handle worker_weight_update [of i ?ws ?s "Visiting d" "5 * (length ?q - 1)" "5 * length ?q"]
    show ?thesis by (simp add: search_measure_def length_remove1)
  next
    case (load_mark i d)
    with worker_weight_update [of i ?ws ?s _ "5 * length ?q" "5 * length ?q"] show ?thesis
      by (simp add: search_measure_def)
  next
    case (swap_mark i d)
    have d: "d \<in> tracked ?s" "mark_of ?s d \<noteq> 0" using s(2) [OF swap_mark(4)] swap_mark(5) by (simp_all add: worker_at_def)
    show ?thesis
    proof (cases "mark_of ?s d = cur")
      case True
      from mark_again [OF this rd(6) [OF d(1)]] True swap_mark
        worker_weight_update [of i ?ws ?s Idle "5 * length ?q" "5 * length ?q"]
      show ?thesis by (simp add: search_measure_def mark_of_def)
    next
      case False
      have un: "unmarked cur s' = unmarked cur ?s - {d}"
        using rd(6) [OF d(1)] by (auto simp: swap_mark(3) unmarked_def upd_data_def set_mark_def nth_list_update)
      have "d \<in> unmarked cur ?s" using False d rd(6) [OF d(1)] by (simp add: unmarked_def mark_of_def)
      then have "card (unmarked cur s') < card (unmarked cur ?s)" unfolding un by (intro card_Diff1_less finite_unmarked)
      then show ?thesis by (simp add: search_measure_def)
    qed
  next
    case (begin_scan i d hs)
    note b = search_begin_scan(1,2) [OF ok begin_scan(4,5,6)]
    then have "scan_len ?s d = length hs" by (simp add: scan_len_def)
    with begin_scan b worker_weight_update [of i ?ws ?s "Enqueueing d (map item_v hs)" "5 * length ?q" "5 * length ?q"]
    show ?thesis by (simp add: search_measure_def)
  next
    case (scanned_handle i d h hs b)
    with worker_weight_update [of i ?ws ?s "Enqueueing d hs" "5 * length ?q + (if b then 5 else 0)" "5 * length ?q"]
    show ?thesis by (simp add: search_measure_def split: if_splits)
  next
    case (end_scan i d)
    with worker_weight_update [of i ?ws ?s Idle "5 * length ?q" "5 * length ?q"] show ?thesis by (simp add: search_measure_def)
  }
qed

lemma own_step_less:
  assumes inv: "coll_inv cur n g c" and step: "own_step cur n (g, c) (g', c')"
  shows "(coll_measure cur (g', c'), coll_measure cur (g, c)) \<in> measure_less"
  using step
proof cases
  case (observe a i s' ws')
  then show ?thesis using slots_left_advance [of a "cg_cursors g"] by (simp add: coll_measure_def)
next
  case (find a i)
  then show ?thesis using slots_left_advance [of a "cg_cursors g"] by (simp add: coll_measure_def)
next
  case (search q' ws' s')
  then show ?thesis using search_less [of cur g c q' ws' s'] inv by (simp add: coll_measure_def coll_inv_def)
qed (simp_all add: coll_measure_def)

lemma call_same_measure:
  assumes inv: "coll_inv cur n g c" and may: "client_may op c" and run: "client_run op c = Inr c'"
  shows "coll_measure cur (g, c') = coll_measure cur (g, c)"
proof (cases "cg_stage g")
  case Searching
  then have ok: "search_ok cur g c" using inv by (simp add: coll_inv_def)
  note f = search_ok_facts [OF ok] and s = searchingD [OF search_ok_facts(2) [OF ok]]
  note b = base_call [OF f(1) may run]
  have "unmarked cur (sys c') = unmarked cur (sys c)"
  proof -
    have "length (gc_datas (sys c)) \<le> length (gc_datas (sys c'))"
      "\<And>d. d < length (gc_datas (sys c)) \<Longrightarrow> d_last_marked (gc_datas (sys c') ! d) = d_last_marked (gc_datas (sys c) ! d)"
      "\<And>d. d < length (gc_datas (sys c')) \<Longrightarrow> \<not> d < length (gc_datas (sys c)) \<Longrightarrow> d_last_marked (gc_datas (sys c') ! d) = 0"
      using b(2) by (simp_all add: grows_def mark_of_def)
    then show ?thesis by (fastforce simp: unmarked_def)
  qed
  moreover have "sum_list (map (worker_weight (sys c')) (cg_workers g)) = sum_list (map (worker_weight (sys c)) (cg_workers g))"
  proof (intro arg_cong [where f = sum_list] map_cong refl)
    fix w assume "w \<in> set (cg_workers g)"
    then have at: "worker_at cur (set (cg_locked g)) (sys c) w" using s(2) by (auto simp: in_set_conv_nth)
    have "scan_len (sys c') d = scan_len (sys c) d" if d: "d \<in> set (cg_locked g)" for d
    proof -
      have tr: "d \<in> tracked (sys c)" "d \<in> tracked (sys c')" using d f(3) b(2) by (auto simp: grows_def)
      show ?thesis
        using base_reads(3) [OF f(1) tr(1)] base_reads(3) [OF b(1) tr(2)] b(3) [OF d] by (simp add: scan_len_def)
    qed
    with at show "worker_weight (sys c') w = worker_weight (sys c) w" by (cases w) (auto simp: worker_at_def)
  qed
  ultimately show ?thesis by (simp add: coll_measure_def search_measure_def Searching)
qed (simp_all add: coll_measure_def)

lemma finitely_many_drops:
  assumes wf: "wf r" and drop: "\<And>k. P k \<Longrightarrow> (m (Suc k), m k) \<in> r" and same: "\<And>k. \<not> P k \<Longrightarrow> m (Suc k) = m k"
  shows "finite {k :: nat. P k}"
proof -
  have "finite {j. k \<le> j \<and> P j}" if "m k = x" for x k
    using wf that
  proof (induction x arbitrary: k rule: wf_induct_rule)
    case (less x)
    show ?case
    proof (cases "\<exists>j\<ge>k. P j")
      case True
      define j where "j = (LEAST j. k \<le> j \<and> P j)"
      have j: "k \<le> j" "P j" using LeastI_ex [of "\<lambda>j. k \<le> j \<and> P j"] True by (auto simp: j_def)
      have before: "\<not> P i" if "k \<le> i" "i < j" for i using that not_less_Least [of i "\<lambda>j. k \<le> j \<and> P j"] by (simp add: j_def)
      have "m i = m k" if "k \<le> i" "i \<le> j" for i using that
        by (induction i rule: dec_induct) (use before same in auto)
      then have "(m (Suc j), x) \<in> r" using drop [OF j(2)] j(1) less(2) by simp
      then have "finite {i. Suc j \<le> i \<and> P i}" by (rule less(1)) simp
      moreover have "{i. k \<le> i \<and> P i} \<subseteq> insert j {i. Suc j \<le> i \<and> P i}" using before by (auto simp: not_less_eq_eq [symmetric] le_less)
      ultimately show ?thesis by (meson finite_insert finite_subset)
    next
      case False
      then have "{j. k \<le> j \<and> P j} = {}" by blast
      then show ?thesis by (rule ssubst) (rule finite.emptyI)
    qed
  qed
  from this [of 0] show ?thesis by simp
qed

lemma coll_runs_end:
  assumes inv: "coll_inv cur n g c" and start: "f 0 = (g, c)" and run: "\<And>k. collection_step cur n (f k) (f (Suc k))"
  shows "finite {k. own_step cur n (f k) (f (Suc k))}"
proof (rule finitely_many_drops [where r = measure_less and m = "\<lambda>k. coll_measure cur (f k)"])
  have inv: "coll_inv cur n (fst (f k)) (snd (f k))" for k
  proof (induction k)
    case (Suc k)
    then show ?case using coll_step [of cur n "fst (f k)" "snd (f k)" "fst (f (Suc k))" "snd (f (Suc k))"] run [of k] by simp
  qed (simp add: start inv)
  fix k
  show "(coll_measure cur (f (Suc k)), coll_measure cur (f k)) \<in> measure_less" if "own_step cur n (f k) (f (Suc k))"
    using own_step_less [OF inv, of k "fst (f (Suc k))" "snd (f (Suc k))"] that by simp
  assume "\<not> own_step cur n (f k) (f (Suc k))"
  with run [of k] show "coll_measure cur (f (Suc k)) = coll_measure cur (f k)"
  proof cases
    case (call op c c' g)
    then show ?thesis using call_same_measure [OF inv [of k], of op c'] by simp
  qed simp
qed (intro wf_lex_prod wf_less_than)

lemma own_no_infinite:
  assumes coll: "coll_inv cur n g c"
  shows "\<nexists>f. f 0 = (g, c) \<and> (\<forall>k. own_step cur n (f k) (f (Suc k)))"
proof
  assume "\<exists>f. f 0 = (g, c) \<and> (\<forall>k. own_step cur n (f k) (f (Suc k)))"
  then obtain f where f: "f 0 = (g, c)" "\<And>k. own_step cur n (f k) (f (Suc k))" by blast
  have "finite {k. own_step cur n (f k) (f (Suc k))}"
    by (rule coll_runs_end [where f = f, OF coll f(1)]) (rule collection_step.own [OF f(2)])
  then show False using f(2) by simp
qed

subsection \<open>What is kept\<close>

definition safe :: "u64 \<Rightarrow> gc_state \<Rightarrow> nat set" where
  "safe cur s = {d \<in> tracked s. mark_of s d = 0 \<or> mark_of s d = cur}"

lemma led_to_mono:
  assumes h: "leads_home s h" and tgt: "\<And>h. leads_home s h \<Longrightarrow> target s' h = target s h"
    and scan: "\<And>d. d \<in> L \<Longrightarrow> scanned s' d = scanned s d" and home: "\<And>d h. d \<in> L \<Longrightarrow> h \<in> scanned s d \<Longrightarrow> leads_home s h"
  shows "led_to L s h \<subseteq> led_to L s' h"
proof
  fix d assume "d \<in> led_to L s h"
  then show "d \<in> led_to L s' h"
  proof induction
    case start
    show ?case using led_to.start [of s' h L] tgt [OF h] by simp
  next
    case (follow d h')
    then show ?case using led_to.follow [of d L s' h h'] scan tgt home by simp
  qed
qed

lemma mark_step_state:
  assumes ok: "search_ok cur g c" and step: "mark_step cur (cg_queue g, cg_workers g, sys c) (q', ws', s')"
  shows "s' = sys c \<or> (\<exists>d\<in>tracked (sys c). s' = upd_data d (set_mark cur) (sys c))"
  using step
proof cases
  case (swap_mark i d)
  then have "d \<in> tracked (sys c)" using searchingD(2) [OF search_ok_facts(2) [OF ok] swap_mark(4)] by (simp add: worker_at_def)
  then show ?thesis using swap_mark by blast
next
  case (begin_scan i d hs)
  then show ?thesis using search_begin_scan(1) [OF ok begin_scan(4,5,6)] by simp
qed simp_all

definition late_inv :: "u64 \<Rightarrow> nat \<Rightarrow> nat set \<Rightarrow> nat set \<Rightarrow> collection \<Rightarrow> gc_client \<Rightarrow> bool" where
  "late_inv cur n L K g c \<longleftrightarrow> coll_inv cur n g c \<and> tracked (sys c) - L \<subseteq> safe cur (sys c) \<and>
     (case cg_stage g of
        Searching \<Rightarrow> set (cg_locked g) = L \<and> K \<subseteq> (\<Union>h\<in>set (cg_roots g). led_to L (sys c) h)
      | Releasing \<Rightarrow> K \<subseteq> safe cur (sys c)
      | _ \<Rightarrow> False)"

lemma late_search:
  assumes inv: "late_inv cur n L K g c" and stage: "cg_stage g = Searching"
    and step: "mark_step cur (cg_queue g, cg_workers g, sys c) (q', ws', s')"
  shows "tracked s' - L \<subseteq> safe cur s'" and "K \<subseteq> (\<Union>h\<in>set (cg_roots g). led_to L s' h)"
proof -
  have ok: "search_ok cur g c" and L: "set (cg_locked g) = L" and K: "K \<subseteq> (\<Union>h\<in>set (cg_roots g). led_to L (sys c) h)"
    and sf: "tracked (sys c) - L \<subseteq> safe cur (sys c)"
    using inv stage by (simp_all add: late_inv_def coll_inv_def)
  note f = search_ok_facts [OF ok] and s = searchingD [OF search_ok_facts(2) [OF ok]]
  have "tracked s' - L \<subseteq> safe cur s' \<and> (\<forall>h\<in>set (cg_roots g). led_to L (sys c) h \<subseteq> led_to L s' h)"
    using mark_step_state [OF ok step]
  proof (elim disjE bexE)
    fix d assume d: "d \<in> tracked (sys c)" and s': "s' = upd_data d (set_mark cur) (sys c)"
    note m = mark_base [OF f(1) d, folded s']
    have "led_to L (sys c) h \<subseteq> led_to L s' h" if "h \<in> set (cg_roots g)" for h
      using s(3) [OF that] m(5,7) base_reads(5) [OF f(1)] f(3) unfolding L by (intro led_to_mono) auto
    moreover have "x \<in> safe cur s'" if "x \<in> tracked s' - L" for x
    proof -
      have x: "x \<in> tracked (sys c)" "x \<in> safe cur (sys c)" using that sf m(2) by auto
      then show ?thesis using m(2) m(6) [OF x(1)] by (auto simp: safe_def)
    qed
    ultimately show ?thesis by blast
  qed (use sf in simp)
  then have more: "\<And>h. h \<in> set (cg_roots g) \<Longrightarrow> led_to L (sys c) h \<subseteq> led_to L s' h" and "tracked s' - L \<subseteq> safe cur s'" by simp_all
  then show "tracked s' - L \<subseteq> safe cur s'" "K \<subseteq> (\<Union>h\<in>set (cg_roots g). led_to L s' h)"
    using order_trans [OF K UN_mono [OF order_refl more]] by simp_all
qed

lemma late_own:
  assumes inv: "late_inv cur n L K g c" and step: "own_step cur n (g, c) (g', c')"
  shows "late_inv cur n L K g' c'"
proof -
  have coll: "coll_inv cur n g c" using inv by (simp add: late_inv_def)
  note coll' = coll_own_step [OF coll step]
  from step show ?thesis
  proof cases
    case (search q' ws' s')
    then show ?thesis using late_search [OF inv search(3,4)] coll' inv by (simp add: late_inv_def)
  next
    case begin_releasing
    then have ok: "search_ok cur g c" and L: "set (cg_locked g) = L"
      and K: "K \<subseteq> (\<Union>h\<in>set (cg_roots g). led_to L (sys c) h)"
      using inv by (simp_all add: late_inv_def coll_inv_def)
    have "K \<subseteq> safe cur (sys c)"
      using K search_ok_done [OF ok begin_releasing(4)] unfolding L safe_def by blast
    then show ?thesis using coll' inv begin_releasing by (simp add: late_inv_def)
  next
    case (release d ds lk)
    then have "base_inv cur g c" using coll by (simp add: coll_inv_def)
    note r = release_base(2,3) [OF this release(4,5)]
    then have "safe cur (sys c') = safe cur (sys c)" by (simp add: safe_def release(2))
    then show ?thesis using coll' inv release r by (simp add: late_inv_def)
  qed (use inv in \<open>simp_all add: late_inv_def\<close>)
qed

lemma safe_call:
  assumes inv: "base_inv cur g c" and may: "client_may op c" and run: "client_run op c = Inr c'"
  shows "safe cur (sys c) \<subseteq> safe cur (sys c')" and "tracked (sys c') - tracked (sys c) \<subseteq> safe cur (sys c')"
proof -
  note b = base_call [OF inv may run]
  have bound: "\<forall>d\<in>tracked (sys c). d < length (gc_datas (sys c))" "\<forall>d\<in>tracked (sys c'). d < length (gc_datas (sys c'))"
    using base_reads(6) [OF inv] base_reads(6) [OF b(1)] by blast+
  note mk = grown_mark [OF b(2) bound]
  show "safe cur (sys c) \<subseteq> safe cur (sys c')"
  proof
    fix d assume d: "d \<in> safe cur (sys c)"
    then have "d \<in> tracked (sys c')" using b(2) by (auto simp: safe_def grows_def)
    with mk [OF this] d show "d \<in> safe cur (sys c')" by (auto simp: safe_def)
  qed
  show "tracked (sys c') - tracked (sys c) \<subseteq> safe cur (sys c')" using mk by (auto simp: safe_def)
qed

lemma late_call:
  assumes inv: "late_inv cur n L K g c" and may: "client_may op c" and run: "client_run op c = Inr c'"
  shows "late_inv cur n L K g c'"
proof -
  have coll: "coll_inv cur n g c" and sf: "tracked (sys c) - L \<subseteq> safe cur (sys c)" using inv by (simp_all add: late_inv_def)
  note base = coll_inv_base [OF coll] and safe = safe_call [OF coll_inv_base [OF coll] may run]
  have "coll_inv cur n g c'" by (rule coll_step [OF coll collection_step.call [OF may run]])
  moreover have "tracked (sys c') - L \<subseteq> safe cur (sys c')" using sf safe by blast
  moreover have "set (cg_locked g) = L \<and> K \<subseteq> (\<Union>h\<in>set (cg_roots g). led_to L (sys c') h)" if stage: "cg_stage g = Searching"
  proof -
    have ok: "search_ok cur g c" and L: "set (cg_locked g) = L" and K: "K \<subseteq> (\<Union>h\<in>set (cg_roots g). led_to L (sys c) h)"
      using inv stage by (simp_all add: late_inv_def coll_inv_def)
    note f = search_ok_facts [OF ok] and s = searchingD [OF search_ok_facts(2) [OF ok]]
    have more: "led_to L (sys c) h \<subseteq> led_to L (sys c') h" if "h \<in> set (cg_roots g)" for h
    proof (rule led_to_mono [OF s(3) [OF that]])
      show "target (sys c') k = target (sys c) k" if "leads_home (sys c) k" for k
        by (rule target_grows [OF base_call(2) [OF base may run] that])
      show "scanned (sys c') d = scanned (sys c) d" if "d \<in> L" for d
        using locked_scan_call(1) [OF base may run] that L by blast
      show "leads_home (sys c) k" if "d \<in> L" "k \<in> scanned (sys c) d" for d k
        using base_reads(5) [OF base _ that(2)] that(1) f(3) L by blast
    qed
    show ?thesis using L order_trans [OF K UN_mono [OF order_refl more]] by simp
  qed
  ultimately show ?thesis using inv safe(1) by (cases "cg_stage g") (auto simp: late_inv_def)
qed

lemma late_steps:
  "(collection_step cur n)\<^sup>*\<^sup>* (g, c) (g', c') \<Longrightarrow> late_inv cur n L K g c \<Longrightarrow> late_inv cur n L K g' c'"
proof (induction rule: rtranclp_induct2)
  case (step g1 c1 g2 c2)
  note inv = step(3) [OF step(4)]
  from step(2) show ?case
  proof cases
    case own
    then show ?thesis by (rule late_own [OF inv])
  next
    case (call op)
    then show ?thesis using late_call [OF inv, of op c2] by simp
  qed
qed simp

text \<open>From the beginning to the search for roots.\<close>

lemma collecting_inv:
  assumes "client_reachable c" and "number_room (sys c)" and "start_collecting (sys c) = Inr (cur, g0, s0)"
  shows "coll_inv cur n g0 (c\<lparr>sys := s0\<rparr>)"
proof -
  obtain s2 where "start_collecting (sys c) = Inr (current_collection_number (sys c),
      \<lparr>cg_stage = Observing, cg_cursors = chunk_starts (data_list s2), cg_locked = [], cg_roots = [], cg_queue = [], cg_workers = []\<rparr>, s2)"
    and "early_inv (current_collection_number (sys c))
      \<lparr>cg_stage = Observing, cg_cursors = chunk_starts (data_list s2), cg_locked = [], cg_roots = [], cg_queue = [], cg_workers = []\<rparr>
      (c\<lparr>sys := s2\<rparr>)"
    by (rule starts_collecting [OF client_reachable_inv [OF assms(1)] assms(2)])
  then show ?thesis using assms(3) by (auto simp: coll_inv_def chunk_starts_def simp del: replicate.simps)
qed

lemma lasting_find_steps: "lasting_find cur n M x y \<Longrightarrow> (collection_step cur n)\<^sup>*\<^sup>* x y"
  by (erule rtranclp_mono [THEN predicate2D, rotated]) blast

text \<open>From the search for roots on.\<close>

lemma late_begins:
  assumes coll: "coll_inv cur n g c" and step: "own_step cur n (g, c) (g', c)"
    and stage: "cg_stage g = Finding" "cg_stage g' = Searching" and found: "\<forall>(k, h)\<in>M. h \<in> set (cg_roots g)"
  defines "L \<equiv> set (cg_locked g')"
  shows "late_inv cur n L (\<Union>(k, h)\<in>M. led_to L (sys c) h) g' c" and "L = set (cg_locked g)"
proof -
  note coll' = coll_own_step [OF coll step]
  then have ok: "search_ok cur g' c" using stage(2) by (simp add: coll_inv_def)
  have g': "g' = g\<lparr>cg_stage := Searching, cg_queue := cg_roots g, cg_workers := replicate n Idle\<rparr>"
    using step stage by cases (simp_all)
  show "L = set (cg_locked g)" by (simp add: L_def g')
  have "tracked (sys c) - L \<subseteq> safe cur (sys c)" using search_ok_facts(5) [OF ok] by (auto simp: safe_def L_def)
  moreover have "(\<Union>(k, h)\<in>M. led_to L (sys c) h) \<subseteq> (\<Union>h\<in>set (cg_roots g'). led_to L (sys c) h)"
    using found by (auto simp: g')
  ultimately show "late_inv cur n L (\<Union>(k, h)\<in>M. led_to L (sys c) h) g' c"
    using coll' stage(2) by (simp add: late_inv_def L_def)
qed

text \<open>A pointer the client holds is in its slot, and outside of all data.\<close>

lemma held_outside:
  assumes coll: "coll_inv cur n g c" and r: "r \<in> set (held c)"
  shows "slots_hold {(item_key r, item_v r)} c" and "outside {(item_key r, item_v r)} g (sys c)"
proof -
  let ?s = "sys c" and ?u = "unheld (cg_locked g) (sys c)"
  note base = coll_inv_base [OF coll]
  have ok: "refs_ok [] (held c) ?u" using base_facts(1) [OF base] by (simp add: gc_invx_def)
  then have "registered ?s r" using r by (simp add: refs_ok_def refs_def)
  then show "slots_hold {(item_key r, item_v r)} c" by (simp add: slots_hold_def registered_def)
  have "item_v r \<notin> scanned ?s d" if d: "d \<in> set (cg_locked g)" for d
  proof
    assume h: "item_v r \<in> scanned ?s d"
    have tr: "d \<in> tracked ?s" using base d by (simp add: base_inv_def)
    have "item_v r \<in> item_v ` set (scan (block_val ?s d))" using h base_reads(4) [OF base tr] by simp
    then obtain q where sc: "q \<in> set (scan (block_val ?s d))" and eq: "item_v r = item_v q" by (rule imageE)
    note q = subsetD [OF set_scan_owned sc] eq [symmetric]
    have "block_val ?u d = block_val ?s d" using base_reads(6) [OF base tr] by (rule unheld_addr(2))
    then have "q \<in> (\<Union>d\<in>tracked ?s. set (owned (block_val ?u d)))" using q(1) by (intro UN_I [OF tr]) simp
    from imageI [OF this, of item_v] have "item_v r \<in> item_v ` (\<Union>d\<in>tracked ?s. set (owned (block_val ?u d)))"
      unfolding q(2) .
    moreover have "item_v ` set (held c) \<inter> item_v ` (\<Union>d\<in>tracked ?s. set (owned (block_val ?u d))) = {}"
      using ok by (simp add: refs_ok_def refs_def all_data_def tracked_def)
    ultimately show False using r by blast
  qed
  then show "outside {(item_key r, item_v r)} g ?s" by (simp add: outside_def)
qed

text \<open>Data stays tracked until the end, and the locks are the same from the first phase to the third.\<close>

lemma tracked_steps:
  "(collection_step cur n)\<^sup>*\<^sup>* (g, c) (g', c') \<Longrightarrow> coll_inv cur n g c \<Longrightarrow> tracked (sys c) \<subseteq> tracked (sys c')"
proof (induction rule: rtranclp_induct2)
  case (step g1 c1 g2 c2)
  have inv: "coll_inv cur n g1 c1" by (rule coll_steps [OF step(1,4)])
  note base = coll_inv_base [OF inv]
  from step(2) have "tracked (sys c1) \<subseteq> tracked (sys c2)"
  proof cases
    case own
    then show ?thesis
    proof cases
      case (observe a i s' ws')
      have "data_list s' = data_list (sys c1)"
      proof (cases "cll_lookup (data_list (sys c1)) (a, i)")
        case (Some d)
        then show ?thesis using observe_slot_data(2) [OF base Some, of "cg_locked g1"] observe(7) by (auto simp: observe_state_def)
      qed (use observe(7) in \<open>simp add: observe_slot_def\<close>)
      then show ?thesis by (simp add: observe(2) tracked_def)
    next
      case (search q' ws' s')
      then have "search_ok cur g1 c1" using inv by (simp add: coll_inv_def)
      from mark_step_state [OF this search(4)] show ?thesis using search(2) by (auto simp: tracked_def)
    qed (simp_all add: tracked_def)
  next
    case (call op)
    then show ?thesis using base_call(2) [OF base, of op c2] by (simp add: grows_def)
  qed
  with step(3,4) show ?case by blast
qed simp

lemma find_locked:
  "lasting_find cur n M (g, c) (g', c') \<Longrightarrow> cg_stage g = Finding \<Longrightarrow> cg_stage g' = Finding \<and> cg_locked g' = cg_locked g"
proof (induction rule: rtranclp_induct2)
  case (step g1 c1 g2 c2)
  then have st: "collection_step cur n (g1, c1) (g2, c2)" "cg_stage g1 = Finding" "cg_stage g2 = Finding"
    "cg_locked g1 = cg_locked g" by simp_all
  from st(1) show ?case
  proof cases
    case own
    then show ?thesis using st(2-4) by cases simp_all
  qed (use st in simp)
qed simp

subsection \<open>The theorems\<close>

lemma phase_ends:
  assumes coll: "coll_inv cur n g c" and n: "0 < n" and stage: "cg_stage g \<noteq> Releasing"
  obtains g1 c1 y where "(\<lambda>x y. own_step cur n x y \<and> cg_stage (fst y) = cg_stage (fst x))\<^sup>*\<^sup>* (g, c) (g1, c1)"
    and "own_step cur n (g1, c1) y" and "cg_stage (fst y) \<noteq> cg_stage g1" and "cg_stage g1 = cg_stage g" and "coll_inv cur n g1 c1"
proof -
  let ?S = "\<lambda>x y. own_step cur n x y \<and> cg_stage (fst y) = cg_stage (fst x)"
  have keep: "coll_inv cur n (fst x) (snd x) \<and> cg_stage (fst x) = cg_stage g" if "?S\<^sup>*\<^sup>* (g, c) x" for x
    using that
  proof (induction rule: rtranclp_induct)
    case (step x y)
    then show ?case using coll_own_step [of cur n "fst x" "snd x" "fst y" "snd y"] by simp
  qed (simp add: coll)
  have "\<exists>x. ?S\<^sup>*\<^sup>* (g, c) x \<and> (\<exists>y. own_step cur n x y \<and> cg_stage (fst y) \<noteq> cg_stage (fst x))"
  proof (rule search_finishes)
    show "\<nexists>f. f 0 = (g, c) \<and> (\<forall>k. ?S (f k) (f (Suc k)))" using own_no_infinite [OF coll] by blast
    fix x assume x: "?S\<^sup>*\<^sup>* (g, c) x" "\<not> (\<exists>y. own_step cur n x y \<and> cg_stage (fst y) \<noteq> cg_stage (fst x))"
    then have "\<not> all_released (fst x)" using keep [OF x(1)] stage by (simp add: all_released_def)
    then show "\<exists>y. ?S x y" using coll_progress [of cur n "fst x" "snd x"] keep [OF x(1)] n x(2) by auto
  qed
  then obtain x y where x: "?S\<^sup>*\<^sup>* (g, c) x" "own_step cur n x y" "cg_stage (fst y) \<noteq> cg_stage (fst x)" by blast
  show thesis by (rule that [of "fst x" "snd x" y]) (use x keep [OF x(1)] in simp_all)
qed

text \<open>A collection that is left alone gets to its end.\<close>

lemma own_steps: "(own_step cur n)\<^sup>*\<^sup>* x y \<Longrightarrow> (collection_step cur n)\<^sup>*\<^sup>* x y"
  by (erule rtranclp_mono [THEN predicate2D, rotated]) (auto intro: collection_step.own)

lemma quiet_end:
  assumes coll: "coll_inv cur n g c" and n: "0 < n"
  obtains g' c' where "(own_step cur n)\<^sup>*\<^sup>* (g, c) (g', c')" and "all_released g'"
proof -
  have "\<exists>x. (own_step cur n)\<^sup>*\<^sup>* (g, c) x \<and> all_released (fst x)"
  proof (rule search_finishes)
    show "\<nexists>f. f 0 = (g, c) \<and> (\<forall>k. own_step cur n (f k) (f (Suc k)))" by (rule own_no_infinite [OF coll])
    fix x assume x: "(own_step cur n)\<^sup>*\<^sup>* (g, c) x" "\<not> all_released (fst x)"
    have "coll_inv cur n (fst x) (snd x)" using coll_steps [of cur n g c "fst x" "snd x"] own_steps [OF x(1)] coll by simp
    then show "\<exists>y. own_step cur n x y" using coll_progress [of cur n "fst x" "snd x"] n x(2) by simp
  qed
  then show thesis using that by auto
qed

text \<open>
  C11: However the calls of other threads interleave with all the phases of a collection, the collection keeps everything
  that is led to, through data that the collection has locked, from a handle that is not inside of such data and stays in its slot while
  the roots are searched for. It keeps all data that somebody has a guard of when the search through the object
  graph begins, all data that it has not locked, and so all data that was made since the search for roots began.
  (A handle inside of locked data is no root: garbage in a cycle goes although its handles stay in their slots.)
\<close>

theorem raced_collection_keeps:
  assumes "client_reachable c" and "number_room (sys c)" and "start_collecting (sys c) = Inr (cur, g0, s0)"
    and "(collection_step cur n)\<^sup>*\<^sup>* (g0, c\<lparr>sys := s0\<rparr>) (g, c1)"
    and "own_step cur n (g, c1) (g1, c1)" and "cg_stage g = Observing" and "cg_stage g1 = Finding"
    and "slots_hold M c1" and "outside M g1 (sys c1)"
    and "lasting_find cur n M (g1, c1) (g2, c2)"
    and "own_step cur n (g2, c2) (g3, c2)" and "cg_stage g3 = Searching"
    and "(collection_step cur n)\<^sup>*\<^sup>* (g3, c2) (g4, c4)" and "all_released g4"
  shows "(\<forall>(k, h)\<in>M. led_to (set (cg_locked g3)) (sys c2) h \<subseteq> tracked (end_collection cur (sys c4))) \<and>
    set (warrants c2) \<subseteq> tracked (end_collection cur (sys c4)) \<and>
    tracked (sys c4) - set (cg_locked g3) \<subseteq> tracked (end_collection cur (sys c4)) \<and>
    tracked (sys c4) - tracked (sys c1) \<subseteq> tracked (end_collection cur (sys c4))"
proof -
  have i1: "coll_inv cur n g1 c1"
    by (rule coll_own_step [OF coll_steps [OF assms(4) collecting_inv [OF assms(1-3)]] assms(5)])
  then have early: "early_inv cur g1 c1" using assms(7) by (simp add: coll_inv_def)
  have "cg_cursors g1 = chunk_starts (handle_list (sys c1))" using assms(5-7) by cases simp_all
  from finding_steps [OF assms(10) finding_starts [OF early assms(7) this assms(8,9)]]
  have f2: "finding_inv cur M g2 c2" .
  then have st2: "cg_stage g2 = Finding" by (simp add: finding_inv_def)
  have i2: "coll_inv cur n g2 c2" by (rule coll_steps [OF lasting_find_steps [OF assms(10)] i1])
  have "set (cg_cursors g2) \<subseteq> {CHUNK_SIZE}" using assms(11,12) st2 by cases simp_all
  then have "\<forall>(k, h)\<in>M. h \<in> set (cg_roots g2)" using finding_found [OF f2] by blast
  note late = late_begins [OF i2 assms(11) st2 assms(12) this]
  let ?L = "set (cg_locked g3)" and ?K = "\<Union>(k, h)\<in>M. led_to (set (cg_locked g3)) (sys c2) h"
  have l4: "late_inv cur n ?L ?K g4 c4" by (rule late_steps [OF assms(13) late(1)])
  then have base4: "base_inv cur g4 c4" and kept: "?K \<subseteq> safe cur (sys c4)" "tracked (sys c4) - ?L \<subseteq> safe cur (sys c4)"
    using assms(14) coll_inv_base by (auto simp: late_inv_def all_released_def)
  have "tracked (end_collection cur (sys c4)) = safe cur (sys c4)"
    using end_collection_spec(1) base_facts(5,6) [OF base4] base_reads(6) [OF base4] by (simp add: safe_def)
  moreover have "client_inv (unheld_client (cg_locked g2) c2)" "held_up (cg_locked g2) (sys c2)"
    using coll_inv_base [OF i2] by (simp_all add: base_inv_def)
  note guarded = guarded_not_locked [OF this]
  have "set (warrants c2) \<subseteq> tracked (sys c4) - ?L"
    using guarded late(2) tracked_steps [OF assms(13) coll_own_step [OF i2 assms(11)]] by blast
  moreover have "?L \<subseteq> tracked (sys c1)"
    using find_locked [OF assms(10,7)] late(2) early by (auto simp: early_inv_def base_inv_def)
  ultimately show ?thesis using kept by fast
qed

text \<open>
  C12: A collection starts whenever a client may ask for one. However many calls come between its steps, it is never stuck
  with work left, in particular never at an access to released memory, and it takes finitely many steps.
\<close>

theorem raced_collection_ends:
  assumes "client_reachable c" and "number_room (sys c)" and "0 < n"
  shows "\<exists>cur g0 s0. start_collecting (sys c) = Inr (cur, g0, s0) \<and>
    (\<forall>x. (collection_step cur n)\<^sup>*\<^sup>* (g0, c\<lparr>sys := s0\<rparr>) x \<longrightarrow> all_released (fst x) \<or> (\<exists>y. own_step cur n x y)) \<and>
    (\<forall>f. f 0 = (g0, c\<lparr>sys := s0\<rparr>) \<longrightarrow> (\<forall>k. collection_step cur n (f k) (f (Suc k))) \<longrightarrow>
       finite {k. own_step cur n (f k) (f (Suc k))})"
proof -
  obtain cur g0 s0 where start: "start_collecting (sys c) = Inr (cur, g0, s0)"
    using starts_collecting [OF client_reachable_inv [OF assms(1)] assms(2)] by metis
  note inv = collecting_inv [OF assms(1,2) start, of n]
  have "all_released (fst x) \<or> (\<exists>y. own_step cur n x y)" if "(collection_step cur n)\<^sup>*\<^sup>* (g0, c\<lparr>sys := s0\<rparr>) x" for x
    using coll_steps [of cur n g0 _ "fst x" "snd x"] coll_progress [of cur n "fst x" "snd x"] that inv assms(3) by auto
  moreover have "finite {k. own_step cur n (f k) (f (Suc k))}"
    if "f 0 = (g0, c\<lparr>sys := s0\<rparr>)" "\<forall>k. collection_step cur n (f k) (f (Suc k))" for f
    by (rule coll_runs_end [where f = f, OF inv that(1)]) (use that(2) in blast)
  ultimately show ?thesis using start by blast
qed

lemma quiet_find:
  assumes "(\<lambda>x y. own_step cur n x y \<and> cg_stage (fst y) = cg_stage (fst x))\<^sup>*\<^sup>* (g, c) x"
    and "cg_stage g = Finding" and "slots_hold M c"
  shows "lasting_find cur n M (g, c) x \<and> snd x = c \<and> cg_stage (fst x) = Finding"
  using assms(1)
proof (induction rule: rtranclp_induct)
  case (step x y)
  have same: "snd y = c" using step(2,3) by (cases x; cases y) (auto elim: own_step.cases)
  then have "collection_step cur n x y \<and> cg_stage (fst y) = Finding \<and> slots_hold M (snd y)"
    using step(2,3) assms(3) by (auto intro: collection_step.own)
  then show ?case using step(3) same by (auto intro: rtranclp.rtrancl_into_rtrancl)
qed (use assms(2) in simp)

lemma quiet_held:
  assumes "(\<lambda>x y. own_step cur n x y \<and> cg_stage (fst y) = cg_stage (fst x))\<^sup>*\<^sup>* x y"
  shows "(collection_step cur n)\<^sup>*\<^sup>* x y \<and> held (snd y) = held (snd x)"
  using assms
proof (induction rule: rtranclp_induct)
  case (step y z)
  have "held (snd z) = held (snd y)" using step(2) by (cases y; cases z) (auto elim: own_step.cases)
  then show ?case using step by (auto intro: rtranclp.rtrancl_into_rtrancl collection_step.own)
qed simp

lemma stage_change:
  assumes "own_step cur n (g, c) y" and "cg_stage (fst y) \<noteq> cg_stage g"
  shows "snd y = c" and "cg_stage g = Observing \<Longrightarrow> cg_stage (fst y) = Finding"
    and "cg_stage g = Finding \<Longrightarrow> cg_stage (fst y) = Searching"
  using assms by (cases y; auto elim: own_step.cases)+

theorem raced_collection_keeps_witness:
  "\<exists>c r g0 s0 g c1 g1 g2 g3 g4 c4. spinning 0 c r \<and> start_collecting (sys c) = Inr (2, g0, s0) \<and>
     (collection_step 2 1)\<^sup>*\<^sup>* (g0, c\<lparr>sys := s0\<rparr>) (g, c1) \<and> own_step 2 1 (g, c1) (g1, c1) \<and>
     lasting_find 2 1 {(item_key r, item_v r)} (g1, c1) (g2, c1) \<and> own_step 2 1 (g2, c1) (g3, c1) \<and>
     (collection_step 2 1)\<^sup>*\<^sup>* (g3, c1) (g4, c4) \<and> all_released g4 \<and>
     led_to (set (cg_locked g3)) (sys c1) (item_v r) \<subseteq> tracked (end_collection 2 (sys c4))"
proof -
  obtain c r where spin: "spinning 0 c r" by (rule spin_start)
  then have re: "client_reachable c" and num: "current_collection_number (sys c) = 2" and held: "held c = [r]"
    by (simp_all add: spinning_def sole_def)
  have room: "number_room (sys c)" using num by (simp add: number_room_def)
  obtain g0 s0 where start: "start_collecting (sys c) = Inr (2, g0, s0)" and st0: "cg_stage g0 = Observing"
    by (rule starts_collecting [OF client_reachable_inv [OF re] room]) (simp add: num)
  have one: "0 < (1 :: nat)" by simp
  note i0 = collecting_inv [OF re room start, of 1]
  have "cg_stage g0 \<noteq> Releasing" by (simp add: st0)
  from phase_ends [OF i0 one this] obtain g c1 y
    where p1: "(\<lambda>x y. own_step 2 1 x y \<and> cg_stage (fst y) = cg_stage (fst x))\<^sup>*\<^sup>* (g0, c\<lparr>sys := s0\<rparr>) (g, c1)"
      and y: "own_step 2 1 (g, c1) y" "cg_stage (fst y) \<noteq> cg_stage g" and st: "cg_stage g = cg_stage g0" and i: "coll_inv 2 1 g c1"
    by blast
  obtain g1 where s1: "own_step 2 1 (g, c1) (g1, c1)" "cg_stage g1 = Finding" 
    using y stage_change [OF y] st st0 by (cases y) auto
  have i1: "coll_inv 2 1 g1 c1" by (rule coll_own_step [OF i s1(1)])
  have "r \<in> set (held c1)" using quiet_held [OF p1] held by simp
  note M = held_outside [OF i1 this]
  let ?M = "{(item_key r, item_v r)}"
  have "cg_stage g1 \<noteq> Releasing" by (simp add: s1(2))
  from phase_ends [OF i1 one this] obtain g2 c2 z
    where p2: "(\<lambda>x y. own_step 2 1 x y \<and> cg_stage (fst y) = cg_stage (fst x))\<^sup>*\<^sup>* (g1, c1) (g2, c2)"
      and z: "own_step 2 1 (g2, c2) z" "cg_stage (fst z) \<noteq> cg_stage g2" and i2: "coll_inv 2 1 g2 c2"
    by blast
  have walk: "lasting_find 2 1 ?M (g1, c1) (g2, c1)" and c2: "c2 = c1" and st2: "cg_stage g2 = Finding"
    using quiet_find [OF p2 s1(2) M(1)] by auto
  obtain g3 where s3: "own_step 2 1 (g2, c1) (g3, c1)" "cg_stage g3 = Searching"
    using z stage_change [OF z] st2 c2 by (cases z) auto
  obtain g4 c4 where fin: "(collection_step 2 1)\<^sup>*\<^sup>* (g3, c1) (g4, c4)" "all_released g4"
    by (rule quiet_end [OF coll_own_step [OF i2 s3(1) [folded c2]] one]) (use own_steps c2 in blast)
  have r0: "(collection_step 2 1)\<^sup>*\<^sup>* (g0, c\<lparr>sys := s0\<rparr>) (g, c1)" using quiet_held [OF p1] by simp
  have "cg_stage g = Observing" by (simp add: st st0)
  from raced_collection_keeps [OF re room start r0 s1(1) this s1(2) M walk s3 fin]
  have "led_to (set (cg_locked g3)) (sys c1) (item_v r) \<subseteq> tracked (end_collection 2 (sys c4))" by simp
  with spin start r0 s1(1) walk s3(1) fin show ?thesis by blast
qed

theorem raced_collection_ends_witness:
  "\<exists>c r g0 s0 y. spinning 0 c r \<and> start_collecting (sys c) = Inr (2, g0, s0) \<and> own_step 2 1 (g0, c\<lparr>sys := s0\<rparr>) y \<and>
     (\<forall>f. f 0 = (g0, c\<lparr>sys := s0\<rparr>) \<longrightarrow> (\<forall>k. collection_step 2 1 (f k) (f (Suc k))) \<longrightarrow>
        finite {k. own_step 2 1 (f k) (f (Suc k))})"
proof -
  obtain c r where spin: "spinning 0 c r" by (rule spin_start)
  then have re: "client_reachable c" and num: "current_collection_number (sys c) = 2" by (simp_all add: spinning_def)
  have room: "number_room (sys c)" using num by (simp add: number_room_def)
  have "0 < (1 :: nat)" by simp
  from raced_collection_ends [OF re room this] obtain cur g0 s0 where r: "start_collecting (sys c) = Inr (cur, g0, s0)"
    "\<forall>x. (collection_step cur 1)\<^sup>*\<^sup>* (g0, c\<lparr>sys := s0\<rparr>) x \<longrightarrow> all_released (fst x) \<or> (\<exists>y. own_step cur 1 x y)"
    "\<forall>f. f 0 = (g0, c\<lparr>sys := s0\<rparr>) \<longrightarrow> (\<forall>k. collection_step cur 1 (f k) (f (Suc k))) \<longrightarrow>
       finite {k. own_step cur 1 (f k) (f (Suc k))}" by blast
  have first: "cur = 2 \<and> cg_stage g0 = Observing"
    by (rule starts_collecting [OF client_reachable_inv [OF re] room]) (use r(1) num in simp)
  then have "\<not> all_released g0" by (simp add: all_released_def)
  moreover have "all_released (fst (g0, c\<lparr>sys := s0\<rparr>)) \<or> (\<exists>y. own_step cur 1 (g0, c\<lparr>sys := s0\<rparr>) y)"
    by (rule r(2) [rule_format]) (rule rtranclp.rtrancl_refl)
  ultimately obtain y where "own_step cur 1 (g0, c\<lparr>sys := s0\<rparr>) y" unfolding fst_conv by blast
  with spin r first show ?thesis by blast
qed

end
