(* ===== verification/Collection_Alone.thy ===== *)
theory Collection_Alone
  imports Collection_Search
begin

text \<open>
  The stepwise collection left alone: on every schedule of its own steps it comes to the result of the sequential
  definition \<open>collect\<close>, whose loops take the slots in order and whose search has one worker.
\<close>

text \<open>The data in the slots that have been visited.\<close>

definition seen :: "collection \<Rightarrow> gc_state \<Rightarrow> nat set" where
  "seen g s = {d. \<exists>k. cll_lookup (data_list s) k = Some d \<and> \<not> unvisited g k}"

definition not_in_use :: "gc_state \<Rightarrow> nat set" where
  "not_in_use s = {d \<in> tracked s. \<not> in_use s d}"

text \<open>The states at the ends of the phases, from the one in which the collection begins.\<close>

abbreviation observed_all :: "u64 \<Rightarrow> gc_state \<Rightarrow> gc_state" where
  "observed_all cur s \<equiv> observe_state cur (tracked s) s"

definition searched_all :: "u64 \<Rightarrow> gc_state \<Rightarrow> gc_state" where
  "searched_all cur s = mark_all cur (spread cur (observed_all cur s) (set (find_roots cur (observed_all cur s)))) (observed_all cur s)"

definition released_all :: "u64 \<Rightarrow> gc_state \<Rightarrow> gc_state" where
  "released_all cur s = (searched_all cur s)\<lparr>gc_datas := upd_all unlock (not_in_use s) (gc_datas (searched_all cur s))\<rparr>"

definition alone_inv :: "u64 \<Rightarrow> nat \<Rightarrow> gc_state \<Rightarrow> collection \<Rightarrow> gc_client \<Rightarrow> bool" where
  "alone_inv cur n s0 g c \<longleftrightarrow> coll_inv cur n g c \<and>
     (case cg_stage g of
        Observing \<Rightarrow> sys c = observe_state cur (seen g s0) s0 \<and> cg_roots g = [] \<and>
          set (cg_locked g) = {d \<in> seen g s0. \<not> in_use s0 d}
      | Finding \<Rightarrow> sys c = observed_all cur s0 \<and> set (cg_locked g) = not_in_use s0 \<and>
          length (cg_cursors g) = Suc (chunk_addr (cll_head (handle_list s0))) \<and>
          set (cg_roots g) = {h. \<exists>k. cll_lookup (handle_list s0) k = Some h \<and> snd k < cg_cursors g ! fst k \<and>
            h_last_non_rooted (gc_handles (observed_all cur s0) ! h) \<noteq> cur}
      | Searching \<Rightarrow> set (cg_locked g) = not_in_use s0 \<and>
          set (cg_roots g) = set (find_roots cur (observed_all cur s0)) \<and>
          searchable cur (tracked s0) (observed_all cur s0) (set (cg_roots g)) \<and>
          (mark_step cur)\<^sup>*\<^sup>* (cg_roots g, replicate n Idle, observed_all cur s0) (cg_queue g, cg_workers g, sys c)
      | Releasing \<Rightarrow> release_warrants (cg_locked g) (sys c) = Inr (released_all cur s0) \<and>
          finish_collection cur (filter (\<lambda>d. \<not> in_use s0 d) (par_iter (data_list s0)))
            (find_roots cur (observed_all cur s0)) (observed_all cur s0) = Inr (end_collection cur (released_all cur s0)))"

lemma observe_state_lists:
  "data_list (observe_state cur D s) = data_list s" "handle_list (observe_state cur D s) = handle_list s"
  "tracked (observe_state cur D s) = tracked s"
  by (simp_all add: observe_state_def tracked_def)

lemma seen_advance:
  fixes L :: "nat list"
  assumes "cg_stage g = Observing" and "a < length (cg_cursors g)" and "cg_cursors g ! a = i"
    and inj: "\<forall>k k' d. cll_lookup (data_list s) k = Some d \<longrightarrow> cll_lookup (data_list s) k' = Some d \<longrightarrow> k = k'"
  defines "g' \<equiv> g\<lparr>cg_cursors := (cg_cursors g)[a := Suc i], cg_locked := L\<rparr>"
  shows "cll_lookup (data_list s) (a, i) = None \<Longrightarrow> seen g' s = seen g s"
    and "cll_lookup (data_list s) (a, i) = Some d \<Longrightarrow> seen g' s = insert d (seen g s)"
    and "cll_lookup (data_list s) (a, i) = Some d \<Longrightarrow> d \<notin> seen g s"
proof -
  note adv = unvisited_advance [OF assms(1-3), of L, folded g'_def]
  have un: "unvisited g (a, i)" using assms(1-3) by (simp add: unvisited_def)
  show "seen g' s = seen g s" if "cll_lookup (data_list s) (a, i) = None"
  proof -
    have "k \<noteq> (a, i)" if "cll_lookup (data_list s) k = Some d" for k d
      using that \<open>cll_lookup (data_list s) (a, i) = None\<close> by auto
    then show ?thesis unfolding seen_def adv by blast
  qed
  assume d: "cll_lookup (data_list s) (a, i) = Some d"
  show "d \<notin> seen g s" using inj d un unfolding seen_def by blast
  show "seen g' s = insert d (seen g s)"
  proof (intro equalityI subsetI)
    fix e assume "e \<in> seen g' s"
    then obtain k where k: "cll_lookup (data_list s) k = Some e" "\<not> unvisited g k \<or> k = (a, i)"
      unfolding seen_def adv by blast
    show "e \<in> insert d (seen g s)"
    proof (cases "k = (a, i)")
      case True
      then show ?thesis using k(1) d by simp
    next
      case False
      then show ?thesis using k unfolding seen_def by blast
    qed
  next
    fix e assume "e \<in> insert d (seen g s)"
    then show "e \<in> seen g' s" using d unfolding seen_def adv by blast
  qed
qed

lemma alone_observe:
  fixes ws' :: "nat list"
  assumes base0: "base_inv cur g0 c0" and s0: "sys c0 = s0" and inv: "alone_inv cur n s0 g c" and stage: "cg_stage g = Observing"
    and a: "a < length (cg_cursors g)" "cg_cursors g ! a = i"
    and step: "observe_slot cur (a, i) (sys c, cg_locked g) = Inr (s', ws')"
  defines "g' \<equiv> g\<lparr>cg_cursors := (cg_cursors g)[a := Suc i], cg_locked := ws'\<rparr>"
  shows "s' = observe_state cur (seen g' s0) s0" and "set ws' = {d \<in> seen g' s0. \<not> in_use s0 d}"
proof -
  have c: "sys c = observe_state cur (seen g s0) s0" and L: "set (cg_locked g) = {d \<in> seen g s0. \<not> in_use s0 d}"
    using inv stage by (simp_all add: alone_inv_def)
  have inj: "\<forall>k k' d. cll_lookup (data_list s0) k = Some d \<longrightarrow> cll_lookup (data_list s0) k' = Some d \<longrightarrow> k = k'"
    using cs.lookup_inj [OF base_facts(5,6) [OF base0]] unfolding s0 by blast
  note sa = seen_advance(1,2) [where L = ws' and s = s0, OF stage a inj, folded g'_def] seen_advance(3) [where s = s0, OF stage a inj]
  have "s' = observe_state cur (seen g' s0) s0 \<and> set ws' = {d \<in> seen g' s0. \<not> in_use s0 d}"
  proof (cases "cll_lookup (data_list s0) (a, i)")
    case None
    then have "s' = sys c" "ws' = cg_locked g" using step by (simp_all add: observe_slot_def c observe_state_lists)
    then show ?thesis using sa(1) None c L by simp
  next
    case (Some d)
    have "d \<in> tracked s0" using observe_slot_data(1) [OF base0, of "(a, i)" d] Some by (simp add: s0)
    then have "d < length (gc_datas s0)" "scannable s0 d" using base_reads(6,2) [OF base0, of d] by (simp_all add: s0)
    from observe_data_step [OF this(1) sa(3) [OF Some] this(2), of cur "cg_locked g"]
    have "s' = observe_state cur (insert d (seen g s0)) s0 \<and> ws' = cg_locked g @ (if in_use s0 d then [] else [d])"
      using step by (simp add: observe_slot_def c observe_state_lists Some)
    then show ?thesis unfolding sa(2) [OF Some] using L by auto
  qed
  then show "s' = observe_state cur (seen g' s0) s0" "set ws' = {d \<in> seen g' s0. \<not> in_use s0 d}" by simp_all
qed

lemma alone_begin_finding:
  assumes base0: "base_inv cur g0 c0" and s0: "sys c0 = s0" and inv: "alone_inv cur n s0 g c"
    and stage: "cg_stage g = Observing" and fin: "set (cg_cursors g) \<subseteq> {CHUNK_SIZE}"
  shows "sys c = observed_all cur s0" and "set (cg_locked g) = not_in_use s0" and "cg_roots g = []"
proof -
  have "\<not> unvisited g k" if "cll_lookup (data_list s0) k = Some d" for k d
    by (rule all_visited [OF _ fin that]) (use base_facts(5) [OF base0] s0 in simp)
  moreover have "d \<in> tracked s0 \<longleftrightarrow> (\<exists>k. cll_lookup (data_list s0) k = Some d)" for d
    unfolding tracked_def using cs.items_iff [OF base_facts(5) [OF base0], of d] by (simp add: s0)
  ultimately have "seen g s0 = tracked s0" unfolding seen_def by blast
  then show "sys c = observed_all cur s0" "set (cg_locked g) = not_in_use s0" "cg_roots g = []"
    using inv stage by (simp_all add: alone_inv_def not_in_use_def)
qed

lemma found_slots:
  assumes "a < length cs" and "cs ! a = i"
  shows "snd k < cs[a := Suc i] ! fst k \<longleftrightarrow> snd k < cs ! fst k \<or> k = (a, i)"
  using assms by (cases k) (auto simp: nth_list_update)

lemma alone_find:
  assumes inv: "alone_inv cur n s0 g c" and stage: "cg_stage g = Finding"
    and a: "a < length (cg_cursors g)" "cg_cursors g ! a = i"
  shows "set (visit_slot cur (sys c) (a, i) (cg_roots g)) =
    {h. \<exists>k. cll_lookup (handle_list s0) k = Some h \<and> snd k < (cg_cursors g)[a := Suc i] ! fst k \<and>
       h_last_non_rooted (gc_handles (observed_all cur s0) ! h) \<noteq> cur}"
proof -
  let ?P = "\<lambda>h. h_last_non_rooted (gc_handles (observed_all cur s0) ! h) \<noteq> cur"
  have c: "sys c = observed_all cur s0" and R: "set (cg_roots g) =
      {h. \<exists>k. cll_lookup (handle_list s0) k = Some h \<and> snd k < cg_cursors g ! fst k \<and> ?P h}"
    using inv stage by (simp_all add: alone_inv_def)
  have "set (visit_slot cur (sys c) (a, i) (cg_roots g)) =
      set (cg_roots g) \<union> {h. cll_lookup (handle_list s0) (a, i) = Some h \<and> ?P h}"
    by (auto simp: visit_slot_def c observe_state_lists split: option.split)
  then show ?thesis unfolding R found_slots [OF a] by blast
qed

lemma alone_found:
  assumes base0: "base_inv cur g0 c0" and s0: "sys c0 = s0" and inv: "alone_inv cur n s0 g c"
    and stage: "cg_stage g = Finding" and fin: "set (cg_cursors g) \<subseteq> {CHUNK_SIZE}"
  shows "set (cg_roots g) = set (find_roots cur (observed_all cur s0))"
proof -
  have len: "length (cg_cursors g) = Suc (chunk_addr (cll_head (handle_list s0)))" using inv stage by (simp add: alone_inv_def)
  have "snd k < cg_cursors g ! fst k" if "cll_lookup (handle_list s0) k = Some h" for k h
  proof -
    have "fst k < length (cg_cursors g)" "snd k < CHUNK_SIZE"
      using slot_range(1,2) [of "handle_list s0" k h] base_facts(7) [OF base0] that len by (simp_all add: s0 chunk_starts_def)
    then show ?thesis using fin nth_mem by fastforce
  qed
  moreover have "h \<in> set (par_iter (handle_list s0)) \<longleftrightarrow> (\<exists>k. cll_lookup (handle_list s0) k = Some h)" for h
    using cs.items_iff [OF base_facts(7) [OF base0], of h] by (simp add: s0)
  moreover have "set (cg_roots g) = {h. \<exists>k. cll_lookup (handle_list s0) k = Some h \<and> snd k < cg_cursors g ! fst k \<and>
      h_last_non_rooted (gc_handles (observed_all cur s0) ! h) \<noteq> cur}"
    using inv stage by (simp add: alone_inv_def)
  ultimately show ?thesis unfolding find_roots_def observe_state_lists set_filter by blast
qed

lemma alone_begin_releasing:
  assumes base0: "base_inv cur g0 c0" and s0: "sys c0 = s0" and inv: "alone_inv cur n s0 g c" and stage: "cg_stage g = Searching"
    and fin: "search_done (cg_queue g, cg_workers g, sys c)"
  shows "release_warrants (cg_locked g) (sys c) = Inr (released_all cur s0)"
    and "finish_collection cur (filter (\<lambda>d. \<not> in_use s0 d) (par_iter (data_list s0)))
      (find_roots cur (observed_all cur s0)) (observed_all cur s0) = Inr (end_collection cur (released_all cur s0))"
proof -
  let ?s3 = "observed_all cur s0" and ?ws = "filter (\<lambda>d. \<not> in_use s0 d) (par_iter (data_list s0))"
  have L: "set (cg_locked g) = not_in_use s0" and R: "set (cg_roots g) = set (find_roots cur ?s3)"
    and ok: "searchable cur (tracked s0) ?s3 (set (cg_roots g))" and coll: "coll_inv cur n g c"
    and run: "(mark_step cur)\<^sup>*\<^sup>* (cg_roots g, replicate n Idle, ?s3) (cg_queue g, cg_workers g, sys c)"
    using inv unfolding alone_inv_def stage stage.case by blast+
  note base = coll_inv_base [OF coll]
  obtain M where "search_inv cur ?s3 (set (cg_roots g)) (spread cur ?s3 (set (cg_roots g))) M (cg_queue g, cg_workers g, sys c)"
    using search_run_inv [OF ok run] by blast
  then have c: "sys c = searched_all cur s0" using search_inv_done [OF _ fin] R by (simp add: searched_all_def)
  have locked: "distinct (cg_locked g)" "\<forall>d\<in>set (cg_locked g). d < length (gc_datas (sys c)) \<and> lk_exclusive (d_lockout (gc_datas (sys c) ! d))"
    using base by (simp_all add: base_inv_def held_up_def)
  from release_all [OF this] show "release_warrants (cg_locked g) (sys c) = Inr (released_all cur s0)"
    by (simp add: c L released_all_def)
  have ws: "distinct ?ws" "set ?ws = set (cg_locked g)"
    using base_facts(6) [OF base0] by (auto simp: s0 L not_in_use_def tracked_def)
  have "release_warrants ?ws (searched_all cur s0) = Inr (released_all cur s0)"
    using release_all [OF ws(1), of "sys c"] locked(2) unfolding ws(2) by (simp add: c L released_all_def)
  moreover have "dfs cur (find_roots cur ?s3) ?s3 = Inr (searched_all cur s0)"
    using dfs_marks_spread [of cur "tracked s0" ?s3 "find_roots cur ?s3"] ok unfolding R by (simp add: searched_all_def)
  ultimately show "finish_collection cur ?ws (find_roots cur ?s3) ?s3 = Inr (end_collection cur (released_all cur s0))"
    by (simp add: finish_collection_def)
qed

lemma alone_step:
  assumes base0: "base_inv cur g0 c0" and s0: "sys c0 = s0" and inv: "alone_inv cur n s0 g c"
    and step: "own_step cur n (g, c) (g', c')"
  shows "alone_inv cur n s0 g' c'"
proof -
  have coll: "coll_inv cur n g c" using inv by (simp add: alone_inv_def)
  note coll' = coll_own_step [OF coll step]
  from step show ?thesis
  proof cases
    case (observe a i s' ws')
    then show ?thesis using alone_observe [OF base0 s0 inv observe(3-5,7)] coll' inv by (simp add: alone_inv_def)
  next
    case begin_finding
    note b = alone_begin_finding [OF base0 s0 inv begin_finding(3,4)]
    have "chunk_starts (handle_list s0) ! fst k = 0" if "cll_lookup (handle_list s0) k = Some h" for h k
      by (rule slot_range(3) [OF _ that]) (use base_facts(7) [OF base0] s0 in simp)
    then have none: "{h. \<exists>k. cll_lookup (handle_list s0) k = Some h \<and> snd k < chunk_starts (handle_list s0) ! fst k \<and>
        h_last_non_rooted (gc_handles (observed_all cur s0) ! h) \<noteq> cur} = {}" by fastforce
    have len: "length (chunk_starts (handle_list s0)) = Suc (chunk_addr (cll_head (handle_list s0)))"
      by (simp add: chunk_starts_def)
    show ?thesis
      unfolding alone_inv_def using coll' b none len by (simp add: begin_finding(1,2) observe_state_lists)
  next
    case (find a i)
    then show ?thesis using alone_find [OF inv find(3-5)] coll' inv by (simp add: alone_inv_def)
  next
    case begin_searching
    have "searchable cur (tracked (sys c)) (sys c) (set (cg_roots g))"
      by (rule base_searchable [OF coll_inv_base [OF coll]])
    then show ?thesis using alone_found [OF base0 s0 inv begin_searching(3,4)] begin_searching coll' inv
      by (simp add: alone_inv_def observe_state_lists)
  next
    case (search q' ws' s')
    then show ?thesis using coll' inv by (auto simp: alone_inv_def intro: rtranclp.rtrancl_into_rtrancl)
  next
    case begin_releasing
    then show ?thesis using alone_begin_releasing [OF base0 s0 inv begin_releasing(3,4)] coll' by (simp add: alone_inv_def)
  next
    case (release d ds lk)
    then show ?thesis using coll' inv by (simp add: alone_inv_def release_warrants_def)
  qed
qed

lemma alone_steps:
  assumes base0: "base_inv cur g0 c0" and s0: "sys c0 = s0"
  shows "(own_step cur n)\<^sup>*\<^sup>* (g, c) (g', c') \<Longrightarrow> alone_inv cur n s0 g c \<Longrightarrow> alone_inv cur n s0 g' c'"
proof (induction rule: rtranclp_induct2)
  case (step g1 c1 g2 c2)
  show ?case by (rule alone_step [OF base0 s0 step(3) [OF step(4)] step(2)])
qed simp

text \<open>
  C13: On every schedule of its own steps, with any number of workers, a collection that no call interrupts comes to the state
  that the sequential definition of a collection computes.
\<close>

theorem collection_alone_sequential:
  assumes "client_reachable c" and "number_room (sys c)" and "start_collecting (sys c) = Inr (cur, g0, s0)"
    and "(own_step cur n)\<^sup>*\<^sup>* (g0, c\<lparr>sys := s0\<rparr>) (g4, c4)" and "all_released g4"
  shows "collect (sys c) = Inr (end_collection cur (sys c4))"
proof -
  obtain s2 where s2: "start_collecting (sys c) = Inr (current_collection_number (sys c),
      \<lparr>cg_stage = Observing, cg_cursors = chunk_starts (data_list s2), cg_locked = [], cg_roots = [], cg_queue = [], cg_workers = []\<rparr>, s2)"
    and begins: "begin_collection (sys c) = Inr (current_collection_number (sys c),
      filter (\<lambda>d. \<not> in_use s2 d) (par_iter (data_list s2)), observed_all (current_collection_number (sys c)) s2)"
    by (rule starts_collecting [OF client_reachable_inv [OF assms(1)] assms(2)])
  then have eq: "s2 = s0" "current_collection_number (sys c) = cur" and g0: "cg_stage g0 = Observing" "cg_locked g0 = []"
      "cg_roots g0 = []" "cg_cursors g0 = chunk_starts (data_list s0)"
    using assms(3) by auto
  let ?c = "c\<lparr>sys := s0\<rparr>" and ?s3 = "observed_all cur s0" and ?ws = "filter (\<lambda>d. \<not> in_use s0 d) (par_iter (data_list s0))"
  have coll: "coll_inv cur n g0 ?c" by (rule collecting_inv [OF assms(1-3)])
  note base = coll_inv_base [OF coll]
  have "unvisited g0 k" if "cll_lookup (data_list s0) k = Some d" for k d
    by (rule none_visited [OF _ g0(1,4) that]) (use base_facts(5) [OF base] in simp)
  then have none: "seen g0 s0 = {}" unfolding seen_def by blast
  have "alone_inv cur n s0 g0 ?c" using coll g0 none by (simp add: alone_inv_def) (simp add: observe_state_def)
  then have "alone_inv cur n s0 g4 c4" by (rule alone_steps [OF base _ assms(4), rotated]) simp
  then have "release_warrants (cg_locked g4) (sys c4) = Inr (released_all cur s0)"
    and fin: "finish_collection cur ?ws (find_roots cur ?s3) ?s3 = Inr (end_collection cur (released_all cur s0))"
    using assms(5) by (simp_all add: alone_inv_def all_released_def)
  then have "sys c4 = released_all cur s0" using assms(5) by (simp add: all_released_def release_warrants_def)
  with fin begins show ?thesis by (simp add: collect_split eq)
qed

theorem collection_alone_sequential_witness:
  "\<exists>c r g0 s0 g4 c4. spinning 0 c r \<and> start_collecting (sys c) = Inr (2, g0, s0) \<and>
     (own_step 2 3)\<^sup>*\<^sup>* (g0, c\<lparr>sys := s0\<rparr>) (g4, c4) \<and> all_released g4 \<and>
     collect (sys c) = Inr (end_collection 2 (sys c4))"
proof -
  obtain c r where spin: "spinning 0 c r" by (rule spin_start)
  then have re: "client_reachable c" and num: "current_collection_number (sys c) = 2" by (simp_all add: spinning_def)
  have room: "number_room (sys c)" using num by (simp add: number_room_def)
  obtain g0 s0 where start: "start_collecting (sys c) = Inr (2, g0, s0)"
    by (rule starts_collecting [OF client_reachable_inv [OF re] room]) (simp add: num)
  obtain g4 c4 where "(own_step 2 3)\<^sup>*\<^sup>* (g0, c\<lparr>sys := s0\<rparr>) (g4, c4)" "all_released g4"
    by (rule quiet_end [OF collecting_inv [OF re room start, of 3]]) simp
  with collection_alone_sequential [OF re room start this] spin start show ?thesis by blast
qed

end
