(* ===== verification/Atomic_Clone.thy ===== *)
theory Atomic_Clone
  imports Client_Safety
begin

text \<open>
  The derived \<open>Clone\<close> of \<open>AtomicGc\<close> (\<open>src/atomic.rs\<close>) copies the backing handle instead of
  registering a new one, while \<open>Drop\<close> invalidates it: the clone that is dropped first takes the
  registration away from all the others. The client of \<open>Client\<close> owns each handle once and so
  never clones an \<open>AtomicGc\<close>; this theory shows what happens to one that does.
\<close>

lemma drop_two_handles:
  assumes "gc_inv P [h, r] W s"
  shows "gc_inv P [] W (drop_handle h (drop_handle r s))"
    and "live_handles (drop_handle h (drop_handle r s)) = live_handles s - {item_v r, item_v h}"
proof -
  have i: "gc_inv P (r # [h]) W s" using assms gc_inv_perm [of "[h, r]" "[r, h]" W W] by (simp add: add_mset_commute)
  have j: "gc_inv P [h] W (drop_handle r s)" using gc_inv_drop_handle(1) [OF i] by simp
  from gc_inv_drop_handle(1) [OF j] show "gc_inv P [] W (drop_handle h (drop_handle r s))" by simp
  show "live_handles (drop_handle h (drop_handle r s)) = live_handles s - {item_v r, item_v h}"
    unfolding gc_inv_drop_handle(4) [OF j] gc_inv_drop_handle(4) [OF i] by auto
qed

text \<open>With nothing tracked and nothing pending, no handle is registered.\<close>

lemma client_dropped:
  assumes "client_inv c" and "client_run RunSync c = Inr c'"
  shows "tracked (sys c') = tracked (sys c)" and "tracked (sys c) = {} \<Longrightarrow> live_handles (sys c') = {}"
proof -
  obtain s2 where run: "synchronize_destructors (sys c) = Inr s2" and inv: "gc_inv [] (held c) (warrants c) s2"
    and ctl: "same_control ((sys c)\<lparr>dropper := []\<rparr>) s2"
    by (rule gc_inv_synchronize [OF client_gc_inv [OF assms(1)]])
  have s2: "sys c' = s2" using run assms(2) by auto
  show tr: "tracked (sys c') = tracked (sys c)" using ctl by (simp add: s2 same_control_def tracked_def)
  show "live_handles (sys c') = {}" if "tracked (sys c) = {}"
    using inv tr that by (auto simp: s2 gc_invx_def handles_ok_def doomed_def)
qed

text \<open>
  With one piece of data, an \<open>AtomicGc\<close> to it and no registered handle, the collection gives up the
  data, and \<open>load\<close> reads a released \<open>GcData\<close>.
\<close>

lemma unregistered_atomic_dangles:
  assumes inv: "client_inv \<lparr>sys = s, held = [], warrants = []\<rparr>" and live: "live_handles s = {}"
    and s: "dropper s = []" "number_room s" "atomics s = [0]" "tracked s = {0}" "block_val s 0 = V_Plain 7"
  shows "\<exists>s3 s4. collect s = Inr s3 \<and> synchronize_destructors s3 = Inr s4 \<and>
    atomic_load \<lparr>atomic_ptr = 0, atomic_handle = h\<rparr> s4 = Inl Undefined"
proof -
  let ?c = "\<lparr>sys = s, held = [], warrants = []\<rparr>"
  have may: "client_may RunCollect ?c" and tr: "transparent ?c" and dr: "dropper (sys ?c) = []"
    using s live by (simp_all add: transparent_def)
  obtain c5 where c5: "client_run RunCollect ?c = Inr c5" "client_inv c5"
    using client_RunCollect [OF inv may] by blast
  obtain c6 where c6: "client_run RunSync c5 = Inr c6" "client_inv c6" "dropper (sys c6) = []"
    using client_RunSync [OF c5(2)] by blast
  have "False" if "d \<in> needed ?c" for d using that by (induction rule: needed.induct) simp_all
  then have none: "tracked (sys c5) = {}" using collect_needed [OF inv may c5(1) dr tr] by blast
  have run: "collect s = Inr (sys c5)" "synchronize_destructors (sys c5) = Inr (sys c6)"
    using c5(1) c6(1) by (auto simp: res_bind_eq_Inr)
  obtain s2' dl where "sys c5 = swept_state dl s2'" "released (set (pending (sys ?c))) (set (pending (sys ?c))) (sys ?c) s2'"
    by (rule client_collect_needed [OF inv may c5(1)]) blast
  then have "atomics (sys c5) = [0]" using s(3) by (simp add: swept_frame released_def)
  then have at6: "atomics (sys c6) = [0]" using synchronize_released [OF run(2)] by (simp add: released_def)
  have "tracked (sys c6) = {}" "live_handles (sys c6) = {}"
    using client_dropped [OF c5(2) c6(1)] none by simp_all
  then have "\<not> data_alive ((sys c6)\<lparr>atomic_spinlock := \<lparr>tracker = 1\<rparr>\<rparr>) 0"
    using c6(3) by (simp add: data_alive_def tracked_def live_handles_def)
  then have "atomic_load \<lparr>atomic_ptr = 0, atomic_handle = h\<rparr> (sys c6) = Inl Undefined"
    using at6 by (simp add: atomic_load_def block_collection_idle [OF client_idle [OF c6(2)]] arc_from_raw_def)
  with run show ?thesis by blast
qed

text \<open>An \<open>AtomicGc\<close> made from a \<open>Gc\<close> that is then dropped, with the registration of its own handle dropped too.\<close>

lemma atomic_without_handle:
  assumes new: "gc_new (V_Plain 7) collector_new = (g, s1)"
  obtains h s2 where "atomic_gc_new g s1 = Inr (\<lparr>atomic_ptr = 0, atomic_handle = h\<rparr>, s2)"
    and "client_inv \<lparr>sys = drop_handle h (drop_handle (backing_handle g) s2), held = [], warrants = []\<rparr>"
    and "live_handles s2 = {item_v (backing_handle g), item_v h}"
    and "live_handles (drop_handle h (drop_handle (backing_handle g) s2)) = {}"
    and "dropper s2 = []" "number_room s2" "atomics s2 = [0]" "tracked s2 = {0}" "block_val s2 0 = V_Plain 7"
proof -
  let ?v = "V_Plain 7" and ?r = "backing_handle g"
  have may1: "client_may (New With_Drop ?v) client_new" by (simp add: at_most_one_panic_def)
  let ?one = "\<lparr>sys = s1, held = [?r], warrants = []\<rparr>"
  have run1: "client_run (New With_Drop ?v) client_new = Inr ?one"
    using new by (simp add: client_new_def gain_def take_refs_def)
  have re1: "client_reachable ?one" by (rule client_reachable.step [OF client_reachable.init may1 run1])
  note inv1 = client_reachable_inv [OF re1]
  have "new_gc With_Drop ?v (sys client_new) = (g, s1)" using new by (simp add: client_new_def)
  note gives = client_New_gives [OF client_inv_new may1 this]
  have gc: "is_gc ?one ?r" using gives(1) by (simp add: gain_def client_new_def take_refs_def)
  then have may2: "client_may (NewAtomic ?r) ?one" by simp
  obtain c2 where "client_run (NewAtomic ?r) ?one = Inr c2" using client_NewAtomic [OF inv1 may2] by blast
  then obtain a s2 where at: "atomic_gc_new g s1 = Inr (a, s2)"
    and run2: "client_run (NewAtomic ?r) ?one = Inr \<lparr>sys = s2, held = [atomic_handle a, ?r], warrants = []\<rparr>"
    using gives(2) by (auto simp: res_bind_eq_Inr)
  have re2: "client_reachable \<lparr>sys = s2, held = [atomic_handle a, ?r], warrants = []\<rparr>"
    by (rule client_reachable.step [OF re1 may2 run2])
  have g2: "gc_inv (pending s2) [atomic_handle a, ?r] [] s2"
    using client_gc_inv [OF client_reachable_inv [OF re2]] by simp
  note first = first_gc [OF new]
  have d: "ref_data ?r s1 = Inr 0" using is_gc_data(1) [OF gc] first(1,7) by simp
  let ?u = "s1\<lparr>atomics := atomics s1 @ [0]\<rparr>"
  obtain h where ins: "insert_handle (DynamicForAtomic 0) ?u = (h, s2)" and a: "a = \<lparr>atomic_ptr = 0, atomic_handle = h\<rparr>"
    using at d first(9)
    by (auto simp: atomic_gc_new_def assert_live_def new_handle_for_atomic_def res_bind_eq_Inr Let_def
        split: if_splits prod.splits)
  have "h \<noteq> ?r" using g2 by (auto simp: a gc_invx_def refs_ok_def refs_def)
  then have "client_run (DropRef ?r) \<lparr>sys = s2, held = [atomic_handle a, ?r], warrants = []\<rparr> =
      Inr \<lparr>sys = drop_handle ?r s2, held = [h], warrants = []\<rparr>" by (simp add: a gc_drop_def ptr_at_def)
  from client_reachable.step [OF re2 _ this]
  have re3: "client_reachable \<lparr>sys = drop_handle ?r s2, held = [h], warrants = []\<rparr>" by simp
  have "client_run (DropRef h) \<lparr>sys = drop_handle ?r s2, held = [h], warrants = []\<rparr> =
      Inr \<lparr>sys = drop_handle h (drop_handle ?r s2), held = [], warrants = []\<rparr>" by (simp add: gc_drop_def ptr_at_def)
  from client_reachable.step [OF re3 _ this]
  have inv4: "client_inv \<lparr>sys = drop_handle h (drop_handle ?r s2), held = [], warrants = []\<rparr>"
    by (intro client_reachable_inv) simp
  have hl: "cll_inv (handle_list ?u)" using client_gc_inv [OF inv1] by (simp add: gc_invx_def lists_ok_def)
  have live2: "live_handles s2 = {item_v ?r, item_v h}"
    using insert_handle_live(1) [OF hl ins] first(1,2) by (auto simp: live_handles_def)
  have "live_handles (drop_handle h (drop_handle ?r s2)) = {}"
    using drop_two_handles(2) [OF g2] live2 by (auto simp: a)
  with at inv4 live2 show thesis
    by (intro that [of h s2])
      (use first(3-6,9) insert_handle_frame [OF ins] in
        \<open>simp_all add: a tracked_def block_val_def addr_def number_room_def\<close>)
qed

text \<open>
  C35: Counterexample to the safety of \<open>AtomicGc::clone\<close>: make a \<open>Gc\<close> and an \<open>AtomicGc\<close> of it, clone the
  \<open>AtomicGc\<close>, drop the \<open>Gc\<close> and the clone, collect, and let the dropper finish. The \<open>AtomicGc\<close>
  that is left holds a pointer to a released \<open>GcData\<close>, and \<open>load\<close> reads it.
\<close>

theorem atomic_clone_dangles:
  "\<exists>g s1 a s2 s3 s4. gc_new (V_Plain 7) collector_new = (g, s1) \<and> atomic_gc_new g s1 = Inr (a, s2) \<and>
     collect (atomic_gc_drop (atomic_gc_clone a) (gc_drop g s2)) = Inr s3 \<and>
     synchronize_destructors s3 = Inr s4 \<and> atomic_load a s4 = Inl Undefined"
proof -
  obtain g s1 where new: "gc_new (V_Plain 7) collector_new = (g, s1)" by (cases "gc_new (V_Plain 7) collector_new")
  obtain h s2 where at: "atomic_gc_new g s1 = Inr (\<lparr>atomic_ptr = 0, atomic_handle = h\<rparr>, s2)"
    and inv: "client_inv \<lparr>sys = drop_handle h (drop_handle (backing_handle g) s2), held = [], warrants = []\<rparr>"
    and live: "live_handles (drop_handle h (drop_handle (backing_handle g) s2)) = {}"
    and s2: "dropper s2 = []" "number_room s2" "atomics s2 = [0]" "tracked s2 = {0}" "block_val s2 0 = V_Plain 7"
    by (rule atomic_without_handle [OF new])
  obtain s3 s4 where "collect (drop_handle h (drop_handle (backing_handle g) s2)) = Inr s3"
    "synchronize_destructors s3 = Inr s4" "atomic_load \<lparr>atomic_ptr = 0, atomic_handle = h\<rparr> s4 = Inl Undefined"
    using unregistered_atomic_dangles [OF inv live, of h] s2
    by (auto simp: drop_handle_def tracked_def block_val_def addr_def number_room_def)
  with new at show ?thesis by (auto simp: atomic_gc_drop_def atomic_gc_clone_def gc_drop_def)
qed

end
