(* ===== verification/Atomic_Ordering.thy ===== *)
theory Atomic_Ordering
  imports Client_Safety
begin

text \<open>
  The memory orderings that the operations of \<open>AtomicGc\<close> (\<open>src/atomic.rs\<close>) hand to the pointer in the
  cell. Some orderings make no sense for an access, and the standard library panics on them; the
  panic comes while the collection blocker is held, which unwinding gives back. So here an operation
  is the pair of its result and the state it leaves, also when it fails.

  The compare operations have been relaxed over time: since 1.64 the failure ordering may be
  stronger than the success ordering. \<open>strict\<close> tells whether the standard library is an older one.
\<close>

datatype ordering = Relaxed | Release | Acquire | AcqRel | SeqCst

fun load_ordering :: "ordering \<Rightarrow> bool" where
  "load_ordering Release = False"
| "load_ordering AcqRel = False"
| "load_ordering _ = True"

fun store_ordering :: "ordering \<Rightarrow> bool" where
  "store_ordering Acquire = False"
| "store_ordering AcqRel = False"
| "store_ordering _ = True"

fun as_strong :: "ordering \<Rightarrow> ordering \<Rightarrow> bool" where
  "as_strong success Relaxed = True"
| "as_strong success Acquire = (success \<in> {Acquire, AcqRel, SeqCst})"
| "as_strong success SeqCst = (success = SeqCst)"
| "as_strong success _ = False"

definition exchange_orderings :: "bool \<Rightarrow> ordering \<Rightarrow> ordering \<Rightarrow> bool" where
  "exchange_orderings strict success failure \<longleftrightarrow> load_ordering failure \<and> (strict \<longrightarrow> as_strong success failure)"

fun strongest_failure_ordering :: "ordering \<Rightarrow> ordering" where
  "strongest_failure_ordering Release = Relaxed"
| "strongest_failure_ordering Relaxed = Relaxed"
| "strongest_failure_ordering SeqCst = SeqCst"
| "strongest_failure_ordering Acquire = Acquire"
| "strongest_failure_ordering AcqRel = Acquire"

text \<open>A step that fails leaves the state as it was before the step.\<close>

definition and_then :: "'a result \<Rightarrow> gc_state \<Rightarrow> ('a \<Rightarrow> 'b result \<times> gc_state) \<Rightarrow> 'b result \<times> gc_state" where
  "and_then r s f = (case r of Inl e \<Rightarrow> (Inl e, s) | Inr a \<Rightarrow> f a)"

lemma and_then_simps [simp]: "and_then (Inl e) s f = (Inl e, s)" "and_then (Inr a) s f = f a"
  by (simp_all add: and_then_def)

definition load_at :: "ordering \<Rightarrow> atomic_gc \<Rightarrow> gc_state \<Rightarrow> gc_ptr result \<times> gc_state" where
  "load_at ord a s =
     and_then (block_collection s) s (\<lambda>s1.
     if load_ordering ord
     then and_then (arc_from_raw (atomics s1 ! atomic_ptr a) s1) (unblock_collection s1) (\<lambda>d.
            let (g, s2) = gc_from_arc d s1 in (Inr g, s2))
     else (Inl Panic, unblock_collection s1))"

definition store_at :: "ordering \<Rightarrow> atomic_gc \<Rightarrow> gc_ptr \<Rightarrow> gc_state \<Rightarrow> unit result \<times> gc_state" where
  "store_at ord a v s =
     and_then (assert_live v s) s (\<lambda>_.
     and_then (ref_data (backing_handle v) s) s (\<lambda>raw_data_ptr.
     and_then (block_collection s) s (\<lambda>s1.
     if store_ordering ord
     then (Inr (), unblock_collection (s1\<lparr>atomics := (atomics s1)[atomic_ptr a := raw_data_ptr]\<rparr>))
     else (Inl Panic, unblock_collection s1))))"

text \<open>A swap takes any ordering.\<close>

definition swap_at :: "ordering \<Rightarrow> atomic_gc \<Rightarrow> gc_ptr \<Rightarrow> gc_state \<Rightarrow> gc_ptr result \<times> gc_state" where
  "swap_at ord a v s =
     and_then (assert_live v s) s (\<lambda>_.
     and_then (ref_data (backing_handle v) s) s (\<lambda>raw_data_ptr.
     and_then (block_collection s) s (\<lambda>s1.
     let old_data_ptr = atomics s1 ! atomic_ptr a;
         s2 = s1\<lparr>atomics := (atomics s1)[atomic_ptr a := raw_data_ptr]\<rparr>
     in and_then (arc_from_raw old_data_ptr s2) (unblock_collection s2) (\<lambda>d.
          let (g, s3) = gc_from_arc d s2 in (Inr g, s3)))))"

definition compare_exchange_at ::
    "bool \<Rightarrow> ordering \<Rightarrow> ordering \<Rightarrow> atomic_gc \<Rightarrow> gc_ptr \<Rightarrow> gc_ptr \<Rightarrow> gc_state \<Rightarrow> bool result \<times> gc_state" where
  "compare_exchange_at strict success failure a current new s =
     and_then (assert_live new s) s (\<lambda>_.
     and_then (ref_data (backing_handle current) s) s (\<lambda>guess_data_raw.
     and_then (ref_data (backing_handle new) s) s (\<lambda>new_data_raw.
     and_then (block_collection s) s (\<lambda>s1.
     if exchange_orderings strict success failure
     then let (swap_result, c) = compare_exchange (atomics s1 ! atomic_ptr a) guess_data_raw new_data_raw
          in (Inr (is_ok swap_result), unblock_collection (s1\<lparr>atomics := (atomics s1)[atomic_ptr a := c]\<rparr>))
     else (Inl Panic, unblock_collection s1)))))"

text \<open>The deprecated operation picks the failure ordering itself and returns what it found.\<close>

definition compare_and_swap_at ::
    "bool \<Rightarrow> ordering \<Rightarrow> atomic_gc \<Rightarrow> gc_ptr \<Rightarrow> gc_ptr \<Rightarrow> gc_state \<Rightarrow> bool result \<times> gc_state" where
  "compare_and_swap_at strict ord a current new s =
     and_then (assert_live new s) s (\<lambda>_.
     and_then (ref_data (backing_handle current) s) s (\<lambda>guess_data_raw.
     and_then (ref_data (backing_handle new) s) s (\<lambda>new_data_raw.
     and_then (block_collection s) s (\<lambda>s1.
     if exchange_orderings strict ord (strongest_failure_ordering ord)
     then let (res, c) = compare_exchange (atomics s1 ! atomic_ptr a) guess_data_raw new_data_raw;
              compare_res = (case res of Inl x \<Rightarrow> x | Inr x \<Rightarrow> x)
          in (Inr (compare_res = guess_data_raw), unblock_collection (s1\<lparr>atomics := (atomics s1)[atomic_ptr a := c]\<rparr>))
     else (Inl Panic, unblock_collection s1)))))"

subsection \<open>Panics are clean\<close>

lemma unblock_blocked:
  "tracker (atomic_spinlock s) = 0 \<Longrightarrow> unblock_collection (s\<lparr>atomic_spinlock := \<lparr>tracker = 1\<rparr>\<rparr>) = s"
  using unblock_idle [of s] by (simp add: unblock_collection_def)

lemma strongest_failure_fits: "exchange_orderings strict ord (strongest_failure_ordering ord)"
  by (cases ord) (simp_all add: exchange_orderings_def)

lemma compare_ops_agree:
  "compare_and_swap_at strict ord a current new s =
     compare_exchange_at strict ord (strongest_failure_ordering ord) a current new s"
  by (cases "assert_live new s"; cases "ref_data (backing_handle current) s";
      cases "ref_data (backing_handle new) s"; cases "block_collection s")
    (auto simp: compare_and_swap_at_def compare_exchange_at_def compare_exchange_def)

text \<open>
  C36: An \<open>AtomicGc\<close> operation with an ordering that the access does not take panics, and leaves the
  collector exactly as it was: the collection blocker has been given back, so collections go on.
  With an ordering that it takes, or that \<open>compare_and_swap\<close> picks for itself, the operation is the one
  without an ordering, and the two compare operations are one.
\<close>

theorem atomic_orderings_panic_cleanly:
  assumes "tracker (atomic_spinlock s) = 0"
  shows "(\<not> load_ordering ord \<longrightarrow> load_at ord a s = (Inl Panic, s)) \<and>
    (\<not> store_ordering ord \<longrightarrow> assert_live v s = Inr () \<longrightarrow> store_at ord a v s = (Inl Panic, s)) \<and>
    (\<not> exchange_orderings strict ord failure \<longrightarrow> assert_live v s = Inr () \<longrightarrow> ref_data (backing_handle cur) s = Inr d \<longrightarrow>
       compare_exchange_at strict ord failure a cur v s = (Inl Panic, s)) \<and>
    (load_ordering ord \<longrightarrow> atomic_load a s = Inr (g, s') \<longrightarrow> load_at ord a s = (Inr g, s')) \<and>
    (store_ordering ord \<longrightarrow> atomic_store a v s = Inr s' \<longrightarrow> store_at ord a v s = (Inr (), s')) \<and>
    (atomic_swap a v s = Inr (g, s') \<longrightarrow> swap_at ord a v s = (Inr g, s')) \<and>
    (exchange_orderings strict ord failure \<longrightarrow> atomic_compare_exchange a cur v s = Inr (b, s') \<longrightarrow>
       compare_exchange_at strict ord failure a cur v s = (Inr b, s')) \<and>
    (atomic_compare_and_swap a cur v s = Inr (b, s') \<longrightarrow> compare_and_swap_at strict ord a cur v s = (Inr b, s')) \<and>
    compare_and_swap_at strict ord a cur v s =
      compare_exchange_at strict ord (strongest_failure_ordering ord) a cur v s"
proof (intro conjI impI)
  note block = block_collection_idle [OF assms] and unblock = unblock_blocked [OF assms]
  have live: "\<exists>d. ref_data (backing_handle v) s = Inr d" if "assert_live v s = Inr ()"
    using that by (auto simp: assert_live_def res_bind_eq_Inr split: if_splits)
  show "load_at ord a s = (Inl Panic, s)" if "\<not> load_ordering ord"
    using that by (simp add: load_at_def block unblock)
  show "store_at ord a v s = (Inl Panic, s)" if "\<not> store_ordering ord" "assert_live v s = Inr ()"
    using that live by (auto simp: store_at_def block unblock)
  show "compare_exchange_at strict ord failure a cur v s = (Inl Panic, s)"
    if "\<not> exchange_orderings strict ord failure" "assert_live v s = Inr ()" "ref_data (backing_handle cur) s = Inr d"
    using that live by (auto simp: compare_exchange_at_def block unblock)
  show "load_at ord a s = (Inr g, s')" if "load_ordering ord" "atomic_load a s = Inr (g, s')"
    using that by (auto simp: load_at_def atomic_load_def block res_bind_eq_Inr)
  show "store_at ord a v s = (Inr (), s')" if "store_ordering ord" "atomic_store a v s = Inr s'"
    using that by (auto simp: store_at_def atomic_store_def block res_bind_eq_Inr)
  show "swap_at ord a v s = (Inr g, s')" if "atomic_swap a v s = Inr (g, s')"
    using that by (auto simp: swap_at_def atomic_swap_def block res_bind_eq_Inr Let_def)
  have ce: "compare_exchange_at strict ord f a cur v s = (Inr b, s')"
    if "exchange_orderings strict ord f" "atomic_compare_exchange a cur v s = Inr (b, s')" for f
    using that by (auto simp: compare_exchange_at_def atomic_compare_exchange_def block res_bind_eq_Inr
        compare_exchange_def split: if_splits)
  show "compare_exchange_at strict ord failure a cur v s = (Inr b, s')"
    if "exchange_orderings strict ord failure" "atomic_compare_exchange a cur v s = Inr (b, s')"
    using that by (rule ce)
  show agree: "compare_and_swap_at strict ord a cur v s =
      compare_exchange_at strict ord (strongest_failure_ordering ord) a cur v s"
    by (rule compare_ops_agree)
  show "compare_and_swap_at strict ord a cur v s = (Inr b, s')" if "atomic_compare_and_swap a cur v s = Inr (b, s')"
    unfolding agree using that by (intro ce strongest_failure_fits) (simp add: atomic_compare_agree)
qed

theorem atomic_orderings_panic_cleanly_witness:
  "\<exists>c r. client_reachable c \<and> is_gc c r \<and>
     store_at AcqRel \<lparr>atomic_ptr = 0, atomic_handle = r\<rparr> (ptr_at (sys c) r) (sys c) = (Inl Panic, sys c) \<and>
     compare_exchange_at False SeqCst Release \<lparr>atomic_ptr = 0, atomic_handle = r\<rparr> (ptr_at (sys c) r) (ptr_at (sys c) r)
       (sys c) = (Inl Panic, sys c)"
proof -
  obtain g s where "gc_new (V_Plain 7) collector_new = (g, s)"
    and re: "client_reachable \<lparr>sys = s, held = [backing_handle g], warrants = []\<rparr>" (is "client_reachable ?c")
    and gc: "is_gc \<lparr>sys = s, held = [backing_handle g], warrants = []\<rparr> (backing_handle g)"
    by (rule first_pointer [of "V_Plain 7"]) (simp_all add: at_most_one_panic_def)
  let ?r = "backing_handle g" and ?p = "ptr_at s (backing_handle g)"
  have inv: "client_inv ?c" by (rule client_reachable_inv [OF re])
  have idle: "tracker (atomic_spinlock s) = 0" using inv by (simp add: client_inv_def idle_def)
  have live: "assert_live ?p s = Inr ()" using assert_live_visible [OF inv gc] by simp
  have data: "ref_data (backing_handle ?p) s = Inr (target s (item_v ?r))" using is_gc_data(1) [OF gc] by (simp add: ptr_at_def)
  have "store_at AcqRel \<lparr>atomic_ptr = 0, atomic_handle = ?r\<rparr> ?p s = (Inl Panic, s)"
    "compare_exchange_at False SeqCst Release \<lparr>atomic_ptr = 0, atomic_handle = ?r\<rparr> ?p ?p s = (Inl Panic, s)"
    using atomic_orderings_panic_cleanly [OF idle, where v = ?p and cur = ?p and ord = AcqRel and a = "\<lparr>atomic_ptr = 0, atomic_handle = ?r\<rparr>"]
      atomic_orderings_panic_cleanly [OF idle, where v = ?p and cur = ?p and ord = SeqCst and strict = False and failure = Release and a = "\<lparr>atomic_ptr = 0, atomic_handle = ?r\<rparr>"]
      live data by (simp_all add: exchange_orderings_def)
  with re gc show ?thesis by (intro exI [of _ ?c] exI [of _ ?r]) simp
qed

end
