(* ===== verification/Wrappers.thy ===== *)
theory Wrappers
  imports Gc_Ptr
begin

text \<open>
  Access to a \<open>Gc\<close> of a \<open>RefCell\<close>, \<open>Mutex\<close> or \<open>RwLock\<close> (\<open>src/wrappers.rs\<close>, and the special
  methods of \<open>Gc\<close> at the end of \<open>src/smart_ptr/gc.rs\<close>). Each of the wrapper types is a pair of
  the \<open>GcGuard\<close> of the data and the standard library's guard of its content; the latter is
  dropped first. The state of the cell or lock is part of the value in the heap.

  \<open>panicking\<close> is what \<open>std::thread::panicking()\<close> says where a lock is taken or released.
\<close>

subsection \<open>The standard library's cells and locks\<close>

datatype inner_guard = Ref | RefMut | MutexGuard bool | ReadGuard | WriteGuard bool

datatype 'g try_lock_error = TL_Poisoned 'g | TL_WouldBlock

fun std_try_borrow :: "val \<Rightarrow> (inner_guard option \<times> val) result" where
  "std_try_borrow (V_RefCell (Readers n) v) = Inr (Some Ref, V_RefCell (Readers (Suc n)) v)"
| "std_try_borrow (V_RefCell Writer v) = Inr (None, V_RefCell Writer v)"
| "std_try_borrow _ = Inl Undefined"

fun std_try_borrow_mut :: "val \<Rightarrow> (inner_guard option \<times> val) result" where
  "std_try_borrow_mut (V_RefCell use v) =
     Inr (if use = Readers 0 then (Some RefMut, V_RefCell Writer v) else (None, V_RefCell use v))"
| "std_try_borrow_mut _ = Inl Undefined"

fun std_try_lock :: "bool \<Rightarrow> val \<Rightarrow> ((inner_guard try_lock_error + inner_guard) \<times> val) result" where
  "std_try_lock panicking (V_Mutex locked poisoned v) =
     Inr (case mutex_try_lock locked poisoned of
            Try_Ok \<Rightarrow> (Inr (MutexGuard panicking), V_Mutex True poisoned v)
          | Try_Poisoned \<Rightarrow> (Inl (TL_Poisoned (MutexGuard panicking)), V_Mutex True poisoned v)
          | Try_WouldBlock \<Rightarrow> (Inl TL_WouldBlock, V_Mutex locked poisoned v))"
| "std_try_lock panicking _ = Inl Undefined"

fun std_try_read :: "val \<Rightarrow> ((inner_guard try_lock_error + inner_guard) \<times> val) result" where
  "std_try_read (V_RwLock (Readers n) poisoned v) =
     Inr (if poisoned then Inl (TL_Poisoned ReadGuard) else Inr ReadGuard, V_RwLock (Readers (Suc n)) poisoned v)"
| "std_try_read (V_RwLock Writer poisoned v) = Inr (Inl TL_WouldBlock, V_RwLock Writer poisoned v)"
| "std_try_read _ = Inl Undefined"

fun std_try_write :: "bool \<Rightarrow> val \<Rightarrow> ((inner_guard try_lock_error + inner_guard) \<times> val) result" where
  "std_try_write panicking (V_RwLock use poisoned v) =
     Inr (if use = Readers 0
          then (if poisoned then Inl (TL_Poisoned (WriteGuard panicking)) else Inr (WriteGuard panicking),
                V_RwLock Writer poisoned v)
          else (Inl TL_WouldBlock, V_RwLock use poisoned v))"
| "std_try_write panicking _ = Inl Undefined"

text \<open>\<open>borrow\<close> panics where \<open>try_borrow\<close> gives an error; \<open>lock\<close>, \<open>read\<close> and \<open>write\<close> wait.\<close>

definition or_panic :: "(val \<Rightarrow> (inner_guard option \<times> val) result) \<Rightarrow> val \<Rightarrow> (inner_guard \<times> val) result" where
  "or_panic op v = res_bind (op v) (\<lambda>(r, v'). case r of Some i \<Rightarrow> Inr (i, v') | None \<Rightarrow> Inl Panic)"

definition or_wait ::
    "(val \<Rightarrow> ((inner_guard try_lock_error + inner_guard) \<times> val) result) \<Rightarrow>
     val \<Rightarrow> ((inner_guard + inner_guard) \<times> val) result" where
  "or_wait op v =
     res_bind (op v) (\<lambda>(r, v'). case r of
         Inr i \<Rightarrow> Inr (Inr i, v')
       | Inl (TL_Poisoned i) \<Rightarrow> Inr (Inl i, v')
       | Inl TL_WouldBlock \<Rightarrow> Inl Blocked)"

text \<open>What dropping a guard does to the cell or lock. A panic under a write guard poisons the lock.\<close>

fun unread :: "usage \<Rightarrow> usage result" where
  "unread (Readers n) = (if 0 < n then Inr (Readers (n - 1)) else Inl Undefined)"
| "unread Writer = Inl Undefined"

fun release :: "bool \<Rightarrow> inner_guard \<Rightarrow> val \<Rightarrow> val result" where
  "release panicking Ref x =
     (case x of V_RefCell use v \<Rightarrow> res_bind (unread use) (\<lambda>use'. Inr (V_RefCell use' v)) | _ \<Rightarrow> Inl Undefined)"
| "release panicking RefMut x =
     (case x of V_RefCell use v \<Rightarrow> if use = Writer then Inr (V_RefCell (Readers 0) v) else Inl Undefined
      | _ \<Rightarrow> Inl Undefined)"
| "release panicking (MutexGuard before) x =
     (case x of V_Mutex locked poisoned v \<Rightarrow>
        if locked then Inr (V_Mutex False (poisoned \<or> panicking \<and> \<not> before) v) else Inl Undefined
      | _ \<Rightarrow> Inl Undefined)"
| "release panicking ReadGuard x =
     (case x of V_RwLock use poisoned v \<Rightarrow> res_bind (unread use) (\<lambda>use'. Inr (V_RwLock use' poisoned v))
      | _ \<Rightarrow> Inl Undefined)"
| "release panicking (WriteGuard before) x =
     (case x of V_RwLock use poisoned v \<Rightarrow>
        if use = Writer then Inr (V_RwLock (Readers 0) (poisoned \<or> panicking \<and> \<not> before) v)
        else Inl Undefined
      | _ \<Rightarrow> Inl Undefined)"

fun content :: "val \<Rightarrow> val result" where
  "content (V_RefCell use v) = Inr v"
| "content (V_Mutex locked poisoned v) = Inr v"
| "content (V_RwLock use poisoned v) = Inr v"
| "content _ = Inl Undefined"

fun set_content :: "val \<Rightarrow> val \<Rightarrow> val result" where
  "set_content w (V_RefCell use v) = Inr (V_RefCell use w)"
| "set_content w (V_Mutex locked poisoned v) = Inr (V_Mutex locked poisoned w)"
| "set_content w (V_RwLock use poisoned v) = Inr (V_RwLock use poisoned w)"
| "set_content w _ = Inl Undefined"

subsection \<open>The wrapper types\<close>

record gc_wrapper =
  wrapper_guard :: gc_guard
  cell_ref :: inner_guard

datatype borrow_error = BorrowError

datatype 'g gc_poison_error = GcPoisonError (into_inner: 'g)

datatype 'g gc_try_lock_error = Poisoned "'g gc_poison_error" | WouldBlock

text \<open>A method called on the value behind a guard.\<close>

definition on_value :: "gc_guard \<Rightarrow> (val \<Rightarrow> ('a \<times> val) result) \<Rightarrow> gc_state \<Rightarrow> ('a \<times> gc_state) result" where
  "on_value g f s =
     res_bind (guard_deref g s) (\<lambda>v. res_bind (f v) (\<lambda>(a, v').
       Inr (a, s\<lparr>gc_heap := (gc_heap s)[direct_ptr (gc_ptr g) := Init v']\<rparr>)))"

definition ref_borrow :: "gc_guard \<Rightarrow> gc_state \<Rightarrow> (gc_wrapper \<times> gc_state) result" where
  "ref_borrow g s =
     res_bind (on_value g (or_panic std_try_borrow) s) (\<lambda>(i, s1).
       Inr (\<lparr>wrapper_guard = g, cell_ref = i\<rparr>, s1))"

definition ref_mut_borrow_mut :: "gc_guard \<Rightarrow> gc_state \<Rightarrow> (gc_wrapper \<times> gc_state) result" where
  "ref_mut_borrow_mut g s =
     res_bind (on_value g (or_panic std_try_borrow_mut) s) (\<lambda>(i, s1).
       Inr (\<lparr>wrapper_guard = g, cell_ref = i\<rparr>, s1))"

text \<open>An error comes with the guard that was moved in; the closure passed to \<open>map_err\<close> drops it.\<close>

definition ref_try_borrow :: "gc_guard \<Rightarrow> gc_state \<Rightarrow> ((borrow_error + gc_wrapper) \<times> gc_state) result" where
  "ref_try_borrow g s =
     res_bind (on_value g std_try_borrow s) (\<lambda>(r, s1). case r of
         None \<Rightarrow> res_bind (drop_guard g s1) (\<lambda>s2. Inr (Inl BorrowError, s2))
       | Some i \<Rightarrow> Inr (Inr \<lparr>wrapper_guard = g, cell_ref = i\<rparr>, s1))"

definition ref_mut_try_borrow_mut ::
    "gc_guard \<Rightarrow> gc_state \<Rightarrow> ((borrow_error + gc_wrapper) \<times> gc_state) result" where
  "ref_mut_try_borrow_mut g s =
     res_bind (on_value g std_try_borrow_mut s) (\<lambda>(r, s1). case r of
         None \<Rightarrow> res_bind (drop_guard g s1) (\<lambda>s2. Inr (Inl BorrowError, s2))
       | Some i \<Rightarrow> Inr (Inr \<lparr>wrapper_guard = g, cell_ref = i\<rparr>, s1))"

text \<open>
  The closures of the lock types: they note whether the lock was poisoned and go on with the guard
  in either case.
\<close>

fun note_poison :: "inner_guard + inner_guard \<Rightarrow> bool \<times> inner_guard" where
  "note_poison (Inr v) = (False, v)"
| "note_poison (Inl e) = (True, e)"

fun note_try_poison ::
    "inner_guard try_lock_error + inner_guard \<Rightarrow> gc_wrapper gc_try_lock_error + (bool \<times> inner_guard)" where
  "note_try_poison (Inr g) = Inr (False, g)"
| "note_try_poison (Inl (TL_Poisoned e)) = Inr (True, e)"
| "note_try_poison (Inl TL_WouldBlock) = Inl WouldBlock"

type_synonym lock_op = "gc_state \<Rightarrow> ((gc_wrapper gc_poison_error + gc_wrapper) \<times> gc_state) result"
type_synonym try_lock_op = "gc_state \<Rightarrow> ((gc_wrapper gc_try_lock_error + gc_wrapper) \<times> gc_state) result"

definition wrap_lock :: "(val \<Rightarrow> ((inner_guard + inner_guard) \<times> val) result) \<Rightarrow> gc_guard \<Rightarrow> lock_op" where
  "wrap_lock lock g s =
     res_bind (on_value g lock s) (\<lambda>(r, s1).
       let (was_poisoned, i) = note_poison r;
           guard = \<lparr>wrapper_guard = g, cell_ref = i\<rparr>
       in Inr (if was_poisoned then Inl (GcPoisonError guard) else Inr guard, s1))"

definition wrap_try_lock ::
    "(val \<Rightarrow> ((inner_guard try_lock_error + inner_guard) \<times> val) result) \<Rightarrow> gc_guard \<Rightarrow> try_lock_op" where
  "wrap_try_lock try_lock g s =
     res_bind (on_value g try_lock s) (\<lambda>(r, s1). case note_try_poison r of
         Inl e \<Rightarrow> res_bind (drop_guard g s1) (\<lambda>s2. Inr (Inl e, s2))
       | Inr (was_poisoned, i) \<Rightarrow>
           let guard = \<lparr>wrapper_guard = g, cell_ref = i\<rparr>
           in Inr (if was_poisoned then Inl (Poisoned (GcPoisonError guard)) else Inr guard, s1))"

definition mutex_guard_lock :: "bool \<Rightarrow> gc_guard \<Rightarrow> lock_op" where
  "mutex_guard_lock panicking = wrap_lock (or_wait (std_try_lock panicking))"

definition mutex_guard_try_lock :: "bool \<Rightarrow> gc_guard \<Rightarrow> try_lock_op" where
  "mutex_guard_try_lock panicking = wrap_try_lock (std_try_lock panicking)"

definition read_guard_read :: "gc_guard \<Rightarrow> lock_op" where
  "read_guard_read = wrap_lock (or_wait std_try_read)"

definition read_guard_try_read :: "gc_guard \<Rightarrow> try_lock_op" where
  "read_guard_try_read = wrap_try_lock std_try_read"

definition write_guard_write :: "bool \<Rightarrow> gc_guard \<Rightarrow> lock_op" where
  "write_guard_write panicking = wrap_lock (or_wait (std_try_write panicking))"

definition write_guard_try_write :: "bool \<Rightarrow> gc_guard \<Rightarrow> try_lock_op" where
  "write_guard_try_write panicking = wrap_try_lock (std_try_write panicking)"

text \<open>The \<open>Deref\<close> and \<open>DerefMut\<close> implementations, and the drop of a wrapper.\<close>

definition wrapper_deref :: "gc_wrapper \<Rightarrow> gc_state \<Rightarrow> val result" where
  "wrapper_deref w s = res_bind (guard_deref (wrapper_guard w) s) content"

definition wrapper_deref_mut :: "gc_wrapper \<Rightarrow> val \<Rightarrow> gc_state \<Rightarrow> gc_state result" where
  "wrapper_deref_mut w new s =
     res_bind (on_value (wrapper_guard w) (\<lambda>v. res_bind (set_content new v) (\<lambda>v'. Inr ((), v'))) s)
       (\<lambda>(u, s1). Inr s1)"

definition drop_wrapper :: "bool \<Rightarrow> gc_wrapper \<Rightarrow> gc_state \<Rightarrow> gc_state result" where
  "drop_wrapper panicking w s =
     res_bind (on_value (wrapper_guard w) (\<lambda>v. res_bind (release panicking (cell_ref w) v) (\<lambda>v'. Inr ((), v'))) s)
       (\<lambda>(u, s1). drop_guard (wrapper_guard w) s1)"

subsection \<open>The special methods of \<open>Gc\<close>\<close>

definition gc_borrow :: "gc_ptr \<Rightarrow> gc_state \<Rightarrow> (gc_wrapper \<times> gc_state) result" where
  "gc_borrow p s = res_bind (gc_get p s) (\<lambda>(g, s1). ref_borrow g s1)"

definition gc_try_borrow :: "gc_ptr \<Rightarrow> gc_state \<Rightarrow> ((borrow_error + gc_wrapper) \<times> gc_state) result" where
  "gc_try_borrow p s = res_bind (gc_get p s) (\<lambda>(g, s1). ref_try_borrow g s1)"

definition gc_borrow_mut :: "gc_ptr \<Rightarrow> gc_state \<Rightarrow> (gc_wrapper \<times> gc_state) result" where
  "gc_borrow_mut p s = res_bind (gc_get p s) (\<lambda>(g, s1). ref_mut_borrow_mut g s1)"

definition gc_try_borrow_mut :: "gc_ptr \<Rightarrow> gc_state \<Rightarrow> ((borrow_error + gc_wrapper) \<times> gc_state) result" where
  "gc_try_borrow_mut p s = res_bind (gc_get p s) (\<lambda>(g, s1). ref_mut_try_borrow_mut g s1)"

definition gc_lock_mutex :: "bool \<Rightarrow> gc_ptr \<Rightarrow> lock_op" where
  "gc_lock_mutex panicking p s = res_bind (gc_get p s) (\<lambda>(g, s1). mutex_guard_lock panicking g s1)"

definition gc_try_lock :: "bool \<Rightarrow> gc_ptr \<Rightarrow> try_lock_op" where
  "gc_try_lock panicking p s = res_bind (gc_get p s) (\<lambda>(g, s1). mutex_guard_try_lock panicking g s1)"

definition gc_read :: "gc_ptr \<Rightarrow> lock_op" where
  "gc_read p s = res_bind (gc_get p s) (\<lambda>(g, s1). read_guard_read g s1)"

definition gc_write :: "bool \<Rightarrow> gc_ptr \<Rightarrow> lock_op" where
  "gc_write panicking p s = res_bind (gc_get p s) (\<lambda>(g, s1). write_guard_write panicking g s1)"

definition gc_try_read :: "gc_ptr \<Rightarrow> try_lock_op" where
  "gc_try_read p s = res_bind (gc_get p s) (\<lambda>(g, s1). read_guard_try_read g s1)"

definition gc_try_write :: "bool \<Rightarrow> gc_ptr \<Rightarrow> try_lock_op" where
  "gc_try_write panicking p s = res_bind (gc_get p s) (\<lambda>(g, s1). write_guard_try_write panicking g s1)"

text \<open>The wrapper in a result, \<open>into_inner\<close> taking it out of a poison error.\<close>

fun borrow_guard :: "borrow_error + gc_wrapper \<Rightarrow> gc_wrapper option" where
  "borrow_guard (Inr w) = Some w"
| "borrow_guard (Inl BorrowError) = None"

fun lock_guard :: "gc_wrapper gc_poison_error + gc_wrapper \<Rightarrow> gc_wrapper option" where
  "lock_guard (Inr w) = Some w"
| "lock_guard (Inl e) = Some (into_inner e)"

fun try_lock_guard :: "gc_wrapper gc_try_lock_error + gc_wrapper \<Rightarrow> gc_wrapper option" where
  "try_lock_guard (Inr w) = Some w"
| "try_lock_guard (Inl (Poisoned e)) = Some (into_inner e)"
| "try_lock_guard (Inl WouldBlock) = None"

text \<open>The ten special methods.\<close>

datatype access =
    Borrow | Try_Borrow | Borrow_Mut | Try_Borrow_Mut
  | Lock bool | Try_Lock bool | Read | Try_Read | Write bool | Try_Write bool

definition map_fst :: "('r \<Rightarrow> 'q) \<Rightarrow> ('r \<times> 's) result \<Rightarrow> ('q \<times> 's) result" where
  "map_fst h x = res_bind x (\<lambda>(r, s). Inr (h r, s))"

lemma map_fst_simps [simp]:
  "map_fst h (Inl e) = Inl e"
  "map_fst h (Inr (r, s)) = Inr (h r, s)"
  by (simp_all add: map_fst_def)

fun acquire :: "access \<Rightarrow> gc_ptr \<Rightarrow> gc_state \<Rightarrow> (gc_wrapper option \<times> gc_state) result" where
  "acquire Borrow p s = map_fst Some (gc_borrow p s)"
| "acquire Try_Borrow p s = map_fst borrow_guard (gc_try_borrow p s)"
| "acquire Borrow_Mut p s = map_fst Some (gc_borrow_mut p s)"
| "acquire Try_Borrow_Mut p s = map_fst borrow_guard (gc_try_borrow_mut p s)"
| "acquire (Lock b) p s = map_fst lock_guard (gc_lock_mutex b p s)"
| "acquire (Try_Lock b) p s = map_fst try_lock_guard (gc_try_lock b p s)"
| "acquire Read p s = map_fst lock_guard (gc_read p s)"
| "acquire Try_Read p s = map_fst try_lock_guard (gc_try_read p s)"
| "acquire (Write b) p s = map_fst lock_guard (gc_write b p s)"
| "acquire (Try_Write b) p s = map_fst try_lock_guard (gc_try_write b p s)"

subsection \<open>One method on the content\<close>

text \<open>
  All ten have one shape: a method of the content that says in its result whether it gives a guard.
\<close>

definition grab :: "(val \<Rightarrow> (inner_guard option \<times> val) result) \<Rightarrow> gc_guard \<Rightarrow> gc_state \<Rightarrow>
    (gc_wrapper option \<times> gc_state) result" where
  "grab f g s =
     res_bind (on_value g f s) (\<lambda>(r, s1). case r of
         None \<Rightarrow> res_bind (drop_guard g s1) (\<lambda>s2. Inr (None, s2))
       | Some i \<Rightarrow> Inr (Some \<lparr>wrapper_guard = g, cell_ref = i\<rparr>, s1))"

fun either_guard :: "inner_guard + inner_guard \<Rightarrow> inner_guard option" where
  "either_guard (Inr i) = Some i"
| "either_guard (Inl i) = Some i"

fun unless_blocked :: "inner_guard try_lock_error + inner_guard \<Rightarrow> inner_guard option" where
  "unless_blocked (Inr i) = Some i"
| "unless_blocked (Inl (TL_Poisoned i)) = Some i"
| "unless_blocked (Inl TL_WouldBlock) = None"

fun content_method :: "access \<Rightarrow> val \<Rightarrow> (inner_guard option \<times> val) result" where
  "content_method Borrow v = map_fst Some (or_panic std_try_borrow v)"
| "content_method Try_Borrow v = std_try_borrow v"
| "content_method Borrow_Mut v = map_fst Some (or_panic std_try_borrow_mut v)"
| "content_method Try_Borrow_Mut v = std_try_borrow_mut v"
| "content_method (Lock b) v = map_fst either_guard (or_wait (std_try_lock b) v)"
| "content_method (Try_Lock b) v = map_fst unless_blocked (std_try_lock b v)"
| "content_method Read v = map_fst either_guard (or_wait std_try_read v)"
| "content_method Try_Read v = map_fst unless_blocked (std_try_read v)"
| "content_method (Write b) v = map_fst either_guard (or_wait (std_try_write b) v)"
| "content_method (Try_Write b) v = map_fst unless_blocked (std_try_write b v)"

lemma map_fst_bind: "map_fst f (res_bind x h) = res_bind x (\<lambda>y. map_fst f (h y))"
  by (cases x) simp_all

lemma on_value_map: "on_value g (\<lambda>v. map_fst h (f v)) s = map_fst h (on_value g f s)"
  by (auto simp: on_value_def map_fst_def res_bind_def split: sum.splits prod.splits)

lemma borrow_wrap:
  "map_fst borrow_guard (ref_try_borrow g s) = grab std_try_borrow g s"
  "map_fst borrow_guard (ref_mut_try_borrow_mut g s) = grab std_try_borrow_mut g s"
  by (auto simp: map_fst_bind ref_try_borrow_def ref_mut_try_borrow_mut_def grab_def
      intro!: arg_cong2 [where f = res_bind] split: option.splits)

lemma borrow_panic_wrap:
  "map_fst Some (ref_borrow g s) = grab (\<lambda>v. map_fst Some (or_panic std_try_borrow v)) g s"
  "map_fst Some (ref_mut_borrow_mut g s) = grab (\<lambda>v. map_fst Some (or_panic std_try_borrow_mut v)) g s"
  unfolding ref_borrow_def ref_mut_borrow_mut_def grab_def on_value_map
  by (cases "on_value g (or_panic std_try_borrow) s"; cases "on_value g (or_panic std_try_borrow_mut) s";
      auto split: prod.splits)+

lemma lock_wrap:
  "map_fst lock_guard (wrap_lock f g s) = grab (\<lambda>v. map_fst either_guard (f v)) g s"
proof (cases "on_value g f s")
  case (Inr x)
  obtain r s1 where x: "x = (r, s1)" by (cases x)
  show ?thesis by (cases r) (simp_all add: wrap_lock_def grab_def on_value_map Inr x)
qed (simp add: wrap_lock_def grab_def on_value_map)

lemma try_lock_wrap:
  "map_fst try_lock_guard (wrap_try_lock f g s) = grab (\<lambda>v. map_fst unless_blocked (f v)) g s"
proof (cases "on_value g f s")
  case (Inr x)
  obtain r s1 where x: "x = (r, s1)" by (cases x)
  show ?thesis
  proof (cases r)
    case (Inl e)
    then show ?thesis
      by (cases e; cases "drop_guard g s1") (simp_all add: wrap_try_lock_def grab_def on_value_map Inr x)
  qed (simp add: wrap_try_lock_def grab_def on_value_map Inr x)
qed (simp add: wrap_try_lock_def grab_def on_value_map)

lemma acquire_grab: "acquire a p s = res_bind (gc_get p s) (\<lambda>(g, s1). grab (content_method a) g s1)"
proof (cases "gc_get p s")
  case (Inr x)
  then show ?thesis
    by (cases a; cases x)
      (simp_all add: content_method.simps [abs_def] borrow_wrap borrow_panic_wrap lock_wrap try_lock_wrap
        gc_borrow_def gc_try_borrow_def gc_borrow_mut_def gc_try_borrow_mut_def gc_lock_mutex_def
        gc_try_lock_def gc_read_def gc_write_def gc_try_read_def gc_try_write_def mutex_guard_lock_def
        mutex_guard_try_lock_def read_guard_read_def read_guard_try_read_def write_guard_write_def
        write_guard_try_write_def)
qed (cases a; simp add: gc_borrow_def gc_try_borrow_def gc_borrow_mut_def gc_try_borrow_mut_def
    gc_lock_mutex_def gc_try_lock_def gc_read_def gc_write_def gc_try_read_def gc_try_write_def)

subsection \<open>A guard can be given back\<close>

text \<open>
  The contract of the ten methods: one that gives no guard changes nothing, and one that gives a
  guard is undone by dropping it.
\<close>

locale guarded_content =
  fixes meth :: "'m \<Rightarrow> val \<Rightarrow> (inner_guard option \<times> val) result"
  assumes refused: "meth a v = Inr (None, v') \<Longrightarrow> v' = v"
    and granted: "meth a v = Inr (Some i, v') \<Longrightarrow> release False i v' = Inr v"

lemma on_value_Inr:
  "on_value g f s = Inr (a, s') \<longleftrightarrow>
     (\<exists>v v'. guard_deref g s = Inr v \<and> f v = Inr (a, v') \<and>
       s' = s\<lparr>gc_heap := (gc_heap s)[direct_ptr (gc_ptr g) := Init v']\<rparr>)"
  by (auto simp: on_value_def res_bind_def split: sum.splits prod.splits)

lemma guard_deref_Inr:
  "guard_deref g s = Inr v \<longleftrightarrow>
     direct_ptr (gc_ptr g) < length (gc_heap s) \<and> gc_heap s ! direct_ptr (gc_ptr g) = Init v"
  by (simp add: guard_deref_def read_cell_Inr)

lemma heap_rewrite_same: "guard_deref g s = Inr v \<Longrightarrow>
    s\<lparr>gc_heap := (gc_heap s)[direct_ptr (gc_ptr g) := Init v]\<rparr> = s"
proof -
  assume "guard_deref g s = Inr v"
  then have "(gc_heap s)[direct_ptr (gc_ptr g) := Init v] = gc_heap s"
    using list_update_id [of "gc_heap s" "direct_ptr (gc_ptr g)"] by (simp add: guard_deref_Inr)
  then show ?thesis by simp
qed

lemma drop_guard_heap:
  "drop_guard g (s\<lparr>gc_heap := h\<rparr>) = res_bind (drop_guard g s) (\<lambda>s'. Inr (s'\<lparr>gc_heap := h\<rparr>))"
  by (cases "drop_warrant (d_lockout (gc_datas s ! guard_warrant g))")
    (simp_all add: drop_guard_def drop_data_warrant_def upd_data_def)

context guarded_content begin

lemma grab_refused: "grab (meth a) g s = Inr (None, s') \<Longrightarrow> drop_guard g s = Inr s'"
  by (auto simp: grab_def res_bind_eq_Inr on_value_Inr heap_rewrite_same split: option.splits dest!: refused)

lemma grab_granted:
  assumes "grab (meth a) g s = Inr (Some w, s')"
  shows "drop_wrapper False w s' = drop_guard g s" and "wrapper_guard w = g"
proof -
  obtain i v v' where run: "guard_deref g s = Inr v" "meth a v = Inr (Some i, v')"
      "s' = s\<lparr>gc_heap := (gc_heap s)[direct_ptr (gc_ptr g) := Init v']\<rparr>"
    and w: "w = \<lparr>wrapper_guard = g, cell_ref = i\<rparr>"
    using assms by (auto simp: grab_def res_bind_eq_Inr on_value_Inr split: option.splits)
  have "guard_deref g s' = Inr v'" using run by (simp add: guard_deref_Inr)
  then have "drop_wrapper False w s' =
      drop_guard g (s\<lparr>gc_heap := (gc_heap s)[direct_ptr (gc_ptr g) := Init v]\<rparr>)"
    using granted [OF run(2)] by (simp add: w drop_wrapper_def on_value_def run(3))
  then show "drop_wrapper False w s' = drop_guard g s" by (simp add: heap_rewrite_same [OF run(1)])
  show "wrapper_guard w = g" by (simp add: w)
qed

end

lemma release_simps [simp]:
  "release b Ref (V_RefCell use v) = res_bind (unread use) (\<lambda>use'. Inr (V_RefCell use' v))"
  "release b RefMut (V_RefCell Writer v) = Inr (V_RefCell (Readers 0) v)"
  "release b (MutexGuard c) (V_Mutex True q v) = Inr (V_Mutex False (q \<or> b \<and> \<not> c) v)"
  "release b ReadGuard (V_RwLock use q v) = res_bind (unread use) (\<lambda>use'. Inr (V_RwLock use' q v))"
  "release b (WriteGuard c) (V_RwLock Writer q v) = Inr (V_RwLock (Readers 0) (q \<or> b \<and> \<not> c) v)"
  by simp_all

text \<open>What a method does to each kind of content: it takes nothing, or the guard that is free.\<close>

inductive takes :: "inner_guard \<Rightarrow> val \<Rightarrow> val \<Rightarrow> bool" where
  "takes Ref (V_RefCell (Readers n) x) (V_RefCell (Readers (Suc n)) x)"
| "takes RefMut (V_RefCell (Readers 0) x) (V_RefCell Writer x)"
| "takes (MutexGuard b) (V_Mutex False q x) (V_Mutex True q x)"
| "takes ReadGuard (V_RwLock (Readers n) q x) (V_RwLock (Readers (Suc n)) q x)"
| "takes (WriteGuard b) (V_RwLock (Readers 0) q x) (V_RwLock Writer q x)"

lemma std_takes:
  "std_try_borrow v = Inr (r, v') \<Longrightarrow> (case r of None \<Rightarrow> v' = v | Some i \<Rightarrow> takes i v v')"
  "std_try_borrow_mut v = Inr (r, v') \<Longrightarrow> (case r of None \<Rightarrow> v' = v | Some i \<Rightarrow> takes i v v')"
  "std_try_lock b v = Inr (l, v') \<Longrightarrow> (case unless_blocked l of None \<Rightarrow> v' = v | Some i \<Rightarrow> takes i v v')"
  "std_try_read v = Inr (l, v') \<Longrightarrow> (case unless_blocked l of None \<Rightarrow> v' = v | Some i \<Rightarrow> takes i v v')"
  "std_try_write b v = Inr (l, v') \<Longrightarrow> (case unless_blocked l of None \<Rightarrow> v' = v | Some i \<Rightarrow> takes i v v')"
  subgoal by (cases v rule: std_try_borrow.cases) (auto intro: takes.intros)
  subgoal by (cases v rule: std_try_borrow_mut.cases) (auto intro: takes.intros split: if_splits)
  subgoal by (cases v) (auto intro: takes.intros split: if_splits)
  subgoal by (cases v rule: std_try_read.cases) (auto intro: takes.intros split: if_splits)
  subgoal by (cases v) (auto intro: takes.intros split: if_splits)
  done

lemma or_panic_takes: "or_panic f v = Inr (i, v') \<Longrightarrow> f v = Inr (Some i, v')"
  by (auto simp: or_panic_def res_bind_eq_Inr split: option.splits)

lemma or_wait_takes: "or_wait f v = Inr (e, v') \<Longrightarrow> \<exists>l. f v = Inr (l, v') \<and> unless_blocked l = either_guard e"
proof -
  assume *: "or_wait f v = Inr (e, v')"
  then obtain l x where l: "f v = Inr (l, x)" by (auto simp: or_wait_def res_bind_eq_Inr)
  with * have "x = v' \<and> unless_blocked l = either_guard e"
    by (cases l rule: unless_blocked.cases) (auto simp: or_wait_def)
  with l show ?thesis by blast
qed

lemma map_fst_Inr: "map_fst h x = Inr (r, v') \<longleftrightarrow> (\<exists>r'. x = Inr (r', v') \<and> r = h r')"
  by (auto simp: map_fst_def res_bind_eq_Inr)

lemma content_method_takes:
  assumes "content_method a v = Inr (r, v')"
  shows "case r of None \<Rightarrow> v' = v | Some i \<Rightarrow> takes i v v'"
proof (cases a)
  case (Lock b)
  then show ?thesis using assms by (auto simp: map_fst_Inr dest!: or_wait_takes std_takes(3))
next
  case (Write b)
  then show ?thesis using assms by (auto simp: map_fst_Inr dest!: or_wait_takes std_takes(5))
next
  case Read
  then show ?thesis using assms by (auto simp: map_fst_Inr dest!: or_wait_takes std_takes(4))
qed (use assms in \<open>auto simp: map_fst_Inr dest!: or_panic_takes std_takes\<close>)

interpretation content: guarded_content content_method
proof
  show "v' = v" if "content_method a v = Inr (None, v')" for a v v'
    using content_method_takes [OF that] by simp
  show "release False i v' = Inr v" if "content_method a v = Inr (Some i, v')" for a v i v'
    using content_method_takes [OF that] by (auto elim: takes.cases)
qed

text \<open>The warrant of a guard is given back in the same way, while the counter has room for it.\<close>

definition target_room :: "gc_ptr \<Rightarrow> gc_state \<Rightarrow> bool" where
  "target_room p s =
     (case ref_data (backing_handle p) s of
        Inl e \<Rightarrow> False
      | Inr d \<Rightarrow> d < length (gc_datas s) \<and> lk_room (d_lockout (gc_datas s ! d)))"

lemma warrant_returned: "get_warrant lk = Inr lk' \<Longrightarrow> lk_room lk \<Longrightarrow> drop_warrant lk' = Inr lk"
proof -
  assume *: "get_warrant lk = Inr lk'" "lk_room lk"
  then have lk': "\<not> lk_exclusive lk" "lk' = lk\<lparr>lk_count := lk_count lk + 1\<rparr>"
    by (auto simp: get_warrant_eq split: if_splits)
  have "unat (lk_count lk) + 1 < 2 ^ 64 - 1"
    using *(2) lk'(1) by (simp add: lk_room_def lk_warrants_def unat_signpost)
  then have "unat (lk_count lk + 1) = unat (lk_count lk) + 1" "unat (lk_count lk) + 1 < 2 ^ 64 - 1"
    by (simp_all add: unat_Suc_word)
  then have "0 < lk_count lk'" "\<not> lk_exclusive lk'"
    by (simp_all add: lk' word_less_nat_alt lk_exclusive_def signpost_eq_unat)
  then show ?thesis by (simp add: drop_warrant_eq lk')
qed

lemma guard_returned:
  assumes "gc_get p s = Inr (g, s1)" and "target_room p s"
  shows "drop_guard g s1 = Inr s" and "gc_ptr g = p" and "gc_heap s1 = gc_heap s"
proof -
  from assms(2) obtain d where d: "h_underlying_data (gc_handles s ! item_v (backing_handle p)) = Fixed d"
      "d < length (gc_datas s)" "lk_room (d_lockout (gc_datas s ! d))"
    by (auto simp: target_room_def ref_data_def split: underlying_data.split_asm)
  let ?lk = "d_lockout (gc_datas s ! d)"
  from assms(1) d(1) obtain lk where lk: "get_warrant ?lk = Inr lk"
      and s1: "s1 = upd_data d (\<lambda>x. x\<lparr>d_lockout := lk\<rparr>) s" and g: "g = \<lparr>gc_ptr = p, guard_warrant = d\<rparr>"
    by (auto simp: gc_get_def get_data_warrant_def res_bind_eq_Inr split: if_splits)
  show "gc_ptr g = p" "gc_heap s1 = gc_heap s" by (simp_all add: g s1 upd_data_def)
  have "upd_data d (\<lambda>x. x\<lparr>d_lockout := ?lk\<rparr>) s1 = s"
    using d(2) list_update_id [of "gc_datas s" d] by (simp add: s1 upd_data_def)
  then show "drop_guard g s1 = Inr s"
    using warrant_returned [OF lk d(3)] d(2) by (simp add: drop_guard_def drop_data_warrant_def g s1 upd_data_def)
qed

lemma acquire_reversible:
  assumes "target_room p s" and "acquire a p s = Inr (r, s')"
  shows "case r of None \<Rightarrow> s' = s | Some w \<Rightarrow> drop_wrapper False w s' = Inr s"
proof -
  from assms(2) obtain g s1 where get: "gc_get p s = Inr (g, s1)" and run: "grab (content_method a) g s1 = Inr (r, s')"
    by (auto simp: acquire_grab res_bind_eq_Inr)
  note given = guard_returned(1) [OF get assms(1)]
  show ?thesis
  proof (cases r)
    case None
    with content.grab_refused run given show ?thesis by auto
  next
    case (Some w)
    with content.grab_granted(1) run given show ?thesis by simp
  qed
qed

text \<open>
  C24: Each of the ten special methods on a \<open>Gc\<close> of a cell or lock is reversible: when it gives an
  error that holds no guard it has also given back its warrant of the data, and when it gives a
  guard, inside of a poison error or not, dropping that guard restores the state. (A \<open>borrow\<close> or
  \<open>borrow_mut\<close> that panics returns nothing and is not covered.)
\<close>

theorem wrapper_access_reversible:
  assumes "target_room p s" and "acquire a p s = Inr (r, s')"
  shows "case r of None \<Rightarrow> s' = s | Some w \<Rightarrow> drop_wrapper False w s' = Inr s"
  by (rule acquire_reversible [OF assms])

text \<open>A \<open>Gc\<close> of a \<open>RefCell\<close>, one of a poisoned \<open>Mutex\<close> that is locked, and one of a free \<open>Mutex\<close>.\<close>

definition sample_data :: "nat \<Rightarrow> gc_data" where
  "sample_data n = \<lparr>d_allocation = from_box n, d_lockout = lockout_new, d_deallocated = False, d_last_marked = 0\<rparr>"

definition sample_cells :: gc_state where
  "sample_cells = collector_new\<lparr>
     gc_handles := map (\<lambda>n. \<lparr>h_underlying_data = Fixed n, h_last_non_rooted = 0\<rparr>) [0, 1, 2],
     gc_datas := map sample_data [0, 1, 2],
     gc_heap := [Init (V_RefCell (Readers 0) (V_Plain 7)), Init (V_Mutex True True (V_Plain 8)),
                 Init (V_Mutex False False (V_Plain 9))]\<rparr>"

definition cell_ptr :: "nat \<Rightarrow> gc_ptr" where
  "cell_ptr n = \<lparr>backing_handle = ref_no n, direct_ptr = n\<rparr>"

lemma sample_cells_room: "n < 3 \<Longrightarrow> target_room (cell_ptr n) sample_cells"
  by (simp add: target_room_def sample_cells_def sample_data_def cell_ptr_def ref_data_def ref_no_def
      lk_room_def lk_warrants_def lk_exclusive_def lockout_new_def unat_signpost nth_Cons' split: if_splits)

lemmas sample_cells_eval = acquire_grab grab_def on_value_def gc_get_def get_data_warrant_def guard_deref_def
  read_cell_def upd_data_def sample_cells_def sample_data_def cell_ptr_def ref_no_def drop_guard_def
  drop_data_warrant_def drop_warrant_eq get_warrant_eq lk_exclusive_def EXCLUSIVE_SIGNPOST_def
  lockout_new_def or_panic_def

theorem wrapper_access_reversible_witness:
  "acquire (Try_Lock False) (cell_ptr 1) sample_cells = Inr (None, sample_cells) \<and>
   (\<exists>w s'. acquire Borrow_Mut (cell_ptr 0) sample_cells = Inr (Some w, s') \<and>
      drop_wrapper False w s' = Inr sample_cells)"
proof
  have "\<exists>s'. acquire (Try_Lock False) (cell_ptr 1) sample_cells = Inr (None, s')"
    by (simp add: sample_cells_eval del: acquire.simps)
  then obtain s' where run: "acquire (Try_Lock False) (cell_ptr 1) sample_cells = Inr (None, s')" ..
  with wrapper_access_reversible [OF sample_cells_room run]
  show "acquire (Try_Lock False) (cell_ptr 1) sample_cells = Inr (None, sample_cells)" by simp
  have "\<exists>w s'. acquire Borrow_Mut (cell_ptr 0) sample_cells = Inr (Some w, s')"
    by (simp add: sample_cells_eval del: acquire.simps)
  then obtain w s' where run: "acquire Borrow_Mut (cell_ptr 0) sample_cells = Inr (Some w, s')" by blast
  with wrapper_access_reversible [OF sample_cells_room run]
  show "\<exists>w s'. acquire Borrow_Mut (cell_ptr 0) sample_cells = Inr (Some w, s') \<and>
      drop_wrapper False w s' = Inr sample_cells" by auto
qed

subsection \<open>Guards exclude each other\<close>

text \<open>
  A client that keeps the guards it gets from one \<open>Gc\<close>, writes through those that allow it, and
  drops them in any order, panicking or not.
\<close>

datatype guard_op = Access access | Assign nat val | Release bool nat

definition mutable :: "inner_guard \<Rightarrow> bool" where
  "mutable i \<longleftrightarrow> i \<noteq> Ref \<and> i \<noteq> ReadGuard"

fun guard_step :: "gc_ptr \<Rightarrow> guard_op \<Rightarrow> gc_wrapper list \<times> gc_state \<Rightarrow> (gc_wrapper list \<times> gc_state) result" where
  "guard_step p (Access a) (ws, s) =
     res_bind (acquire a p s) (\<lambda>(r, s'). Inr (case r of Some w \<Rightarrow> w # ws | None \<Rightarrow> ws, s'))"
| "guard_step p (Assign i x) (ws, s) =
     (if i < length ws \<and> mutable (cell_ref (ws ! i))
      then res_bind (wrapper_deref_mut (ws ! i) x s) (\<lambda>s'. Inr (ws, s')) else Inr (ws, s))"
| "guard_step p (Release panicking i) (ws, s) =
     (if i < length ws
      then res_bind (drop_wrapper panicking (ws ! i) s) (\<lambda>s'. Inr (take i ws @ drop (Suc i) ws, s'))
      else Inr (ws, s))"

text \<open>The guards that are out are those the state of the cell or lock speaks of.\<close>

fun claimed :: "val \<Rightarrow> inner_guard list \<Rightarrow> bool" where
  "claimed (V_RefCell (Readers n) v) is \<longleftrightarrow> is = replicate n Ref"
| "claimed (V_RefCell Writer v) is \<longleftrightarrow> is = [RefMut]"
| "claimed (V_Mutex locked q v) is \<longleftrightarrow> (if locked then \<exists>b. is = [MutexGuard b] else is = [])"
| "claimed (V_RwLock (Readers n) q v) is \<longleftrightarrow> is = replicate n ReadGuard"
| "claimed (V_RwLock Writer q v) is \<longleftrightarrow> (\<exists>b. is = [WriteGuard b])"
| "claimed _ is \<longleftrightarrow> False"

lemma claimed_cases:
  assumes "claimed v is"
  obtains n x where "v = V_RefCell (Readers n) x" "is = replicate n Ref"
  | x where "v = V_RefCell Writer x" "is = [RefMut]"
  | q x where "v = V_Mutex False q x" "is = []"
  | q x b where "v = V_Mutex True q x" "is = [MutexGuard b]"
  | n q x where "v = V_RwLock (Readers n) q x" "is = replicate n ReadGuard"
  | q x b where "v = V_RwLock Writer q x" "is = [WriteGuard b]"
  using assms by (cases "(v, is)" rule: claimed.cases) (auto split: if_splits)

lemma claimed_takes: "claimed v is \<Longrightarrow> takes i v v' \<Longrightarrow> claimed v' (i # is)"
  by (erule takes.cases) auto

lemma claimed_assign: "claimed v is \<Longrightarrow> \<exists>v'. set_content x v = Inr v' \<and> claimed v' is"
  by (erule claimed_cases) auto

lemma take_drop_replicate: "i < n \<Longrightarrow> take i (replicate n a) @ drop (Suc i) (replicate n a) = replicate (n - 1) a"
  by (simp add: replicate_add [symmetric])

lemma claimed_release:
  assumes "claimed v is" and "i < length is"
  shows "\<exists>v'. release b (is ! i) v = Inr v' \<and> claimed v' (take i is @ drop (Suc i) is)"
  using assms(1)
proof (cases rule: claimed_cases)
  case (1 n x)
  with assms(2) show ?thesis using take_drop_replicate [of i n Ref] by simp
next
  case (5 n q x)
  with assms(2) show ?thesis using take_drop_replicate [of i n ReadGuard] by simp
qed (use assms(2) in auto)

lemma claimed_exclusive: "claimed v is \<Longrightarrow> length is \<le> 1 \<or> (\<forall>i\<in>set is. \<not> mutable i)"
  by (erule claimed_cases) (auto simp: mutable_def)

text \<open>With \<open>n\<close> warrants that others hold, and one warrant for each of the guards.\<close>

definition guards_ok :: "gc_ptr \<Rightarrow> nat \<Rightarrow> nat \<Rightarrow> gc_wrapper list \<times> gc_state \<Rightarrow> bool" where
  "guards_ok p d n c \<longleftrightarrow>
     ref_data (backing_handle p) (snd c) = Inr d \<and> d < length (gc_datas (snd c)) \<and>
     \<not> lk_exclusive (d_lockout (gc_datas (snd c) ! d)) \<and>
     lk_warrants (d_lockout (gc_datas (snd c) ! d)) = n + length (fst c) \<and>
     (\<forall>w\<in>set (fst c). wrapper_guard w = \<lparr>gc_ptr = p, guard_warrant = d\<rparr>) \<and>
     (\<exists>v. read_cell (direct_ptr p) (gc_heap (snd c)) = Inr v \<and> claimed v (map cell_ref (fst c)))"

lemma guards_okD:
  assumes "guards_ok p d n (ws, s)"
  obtains v where "ref_data (backing_handle p) s = Inr d" "d < length (gc_datas s)"
    "\<not> lk_exclusive (d_lockout (gc_datas s ! d))" "lk_warrants (d_lockout (gc_datas s ! d)) = n + length ws"
    "\<forall>w\<in>set ws. wrapper_guard w = \<lparr>gc_ptr = p, guard_warrant = d\<rparr>"
    "read_cell (direct_ptr p) (gc_heap s) = Inr v" "claimed v (map cell_ref ws)"
  using assms unfolding guards_ok_def by auto

lemma read_cell_update: "read_cell q h = Inr v \<Longrightarrow> read_cell q (h[q := Init w]) = Inr w"
  by (simp add: read_cell_Inr)

lemma guards_ok_acquire:
  assumes ok: "guards_ok p d n (ws, s)" and room: "n + length ws < 2 ^ 64 - 2"
    and run: "acquire a p s = Inr (r, s')"
  shows "guards_ok p d n (case r of Some w \<Rightarrow> w # ws | None \<Rightarrow> ws, s')"
proof -
  from ok obtain v where h: "ref_data (backing_handle p) s = Inr d" "d < length (gc_datas s)"
    and lk: "\<not> lk_exclusive (d_lockout (gc_datas s ! d))" "lk_warrants (d_lockout (gc_datas s ! d)) = n + length ws"
    and ws: "\<forall>w\<in>set ws. wrapper_guard w = \<lparr>gc_ptr = p, guard_warrant = d\<rparr>"
    and v: "read_cell (direct_ptr p) (gc_heap s) = Inr v" "claimed v (map cell_ref ws)"
    by (rule guards_okD)
  have room': "lk_room (d_lockout (gc_datas s ! d))"
    using lk room by (simp add: lk_room_def unat_signpost)
  then have tr: "target_room p s" using h by (simp add: target_room_def)
  show ?thesis
  proof (cases r)
    case None
    with acquire_reversible [OF tr run] ok show ?thesis by simp
  next
    case (Some w)
    from run obtain g s1 where get: "gc_get p s = Inr (g, s1)" and grab: "grab (content_method a) g s1 = Inr (Some w, s')"
      by (auto simp: acquire_grab res_bind_eq_Inr Some)
    obtain lk' where lk': "get_warrant (d_lockout (gc_datas s ! d)) = Inr lk'" "lk_warrants lk' = Suc (n + length ws)"
      "\<not> lk_exclusive lk'"
      using lk.acquire_free [OF lk(1) room'] lk(2) by auto
    have fixed: "h_underlying_data (gc_handles s ! item_v (backing_handle p)) = Fixed d"
      using h(1) by (simp add: ref_data_def split: underlying_data.split_asm)
    with get lk'(1) have g: "g = \<lparr>gc_ptr = p, guard_warrant = d\<rparr>" and s1: "s1 = upd_data d (\<lambda>x. x\<lparr>d_lockout := lk'\<rparr>) s"
      by (auto simp: gc_get_def get_data_warrant_def split: if_splits)
    from grab obtain i u u' where u: "guard_deref g s1 = Inr u" "content_method a u = Inr (Some i, u')"
      and s': "s' = s1\<lparr>gc_heap := (gc_heap s1)[direct_ptr (gc_ptr g) := Init u']\<rparr>"
      and w: "w = \<lparr>wrapper_guard = g, cell_ref = i\<rparr>"
      by (auto simp: grab_def res_bind_eq_Inr on_value_Inr split: option.splits)
    from u(1) v(1) have "u = v" by (simp add: guard_deref_def g s1 upd_data_def)
    with content_method_takes [OF u(2)] v(2) have "claimed u' (i # map cell_ref ws)"
      by (auto intro: claimed_takes)
    moreover have "read_cell (direct_ptr p) (gc_heap s') = Inr u'"
      using read_cell_update [OF v(1)] by (simp add: s' s1 g upd_data_def)
    moreover have "ref_data (backing_handle p) s' = Inr d" using fixed by (simp add: s' s1 ref_data_def upd_data_def)
    moreover have "d < length (gc_datas s')" "d_lockout (gc_datas s' ! d) = lk'"
      using h(2) by (simp_all add: s' s1 upd_data_def)
    ultimately show ?thesis using lk' ws by (simp add: guards_ok_def Some w g)
  qed
qed

lemma guards_ok_assign:
  assumes ok: "guards_ok p d n (ws, s)" and i: "i < length ws"
  shows "\<exists>s'. wrapper_deref_mut (ws ! i) x s = Inr s' \<and> guards_ok p d n (ws, s')"
proof -
  from ok obtain v where h: "ref_data (backing_handle p) s = Inr d" "d < length (gc_datas s)"
    and lk: "\<not> lk_exclusive (d_lockout (gc_datas s ! d))" "lk_warrants (d_lockout (gc_datas s ! d)) = n + length ws"
    and ws: "\<forall>w\<in>set ws. wrapper_guard w = \<lparr>gc_ptr = p, guard_warrant = d\<rparr>"
    and v: "read_cell (direct_ptr p) (gc_heap s) = Inr v" "claimed v (map cell_ref ws)"
    by (rule guards_okD)
  from claimed_assign [OF v(2)] obtain v' where v': "set_content x v = Inr v'" "claimed v' (map cell_ref ws)" by blast
  let ?s = "s\<lparr>gc_heap := (gc_heap s)[direct_ptr p := Init v']\<rparr>"
  have "wrapper_deref_mut (ws ! i) x s = Inr ?s"
    using bspec [OF ws, of "ws ! i"] i v(1) v'(1) by (simp add: wrapper_deref_mut_def on_value_def guard_deref_def)
  moreover have "guards_ok p d n (ws, ?s)"
    using h lk ws v'(2) read_cell_update [OF v(1)] by (simp add: guards_ok_def ref_data_def)
  ultimately show ?thesis by blast
qed

lemma guards_ok_release:
  assumes ok: "guards_ok p d n (ws, s)" and i: "i < length ws"
  shows "\<exists>s'. drop_wrapper b (ws ! i) s = Inr s' \<and> guards_ok p d n (take i ws @ drop (Suc i) ws, s')"
proof -
  from ok obtain v where h: "ref_data (backing_handle p) s = Inr d" "d < length (gc_datas s)"
    and lk: "\<not> lk_exclusive (d_lockout (gc_datas s ! d))" "lk_warrants (d_lockout (gc_datas s ! d)) = n + length ws"
    and ws: "\<forall>w\<in>set ws. wrapper_guard w = \<lparr>gc_ptr = p, guard_warrant = d\<rparr>"
    and v: "read_cell (direct_ptr p) (gc_heap s) = Inr v" "claimed v (map cell_ref ws)"
    by (rule guards_okD)
  from claimed_release [OF v(2)] i obtain v' where v': "release b (cell_ref (ws ! i)) v = Inr v'"
    "claimed v' (map cell_ref (take i ws @ drop (Suc i) ws))" by (auto simp: take_map drop_map)
  have pos: "0 < lk_warrants (d_lockout (gc_datas s ! d))" using lk(2) i by linarith
  obtain lk' where lk': "drop_warrant (d_lockout (gc_datas s ! d)) = Inr lk'" "lk_warrants lk' = n + length ws - 1"
    "\<not> lk_exclusive lk'"
    using lk.release_held [OF pos] lk(2) by auto
  let ?s = "(upd_data d (\<lambda>x. x\<lparr>d_lockout := lk'\<rparr>) s)\<lparr>gc_heap := (gc_heap s)[direct_ptr p := Init v']\<rparr>"
  have w: "wrapper_guard (ws ! i) = \<lparr>gc_ptr = p, guard_warrant = d\<rparr>" using ws i by simp
  have "drop_wrapper b (ws ! i) s = Inr ?s"
    using v(1) v'(1) lk'(1)
    by (simp add: drop_wrapper_def on_value_def guard_deref_def w drop_guard_heap)
      (simp add: drop_guard_def drop_data_warrant_def)
  moreover have "set (take i ws @ drop (Suc i) ws) \<subseteq> set ws"
    by (auto dest: in_set_takeD in_set_dropD)
  then have "guards_ok p d n (take i ws @ drop (Suc i) ws, ?s)"
    using h lk' ws v'(2) read_cell_update [OF v(1)] i
    by (auto simp: guards_ok_def ref_data_def upd_data_def)
  ultimately show ?thesis by blast
qed

lemma guards_ok_step:
  assumes ok: "guards_ok p d n (ws, s)" and room: "n + length ws < 2 ^ 64 - 2"
    and run: "guard_step p op (ws, s) = Inr (ws', s')"
  shows "guards_ok p d n (ws', s') \<and> length ws' \<le> Suc (length ws)"
proof (cases op)
  case (Access a)
  with run obtain r where acq: "acquire a p s = Inr (r, s')" and ws': "ws' = (case r of Some w \<Rightarrow> w # ws | None \<Rightarrow> ws)"
    by (auto simp: res_bind_eq_Inr)
  with guards_ok_acquire [OF ok room acq] show ?thesis by (cases r) auto
next
  case (Assign i x)
  with run guards_ok_assign [OF ok, of i x] ok show ?thesis by (cases "i < length ws") (auto split: if_splits)
next
  case (Release b i)
  with run guards_ok_release [OF ok, of i b] ok show ?thesis by (cases "i < length ws") (auto split: if_splits)
qed

lemma guards_ok_run:
  assumes "guards_ok p d n (ws, s)" and "n + length ws + length ops < 2 ^ 64 - 1"
    and "fold_res (guard_step p) ops (ws, s) = Inr (ws', s')"
  shows "guards_ok p d n (ws', s')"
  using assms
proof (induction ops arbitrary: ws s)
  case (Cons op ops)
  from Cons.prems(3) obtain ws1 s1 where step: "guard_step p op (ws, s) = Inr (ws1, s1)"
    and rest: "fold_res (guard_step p) ops (ws1, s1) = Inr (ws', s')"
    by (auto simp: res_bind_eq_Inr)
  from Cons.prems(2) have "n + length ws < 2 ^ 64 - 2" by simp
  from guards_ok_step [OF Cons.prems(1) this step] Cons.prems(2)
  show ?case by (intro Cons.IH [OF _ _ rest]) auto
qed simp

text \<open>
  C25: However a client takes, uses and drops the guards of one \<open>Gc\<close>, starting where nothing is
  taken, it never has a guard it can write through beside another one, and it can drop every guard
  it has. The counter of the lockout has room for the warrants (\<open>n\<close> of them are held elsewhere).
\<close>

theorem cell_guards_exclusive:
  assumes "guards_ok p d n ([], s)" and "n + length ops < 2 ^ 64 - 1"
    and "fold_res (guard_step p) ops ([], s) = Inr (ws, s')"
  shows "(length ws \<le> 1 \<or> (\<forall>w\<in>set ws. \<not> mutable (cell_ref w))) \<and>
    (\<forall>i<length ws. \<exists>s''. drop_wrapper b (ws ! i) s' = Inr s'')"
proof -
  have ok: "guards_ok p d n (ws, s')" by (rule guards_ok_run [OF assms(1) _ assms(3)]) (use assms(2) in simp)
  then obtain v where "claimed v (map cell_ref ws)" by (auto simp: guards_ok_def)
  from claimed_exclusive [OF this] have "length ws \<le> 1 \<or> (\<forall>w\<in>set ws. \<not> mutable (cell_ref w))" by simp
  with guards_ok_release [OF ok] show ?thesis by blast
qed

lemma sample_cells_ok: "guards_ok (cell_ptr 0) 0 0 ([], sample_cells)"
  by (simp add: guards_ok_def sample_cells_def sample_data_def cell_ptr_def ref_no_def ref_data_def lockout_new_def
      lk_exclusive_def lk_warrants_def read_cell_def)

theorem cell_guards_exclusive_witness:
  "\<exists>ws s'. fold_res (guard_step (cell_ptr 0)) [Access Borrow, Access Try_Borrow_Mut, Access Borrow] ([], sample_cells) =
      Inr (ws, s') \<and> length ws = 2 \<and> \<not> mutable (cell_ref (ws ! 0)) \<and>
      (\<exists>s''. drop_wrapper True (ws ! 1) s' = Inr s'')"
proof -
  have "\<exists>w1 w2 s'. fold_res (guard_step (cell_ptr 0)) [Access Borrow, Access Try_Borrow_Mut, Access Borrow]
      ([], sample_cells) = Inr ([w1, w2], s')"
    by (simp add: sample_cells_eval del: acquire.simps)
  then obtain w1 w2 s' where run: "fold_res (guard_step (cell_ptr 0))
      [Access Borrow, Access Try_Borrow_Mut, Access Borrow] ([], sample_cells) = Inr ([w1, w2], s')" by blast
  have bound: "0 + length [Access Borrow, Access Try_Borrow_Mut, Access Borrow] < 2 ^ 64 - 1" by simp
  note both = cell_guards_exclusive [OF sample_cells_ok bound run, of True]
  from both have "\<not> mutable (cell_ref w1)" by simp
  moreover from both have "\<exists>s''. drop_wrapper True ([w1, w2] ! 1) s' = Inr s''"
    by (elim conjE allE [of _ "1::nat"]) simp
  ultimately show ?thesis using run by (intro exI [of _ "[w1, w2]"] exI [of _ s']) simp
qed

subsection \<open>What a guard leaves behind\<close>

lemma gc_get_heap:
  "gc_get p (s\<lparr>gc_heap := h\<rparr>) = res_bind (gc_get p s) (\<lambda>(g, s'). Inr (g, s'\<lparr>gc_heap := h\<rparr>))"
  by (cases "h_underlying_data (gc_handles s ! item_v (backing_handle p))")
    (auto simp: gc_get_def get_data_warrant_def res_bind_def upd_data_def split: sum.split)

lemma taken_written_dropped:
  assumes room: "target_room p s" and run: "acquire a p s = Inr (Some w, s1)"
    and wr: "wrapper_deref_mut w x s1 = Inr s2"
    and dr: "drop_wrapper b w s2 = Inr s3"
  obtains v i v1 v2 v3 where "read_cell (direct_ptr p) (gc_heap s) = Inr v"
    "content_method a v = Inr (Some i, v1)" "set_content x v1 = Inr v2" "release b i v2 = Inr v3"
    "s3 = s\<lparr>gc_heap := (gc_heap s)[direct_ptr p := Init v3]\<rparr>"
proof -
  from run obtain g s0 where get: "gc_get p s = Inr (g, s0)" and grab: "grab (content_method a) g s0 = Inr (Some w, s1)"
    by (auto simp: acquire_grab res_bind_eq_Inr)
  from grab obtain v i v1 where v: "guard_deref g s0 = Inr v" "content_method a v = Inr (Some i, v1)"
    and s1: "s1 = s0\<lparr>gc_heap := (gc_heap s0)[direct_ptr (gc_ptr g) := Init v1]\<rparr>"
    and w: "w = \<lparr>wrapper_guard = g, cell_ref = i\<rparr>"
    by (auto simp: grab_def res_bind_eq_Inr on_value_Inr split: option.splits)
  note given = guard_returned [OF get room]
  have rd: "read_cell (direct_ptr p) (gc_heap s) = Inr v" using v(1) given by (simp add: guard_deref_def)
  from wr obtain v2 where v2: "set_content x v1 = Inr v2"
    and s2: "s2 = s0\<lparr>gc_heap := (gc_heap s)[direct_ptr p := Init v2]\<rparr>"
    using read_cell_update [OF rd]
    by (auto simp: wrapper_deref_mut_def on_value_def guard_deref_def w s1 given(2,3) res_bind_eq_Inr)
  from dr obtain v3 where v3: "release b i v2 = Inr v3"
    and s3: "drop_guard g (s0\<lparr>gc_heap := (gc_heap s)[direct_ptr p := Init v3]\<rparr>) = Inr s3"
    using read_cell_update [OF rd]
    by (auto simp: drop_wrapper_def on_value_def guard_deref_def w s2 given(2,3) res_bind_eq_Inr)
  have "s3 = s\<lparr>gc_heap := (gc_heap s)[direct_ptr p := Init v3]\<rparr>"
    using s3 given(1) by (simp add: drop_guard_heap)
  with rd v(2) v2 v3 show thesis by (rule that)
qed

text \<open>A method on the content runs once the pointer can be followed.\<close>

lemma acquire_taken:
  assumes get: "gc_get p s = Inr (g, s0)" and room: "target_room p s"
    and v: "read_cell (direct_ptr p) (gc_heap s) = Inr v" "content_method a v = Inr (Some i, v')"
  shows "acquire a p s = Inr (Some \<lparr>wrapper_guard = g, cell_ref = i\<rparr>,
      s0\<lparr>gc_heap := (gc_heap s)[direct_ptr p := Init v']\<rparr>)"
    and "wrapper_deref \<lparr>wrapper_guard = g, cell_ref = i\<rparr>
      (s0\<lparr>gc_heap := (gc_heap s)[direct_ptr p := Init v']\<rparr>) = content v'"
proof -
  note given = guard_returned [OF get room]
  show "acquire a p s = Inr (Some \<lparr>wrapper_guard = g, cell_ref = i\<rparr>,
      s0\<lparr>gc_heap := (gc_heap s)[direct_ptr p := Init v']\<rparr>)"
    using v by (simp add: acquire_grab get grab_def on_value_def guard_deref_def given(2,3))
  show "wrapper_deref \<lparr>wrapper_guard = g, cell_ref = i\<rparr>
      (s0\<lparr>gc_heap := (gc_heap s)[direct_ptr p := Init v']\<rparr>) = content v'"
    using read_cell_update [OF v(1)] by (simp add: wrapper_deref_def guard_deref_def given(2))
qed

lemma acquire_get: "acquire a p s = Inr (r, s1) \<Longrightarrow> \<exists>g s0. gc_get p s = Inr (g, s0)"
  by (auto simp: acquire_grab res_bind_eq_Inr)

lemma target_room_heap: "target_room p (s\<lparr>gc_heap := h\<rparr>) = target_room p s"
  by (simp add: target_room_def ref_data_def split: underlying_data.split)

text \<open>The state after a guard was taken, written through and dropped.\<close>

lemma after_drop:
  assumes room: "target_room p s" and run: "acquire a p s = Inr (Some w, s1)"
    and wr: "wrapper_deref_mut w x s1 = Inr s2" and dr: "drop_wrapper b w s2 = Inr s3"
  obtains v i v1 v2 v3 g s4 where "content_method a v = Inr (Some i, v1)" "set_content x v1 = Inr v2"
    "release b i v2 = Inr v3" "gc_get p s3 = Inr (g, s4)" "target_room p s3"
    "read_cell (direct_ptr p) (gc_heap s3) = Inr v3"
proof -
  obtain v i v1 v2 v3 where v: "read_cell (direct_ptr p) (gc_heap s) = Inr v"
    "content_method a v = Inr (Some i, v1)" "set_content x v1 = Inr v2" "release b i v2 = Inr v3"
    and s3: "s3 = s\<lparr>gc_heap := (gc_heap s)[direct_ptr p := Init v3]\<rparr>"
    by (rule taken_written_dropped [OF room run wr dr])
  from acquire_get [OF run] obtain g s0 where "gc_get p s = Inr (g, s0)" by blast
  then have get: "gc_get p s3 = Inr (g, s0\<lparr>gc_heap := (gc_heap s)[direct_ptr p := Init v3]\<rparr>)"
    by (simp add: s3 gc_get_heap)
  have "target_room p s3" using room by (simp add: s3 target_room_heap)
  moreover have "read_cell (direct_ptr p) (gc_heap s3) = Inr v3" using read_cell_update [OF v(1)] by (simp add: s3)
  ultimately show thesis by (rule that [OF v(2-4) get])
qed

lemma borrow_mut_released:
  "std_try_borrow_mut v = Inr (Some i, v1) \<Longrightarrow> set_content x v1 = Inr v2 \<Longrightarrow> release b i v2 = Inr v3 \<Longrightarrow>
   v3 = V_RefCell (Readers 0) x"
  by (cases v rule: std_try_borrow_mut.cases) (auto split: if_splits)

lemma lock_released:
  "unless_blocked r = Some i \<Longrightarrow> std_try_lock False v = Inr (r, v1) \<Longrightarrow> set_content x v1 = Inr v2 \<Longrightarrow>
   release True i v2 = Inr v3 \<Longrightarrow> v3 = V_Mutex False True x"
  by (cases v) (auto split: if_splits)

text \<open>
  What is written through the guard of one \<open>borrow_mut\<close> is what the guard of the next \<open>borrow\<close>
  reads, also when the first one was dropped by a panic.
\<close>

theorem borrow_after_borrow_mut:
  assumes "target_room p s" and "gc_try_borrow_mut p s = Inr (Inr w, s1)"
    and "wrapper_deref_mut w x s1 = Inr s2" and "drop_wrapper b w s2 = Inr s3"
  shows "\<exists>w' s4. gc_borrow p s3 = Inr (w', s4) \<and> wrapper_deref w' s4 = Inr x"
proof -
  have "acquire Try_Borrow_Mut p s = Inr (Some w, s1)" using assms(2) by simp
  then obtain v i v1 v2 v3 g s4 where v: "content_method Try_Borrow_Mut v = Inr (Some i, v1)"
    "set_content x v1 = Inr v2" "release b i v2 = Inr v3"
    and s3: "gc_get p s3 = Inr (g, s4)" "target_room p s3" "read_cell (direct_ptr p) (gc_heap s3) = Inr v3"
    by (rule after_drop [OF assms(1) _ assms(3,4)])
  have v3: "v3 = V_RefCell (Readers 0) x" using borrow_mut_released v by simp
  have "content_method Borrow v3 = Inr (Some Ref, V_RefCell (Readers 1) x)"
    by (simp add: v3 or_panic_def)
  from acquire_taken [OF s3 this] show ?thesis by (auto simp: map_fst_Inr)
qed

theorem borrow_after_borrow_mut_witness:
  "\<exists>w s1 s2 s3 w' s4. gc_try_borrow_mut (cell_ptr 0) sample_cells = Inr (Inr w, s1) \<and>
     wrapper_deref_mut w (V_Plain 3) s1 = Inr s2 \<and> drop_wrapper True w s2 = Inr s3 \<and>
     gc_borrow (cell_ptr 0) s3 = Inr (w', s4) \<and> wrapper_deref w' s4 = Inr (V_Plain 3)"
proof -
  have "\<exists>w s1 s2 s3. gc_try_borrow_mut (cell_ptr 0) sample_cells = Inr (Inr w, s1) \<and>
     wrapper_deref_mut w (V_Plain 3) s1 = Inr s2 \<and> drop_wrapper True w s2 = Inr s3"
    by (simp add: gc_try_borrow_mut_def ref_mut_try_borrow_mut_def wrapper_deref_mut_def drop_wrapper_def
        sample_cells_eval del: acquire.simps)
  then obtain w s1 s2 s3 where run: "gc_try_borrow_mut (cell_ptr 0) sample_cells = Inr (Inr w, s1)"
    "wrapper_deref_mut w (V_Plain 3) s1 = Inr s2" "drop_wrapper True w s2 = Inr s3" by blast
  have "target_room (cell_ptr 0) sample_cells" by (rule sample_cells_room) simp
  from borrow_after_borrow_mut [OF this run] run show ?thesis by blast
qed

text \<open>
  C26: A panic under the guard of a \<open>Mutex\<close> poisons it: the next \<open>lock\<close> and the next \<open>try_lock\<close>
  give an error, and the guard taken out of it reads what was written before the panic.
\<close>

theorem panic_poisons_mutex:
  assumes "target_room p s" and "gc_try_lock False p s = Inr (r, s1)" and "try_lock_guard r = Some w"
    and "wrapper_deref_mut w x s1 = Inr s2" and "drop_wrapper True w s2 = Inr s3"
  shows "(\<exists>e s4. gc_try_lock c p s3 = Inr (Inl (Poisoned e), s4) \<and> wrapper_deref (into_inner e) s4 = Inr x) \<and>
    (\<exists>e s4. gc_lock_mutex c p s3 = Inr (Inl e, s4) \<and> wrapper_deref (into_inner e) s4 = Inr x)"
proof -
  have "acquire (Try_Lock False) p s = Inr (Some w, s1)" using assms(2,3) by simp
  then obtain v i v1 v2 v3 g s4 where v: "content_method (Try_Lock False) v = Inr (Some i, v1)"
    "set_content x v1 = Inr v2" "release True i v2 = Inr v3"
    and s3: "gc_get p s3 = Inr (g, s4)" "target_room p s3" "read_cell (direct_ptr p) (gc_heap s3) = Inr v3"
    by (rule after_drop [OF assms(1) _ assms(4,5)])
  from v(1) obtain l where l: "std_try_lock False v = Inr (l, v1)" "unless_blocked l = Some i" by (auto simp: map_fst_Inr)
  from lock_released [OF l(2,1) v(2,3)] have v3: "v3 = V_Mutex False True x" .
  note given = guard_returned [OF s3(1,2)]
  let ?w = "\<lparr>wrapper_guard = g, cell_ref = MutexGuard c\<rparr>"
  let ?s = "s4\<lparr>gc_heap := (gc_heap s3)[direct_ptr p := Init (V_Mutex True True x)]\<rparr>"
  have "gc_try_lock c p s3 = Inr (Inl (Poisoned (GcPoisonError ?w)), ?s)"
    "gc_lock_mutex c p s3 = Inr (Inl (GcPoisonError ?w), ?s)"
    using s3 given(2,3) by (simp_all add: gc_try_lock_def gc_lock_mutex_def mutex_guard_try_lock_def
      mutex_guard_lock_def wrap_try_lock_def wrap_lock_def on_value_def guard_deref_def v3 or_wait_def)
  moreover have "wrapper_deref ?w ?s = Inr x"
    using read_cell_update [OF s3(3)] by (simp add: wrapper_deref_def guard_deref_def given(2))
  ultimately show ?thesis by simp
qed

theorem panic_poisons_mutex_witness:
  "\<exists>w s1 s2 s3 e s4. gc_try_lock False (cell_ptr 2) sample_cells = Inr (Inr w, s1) \<and>
     wrapper_deref_mut w (V_Plain 3) s1 = Inr s2 \<and> drop_wrapper True w s2 = Inr s3 \<and>
     gc_lock_mutex False (cell_ptr 2) s3 = Inr (Inl e, s4) \<and> wrapper_deref (into_inner e) s4 = Inr (V_Plain 3)"
proof -
  have "\<exists>w s1 s2 s3. gc_try_lock False (cell_ptr 2) sample_cells = Inr (Inr w, s1) \<and>
     wrapper_deref_mut w (V_Plain 3) s1 = Inr s2 \<and> drop_wrapper True w s2 = Inr s3"
    by (simp add: gc_try_lock_def mutex_guard_try_lock_def wrap_try_lock_def wrapper_deref_mut_def drop_wrapper_def
        sample_cells_eval del: acquire.simps)
  then obtain w s1 s2 s3 where run: "gc_try_lock False (cell_ptr 2) sample_cells = Inr (Inr w, s1)"
    "wrapper_deref_mut w (V_Plain 3) s1 = Inr s2" "drop_wrapper True w s2 = Inr s3" by blast
  have "target_room (cell_ptr 2) sample_cells" by (rule sample_cells_room) simp
  from panic_poisons_mutex [OF this run(1) _ run(2,3), of False] run show ?thesis by auto
qed

end
