(* ===== verification/Formatting.thy ===== *)
theory Formatting
  imports Wrappers
begin

text \<open>
  The \<open>Debug\<close> implementations of \<open>src/smart_ptr\<close> and \<open>src/wrappers.rs\<close>. They go through the \<open>DebugStruct\<close>
  builder of the standard library, which prints on one line for \<open>{:?}\<close> and one field per line, indented,
  for the alternate form \<open>{:#?}\<close>. What a value prints is a function of that flag. The text is written into
  a \<open>String\<close>, which cannot fail.
\<close>

type_synonym debug = "bool \<Rightarrow> string"

subsection \<open>The builder\<close>

text \<open>The \<open>PadAdapter\<close> puts four spaces in front of every line.\<close>

definition NL :: char where "NL = CHR 0x0A"

fun pad_adapter :: "bool \<Rightarrow> string \<Rightarrow> string" where
  "pad_adapter on_newline [] = []"
| "pad_adapter on_newline (c # cs) = (if on_newline then ''    '' else []) @ c # pad_adapter (c = NL) cs"

record debug_struct =
  ds_out :: string
  ds_alternate :: bool
  ds_has_fields :: bool

definition debug_struct :: "string \<Rightarrow> bool \<Rightarrow> debug_struct" where
  "debug_struct name alternate = \<lparr>ds_out = name, ds_alternate = alternate, ds_has_fields = False\<rparr>"

definition field :: "string \<Rightarrow> debug \<Rightarrow> debug_struct \<Rightarrow> debug_struct" where
  "field name value b =
     b\<lparr>ds_out := ds_out b @
         (if ds_alternate b
          then (if ds_has_fields b then [] else '' {'' @ [NL]) @
               pad_adapter True (name @ '': '' @ value True @ '','' @ [NL])
          else (if ds_has_fields b then '', '' else '' { '') @ name @ '': '' @ value False),
       ds_has_fields := True\<rparr>"

definition finish :: "debug_struct \<Rightarrow> string" where
  "finish b =
     ds_out b @ (if ds_has_fields b then if ds_alternate b then ''}'' else '' }'' else [])"

text \<open>A string literal prints in quotes; there is nothing to escape in this one.\<close>

definition snip :: debug where
  "snip alternate = [CHR 0x22] @ ''<SNIP>'' @ [CHR 0x22]"

subsection \<open>The implementations\<close>

text \<open>\<open>fmt_ptr\<close> prints an address and \<open>fmt\<close> is the \<open>Debug\<close> of the value.\<close>

definition gc_debug :: "(nat \<Rightarrow> debug) \<Rightarrow> gc_ptr \<Rightarrow> debug" where
  "gc_debug fmt_ptr g alternate =
     finish (field ''direct_ptr'' (fmt_ptr (direct_ptr g))
       (field ''backing_handle'' snip (debug_struct ''Gc'' alternate)))"

definition deref_gc_debug :: "(nat \<Rightarrow> debug) \<Rightarrow> gc_ptr \<Rightarrow> debug" where
  "deref_gc_debug fmt_ptr g alternate =
     finish (field ''direct_ptr'' (fmt_ptr (direct_ptr g))
       (field ''backing_handle'' snip (debug_struct ''DerefGc'' alternate)))"

definition gc_guard_debug :: "(val \<Rightarrow> debug) \<Rightarrow> gc_guard \<Rightarrow> bool \<Rightarrow> gc_state \<Rightarrow> string result" where
  "gc_guard_debug fmt g alternate s =
     res_bind (guard_deref g s) (\<lambda>v.
       Inr (finish (field ''warrant'' snip (field ''v'' (fmt v) (debug_struct ''GcGuard'' alternate)))))"

definition gc_ref_debug :: "(val \<Rightarrow> debug) \<Rightarrow> gc_wrapper \<Rightarrow> bool \<Rightarrow> gc_state \<Rightarrow> string result" where
  "gc_ref_debug fmt w alternate s =
     res_bind (wrapper_deref w s) (\<lambda>v. Inr (finish (field ''ref'' (fmt v) (debug_struct ''GcRef'' alternate))))"

definition gc_ref_mut_debug :: "(val \<Rightarrow> debug) \<Rightarrow> gc_wrapper \<Rightarrow> bool \<Rightarrow> gc_state \<Rightarrow> string result" where
  "gc_ref_mut_debug fmt w alternate s =
     res_bind (wrapper_deref w s) (\<lambda>v. Inr (finish (field ''ref'' (fmt v) (debug_struct ''GcRefMut'' alternate))))"

definition mutex_guard_debug :: "(val \<Rightarrow> debug) \<Rightarrow> gc_wrapper \<Rightarrow> bool \<Rightarrow> gc_state \<Rightarrow> string result" where
  "mutex_guard_debug fmt w alternate s =
     res_bind (wrapper_deref w s) (\<lambda>v.
       Inr (finish (field ''guarding'' (fmt v) (debug_struct ''GcMutexGuard'' alternate))))"

definition read_guard_debug :: "(val \<Rightarrow> debug) \<Rightarrow> gc_wrapper \<Rightarrow> bool \<Rightarrow> gc_state \<Rightarrow> string result" where
  "read_guard_debug fmt w alternate s =
     res_bind (wrapper_deref w s) (\<lambda>v.
       Inr (finish (field ''guarding'' (fmt v) (debug_struct ''GcRwLockReadGuard'' alternate))))"

definition write_guard_debug :: "(val \<Rightarrow> debug) \<Rightarrow> gc_wrapper \<Rightarrow> bool \<Rightarrow> gc_state \<Rightarrow> string result" where
  "write_guard_debug fmt w alternate s =
     res_bind (wrapper_deref w s) (\<lambda>v.
       Inr (finish (field ''guarding'' (fmt v) (debug_struct ''GcRwLockWriteGuard'' alternate))))"

lemmas debug_defs = gc_ref_debug_def gc_ref_mut_debug_def mutex_guard_debug_def read_guard_debug_def
  write_guard_debug_def gc_guard_debug_def

subsection \<open>What is printed\<close>

lemma finish_one_line:
  "finish (field n v (debug_struct name False)) = name @ '' { '' @ n @ '': '' @ v False @ '' }''"
  "finish (field m w (field n v (debug_struct name False))) =
     name @ '' { '' @ n @ '': '' @ v False @ '', '' @ m @ '': '' @ w False @ '' }''"
  by (simp_all add: finish_def field_def debug_struct_def)

text \<open>Padding loses nothing: taking four characters off the start of every line undoes it.\<close>

fun unpad :: "bool \<Rightarrow> string \<Rightarrow> string" where
  "unpad True (a # b # c # d # cs) = unpad False cs"
| "unpad False (c # cs) = c # unpad (c = NL \<and> cs \<noteq> []) cs"
| "unpad on_newline cs = cs"

lemma unpad_pad_adapter: "unpad (on_newline \<and> s \<noteq> []) (pad_adapter on_newline s) = s"
proof (induction s arbitrary: on_newline)
  case (Cons c cs)
  have "pad_adapter nl cs = [] \<longleftrightarrow> cs = []" for nl by (cases cs) simp_all
  then show ?case using Cons.IH [of "c = NL"] by simp
qed simp

lemma pad_adapter_inject: "pad_adapter True s = pad_adapter True t \<longleftrightarrow> s = t"
proof
  assume eq: "pad_adapter True s = pad_adapter True t"
  have "pad_adapter True u = [] \<longleftrightarrow> u = []" for u by (cases u) simp_all
  with eq have "s = [] \<longleftrightarrow> t = []" by metis
  with eq show "s = t" using unpad_pad_adapter [of True s] unpad_pad_adapter [of True t] by simp
qed simp

lemma finish_inject:
  "finish (field n v (debug_struct name alternate)) = finish (field n w (debug_struct name alternate)) \<longleftrightarrow>
     v alternate = w alternate"
  by (cases alternate) (simp_all add: finish_def field_def debug_struct_def pad_adapter_inject)

text \<open>
  A guard prints what it guards, in either form: two guards of a kind print alike if and only if their
  values do. A pointer prints its address without a look at the data, so a destructor may print a
  \<open>Gc\<close> whose data is gone.
\<close>

theorem debug_shows_value:
  assumes "wrapper_deref w s = Inr v" and "wrapper_deref w' s = Inr v'"
  shows "gc_ref_debug fmt w False s = Inr (''GcRef { ref: '' @ fmt v False @ '' }'')"
    and "mutex_guard_debug fmt w False s = Inr (''GcMutexGuard { guarding: '' @ fmt v False @ '' }'')"
    and "gc_ref_debug fmt w b s = gc_ref_debug fmt w' b s \<longleftrightarrow> fmt v b = fmt v' b"
    and "gc_ref_mut_debug fmt w b s = gc_ref_mut_debug fmt w' b s \<longleftrightarrow> fmt v b = fmt v' b"
    and "mutex_guard_debug fmt w b s = mutex_guard_debug fmt w' b s \<longleftrightarrow> fmt v b = fmt v' b"
    and "read_guard_debug fmt w b s = read_guard_debug fmt w' b s \<longleftrightarrow> fmt v b = fmt v' b"
    and "write_guard_debug fmt w b s = write_guard_debug fmt w' b s \<longleftrightarrow> fmt v b = fmt v' b"
  using assms by (simp_all add: debug_defs finish_inject) (simp_all add: finish_one_line)

lemma pointer_debug:
  "gc_debug fmt_ptr g False =
     ''Gc { backing_handle: '' @ snip False @ '', direct_ptr: '' @ fmt_ptr (direct_ptr g) False @ '' }''"
  "deref_gc_debug fmt_ptr g False =
     ''DerefGc { backing_handle: '' @ snip False @ '', direct_ptr: '' @ fmt_ptr (direct_ptr g) False @ '' }''"
  "gc_debug (\<lambda>p b. ''0x10'') g True =
     ''Gc {'' @ [NL] @ ''    backing_handle: '' @ snip True @ '','' @ [NL] @ ''    direct_ptr: 0x10,'' @ [NL] @ ''}''"
  by (simp_all add: gc_debug_def deref_gc_debug_def finish_one_line)
    (simp add: finish_def field_def debug_struct_def snip_def NL_def)

end
