(* ===== verification/References.thy ===== *)
theory References
  imports Prelude
begin

text \<open>
  \<open>R\<close> and \<open>RMut\<close> (\<open>src/r.rs\<close>): references to memory outside of the collector that may be kept in a
  \<open>Gc\<close>, and \<open>GcSafeWrapper\<close> (\<open>src/marker/gc_safe.rs\<close>). They pass the comparison and hashing traits of
  the referent on. The traits of the referent are parameters; what the standard library documents of
  them is the locale \<open>rust_traits\<close>, which every such wrapper takes over from its referent.
\<close>

subsection \<open>The traits\<close>

datatype rust_ordering = Less | Equal | Greater

text \<open>
  The implementations of \<open>PartialEq\<close>, \<open>PartialOrd\<close>, \<open>Ord\<close> and \<open>Hash\<close> for a type \<open>'v\<close>; a hasher
  is its state.
\<close>

record ('v, 'h) impls =
  t_eq :: "'v \<Rightarrow> 'v \<Rightarrow> bool"
  t_ne :: "'v \<Rightarrow> 'v \<Rightarrow> bool"
  t_partial_cmp :: "'v \<Rightarrow> 'v \<Rightarrow> rust_ordering option"
  t_lt :: "'v \<Rightarrow> 'v \<Rightarrow> bool"
  t_le :: "'v \<Rightarrow> 'v \<Rightarrow> bool"
  t_gt :: "'v \<Rightarrow> 'v \<Rightarrow> bool"
  t_ge :: "'v \<Rightarrow> 'v \<Rightarrow> bool"
  t_cmp :: "'v \<Rightarrow> 'v \<Rightarrow> rust_ordering"
  t_hash :: "'v \<Rightarrow> 'h \<Rightarrow> 'h"

text \<open>What the documentation of the traits asks of them, on the values in \<open>A\<close>.\<close>

locale rust_traits =
  fixes T :: "('v, 'h) impls" and A :: "'v set"
  assumes ne_law: "a \<in> A \<Longrightarrow> b \<in> A \<Longrightarrow> t_ne T a b \<longleftrightarrow> \<not> t_eq T a b"
    and eq_law: "a \<in> A \<Longrightarrow> b \<in> A \<Longrightarrow> t_eq T a b \<longleftrightarrow> t_partial_cmp T a b = Some Equal"
    and lt_law: "a \<in> A \<Longrightarrow> b \<in> A \<Longrightarrow> t_lt T a b \<longleftrightarrow> t_partial_cmp T a b = Some Less"
    and gt_law: "a \<in> A \<Longrightarrow> b \<in> A \<Longrightarrow> t_gt T a b \<longleftrightarrow> t_partial_cmp T a b = Some Greater"
    and le_law: "a \<in> A \<Longrightarrow> b \<in> A \<Longrightarrow> t_le T a b \<longleftrightarrow> t_partial_cmp T a b \<in> {Some Less, Some Equal}"
    and ge_law: "a \<in> A \<Longrightarrow> b \<in> A \<Longrightarrow> t_ge T a b \<longleftrightarrow> t_partial_cmp T a b \<in> {Some Greater, Some Equal}"
    and cmp_law: "a \<in> A \<Longrightarrow> b \<in> A \<Longrightarrow> t_partial_cmp T a b = Some (t_cmp T a b)"
    and dual_law: "a \<in> A \<Longrightarrow> b \<in> A \<Longrightarrow> t_partial_cmp T a b = Some Less \<longleftrightarrow> t_partial_cmp T b a = Some Greater"
    and trans_law: "a \<in> A \<Longrightarrow> b \<in> A \<Longrightarrow> c \<in> A \<Longrightarrow> t_partial_cmp T a b = Some Less \<Longrightarrow>
      t_partial_cmp T b c = Some Less \<Longrightarrow> t_partial_cmp T a c = Some Less"
    and eq_trans_law: "a \<in> A \<Longrightarrow> b \<in> A \<Longrightarrow> c \<in> A \<Longrightarrow> t_eq T a b \<Longrightarrow> t_eq T b c \<Longrightarrow> t_eq T a c"
    and hash_law: "a \<in> A \<Longrightarrow> b \<in> A \<Longrightarrow> t_eq T a b \<Longrightarrow> t_hash T a = t_hash T b"
begin

lemma eq_refl: "a \<in> A \<Longrightarrow> t_eq T a a"
proof -
  assume a: "a \<in> A"
  have "t_cmp T a a \<noteq> Less" "t_cmp T a a \<noteq> Greater"
    using dual_law [OF a a] cmp_law [OF a a] by auto
  then have "t_cmp T a a = Equal" by (cases "t_cmp T a a") simp_all
  then show ?thesis using eq_law [OF a a] cmp_law [OF a a] by simp
qed

lemma eq_sym: "a \<in> A \<Longrightarrow> b \<in> A \<Longrightarrow> t_eq T a b \<Longrightarrow> t_eq T b a"
  using eq_law [of a b] eq_law [of b a] dual_law [of a b] dual_law [of b a] cmp_law [of b a]
  by (cases "t_cmp T b a") auto

lemma le_total: "a \<in> A \<Longrightarrow> b \<in> A \<Longrightarrow> t_le T a b \<or> t_le T b a"
  using le_law [of a b] le_law [of b a] dual_law [of b a] cmp_law [of a b] by (cases "t_cmp T a b") auto

text \<open>A wrapper whose operations are those of the values it leads to has the laws too.\<close>

lemma passed_on:
  assumes "\<And>x. x \<in> B \<Longrightarrow> val x \<in> A"
    and "\<And>x y. x \<in> B \<Longrightarrow> y \<in> B \<Longrightarrow> t_eq U x y = t_eq T (val x) (val y) \<and> t_ne U x y = t_ne T (val x) (val y) \<and>
      t_partial_cmp U x y = t_partial_cmp T (val x) (val y) \<and> t_lt U x y = t_lt T (val x) (val y) \<and>
      t_le U x y = t_le T (val x) (val y) \<and> t_gt U x y = t_gt T (val x) (val y) \<and>
      t_ge U x y = t_ge T (val x) (val y) \<and> t_cmp U x y = t_cmp T (val x) (val y)"
    and "\<And>x. x \<in> B \<Longrightarrow> t_hash U x = t_hash T (val x)"
  shows "rust_traits U B"
proof
  fix a b assume ab: "a \<in> B" "b \<in> B"
  note ops = assms(2) [OF ab] assms(2) [OF ab(2) ab(1)] and A = assms(1) [OF ab(1)] assms(1) [OF ab(2)]
  show "t_ne U a b \<longleftrightarrow> \<not> t_eq U a b" using ops ne_law [OF A] by simp
  show "t_eq U a b \<longleftrightarrow> t_partial_cmp U a b = Some Equal" using ops eq_law [OF A] by simp
  show "t_lt U a b \<longleftrightarrow> t_partial_cmp U a b = Some Less" using ops lt_law [OF A] by simp
  show "t_gt U a b \<longleftrightarrow> t_partial_cmp U a b = Some Greater" using ops gt_law [OF A] by simp
  show "t_le U a b \<longleftrightarrow> t_partial_cmp U a b \<in> {Some Less, Some Equal}" using ops le_law [OF A] by simp
  show "t_ge U a b \<longleftrightarrow> t_partial_cmp U a b \<in> {Some Greater, Some Equal}" using ops ge_law [OF A] by simp
  show "t_partial_cmp U a b = Some (t_cmp U a b)" using ops cmp_law [OF A] by simp
  show "t_partial_cmp U a b = Some Less \<longleftrightarrow> t_partial_cmp U b a = Some Greater" using ops dual_law [OF A] by simp
  show "t_hash U a = t_hash U b" if "t_eq U a b" using that ops hash_law [OF A] assms(3) ab by simp
next
  fix a b c assume abc: "a \<in> B" "b \<in> B" "c \<in> B"
  note ops = assms(2) [OF abc(1,2)] assms(2) [OF abc(2,3)] assms(2) [OF abc(1,3)] and A = abc [THEN assms(1)]
  show "t_partial_cmp U a c = Some Less" if "t_partial_cmp U a b = Some Less" "t_partial_cmp U b c = Some Less"
    using that ops trans_law [OF A] by simp
  show "t_eq U a c" if "t_eq U a b" "t_eq U b c" using that ops eq_trans_law [OF A] by simp
qed

end

text \<open>The answer of an operation that returns.\<close>

definition answer :: "'a \<Rightarrow> 'a result \<Rightarrow> 'a" where
  "answer d r = (case r of Inr a \<Rightarrow> a | Inl e \<Rightarrow> d)"

lemma answer_Inr [simp]: "answer d (Inr a) = a"
  by (simp add: answer_def)

text \<open>Machine integers, whose traits are the standard library's.\<close>

definition u64_cmp :: "u64 \<Rightarrow> u64 \<Rightarrow> rust_ordering" where
  "u64_cmp a b = (if a < b then Less else if a = b then Equal else Greater)"

definition u64_impls :: "(u64, u64 list) impls" where
  "u64_impls = \<lparr>t_eq = (=), t_ne = (\<noteq>), t_partial_cmp = \<lambda>a b. Some (u64_cmp a b), t_lt = (<), t_le = (\<le>),
     t_gt = \<lambda>a b. b < a, t_ge = \<lambda>a b. b \<le> a, t_cmp = u64_cmp, t_hash = \<lambda>a h. h @ [a]\<rparr>"

interpretation u64_laws: rust_traits u64_impls UNIV
  by unfold_locales (auto simp: u64_impls_def u64_cmp_def split: if_splits)

subsection \<open>References\<close>

text \<open>
  Memory outside of the collector: the value at an address, as long as there is one. The marker
  field of the two types has no content.
\<close>

type_synonym 'v memory = "nat \<Rightarrow> 'v option"

record r_ref =
  raw_ptr :: nat

record r_mut =
  raw_mut_ptr :: nat

definition r_new :: "nat \<Rightarrow> r_ref" where
  "r_new r = \<lparr>raw_ptr = r\<rparr>"

definition r_mut_new :: "nat \<Rightarrow> r_mut" where
  "r_mut_new r = \<lparr>raw_mut_ptr = r\<rparr>"

definition read_memory :: "nat \<Rightarrow> 'v memory \<Rightarrow> 'v result" where
  "read_memory p m = (case m p of Some v \<Rightarrow> Inr v | None \<Rightarrow> Inl Undefined)"

definition r_deref :: "r_ref \<Rightarrow> 'v memory \<Rightarrow> 'v result" where
  "r_deref x m = read_memory (raw_ptr x) m"

definition r_mut_deref :: "r_mut \<Rightarrow> 'v memory \<Rightarrow> 'v result" where
  "r_mut_deref x m = read_memory (raw_mut_ptr x) m"

text \<open>What is done with the \<open>&mut\<close> that \<open>deref_mut\<close> gives is \<open>f\<close>.\<close>

definition r_mut_deref_mut :: "('v \<Rightarrow> 'v) \<Rightarrow> r_mut \<Rightarrow> 'v memory \<Rightarrow> 'v memory result" where
  "r_mut_deref_mut f x m = res_bind (read_memory (raw_mut_ptr x) m) (\<lambda>v. Inr (m(raw_mut_ptr x \<mapsto> f v)))"

definition r_clone :: "r_ref \<Rightarrow> r_ref" where
  "r_clone x = \<lparr>raw_ptr = raw_ptr x\<rparr>"

definition r_hash :: "('v, 'h) impls \<Rightarrow> r_ref \<Rightarrow> 'h \<Rightarrow> 'v memory \<Rightarrow> 'h result" where
  "r_hash T x h m = res_bind (r_deref x m) (\<lambda>raw. Inr (t_hash T raw h))"

definition r_mut_hash :: "('v, 'h) impls \<Rightarrow> r_mut \<Rightarrow> 'h \<Rightarrow> 'v memory \<Rightarrow> 'h result" where
  "r_mut_hash T x h m = res_bind (r_mut_deref x m) (\<lambda>raw. Inr (t_hash T raw h))"

text \<open>The comparison methods of \<open>R\<close> dereference both operands and call the method of the same name.\<close>

definition r_both :: "('v \<Rightarrow> 'v \<Rightarrow> 'r) \<Rightarrow> r_ref \<Rightarrow> r_ref \<Rightarrow> 'v memory \<Rightarrow> 'r result" where
  "r_both f x y m = res_bind (r_deref x m) (\<lambda>a. res_bind (r_deref y m) (\<lambda>b. Inr (f a b)))"

definition r_eq :: "('v, 'h) impls \<Rightarrow> r_ref \<Rightarrow> r_ref \<Rightarrow> 'v memory \<Rightarrow> bool result" where
  "r_eq T = r_both (t_eq T)"

definition r_ne :: "('v, 'h) impls \<Rightarrow> r_ref \<Rightarrow> r_ref \<Rightarrow> 'v memory \<Rightarrow> bool result" where
  "r_ne T = r_both (t_ne T)"

definition r_partial_cmp :: "('v, 'h) impls \<Rightarrow> r_ref \<Rightarrow> r_ref \<Rightarrow> 'v memory \<Rightarrow> rust_ordering option result" where
  "r_partial_cmp T = r_both (t_partial_cmp T)"

definition r_lt :: "('v, 'h) impls \<Rightarrow> r_ref \<Rightarrow> r_ref \<Rightarrow> 'v memory \<Rightarrow> bool result" where
  "r_lt T = r_both (t_lt T)"

definition r_le :: "('v, 'h) impls \<Rightarrow> r_ref \<Rightarrow> r_ref \<Rightarrow> 'v memory \<Rightarrow> bool result" where
  "r_le T = r_both (t_le T)"

definition r_gt :: "('v, 'h) impls \<Rightarrow> r_ref \<Rightarrow> r_ref \<Rightarrow> 'v memory \<Rightarrow> bool result" where
  "r_gt T = r_both (t_gt T)"

definition r_ge :: "('v, 'h) impls \<Rightarrow> r_ref \<Rightarrow> r_ref \<Rightarrow> 'v memory \<Rightarrow> bool result" where
  "r_ge T = r_both (t_ge T)"

definition r_cmp :: "('v, 'h) impls \<Rightarrow> r_ref \<Rightarrow> r_ref \<Rightarrow> 'v memory \<Rightarrow> rust_ordering result" where
  "r_cmp T = r_both (t_cmp T)"

definition r_mut_both :: "('v \<Rightarrow> 'v \<Rightarrow> 'r) \<Rightarrow> r_mut \<Rightarrow> r_mut \<Rightarrow> 'v memory \<Rightarrow> 'r result" where
  "r_mut_both f x y m = res_bind (r_mut_deref x m) (\<lambda>a. res_bind (r_mut_deref y m) (\<lambda>b. Inr (f a b)))"

definition r_mut_eq :: "('v, 'h) impls \<Rightarrow> r_mut \<Rightarrow> r_mut \<Rightarrow> 'v memory \<Rightarrow> bool result" where
  "r_mut_eq T = r_mut_both (t_eq T)"

definition r_mut_ne :: "('v, 'h) impls \<Rightarrow> r_mut \<Rightarrow> r_mut \<Rightarrow> 'v memory \<Rightarrow> bool result" where
  "r_mut_ne T = r_mut_both (t_ne T)"

definition r_mut_partial_cmp :: "('v, 'h) impls \<Rightarrow> r_mut \<Rightarrow> r_mut \<Rightarrow> 'v memory \<Rightarrow> rust_ordering option result" where
  "r_mut_partial_cmp T = r_mut_both (t_partial_cmp T)"

definition r_mut_lt :: "('v, 'h) impls \<Rightarrow> r_mut \<Rightarrow> r_mut \<Rightarrow> 'v memory \<Rightarrow> bool result" where
  "r_mut_lt T = r_mut_both (t_lt T)"

definition r_mut_le :: "('v, 'h) impls \<Rightarrow> r_mut \<Rightarrow> r_mut \<Rightarrow> 'v memory \<Rightarrow> bool result" where
  "r_mut_le T = r_mut_both (t_le T)"

definition r_mut_gt :: "('v, 'h) impls \<Rightarrow> r_mut \<Rightarrow> r_mut \<Rightarrow> 'v memory \<Rightarrow> bool result" where
  "r_mut_gt T = r_mut_both (t_gt T)"

definition r_mut_ge :: "('v, 'h) impls \<Rightarrow> r_mut \<Rightarrow> r_mut \<Rightarrow> 'v memory \<Rightarrow> bool result" where
  "r_mut_ge T = r_mut_both (t_ge T)"

definition r_mut_cmp :: "('v, 'h) impls \<Rightarrow> r_mut \<Rightarrow> r_mut \<Rightarrow> 'v memory \<Rightarrow> rust_ordering result" where
  "r_mut_cmp T = r_mut_both (t_cmp T)"

text \<open>The traits of the two types, at a memory.\<close>

definition r_impls :: "('v, 'h) impls \<Rightarrow> 'v memory \<Rightarrow> (r_ref, 'h) impls" where
  "r_impls T m =
     \<lparr>t_eq = \<lambda>x y. answer False (r_eq T x y m), t_ne = \<lambda>x y. answer False (r_ne T x y m),
      t_partial_cmp = \<lambda>x y. answer None (r_partial_cmp T x y m),
      t_lt = \<lambda>x y. answer False (r_lt T x y m), t_le = \<lambda>x y. answer False (r_le T x y m),
      t_gt = \<lambda>x y. answer False (r_gt T x y m), t_ge = \<lambda>x y. answer False (r_ge T x y m),
      t_cmp = \<lambda>x y. answer Equal (r_cmp T x y m), t_hash = \<lambda>x h. answer h (r_hash T x h m)\<rparr>"

definition r_mut_impls :: "('v, 'h) impls \<Rightarrow> 'v memory \<Rightarrow> (r_mut, 'h) impls" where
  "r_mut_impls T m =
     \<lparr>t_eq = \<lambda>x y. answer False (r_mut_eq T x y m), t_ne = \<lambda>x y. answer False (r_mut_ne T x y m),
      t_partial_cmp = \<lambda>x y. answer None (r_mut_partial_cmp T x y m),
      t_lt = \<lambda>x y. answer False (r_mut_lt T x y m), t_le = \<lambda>x y. answer False (r_mut_le T x y m),
      t_gt = \<lambda>x y. answer False (r_mut_gt T x y m), t_ge = \<lambda>x y. answer False (r_mut_ge T x y m),
      t_cmp = \<lambda>x y. answer Equal (r_mut_cmp T x y m), t_hash = \<lambda>x h. answer h (r_mut_hash T x h m)\<rparr>"

definition live_in :: "('w \<Rightarrow> 'v memory \<Rightarrow> 'v result) \<Rightarrow> 'v memory \<Rightarrow> 'v set \<Rightarrow> 'w set" where
  "live_in deref m A = {x. \<exists>v\<in>A. deref x m = Inr v}"

lemma live_in_val: "x \<in> live_in deref m A \<longleftrightarrow> (\<exists>v. deref x m = Inr v \<and> v \<in> A)"
  by (auto simp: live_in_def)

locale traits_at = rust_traits T A for T :: "('v, 'h) impls" and A :: "'v set" +
  fixes m :: "'v memory"
begin

lemma r_laws: "rust_traits (r_impls T m) (live_in r_deref m A)"
proof (rule passed_on)
  fix x assume "x \<in> live_in r_deref m A"
  then show "the (m (raw_ptr x)) \<in> A" "t_hash (r_impls T m) x = t_hash T (the (m (raw_ptr x)))"
    by (auto simp: live_in_val r_deref_def read_memory_def r_impls_def r_hash_def fun_eq_iff split: option.splits)
qed (auto simp: live_in_val r_deref_def read_memory_def r_impls_def r_both_def r_eq_def r_ne_def
    r_partial_cmp_def r_lt_def r_le_def r_gt_def r_ge_def r_cmp_def split: option.splits)

lemma r_mut_laws: "rust_traits (r_mut_impls T m) (live_in r_mut_deref m A)"
proof (rule passed_on)
  fix x assume "x \<in> live_in r_mut_deref m A"
  then show "the (m (raw_mut_ptr x)) \<in> A" "t_hash (r_mut_impls T m) x = t_hash T (the (m (raw_mut_ptr x)))"
    by (auto simp: live_in_val r_mut_deref_def read_memory_def r_mut_impls_def r_mut_hash_def fun_eq_iff
        split: option.splits)
qed (auto simp: live_in_val r_mut_deref_def read_memory_def r_mut_impls_def r_mut_both_def r_mut_eq_def
    r_mut_ne_def r_mut_partial_cmp_def r_mut_lt_def r_mut_le_def r_mut_gt_def r_mut_ge_def r_mut_cmp_def
    split: option.splits)

end

sublocale traits_at \<subseteq> r: rust_traits "r_impls T m" "live_in r_deref m A"
  by (rule r_laws)

sublocale traits_at \<subseteq> r_mut: rust_traits "r_mut_impls T m" "live_in r_mut_deref m A"
  by (rule r_mut_laws)

interpretation u64_at: traits_at u64_impls UNIV "m :: u64 memory" for m
  by unfold_locales

text \<open>What is written through an \<open>RMut\<close> is what every other reference to the same place reads.\<close>

lemma written_is_read:
  assumes "r_mut_deref_mut f x m = Inr m'"
  shows "\<exists>v. r_mut_deref x m = Inr v \<and> r_mut_deref x m' = Inr (f v) \<and>
    r_deref (r_clone (r_new (raw_mut_ptr x))) m' = Inr (f v)"
    and "raw_ptr y \<noteq> raw_mut_ptr x \<Longrightarrow> r_deref y m' = r_deref y m"
  using assms
  by (auto simp: r_mut_deref_mut_def r_mut_deref_def r_deref_def read_memory_def r_clone_def r_new_def
      res_bind_eq_Inr split: option.splits)

subsection \<open>The wrapper that makes a value \<open>GcSafe\<close>\<close>

record 'v gc_safe_wrapper =
  wrapped :: 'v

definition gsw_new :: "'v \<Rightarrow> 'v gc_safe_wrapper" where
  "gsw_new v = \<lparr>wrapped = v\<rparr>"

definition gsw_new_unsafe :: "'v \<Rightarrow> 'v gc_safe_wrapper" where
  "gsw_new_unsafe v = \<lparr>wrapped = v\<rparr>"

definition gsw_take :: "'v gc_safe_wrapper \<Rightarrow> 'v" where
  "gsw_take x = wrapped x"

definition gsw_default :: "'v \<Rightarrow> 'v gc_safe_wrapper" where
  "gsw_default default_value = \<lparr>wrapped = default_value\<rparr>"

definition gsw_deref :: "'v gc_safe_wrapper \<Rightarrow> 'v" where
  "gsw_deref x = wrapped x"

definition gsw_deref_mut :: "('v \<Rightarrow> 'v) \<Rightarrow> 'v gc_safe_wrapper \<Rightarrow> 'v gc_safe_wrapper" where
  "gsw_deref_mut f x = x\<lparr>wrapped := f (wrapped x)\<rparr>"

definition gsw_hash :: "('v, 'h) impls \<Rightarrow> 'v gc_safe_wrapper \<Rightarrow> 'h \<Rightarrow> 'h" where
  "gsw_hash T x h = t_hash T (wrapped x) h"

text \<open>The argument is dereferenced to the value by the compiler.\<close>

definition gsw_eq :: "('v, 'h) impls \<Rightarrow> 'v gc_safe_wrapper \<Rightarrow> 'v gc_safe_wrapper \<Rightarrow> bool" where
  "gsw_eq T x y = t_eq T (wrapped x) (gsw_deref y)"

definition gsw_ne :: "('v, 'h) impls \<Rightarrow> 'v gc_safe_wrapper \<Rightarrow> 'v gc_safe_wrapper \<Rightarrow> bool" where
  "gsw_ne T x y = t_ne T (wrapped x) (gsw_deref y)"

subsection \<open>The properties\<close>

lemma dead_reference:
  assumes "m (raw_ptr r) = None \<or> m (raw_ptr r') = None"
  shows "r_both f r r' m = Inl Undefined"
  using assms by (auto simp: r_both_def r_deref_def read_memory_def split: option.splits)

lemma dead_mut_reference:
  assumes "m (raw_mut_ptr x) = None \<or> m (raw_mut_ptr x') = None"
  shows "r_mut_both f x x' m = Inl Undefined"
  using assms by (auto simp: r_mut_both_def r_mut_deref_def read_memory_def split: option.splits)

lemmas r_ops = r_eq_def r_ne_def r_partial_cmp_def r_lt_def r_le_def r_gt_def r_ge_def r_cmp_def
lemmas r_mut_ops = r_mut_eq_def r_mut_ne_def r_mut_partial_cmp_def r_mut_lt_def r_mut_le_def r_mut_gt_def
  r_mut_ge_def r_mut_cmp_def

text \<open>
  C38: Take a type whose comparison and hashing traits have the laws that the standard library documents, on the
  values in a set \<open>A\<close>. The traits of the \<open>R\<close>s and \<open>RMut\<close>s that point at live memory with a value in \<open>A\<close> have the same
  laws: \<open>ne\<close> is the negation of \<open>eq\<close>, the operators agree with \<open>partial_cmp\<close> and \<open>cmp\<close>, the order is an order, equal
  references hash alike; hashing such a reference hashes the value. For \<open>GcSafeWrapper\<close>, which is compared for equality
  and hashed only, \<open>eq\<close> is an equivalence, \<open>ne\<close> its negation, and equal wrappers hash alike. If the memory behind an \<open>R\<close> or
  an \<open>RMut\<close> is gone, hashing it and each of the eight comparisons with it, as the left or the right operand, reads
  released memory.
\<close>

theorem references_keep_trait_laws:
  fixes T :: "('v, 'h) impls"
  assumes "rust_traits T A"
  shows "rust_traits (r_impls T m) (live_in r_deref m A) \<and>
    rust_traits (r_mut_impls T m) (live_in r_mut_deref m A) \<and>
    (\<forall>v. m (raw_ptr r) = Some v \<longrightarrow> r_hash T r h m = Inr (t_hash T v h)) \<and>
    (\<forall>v. m (raw_mut_ptr x) = Some v \<longrightarrow> r_mut_hash T x h m = Inr (t_hash T v h)) \<and>
    (wrapped a \<in> A \<longrightarrow> wrapped b \<in> A \<longrightarrow> wrapped c \<in> A \<longrightarrow>
       gsw_eq T a a \<and> (gsw_eq T a b \<longrightarrow> gsw_eq T b a) \<and> (gsw_eq T a b \<longrightarrow> gsw_eq T b c \<longrightarrow> gsw_eq T a c) \<and>
       gsw_ne T a b = (\<not> gsw_eq T a b) \<and> (gsw_eq T a b \<longrightarrow> gsw_hash T a = gsw_hash T b)) \<and>
    (m (raw_ptr r) = None \<or> m (raw_ptr r') = None \<longrightarrow>
       r_eq T r r' m = Inl Undefined \<and> r_ne T r r' m = Inl Undefined \<and>
       r_partial_cmp T r r' m = Inl Undefined \<and> r_lt T r r' m = Inl Undefined \<and>
       r_le T r r' m = Inl Undefined \<and> r_gt T r r' m = Inl Undefined \<and>
       r_ge T r r' m = Inl Undefined \<and> r_cmp T r r' m = Inl Undefined) \<and>
    (m (raw_mut_ptr x) = None \<or> m (raw_mut_ptr x') = None \<longrightarrow>
       r_mut_eq T x x' m = Inl Undefined \<and> r_mut_ne T x x' m = Inl Undefined \<and>
       r_mut_partial_cmp T x x' m = Inl Undefined \<and> r_mut_lt T x x' m = Inl Undefined \<and>
       r_mut_le T x x' m = Inl Undefined \<and> r_mut_gt T x x' m = Inl Undefined \<and>
       r_mut_ge T x x' m = Inl Undefined \<and> r_mut_cmp T x x' m = Inl Undefined) \<and>
    (m (raw_ptr r) = None \<longrightarrow> r_hash T r h m = Inl Undefined) \<and>
    (m (raw_mut_ptr x) = None \<longrightarrow> r_mut_hash T x h m = Inl Undefined)"
proof -
  have at: "traits_at T A" by (rule traits_at.intro) (rule assms)
  have gsw: "gsw_eq T a a \<and> (gsw_eq T a b \<longrightarrow> gsw_eq T b a) \<and> (gsw_eq T a b \<longrightarrow> gsw_eq T b c \<longrightarrow> gsw_eq T a c) \<and>
      gsw_ne T a b = (\<not> gsw_eq T a b) \<and> (gsw_eq T a b \<longrightarrow> gsw_hash T a = gsw_hash T b)"
    if "wrapped a \<in> A" "wrapped b \<in> A" "wrapped c \<in> A"
    using rust_traits.eq_refl [OF assms that(1)] rust_traits.eq_sym [OF assms that(1,2)]
      rust_traits.eq_trans_law [OF assms that] rust_traits.ne_law [OF assms that(1,2)] rust_traits.hash_law [OF assms that(1,2)]
    by (auto simp: gsw_eq_def gsw_ne_def gsw_hash_def gsw_deref_def fun_eq_iff)
  have hash: "r_hash T r h m = (case m (raw_ptr r) of None \<Rightarrow> Inl Undefined | Some v \<Rightarrow> Inr (t_hash T v h))"
    "r_mut_hash T x h m = (case m (raw_mut_ptr x) of None \<Rightarrow> Inl Undefined | Some v \<Rightarrow> Inr (t_hash T v h))"
    by (simp_all add: r_hash_def r_mut_hash_def r_deref_def r_mut_deref_def read_memory_def split: option.split)
  show ?thesis
    by (intro conjI; (rule traits_at.r_laws [OF at] traits_at.r_mut_laws [OF at])?;
      (simp add: hash r_ops r_mut_ops dead_reference dead_mut_reference)?; (use gsw in blast)?)
qed

definition two_places :: "u64 memory" where
  "two_places = [1 \<mapsto> 5, 2 \<mapsto> 5]"

theorem references_keep_trait_laws_witness:
  "rust_traits (r_impls u64_impls two_places) (live_in r_deref two_places UNIV) \<and>
   r_new 1 \<in> live_in r_deref two_places UNIV \<and> r_eq u64_impls (r_new 1) (r_new 2) two_places = Inr True \<and>
   r_hash u64_impls (r_new 1) [] two_places = Inr [5] \<and>
   r_cmp u64_impls (r_new 1) (r_new 3) two_places = Inl Undefined \<and>
   r_mut_le u64_impls (r_mut_new 3) (r_mut_new 2) two_places = Inl Undefined \<and>
   gsw_eq u64_impls (gsw_new 8) (gsw_new 8)"
proof -
  note laws = references_keep_trait_laws [OF u64_laws.rust_traits_axioms, where m = two_places and r = "r_new 1" and r' = "r_new 3"
      and x = "r_mut_new 3" and x' = "r_mut_new 2" and a = "gsw_new 8" and b = "gsw_new 8" and c = "gsw_new 8" and h = "[]"]
  then have "rust_traits (r_impls u64_impls two_places) (live_in r_deref two_places UNIV)"
    "r_cmp u64_impls (r_new 1) (r_new 3) two_places = Inl Undefined"
    "r_mut_le u64_impls (r_mut_new 3) (r_mut_new 2) two_places = Inl Undefined"
    "gsw_eq u64_impls (gsw_new 8) (gsw_new 8)"
    "r_hash u64_impls (r_new 1) [] two_places = Inr (t_hash u64_impls 5 [])"
    by (simp_all add: r_new_def r_mut_new_def two_places_def)
  then show ?thesis
    by (simp add: live_in_val r_deref_def read_memory_def r_new_def r_eq_def r_both_def u64_impls_def two_places_def)
qed

end
