(* ===== verification/Pointer_Traits.thy ===== *)
theory Pointer_Traits
  imports Client_Safety Wrappers References
begin

text \<open>
  The remaining traits of \<open>Gc\<close> (\<open>src/smart_ptr/gc.rs\<close>), \<open>DerefGc\<close> (\<open>src/smart_ptr/deref_gc.rs\<close>) and
  \<open>GcGuard\<close>. Those of \<open>Gc\<close> look at the value under a guard and give the guard back; those of
  \<open>DerefGc\<close> look at it directly. Either way the pointer has the traits of its value, and the
  collector is left as it was.
\<close>

text \<open>The methods of the value and the state of a hasher or formatter are arguments.\<close>

definition gc_look :: "('h \<Rightarrow> val \<Rightarrow> 'h) \<Rightarrow> 'h \<Rightarrow> gc_ptr \<Rightarrow> gc_state \<Rightarrow> ('h \<times> gc_state) result" where
  "gc_look f h g s =
     res_bind (gc_get g s) (\<lambda>(a, s1).
     res_bind (guard_deref a s1) (\<lambda>v.
     res_bind (drop_guard a s1) (\<lambda>s2. Inr (f h v, s2))))"

definition gc_hash :: "(val \<Rightarrow> 'h \<Rightarrow> 'h) \<Rightarrow> gc_ptr \<Rightarrow> 'h \<Rightarrow> gc_state \<Rightarrow> ('h \<times> gc_state) result" where
  "gc_hash hash g h s = gc_look (\<lambda>h v. hash v h) h g s"

definition gc_display :: "(val \<Rightarrow> 'f \<Rightarrow> 'f) \<Rightarrow> gc_ptr \<Rightarrow> 'f \<Rightarrow> gc_state \<Rightarrow> ('f \<times> gc_state) result" where
  "gc_display fmt g f s = gc_look (\<lambda>f v. fmt v f) f g s"

definition gc_fmt_pointer :: "(nat \<Rightarrow> 'f \<Rightarrow> 'f) \<Rightarrow> gc_ptr \<Rightarrow> 'f \<Rightarrow> 'f" where
  "gc_fmt_pointer fmt g f = fmt (direct_ptr g) f"

definition gc_default :: "val \<Rightarrow> gc_state \<Rightarrow> gc_ptr \<times> gc_state" where
  "gc_default default_value s = gc_new default_value s"

definition guard_as_ref :: "gc_guard \<Rightarrow> gc_state \<Rightarrow> val result" where
  "guard_as_ref gd s = guard_deref gd s"

definition guard_borrow :: "gc_guard \<Rightarrow> gc_state \<Rightarrow> val result" where
  "guard_borrow gd s = guard_deref gd s"

definition deref_gc_hash :: "(val \<Rightarrow> 'h \<Rightarrow> 'h) \<Rightarrow> gc_ptr \<Rightarrow> 'h \<Rightarrow> gc_state \<Rightarrow> 'h result" where
  "deref_gc_hash hash g h s = res_bind (deref_gc_deref g s) (\<lambda>v. Inr (hash v h))"

definition deref_gc_display :: "(val \<Rightarrow> 'f \<Rightarrow> 'f) \<Rightarrow> gc_ptr \<Rightarrow> 'f \<Rightarrow> gc_state \<Rightarrow> 'f result" where
  "deref_gc_display fmt g f s = res_bind (deref_gc_deref g s) (\<lambda>v. Inr (fmt v f))"

definition deref_gc_fmt_pointer :: "(nat \<Rightarrow> 'f \<Rightarrow> 'f) \<Rightarrow> gc_ptr \<Rightarrow> 'f \<Rightarrow> 'f" where
  "deref_gc_fmt_pointer fmt g f = fmt (direct_ptr g) f"

definition deref_gc_default :: "val \<Rightarrow> gc_state \<Rightarrow> gc_ptr \<times> gc_state" where
  "deref_gc_default default_value s = deref_gc_new default_value s"

subsection \<open>Looking through a pointer\<close>

definition guards_room :: "gc_client \<Rightarrow> bool" where
  "guards_room c \<longleftrightarrow> length (warrants c) < 2 ^ 64 - 3"

abbreviation pointee :: "gc_client \<Rightarrow> internal_ref \<Rightarrow> val" where
  "pointee c \<equiv> (\<lambda>r. block_val (sys c) (target (sys c) (item_v r)))"

text \<open>A guard is got, gives the value, and is given back.\<close>

lemma guard_round:
  assumes inv: "client_inv c" and gc: "is_gc c r" and room: "length (warrants c) < 2 ^ 64 - 2"
  obtains gd c1 where "gc_get (ptr_at (sys c) r) (sys c) = Inr (gd, sys c1)" and "client_inv c1"
    and "length (warrants c1) = Suc (length (warrants c))" and "drop_guard gd (sys c1) = Inr (sys c)"
    and "gc_heap (sys c1) = gc_heap (sys c)"
    and "\<forall>s. gc_heap s = gc_heap (sys c) \<longrightarrow> guard_deref gd s = Inr (pointee c r)"
    and "ptr_at (sys c1) = ptr_at (sys c)" and "is_gc c1 = is_gc c"
    and "pointee c1 = pointee c"
proof -
  let ?s = "sys c" and ?d = "target (sys c) (item_v r)"
  have cnt: "count (mset (warrants c)) ?d < 2 ^ 64 - 2"
    using count_le_size [of "mset (warrants c)" ?d] room by simp
  note vis = visible_target [OF inv is_gc_visible [OF gc]]
  note fixed = is_gc_data [OF gc]
  obtain s' where run: "get_data_warrant r ?s = Inr (?d, s')"
    and inv': "gc_inv (pending ?s) (held c) (?d # warrants c) s'"
    and s': "s' = upd_data ?d (\<lambda>x. x\<lparr>d_lockout := \<lparr>lk_count = lk_count (d_lockout (gc_datas ?s ! ?d)) + 1\<rparr>\<rparr>) ?s"
    using gc_inv_get_warrant [OF _ _ fixed(2) cnt, of "pending ?s" "held c"] inv is_gc_visible [OF gc]
    by (auto simp: client_inv_def visible_def)
  let ?c1 = "c\<lparr>sys := s', warrants := ?d # warrants c\<rparr>"
  let ?gd = "\<lparr>gc_ptr = ptr_at ?s r, guard_warrant = ?d\<rparr>"
  have get: "gc_get (ptr_at ?s r) ?s = Inr (?gd, s')" using run by (simp add: gc_get_def ptr_at_def)
  have "same_control ?s s'" unfolding s' by (rule upd_data_control)
  from client_invI [OF inv this inv'] have "client_inv ?c1" by simp
  moreover have lk: "?d < length (gc_datas ?s)" "lk_room (d_lockout (gc_datas ?s ! ?d))"
  proof -
    show "?d < length (gc_datas ?s)" using vis by (simp add: data_ok_def)
    have "unat (lk_count (d_lockout (gc_datas ?s ! ?d))) = count (mset (warrants c)) ?d"
      using inv vis by (simp add: client_inv_def gc_invx_def warrants_ok_def)
    then show "lk_room (d_lockout (gc_datas ?s ! ?d))" using cnt by (simp add: lk_room_def lk_warrants_def unat_signpost)
  qed
  then have "target_room (ptr_at ?s r) ?s" using fixed(1) by (simp add: target_room_def ptr_at_def)
  from guard_returned(1) [OF get this] have "drop_guard ?gd s' = Inr ?s" .
  moreover have "\<forall>s. gc_heap s = gc_heap ?s \<longrightarrow> guard_deref ?gd s = Inr (pointee c r)"
    using vis by (simp add: guard_deref_def ptr_at_def read_cell_def data_ok_def)
  moreover have al: "addr s' = addr ?s" using lk(1) by (simp add: addr_def fun_eq_iff s' upd_data_nth)
  then have bv: "block_val s' = block_val ?s" by (simp add: block_val_def fun_eq_iff) (simp add: s')
  have tg: "target s' = target ?s" by (rule target_cong) (simp_all add: s')
  have "tracked s' = tracked ?s" by (simp add: tracked_def s')
  then have "is_gc ?c1 x = is_gc c x" for x by (simp add: is_gc_def visible_def bv) (simp add: s')
  then have "is_gc ?c1 = is_gc c" by (simp add: fun_eq_iff)
  moreover have "ptr_at s' = ptr_at ?s" "pointee ?c1 = pointee c" by (simp_all add: fun_eq_iff ptr_at_def tg al bv)
  ultimately show thesis using get by (intro that [of ?gd ?c1]) (simp_all add: s')
qed

lemma gc_look_transparent:
  assumes "client_inv c" and "is_gc c r" and "guards_room c"
  shows "gc_look f h (ptr_at (sys c) r) (sys c) = Inr (f h (pointee c r), sys c)"
proof -
  have "length (warrants c) < 2 ^ 64 - 2" using assms(3) by (simp add: guards_room_def)
  then obtain gd c1 where "gc_get (ptr_at (sys c) r) (sys c) = Inr (gd, sys c1)"
    and "client_inv c1" and "length (warrants c1) = Suc (length (warrants c))"
    and "drop_guard gd (sys c1) = Inr (sys c)" and "gc_heap (sys c1) = gc_heap (sys c)"
    and "\<forall>s. gc_heap s = gc_heap (sys c) \<longrightarrow> guard_deref gd s = Inr (pointee c r)"
    and "ptr_at (sys c1) = ptr_at (sys c)" and "is_gc c1 = is_gc c"
    and "pointee c1 = pointee c"
    by (rule guard_round [OF assms(1,2)])
  then show ?thesis by (simp add: gc_look_def)
qed

lemma gc_compare_transparent:
  assumes "client_inv c" and "is_gc c x" and "is_gc c y" and "guards_room c"
  shows "gc_compare f (ptr_at (sys c) x) (ptr_at (sys c) y) (sys c) = Inr (f (pointee c x) (pointee c y), sys c)"
proof -
  let ?s = "sys c"
  have "length (warrants c) < 2 ^ 64 - 2" using assms(4) by (simp add: guards_room_def)
  then obtain a c1 where a: "gc_get (ptr_at (sys c) x) (sys c) = Inr (a, sys c1)"
      "client_inv c1" "length (warrants c1) = Suc (length (warrants c))"
      "drop_guard a (sys c1) = Inr (sys c)" "gc_heap (sys c1) = gc_heap (sys c)"
      "\<forall>s. gc_heap s = gc_heap (sys c) \<longrightarrow> guard_deref a s = Inr (pointee c x)"
      "ptr_at (sys c1) = ptr_at (sys c)" "is_gc c1 = is_gc c"
      "pointee c1 = pointee c"
    by (rule guard_round [OF assms(1,2)])
  have "is_gc c1 y" "length (warrants c1) < 2 ^ 64 - 2" using a assms(3,4) by (simp_all add: guards_room_def)
  then obtain b c2 where b: "gc_get (ptr_at (sys c1) y) (sys c1) = Inr (b, sys c2)"
      "client_inv c2" "length (warrants c2) = Suc (length (warrants c1))"
      "drop_guard b (sys c2) = Inr (sys c1)" "gc_heap (sys c2) = gc_heap (sys c1)"
      "\<forall>s. gc_heap s = gc_heap (sys c1) \<longrightarrow> guard_deref b s = Inr (pointee c1 y)"
      "ptr_at (sys c2) = ptr_at (sys c1)" "is_gc c2 = is_gc c1"
      "pointee c2 = pointee c1"
    by (rule guard_round [OF a(2)])
  have "pointee c1 y = pointee c y" using a(9) by (rule fun_cong)
  then show ?thesis using a b by (simp add: gc_compare_def)
qed

lemma deref_transparent:
  assumes "client_inv c" and "is_gc c r"
  shows "deref_gc_deref (ptr_at (sys c) r) (sys c) = Inr (pointee c r)"
  using visible_target [OF assms(1) is_gc_visible [OF assms(2)]]
  by (simp add: deref_gc_deref_def ptr_at_def read_cell_def data_ok_def)

text \<open>
  C28: In every state a client can reach, with room for two more guards, each comparison method, \<open>hash\<close>
  and \<open>fmt\<close> of a \<open>Gc\<close> returns what that of the value returns and leaves the collector as it was, its guards
  given back; those of a \<open>DerefGc\<close> return the same.
\<close>

theorem pointer_traits_transparent:
  fixes cmp :: "val \<Rightarrow> val \<Rightarrow> 'r" and hash :: "val \<Rightarrow> 'h \<Rightarrow> 'h" and fmt :: "val \<Rightarrow> 'f \<Rightarrow> 'f"
  assumes "client_reachable c" and "is_gc c x" and "is_gc c y" and "guards_room c"
  shows "gc_compare cmp (ptr_at (sys c) x) (ptr_at (sys c) y) (sys c) = Inr (cmp (pointee c x) (pointee c y), sys c) \<and>
    gc_hash hash (ptr_at (sys c) x) h (sys c) = Inr (hash (pointee c x) h, sys c) \<and>
    gc_display fmt (ptr_at (sys c) x) f (sys c) = Inr (fmt (pointee c x) f, sys c) \<and>
    deref_gc_compare cmp (ptr_at (sys c) x) (ptr_at (sys c) y) (sys c) = Inr (cmp (pointee c x) (pointee c y)) \<and>
    deref_gc_hash hash (ptr_at (sys c) x) h (sys c) = Inr (hash (pointee c x) h) \<and>
    deref_gc_display fmt (ptr_at (sys c) x) f (sys c) = Inr (fmt (pointee c x) f)"
proof -
  have inv: "client_inv c" by (rule client_reachable_inv [OF assms(1)])
  show ?thesis
    by (simp add: gc_compare_transparent [OF inv assms(2-4)] gc_look_transparent [OF inv assms(2,4)]
        deref_transparent [OF inv assms(2)] deref_transparent [OF inv assms(3)]
        gc_hash_def gc_display_def deref_gc_compare_def deref_gc_hash_def deref_gc_display_def)
qed

text \<open>The first pointer of a program.\<close>

lemma one_pointer:
  obtains c r where "client_reachable c" and "is_gc c r" and "guards_room c" and "pointee c r = V_Plain 7"
proof -
  obtain g s where new: "gc_new (V_Plain 7) collector_new = (g, s)"
    and re: "client_reachable \<lparr>sys = s, held = [backing_handle g], warrants = []\<rparr>" (is "client_reachable ?c")
    and gc: "is_gc \<lparr>sys = s, held = [backing_handle g], warrants = []\<rparr> (backing_handle g)"
    by (rule first_pointer [of "V_Plain 7"]) (simp_all add: at_most_one_panic_def)
  have "pointee ?c (backing_handle g) = V_Plain 7" using first_gc [OF new] by simp
  then show thesis using re gc by (intro that [of ?c "backing_handle g"]) (simp_all add: guards_room_def)
qed

theorem pointer_traits_transparent_witness:
  "\<exists>c r. client_reachable c \<and> pointee c r = V_Plain 7 \<and>
     gc_compare (=) (ptr_at (sys c) r) (ptr_at (sys c) r) (sys c) = Inr (True, sys c) \<and>
     gc_hash (\<lambda>v h. v # h) (ptr_at (sys c) r) [] (sys c) = Inr ([V_Plain 7], sys c)"
proof -
  obtain c r where c: "client_reachable c" "is_gc c r" "guards_room c" "pointee c r = V_Plain 7" by (rule one_pointer)
  have "gc_compare (=) (ptr_at (sys c) r) (ptr_at (sys c) r) (sys c) = Inr (True, sys c)"
    "gc_hash (\<lambda>v h. v # h) (ptr_at (sys c) r) [] (sys c) = Inr ([V_Plain 7], sys c)"
    using pointer_traits_transparent [OF c(1,2,2,3), where cmp = "(=)" and hash = "\<lambda>v h. v # h" and h = "[]"
        and fmt = "\<lambda>v f. f" and f = "()"] c(4)
    by simp_all
  with c show ?thesis by blast
qed

subsection \<open>The laws of the traits\<close>

definition gc_impls :: "(val, 'h) impls \<Rightarrow> gc_state \<Rightarrow> (gc_ptr, 'h) impls" where
  "gc_impls T s =
     (let ask = (\<lambda>f x y. res_bind (gc_compare f x y s) (\<lambda>(b, _). Inr b))
      in \<lparr>t_eq = \<lambda>x y. answer False (ask (t_eq T) x y), t_ne = \<lambda>x y. answer False (ask (t_ne T) x y),
          t_partial_cmp = \<lambda>x y. answer None (res_bind (gc_compare (t_partial_cmp T) x y s) (\<lambda>(b, _). Inr b)),
          t_lt = \<lambda>x y. answer False (ask (t_lt T) x y), t_le = \<lambda>x y. answer False (ask (t_le T) x y),
          t_gt = \<lambda>x y. answer False (ask (t_gt T) x y), t_ge = \<lambda>x y. answer False (ask (t_ge T) x y),
          t_cmp = \<lambda>x y. answer Equal (res_bind (gc_compare (t_cmp T) x y s) (\<lambda>(b, _). Inr b)),
          t_hash = \<lambda>x h. answer h (res_bind (gc_hash (t_hash T) x h s) (\<lambda>(b, _). Inr b))\<rparr>)"

definition deref_gc_impls :: "(val, 'h) impls \<Rightarrow> gc_state \<Rightarrow> (gc_ptr, 'h) impls" where
  "deref_gc_impls T s =
     \<lparr>t_eq = \<lambda>x y. answer False (deref_gc_compare (t_eq T) x y s),
      t_ne = \<lambda>x y. answer False (deref_gc_compare (t_ne T) x y s),
      t_partial_cmp = \<lambda>x y. answer None (deref_gc_compare (t_partial_cmp T) x y s),
      t_lt = \<lambda>x y. answer False (deref_gc_compare (t_lt T) x y s),
      t_le = \<lambda>x y. answer False (deref_gc_compare (t_le T) x y s),
      t_gt = \<lambda>x y. answer False (deref_gc_compare (t_gt T) x y s),
      t_ge = \<lambda>x y. answer False (deref_gc_compare (t_ge T) x y s),
      t_cmp = \<lambda>x y. answer Equal (deref_gc_compare (t_cmp T) x y s),
      t_hash = \<lambda>x h. answer h (deref_gc_hash (t_hash T) x h s)\<rparr>"

text \<open>The pointers of a client to values in \<open>A\<close>.\<close>

definition pointers_to :: "gc_client \<Rightarrow> val set \<Rightarrow> gc_ptr set" where
  "pointers_to c A = ptr_at (sys c) ` {r. is_gc c r \<and> pointee c r \<in> A}"

definition seen_val :: "gc_state \<Rightarrow> gc_ptr \<Rightarrow> val" where
  "seen_val s g = answer (V_Plain 0) (deref_gc_deref g s)"

lemma seen_val_ptr_at: "client_inv c \<Longrightarrow> is_gc c r \<Longrightarrow> seen_val (sys c) (ptr_at (sys c) r) = pointee c r"
  by (simp add: seen_val_def deref_transparent)

text \<open>
  C29: Where the implementations of \<open>PartialEq\<close>, \<open>PartialOrd\<close>, \<open>Ord\<close> and \<open>Hash\<close> for the values have the
  laws the standard library asks for, those for the \<open>Gc\<close>s and \<open>DerefGc\<close>s to them have the same laws, in
  every state a client can reach: such pointers can be keys of a map or be sorted as long as the values
  do not change.
\<close>

theorem pointers_keep_trait_laws:
  assumes "rust_traits T A" and "client_reachable c" and "guards_room c"
  shows "rust_traits (gc_impls T (sys c)) (pointers_to c A) \<and>
    rust_traits (deref_gc_impls T (sys c)) (pointers_to c A)"
proof -
  have inv: "client_inv c" by (rule client_reachable_inv [OF assms(2)])
  have hash: "gc_hash (t_hash T) (ptr_at (sys c) r) h (sys c) = Inr (t_hash T (pointee c r) h, sys c)" if "is_gc c r" for r h
    using gc_look_transparent [OF inv that assms(3)] by (simp add: gc_hash_def)
  have seen: "seen_val (sys c) x \<in> A" if "x \<in> pointers_to c A" for x
    using that seen_val_ptr_at [OF inv] by (auto simp: pointers_to_def)
  have "rust_traits (gc_impls T (sys c)) (pointers_to c A)"
    by (rule rust_traits.passed_on [OF assms(1), where val = "seen_val (sys c)"])
      (auto simp: seen pointers_to_def gc_impls_def Let_def gc_compare_transparent [OF inv _ _ assms(3)] hash
        seen_val_ptr_at [OF inv] fun_eq_iff)
  moreover have "rust_traits (deref_gc_impls T (sys c)) (pointers_to c A)"
    by (rule rust_traits.passed_on [OF assms(1), where val = "seen_val (sys c)"])
      (auto simp: seen pointers_to_def deref_gc_impls_def deref_gc_compare_def deref_gc_hash_def
        deref_transparent [OF inv] seen_val_ptr_at [OF inv] fun_eq_iff)
  ultimately show ?thesis ..
qed

text \<open>The traits of plain values, as those of \<open>u64\<close>.\<close>

definition plain_no :: "val \<Rightarrow> u64" where
  "plain_no v = (case v of V_Plain n \<Rightarrow> of_nat n | _ \<Rightarrow> 0)"

definition plain_impls :: "(val, u64 list) impls" where
  "plain_impls =
     \<lparr>t_eq = \<lambda>a b. plain_no a = plain_no b, t_ne = \<lambda>a b. plain_no a \<noteq> plain_no b,
      t_partial_cmp = \<lambda>a b. Some (u64_cmp (plain_no a) (plain_no b)), t_lt = \<lambda>a b. plain_no a < plain_no b,
      t_le = \<lambda>a b. plain_no a \<le> plain_no b, t_gt = \<lambda>a b. plain_no b < plain_no a,
      t_ge = \<lambda>a b. plain_no b \<le> plain_no a, t_cmp = \<lambda>a b. u64_cmp (plain_no a) (plain_no b),
      t_hash = \<lambda>a h. h @ [plain_no a]\<rparr>"

interpretation plain_laws: rust_traits plain_impls UNIV
  by (rule u64_laws.passed_on [where val = plain_no]) (simp_all add: plain_impls_def u64_impls_def)

theorem pointers_keep_trait_laws_witness:
  "\<exists>c r. client_reachable c \<and> is_gc c r \<and> ptr_at (sys c) r \<in> pointers_to c UNIV \<and>
     rust_traits (gc_impls plain_impls (sys c)) (pointers_to c UNIV)"
proof -
  obtain c r where c: "client_reachable c" "is_gc c r" "guards_room c" by (rule one_pointer)
  from pointers_keep_trait_laws [OF plain_laws.rust_traits_axioms c(1,3)] c show ?thesis
    by (auto simp: pointers_to_def)
qed

end
