(* ===== verification/Library_Api.thy ===== *)
theory Library_Api
  imports Client_Safety
begin

text \<open>
  The functions of the crate root (\<open>src/lib.rs\<close>), which pass their calls on to the one collector of the
  program, and the small methods of \<open>InternalGcRef\<close>, \<open>CLLItem\<close> and \<open>GcData\<close>
  (\<open>src/collector/mod.rs\<close>, \<open>src/concurrency/chunked_ll.rs\<close>, \<open>src/collector/data.rs\<close>). What the two counters
  tell a program about the collector.
\<close>

definition number_of_tracked_allocations :: "gc_state \<Rightarrow> usize" where
  "number_of_tracked_allocations s = tracked_data_count s"

definition number_of_active_handles :: "gc_state \<Rightarrow> usize" where
  "number_of_active_handles s = handle_count s"

definition lib_collect :: "gc_state \<Rightarrow> gc_state result" where
  "lib_collect s = collect s"

definition lib_synchronize_destructors :: "gc_state \<Rightarrow> gc_state result" where
  "lib_synchronize_destructors s = synchronize_destructors s"

definition collector_set_gc_trigger_percent :: "f32 \<Rightarrow> gc_state \<Rightarrow> gc_state" where
  "collector_set_gc_trigger_percent new_trigger_percent s =
     s\<lparr>trigger := set_trigger_percent new_trigger_percent (trigger s)\<rparr>"

text \<open>An \<open>InternalGcRef\<close> is the item of its handle, and is cloned as one.\<close>

definition internal_gc_ref_new :: "nat cll_item \<Rightarrow> internal_ref" where
  "internal_gc_ref_new handle_ref = handle_ref"

definition cll_item_clone :: "'p cll_item \<Rightarrow> 'p cll_item" where
  "cll_item_clone it = \<lparr>item_v = item_v it, item_from = item_from it, item_idx = item_idx it\<rparr>"

definition invalidate :: "internal_ref \<Rightarrow> gc_state \<Rightarrow> gc_state" where
  "invalidate r s = drop_handle r s"

definition data_scan_ptr :: "gc_data \<Rightarrow> nat" where
  "data_scan_ptr d = scan_ptr (d_allocation d)"

definition provide :: "gc_data \<Rightarrow> lockout" where
  "provide d = d_lockout d"

subsection \<open>The counters\<close>

lemma distinct_length_card: "distinct xs \<Longrightarrow> length xs = card (set xs)"
  by (simp add: distinct_card)

text \<open>
  C39: Whenever a client looks, \<open>number_of_tracked_allocations\<close> is the number of tracked data, and
  \<open>number_of_active_handles\<close> that of the registered handles, modulo the size of a machine word. Every
  pointer the client holds, and every one inside of tracked data or of data that waits for the dropper,
  is counted as one handle of its own.
\<close>

theorem counters_exact:
  assumes "client_reachable c"
  shows "unat (number_of_tracked_allocations (sys c)) = card (tracked (sys c)) \<and>
    number_of_active_handles (sys c) = of_nat (card (live_handles (sys c))) \<and>
    length (refs (sys c) (pending (sys c)) (held c)) \<le> card (live_handles (sys c))"
proof -
  let ?s = "sys c"
  have inv: "client_inv c" by (rule client_reachable_inv [OF assms])
  then have g: "gc_inv (pending ?s) (held c) (warrants c) ?s" and small: "length (par_iter (data_list ?s)) < 2 ^ 64"
    by (simp_all add: client_inv_def idle_def)
  have lists: "cll_inv (data_list ?s)" "cll_inv (handle_list ?s)" "distinct (par_iter (handle_list ?s))"
    using g by (simp_all add: gc_invx_def lists_ok_def)
  have data: "distinct (par_iter (data_list ?s))" using g by (simp add: gc_invx_def datas_ok_def all_data_def)
  have "unat (number_of_tracked_allocations ?s) = length (par_iter (data_list ?s))"
    using small
    by (simp add: number_of_tracked_allocations_def tracked_data_count_def cs.count_law [OF lists(1)] unsigned_of_nat
        take_bit_nat_eq_self)
  moreover have "number_of_active_handles ?s = of_nat (length (par_iter (handle_list ?s)))"
    by (simp add: number_of_active_handles_def handle_count_def cs.count_law [OF lists(2)])
  moreover have "length (refs ?s (pending ?s) (held c)) \<le> card (live_handles ?s)"
  proof -
    have "distinct (map item_v (refs ?s (pending ?s) (held c)))" using g by (simp add: gc_invx_def refs_ok_def)
    moreover have "set (map item_v (refs ?s (pending ?s) (held c))) \<subseteq> live_handles ?s"
      using refs_live(2) [OF g] by auto
    moreover have "finite (live_handles ?s)" by (simp add: live_handles_def)
    ultimately show ?thesis using card_mono distinct_length_card by (metis length_map)
  qed
  ultimately show ?thesis
    using distinct_length_card [OF data] distinct_length_card [OF lists(3)] by (simp add: tracked_def live_handles_def)
qed

theorem counters_exact_witness:
  "\<exists>c g. client_reachable c \<and> held c = [g] \<and> unat (number_of_tracked_allocations (sys c)) = 1 \<and>
     number_of_active_handles (sys c) = 1"
proof -
  obtain g s where new: "gc_new (V_Plain 7) collector_new = (g, s)"
    and re: "client_reachable \<lparr>sys = s, held = [backing_handle g], warrants = []\<rparr>"
    by (rule first_pointer [of "V_Plain 7"]) (simp_all add: at_most_one_panic_def)
  have "unat (number_of_tracked_allocations s) = 1" "number_of_active_handles s = 1"
    using counters_exact [OF re] first_gc(2,3) [OF new] by simp_all
  with re show ?thesis by (metis gc_client.select_convs(1,2))
qed

end
