(* ===== verification/Markers.thy ===== *)
theory Markers
  imports Values
begin

text \<open>
  The marker traits \<open>GcSafe\<close>, \<open>GcDrop\<close> and \<open>GcDeref\<close> (\<open>src/marker\<close>) and the types that implement
  them, \<open>Scan\<close> and \<open>Finalize\<close> (\<open>src/std_impls\<close>, \<open>src/r.rs\<close>, \<open>src/atomic.rs\<close>,
  \<open>src/smart_ptr\<close>). A type is a tree of the constructors the crate has implementations for; a
  trait is the predicate its \<open>impl\<close> blocks define, each clause being the bounds of one block. A
  type that is its own component (a list node, say) is a user's struct, for which the derive
  macro of another crate makes the blocks; such types are not covered.

  \<open>T_Value\<close> says whether the primitive type is \<open>Copy\<close> (\<open>String\<close> and \<open>RandomState\<close> are not),
  \<open>T_R\<close> whether the lifetime is \<open>'static\<close>. The five list-like collections are one constructor.
\<close>

datatype rty =
    T_Value bool
  | T_Gc rty
  | T_DerefGc rty
  | T_AtomicGc rty
  | T_Static rty
  | T_R bool rty
  | T_RMut rty
  | T_Cell rty
  | T_RefCell rty
  | T_Mutex rty
  | T_RwLock rty
  | T_Option rty
  | T_Result rty rty
  | T_Vec_Like rty
  | T_BTreeMap rty rty
  | T_HashMap rty rty rty
  | T_HashSet rty rty
  | T_Tuple "rty list"
  | T_Arc rty
  | T_GcSafeWrapper rty

text \<open>\<open>Send\<close>, \<open>Sync\<close> and \<open>Copy\<close>, by the standard library's rules and the crate's own implementations.\<close>

fun send :: "rty \<Rightarrow> bool" and sync :: "rty \<Rightarrow> bool" where
  "send (T_Value c) \<longleftrightarrow> True"
| "send (T_Gc t) \<longleftrightarrow> sync t \<and> send t"
| "send (T_DerefGc t) \<longleftrightarrow> sync t \<and> send t"
| "send (T_AtomicGc t) \<longleftrightarrow> sync t \<and> send t"
| "send (T_Static t) \<longleftrightarrow> sync t"
| "send (T_R static t) \<longleftrightarrow> sync t"
| "send (T_RMut t) \<longleftrightarrow> send t"
| "send (T_Cell t) \<longleftrightarrow> send t"
| "send (T_RefCell t) \<longleftrightarrow> send t"
| "send (T_Mutex t) \<longleftrightarrow> send t"
| "send (T_RwLock t) \<longleftrightarrow> send t"
| "send (T_Option t) \<longleftrightarrow> send t"
| "send (T_Result t e) \<longleftrightarrow> send t \<and> send e"
| "send (T_Vec_Like t) \<longleftrightarrow> send t"
| "send (T_BTreeMap k v) \<longleftrightarrow> send k \<and> send v"
| "send (T_HashMap k v h) \<longleftrightarrow> send k \<and> send v \<and> send h"
| "send (T_HashSet t h) \<longleftrightarrow> send t \<and> send h"
| "send (T_Tuple ts) \<longleftrightarrow> (\<forall>t\<in>set ts. send t)"
| "send (T_Arc t) \<longleftrightarrow> send t \<and> sync t"
| "send (T_GcSafeWrapper t) \<longleftrightarrow> send t"
| "sync (T_Value c) \<longleftrightarrow> True"
| "sync (T_Gc t) \<longleftrightarrow> sync t \<and> send t"
| "sync (T_DerefGc t) \<longleftrightarrow> sync t \<and> send t"
| "sync (T_AtomicGc t) \<longleftrightarrow> sync t \<and> send t"
| "sync (T_Static t) \<longleftrightarrow> sync t"
| "sync (T_R static t) \<longleftrightarrow> sync t"
| "sync (T_RMut t) \<longleftrightarrow> sync t"
| "sync (T_Cell t) \<longleftrightarrow> False"
| "sync (T_RefCell t) \<longleftrightarrow> False"
| "sync (T_Mutex t) \<longleftrightarrow> send t"
| "sync (T_RwLock t) \<longleftrightarrow> send t \<and> sync t"
| "sync (T_Option t) \<longleftrightarrow> sync t"
| "sync (T_Result t e) \<longleftrightarrow> sync t \<and> sync e"
| "sync (T_Vec_Like t) \<longleftrightarrow> sync t"
| "sync (T_BTreeMap k v) \<longleftrightarrow> sync k \<and> sync v"
| "sync (T_HashMap k v h) \<longleftrightarrow> sync k \<and> sync v \<and> sync h"
| "sync (T_HashSet t h) \<longleftrightarrow> sync t \<and> sync h"
| "sync (T_Tuple ts) \<longleftrightarrow> (\<forall>t\<in>set ts. sync t)"
| "sync (T_Arc t) \<longleftrightarrow> send t \<and> sync t"
| "sync (T_GcSafeWrapper t) \<longleftrightarrow> sync t"

fun copy :: "rty \<Rightarrow> bool" where
  "copy (T_Value c) \<longleftrightarrow> c"
| "copy (T_Static t) \<longleftrightarrow> True"
| "copy (T_R static t) \<longleftrightarrow> True"
| "copy (T_Option t) \<longleftrightarrow> copy t"
| "copy (T_Result t e) \<longleftrightarrow> copy t \<and> copy e"
| "copy (T_Tuple ts) \<longleftrightarrow> (\<forall>t\<in>set ts. copy t)"
| "copy (T_GcSafeWrapper t) \<longleftrightarrow> copy t"
| "copy _ \<longleftrightarrow> False"

subsection \<open>The marker traits\<close>

fun gc_safe :: "rty \<Rightarrow> bool" where
  "gc_safe (T_Static t) \<longleftrightarrow> send (T_Static t)"
| "gc_safe (T_Cell t) \<longleftrightarrow> gc_safe t"
| "gc_safe (T_RefCell t) \<longleftrightarrow> gc_safe t"
| "gc_safe (T_Mutex t) \<longleftrightarrow> gc_safe t"
| "gc_safe (T_RwLock t) \<longleftrightarrow> gc_safe t"
| "gc_safe (T_Option t) \<longleftrightarrow> gc_safe t"
| "gc_safe (T_Result t e) \<longleftrightarrow> gc_safe t \<and> gc_safe e"
| "gc_safe (T_Vec_Like t) \<longleftrightarrow> gc_safe t"
| "gc_safe (T_BTreeMap k v) \<longleftrightarrow> gc_safe k \<and> gc_safe v"
| "gc_safe (T_HashMap k v h) \<longleftrightarrow> gc_safe k \<and> gc_safe v \<and> gc_safe h"
| "gc_safe (T_HashSet t h) \<longleftrightarrow> gc_safe t \<and> gc_safe h"
| "gc_safe (T_Tuple ts) \<longleftrightarrow> (\<forall>t\<in>set ts. gc_safe t)"
| "gc_safe (T_Arc t) \<longleftrightarrow> gc_safe t"
| "gc_safe _ \<longleftrightarrow> True"

fun gc_drop_ty :: "rty \<Rightarrow> bool" where
  "gc_drop_ty (T_Value c) \<longleftrightarrow> True"
| "gc_drop_ty (T_Gc t) \<longleftrightarrow> True"
| "gc_drop_ty (T_DerefGc t) \<longleftrightarrow> False"
| "gc_drop_ty (T_AtomicGc t) \<longleftrightarrow> False"
| "gc_drop_ty (T_Static t) \<longleftrightarrow> True"
| "gc_drop_ty (T_R static t) \<longleftrightarrow> static"
| "gc_drop_ty (T_RMut t) \<longleftrightarrow> False"
| "gc_drop_ty (T_Cell t) \<longleftrightarrow> gc_drop_ty t"
| "gc_drop_ty (T_RefCell t) \<longleftrightarrow> gc_drop_ty t"
| "gc_drop_ty (T_Mutex t) \<longleftrightarrow> gc_drop_ty t"
| "gc_drop_ty (T_RwLock t) \<longleftrightarrow> gc_drop_ty t"
| "gc_drop_ty (T_Option t) \<longleftrightarrow> gc_drop_ty t"
| "gc_drop_ty (T_Result t e) \<longleftrightarrow> gc_drop_ty t \<and> gc_drop_ty e"
| "gc_drop_ty (T_Vec_Like t) \<longleftrightarrow> gc_drop_ty t"
| "gc_drop_ty (T_BTreeMap k v) \<longleftrightarrow> gc_drop_ty k \<and> gc_drop_ty v"
| "gc_drop_ty (T_HashMap k v h) \<longleftrightarrow> gc_drop_ty k \<and> gc_drop_ty v \<and> gc_drop_ty h"
| "gc_drop_ty (T_HashSet t h) \<longleftrightarrow> gc_drop_ty t \<and> gc_drop_ty h"
| "gc_drop_ty (T_Tuple ts) \<longleftrightarrow> (\<forall>t\<in>set ts. gc_drop_ty t)"
| "gc_drop_ty (T_Arc t) \<longleftrightarrow> gc_drop_ty t"
| "gc_drop_ty (T_GcSafeWrapper t) \<longleftrightarrow> False"

text \<open>\<open>GcDeref\<close> and \<open>Scan\<close> depend on each other through the bounds of \<open>Gc\<close> and \<open>DerefGc\<close>.\<close>

fun gc_deref :: "rty \<Rightarrow> bool" and scan_ty :: "rty \<Rightarrow> bool" where
  "gc_deref (T_Value c) \<longleftrightarrow> True"
| "gc_deref (T_Gc t) \<longleftrightarrow> scan_ty t \<and> send t \<and> sync t"
| "gc_deref (T_DerefGc t) \<longleftrightarrow> scan_ty t \<and> gc_deref t \<and> send t \<and> sync t"
| "gc_deref (T_AtomicGc t) \<longleftrightarrow> scan_ty t \<and> send t \<and> sync t"
| "gc_deref (T_Static t) \<longleftrightarrow> gc_deref t"
| "gc_deref (T_R static t) \<longleftrightarrow> gc_deref t"
| "gc_deref (T_RMut t) \<longleftrightarrow> gc_deref t"
| "gc_deref (T_Cell t) \<longleftrightarrow> False"
| "gc_deref (T_RefCell t) \<longleftrightarrow> False"
| "gc_deref (T_Mutex t) \<longleftrightarrow> False"
| "gc_deref (T_RwLock t) \<longleftrightarrow> False"
| "gc_deref (T_Option t) \<longleftrightarrow> gc_deref t"
| "gc_deref (T_Result t e) \<longleftrightarrow> gc_deref t \<and> gc_deref e"
| "gc_deref (T_Vec_Like t) \<longleftrightarrow> gc_deref t"
| "gc_deref (T_BTreeMap k v) \<longleftrightarrow> gc_deref k \<and> gc_deref v"
| "gc_deref (T_HashMap k v h) \<longleftrightarrow> gc_deref k \<and> gc_deref v \<and> gc_deref h"
| "gc_deref (T_HashSet t h) \<longleftrightarrow> gc_deref t \<and> gc_deref h"
| "gc_deref (T_Tuple ts) \<longleftrightarrow> (\<forall>t\<in>set ts. gc_deref t)"
| "gc_deref (T_Arc t) \<longleftrightarrow> gc_deref t \<and> send t"
| "gc_deref (T_GcSafeWrapper t) \<longleftrightarrow> False"
| "scan_ty (T_Value c) \<longleftrightarrow> True"
| "scan_ty (T_Gc t) \<longleftrightarrow> scan_ty t"
| "scan_ty (T_DerefGc t) \<longleftrightarrow> scan_ty t \<and> gc_deref t"
| "scan_ty (T_AtomicGc t) \<longleftrightarrow> scan_ty t"
| "scan_ty (T_Static t) \<longleftrightarrow> send (T_Static t)"
| "scan_ty (T_R static t) \<longleftrightarrow> True"
| "scan_ty (T_RMut t) \<longleftrightarrow> True"
| "scan_ty (T_Cell t) \<longleftrightarrow> copy t \<and> gc_safe t"
| "scan_ty (T_RefCell t) \<longleftrightarrow> scan_ty t"
| "scan_ty (T_Mutex t) \<longleftrightarrow> scan_ty t"
| "scan_ty (T_RwLock t) \<longleftrightarrow> scan_ty t"
| "scan_ty (T_Option t) \<longleftrightarrow> scan_ty t"
| "scan_ty (T_Result t e) \<longleftrightarrow> scan_ty t \<and> scan_ty e"
| "scan_ty (T_Vec_Like t) \<longleftrightarrow> scan_ty t"
| "scan_ty (T_BTreeMap k v) \<longleftrightarrow> scan_ty k \<and> scan_ty v"
| "scan_ty (T_HashMap k v h) \<longleftrightarrow> scan_ty k \<and> scan_ty v \<and> gc_safe h"
| "scan_ty (T_HashSet t h) \<longleftrightarrow> scan_ty t \<and> gc_safe h"
| "scan_ty (T_Tuple ts) \<longleftrightarrow> (\<forall>t\<in>set ts. scan_ty t)"
| "scan_ty (T_Arc t) \<longleftrightarrow> False"
| "scan_ty (T_GcSafeWrapper t) \<longleftrightarrow> False"

fun finalize_ty :: "rty \<Rightarrow> bool" where
  "finalize_ty (T_Cell t) \<longleftrightarrow> finalize_ty t"
| "finalize_ty (T_RefCell t) \<longleftrightarrow> finalize_ty t"
| "finalize_ty (T_Mutex t) \<longleftrightarrow> finalize_ty t"
| "finalize_ty (T_RwLock t) \<longleftrightarrow> finalize_ty t"
| "finalize_ty (T_Option t) \<longleftrightarrow> finalize_ty t"
| "finalize_ty (T_Result t e) \<longleftrightarrow> finalize_ty t \<and> finalize_ty e"
| "finalize_ty (T_Vec_Like t) \<longleftrightarrow> finalize_ty t"
| "finalize_ty (T_BTreeMap k v) \<longleftrightarrow> finalize_ty k \<and> finalize_ty v"
| "finalize_ty (T_HashMap k v h) \<longleftrightarrow> finalize_ty k \<and> finalize_ty v"
| "finalize_ty (T_HashSet t h) \<longleftrightarrow> finalize_ty t"
| "finalize_ty (T_Tuple ts) \<longleftrightarrow> (\<forall>t\<in>set ts. finalize_ty t)"
| "finalize_ty (T_Arc t) \<longleftrightarrow> False"
| "finalize_ty (T_GcSafeWrapper t) \<longleftrightarrow> False"
| "finalize_ty _ \<longleftrightarrow> True"

subsection \<open>The values of a type\<close>

text \<open>
  The hasher of a \<open>HashMap\<close> or \<open>HashSet\<close> is no part of its value in \<open>Values\<close>, so it is
  taken to be one of a primitive type, as \<open>RandomState\<close> is.
\<close>

fun has_ty :: "rty \<Rightarrow> val \<Rightarrow> bool" where
  "has_ty (T_Value c) v \<longleftrightarrow> (case v of V_Plain n \<Rightarrow> True | _ \<Rightarrow> False)"
| "has_ty (T_Gc t) v \<longleftrightarrow> (case v of V_Gc h \<Rightarrow> True | _ \<Rightarrow> False)"
| "has_ty (T_DerefGc t) v \<longleftrightarrow> (case v of V_DerefGc h \<Rightarrow> True | _ \<Rightarrow> False)"
| "has_ty (T_AtomicGc t) v \<longleftrightarrow> (case v of V_AtomicGc a h \<Rightarrow> True | _ \<Rightarrow> False)"
| "has_ty (T_Static t) v \<longleftrightarrow> v = V_Static"
| "has_ty (T_R static t) v \<longleftrightarrow> v = V_R"
| "has_ty (T_RMut t) v \<longleftrightarrow> v = V_RMut"
| "has_ty (T_Cell t) v \<longleftrightarrow> (case v of V_Cell x \<Rightarrow> has_ty t x | _ \<Rightarrow> False)"
| "has_ty (T_RefCell t) v \<longleftrightarrow> (case v of V_RefCell use x \<Rightarrow> has_ty t x | _ \<Rightarrow> False)"
| "has_ty (T_Mutex t) v \<longleftrightarrow> (case v of V_Mutex locked poisoned x \<Rightarrow> has_ty t x | _ \<Rightarrow> False)"
| "has_ty (T_RwLock t) v \<longleftrightarrow> (case v of V_RwLock use poisoned x \<Rightarrow> has_ty t x | _ \<Rightarrow> False)"
| "has_ty (T_Option t) v \<longleftrightarrow>
     (case v of V_Option ov \<Rightarrow> (case ov of Some x \<Rightarrow> has_ty t x | None \<Rightarrow> True) | _ \<Rightarrow> False)"
| "has_ty (T_Result t e) v \<longleftrightarrow> (case v of V_Ok x \<Rightarrow> has_ty t x | V_Err x \<Rightarrow> has_ty e x | _ \<Rightarrow> False)"
| "has_ty (T_Vec_Like t) v \<longleftrightarrow> (case v of V_Seq vs \<Rightarrow> list_all (has_ty t) vs | _ \<Rightarrow> False)"
| "has_ty (T_BTreeMap k w) v \<longleftrightarrow>
     (case v of V_Map kvs \<Rightarrow> list_all (\<lambda>(x, y). has_ty k x \<and> has_ty w y) kvs | _ \<Rightarrow> False)"
| "has_ty (T_HashMap k w h) v \<longleftrightarrow>
     (case h of T_Value c \<Rightarrow> True | _ \<Rightarrow> False) \<and>
     (case v of V_Map kvs \<Rightarrow> list_all (\<lambda>(x, y). has_ty k x \<and> has_ty w y) kvs | _ \<Rightarrow> False)"
| "has_ty (T_HashSet t h) v \<longleftrightarrow>
     (case h of T_Value c \<Rightarrow> True | _ \<Rightarrow> False) \<and>
     (case v of V_Seq vs \<Rightarrow> list_all (has_ty t) vs | _ \<Rightarrow> False)"
| "has_ty (T_Tuple ts) v \<longleftrightarrow> (case v of V_Tuple vs \<Rightarrow> list_all2 has_ty ts vs | _ \<Rightarrow> False)"
| "has_ty (T_Arc t) v \<longleftrightarrow> (case v of V_Arc last_ref x \<Rightarrow> has_ty t x | _ \<Rightarrow> False)"
| "has_ty (T_GcSafeWrapper t) v \<longleftrightarrow> (case v of V_GcSafeWrapper x \<Rightarrow> has_ty t x | _ \<Rightarrow> False)"

text \<open>A value in which no destructor finds a pointer that it could follow without a check.\<close>

fun checked :: "val \<Rightarrow> bool" where
  "checked (V_DerefGc h) \<longleftrightarrow> False"
| "checked (V_AtomicGc a h) \<longleftrightarrow> False"
| "checked V_RMut \<longleftrightarrow> False"
| "checked (V_Cell v) \<longleftrightarrow> checked v"
| "checked (V_RefCell use v) \<longleftrightarrow> checked v"
| "checked (V_Mutex locked poisoned v) \<longleftrightarrow> checked v"
| "checked (V_RwLock use poisoned v) \<longleftrightarrow> checked v"
| "checked (V_Option ov) \<longleftrightarrow> (case ov of Some v \<Rightarrow> checked v | None \<Rightarrow> True)"
| "checked (V_Ok v) \<longleftrightarrow> checked v"
| "checked (V_Err v) \<longleftrightarrow> checked v"
| "checked (V_Seq vs) \<longleftrightarrow> (\<forall>v\<in>set vs. checked v)"
| "checked (V_Map kvs) \<longleftrightarrow> (\<forall>(k, v)\<in>set kvs. checked k \<and> checked v)"
| "checked (V_Tuple vs) \<longleftrightarrow> (\<forall>v\<in>set vs. checked v)"
| "checked (V_Arc last_ref v) \<longleftrightarrow> checked v"
| "checked (V_GcSafeWrapper v) \<longleftrightarrow> checked v"
| "checked (V_User panics fin fs) \<longleftrightarrow> (\<forall>(skip, v)\<in>set fs. checked v)"
| "checked _ \<longleftrightarrow> True"

lemma list_all2_all: "list_all2 P xs ys \<Longrightarrow> (\<And>x y. x \<in> set xs \<Longrightarrow> P x y \<Longrightarrow> Q y) \<Longrightarrow> \<forall>y\<in>set ys. Q y"
  by (induction rule: list_all2_induct) auto

lemma gc_drop_checked: "has_ty t v \<Longrightarrow> gc_drop_ty t \<Longrightarrow> checked v"
proof (induction t arbitrary: v)
  case (T_Tuple ts)
  then obtain vs where vs: "v = V_Tuple vs" "list_all2 has_ty ts vs" by (auto split: val.splits)
  from vs(2) have "\<forall>v\<in>set vs. checked v" by (rule list_all2_all) (use T_Tuple in auto)
  with vs show ?case by simp
qed (fastforce simp: list_all_iff split: val.splits option.splits)+

lemma copy_owns_nothing: "has_ty t v \<Longrightarrow> copy t \<Longrightarrow> owned v = []"
proof (induction t arbitrary: v)
  case (T_Tuple ts)
  then obtain vs where vs: "v = V_Tuple vs" "list_all2 has_ty ts vs" by (auto split: val.splits)
  from vs(2) have "\<forall>v\<in>set vs. owned v = []" by (rule list_all2_all) (use T_Tuple in auto)
  with vs show ?case by simp
qed (fastforce split: val.splits option.splits)+

text \<open>Without a writer in any of its locks, a value of a \<open>Scan\<close> type is at rest.\<close>

fun unlocked :: "val \<Rightarrow> bool" where
  "unlocked (V_RefCell use v) \<longleftrightarrow> use \<noteq> Writer \<and> unlocked v"
| "unlocked (V_Mutex locked poisoned v) \<longleftrightarrow> \<not> locked \<and> unlocked v"
| "unlocked (V_RwLock use poisoned v) \<longleftrightarrow> use \<noteq> Writer \<and> unlocked v"
| "unlocked (V_Option ov) \<longleftrightarrow> (case ov of Some v \<Rightarrow> unlocked v | None \<Rightarrow> True)"
| "unlocked (V_Ok v) \<longleftrightarrow> unlocked v"
| "unlocked (V_Err v) \<longleftrightarrow> unlocked v"
| "unlocked (V_Seq vs) \<longleftrightarrow> (\<forall>v\<in>set vs. unlocked v)"
| "unlocked (V_Map kvs) \<longleftrightarrow> (\<forall>(k, v)\<in>set kvs. unlocked k \<and> unlocked v)"
| "unlocked (V_Tuple vs) \<longleftrightarrow> (\<forall>v\<in>set vs. unlocked v)"
| "unlocked _ \<longleftrightarrow> True"

lemma scan_ty_at_rest: "has_ty t v \<Longrightarrow> scan_ty t \<Longrightarrow> unlocked v \<Longrightarrow> at_rest v"
proof (induction t arbitrary: v)
  case (T_Tuple ts)
  then obtain vs where vs: "v = V_Tuple vs" "list_all2 has_ty ts vs" by (auto split: val.splits)
  from vs(2) have "\<forall>v\<in>set vs. unlocked v \<longrightarrow> at_rest v" by (rule list_all2_all) (use T_Tuple in auto)
  with vs T_Tuple.prems show ?case by simp
next
  case (T_Cell t)
  then show ?case by (auto split: val.splits intro: copy_owns_nothing)
qed (fastforce simp: list_all_iff split: val.splits option.splits)+

lemma gc_deref_unlocked: "has_ty t v \<Longrightarrow> gc_deref t \<Longrightarrow> unlocked v"
proof (induction t arbitrary: v)
  case (T_Tuple ts)
  then obtain vs where vs: "v = V_Tuple vs" "list_all2 has_ty ts vs" by (auto split: val.splits)
  from vs(2) have "\<forall>v\<in>set vs. unlocked v" by (rule list_all2_all) (use T_Tuple in auto)
  with vs show ?case by simp
qed (fastforce simp: list_all_iff split: val.splits option.splits)+

lemma finalize_ty_has_finalize: "has_ty t v \<Longrightarrow> finalize_ty t \<Longrightarrow> has_finalize v"
proof (induction t arbitrary: v)
  case (T_Tuple ts)
  then obtain vs where vs: "v = V_Tuple vs" "list_all2 has_ty ts vs" by (auto split: val.splits)
  from vs(2) have "\<forall>v\<in>set vs. has_finalize v" by (rule list_all2_all) (use T_Tuple in auto)
  with vs show ?case by simp
qed (fastforce simp: list_all_iff split: val.splits option.splits)+

lemma send_gc_safe: "send t \<Longrightarrow> gc_safe t"
  by (induction t) auto

lemma scan_gc_safe: "scan_ty t \<Longrightarrow> gc_safe t"
  by (induction t) auto

lemma gc_deref_sync: "gc_deref t \<Longrightarrow> sync t"
  by (induction t) auto

subsection \<open>What the traits promise\<close>

text \<open>
  C32: The implementations keep the promises of the trait definitions: a \<open>Scan\<close> type is \<open>GcSafe\<close>
  and a \<open>GcDeref\<close> type is \<open>Sync\<close>, as their supertraits say, and a \<open>Send\<close> type is always
  \<open>GcSafe\<close>, as the documentation of \<open>GcSafe\<close> says.
\<close>

theorem marker_traits_consistent:
  "(scan_ty t \<longrightarrow> gc_safe t) \<and> (gc_deref t \<longrightarrow> sync t) \<and> (send t \<longrightarrow> gc_safe t)"
  using scan_gc_safe gc_deref_sync send_gc_safe by blast

theorem marker_traits_consistent_witness:
  "gc_safe (T_Mutex (T_Gc (T_Value True))) \<and> sync (T_Arc (T_Option (T_DerefGc (T_Value False)))) \<and>
   gc_safe (T_Arc (T_Mutex (T_Static (T_Value True))))"
  using marker_traits_consistent [of "T_Mutex (T_Gc (T_Value True))"]
    marker_traits_consistent [of "T_Arc (T_Option (T_DerefGc (T_Value False)))"]
    marker_traits_consistent [of "T_Arc (T_Mutex (T_Static (T_Value True)))"]
  by simp

text \<open>
  C33: A value of a \<open>GcDrop\<close> type holds, at any depth and also behind an \<open>Arc\<close>, no \<open>DerefGc\<close>,
  \<open>AtomicGc\<close> or \<open>RMut\<close>: all a destructor finds in it are \<open>Gc\<close> pointers, which panic when their
  data is already given up.
\<close>

theorem gc_drop_values_checked:
  assumes "gc_drop_ty t" and "has_ty t v"
  shows "checked v"
  by (rule gc_drop_checked [OF assms(2,1)])

theorem gc_drop_values_checked_witness:
  "checked (V_Tuple [V_Arc False (V_Mutex True False (V_Gc (ref_no 1))), V_Option (Some (V_Plain 3))])"
  using gc_drop_values_checked [of "T_Tuple [T_Arc (T_Mutex (T_Gc (T_Value True))), T_Option (T_Value True)]"
    "V_Tuple [V_Arc False (V_Mutex True False (V_Gc (ref_no 1))), V_Option (Some (V_Plain 3))]"]
  by simp

text \<open>
  C34: Data that may be in a \<open>DerefGc\<close>, where it is read without a guard and so without a warrant,
  can be scanned at any moment: whatever value of its type it is, the scan reports every handle
  it owns. With it goes that data of any \<open>Scan\<close> type hides handles behind a held lock only.
\<close>

theorem deref_data_scans_completely:
  assumes "scan_ty t" and "has_ty t v" and "gc_deref t \<or> unlocked v"
  shows "scan v = fst (drop_glue v)"
proof -
  have "unlocked v" using assms gc_deref_unlocked by blast
  from scan_at_rest [OF scan_ty_at_rest [OF assms(2,1) this]] show ?thesis by (simp add: owned_def)
qed

theorem deref_data_scans_completely_witness:
  "scan (V_Map [(V_Plain 1, V_Gc (ref_no 1)), (V_Plain 2, V_Gc (ref_no 2))]) = [ref_no 1, ref_no 2] \<and>
   scan (V_RwLock (Readers 2) True (V_Seq [V_Gc (ref_no 3)])) = [ref_no 3]"
  using deref_data_scans_completely [of "T_BTreeMap (T_Value True) (T_Gc (T_Mutex (T_Value True)))"
      "V_Map [(V_Plain 1, V_Gc (ref_no 1)), (V_Plain 2, V_Gc (ref_no 2))]"]
    deref_data_scans_completely [of "T_RwLock (T_Vec_Like (T_Gc (T_Value True)))"
      "V_RwLock (Readers 2) True (V_Seq [V_Gc (ref_no 3)])"]
  by (simp add: then_drop_def)

end
