(* ===== verification/Spec2Isabelle.thy ===== *)
theory Spec2Isabelle
  imports Lockout_Threads Spinlock_Threads Scanner Chunked_LL_Runs Collection_Alone Atomic_Clone Atomic_Ordering
    Wrappers Formatting Pointer_Traits Library_Api Markers
begin

text \<open>
  \<^bold>\<open>shredder\<close> is a garbage collector for Rust as a library. A \<open>Gc\<close> is a registered handle to tracked data;
  a collection finds the handles that are inside of tracked data, takes all others for roots, marks what
  can be reached from them, and gives the rest to a background thread that runs the destructors. This
  library models the crate and proves what makes it correct. It says where it is not.

  \<^bold>\<open>The parts and how they interact.\<close> The one \<open>Collector\<close> keeps two chunked lists, of data and of handles,
  which threads change without a lock. Each piece of data has a lockout: a guard of a \<open>Gc\<close> is a shared
  warrant of it, and a collection scans only data whose exclusive warrant it gets, so that nobody changes a
  value while it is scanned. An \<open>AtomicGc\<close> is a cell whose content can change without a guard, so
  its operations hold off collections with a spinlock. The collection mutex admits one collection at a
  time. What a collection gives up goes through a channel to the dropper, which flags the data, runs
  destructors or finalizers and thereby drops the handles in it; the next collection waits for it first.

  \<^bold>\<open>The theories\<close>, with the files under \<open>src/src\<close> they model:

  \<^item> \<open>Prelude\<close>: words, the result type \<open>gc_error + 'a\<close> for panics, blocking, undefined reads and aborts,
    \<open>compare_exchange\<close>, list and sum lemmas, the theorem collections.
  \<^item> \<open>Locking\<close>: the interface of the two reader-writer locks (locales \<open>rw_lock\<close>, \<open>warrant_lock\<close>).
    \<open>Lockout\<close> and \<open>Spinlock\<close> model \<open>concurrency/lockout.rs\<close> and \<open>concurrency/atomic_protection.rs\<close> as they run
    undisturbed and interpret it. \<open>Lockout_Threads\<close> and \<open>Spinlock_Threads\<close> interleave every atomic access, mutex
    operation, wait and notification of any number of threads: mutual exclusion, no lost wake-up, no deadlock,
    stillness of the cells during a collection.
  \<^item> \<open>Slots\<close>: the contract of a list with the collector (locale \<open>slot_store\<close>). \<open>Chunked_LL\<close> models
    \<open>concurrency/chunked_ll.rs\<close> as it runs undisturbed and interprets the contract; \<open>Chunked_LL_Threads\<close> interleaves
    any number of threads in the list, and \<open>Chunked_LL_Runs\<close> states the theorems: the list is a linearizable finite map,
    no slot is lost or handed out twice, a walk sees what stays, and a thread alone does what \<open>Chunked_LL\<close> says.
  \<^item> \<open>Values\<close>: the values that live in a \<open>Gc\<close> as one datatype, with \<open>Scan\<close>, \<open>Finalize\<close> and Rust's drop glue
    (\<open>std_impls\<close>, \<open>scan.rs\<close>, \<open>finalize.rs\<close>, the impls of \<open>r.rs\<close>, \<open>atomic.rs\<close>, \<open>smart_ptr\<close>).
    \<open>Scanner\<close>: \<open>scan.rs\<close> with its callback, one definition per impl of \<open>Scan\<close>; it comes to the list of \<open>Values\<close>.
    \<open>Markers\<close>: the impl blocks of \<open>GcSafe\<close>, \<open>GcDrop\<close>, \<open>GcDeref\<close>, \<open>Send\<close> and \<open>Sync\<close> as predicates over
    types, and what they say about values of such types (\<open>marker\<close> and the same files).
  \<^item> \<open>Alloc\<close>: \<open>collector/alloc.rs\<close> over a heap of blocks. \<open>Float32\<close> and \<open>Trigger\<close>: \<open>collector/trigger.rs\<close> with binary32
    arithmetic.
  \<^item> \<open>Collector\<close>: state, handles and warrants (\<open>collector/mod.rs\<close>, \<open>collector/data.rs\<close>). \<open>Dropper\<close>:
    \<open>collector/dropper.rs\<close>, a message at a time and with its two parallel loops in steps. \<open>Collect\<close>: the steps of \<open>do_collect\<close> (\<open>collector/collect_impl.rs\<close>), \<open>collect\<close>,
    \<open>check_then_collect\<close>, the background thread and \<open>run_with_gc_cleanup\<close>. The names of the definitions are those of the
    functions; a step that is a closure or a loop body in the source has a name of its own.
  \<^item> \<open>Gc_Ptr\<close>, \<open>Pointer_Traits\<close>: \<open>smart_ptr/gc.rs\<close>, \<open>smart_ptr/deref_gc.rs\<close>. \<open>Atomic_Gc\<close>, \<open>Atomic_Ordering\<close>,
    \<open>Atomic_Clone\<close>: \<open>atomic.rs\<close>. \<open>Wrappers\<close>: \<open>wrappers.rs\<close> and the methods of \<open>Gc\<close> for cells and locks.
    \<open>Formatting\<close>: the \<open>Debug\<close> output of pointers and guards.
    \<open>References\<close>: \<open>r.rs\<close> and \<open>GcSafeWrapper\<close> of \<open>marker/gc_safe.rs\<close>, with the laws of the comparison traits
    as the locale \<open>rust_traits\<close> that every pointer takes over from its referent. \<open>Library_Api\<close>: \<open>lib.rs\<close>.
  \<^item> \<open>Mark\<close>, \<open>Sweep\<close>: each phase of a collection as an equation on a well-formed state; what is marked is what is
    reachable. \<open>Parallel_Mark\<close>: the search with any number of workers, every schedule of which ends, in the same state.
    \<open>Beside_Collection\<close>: what the calls of other threads do while a collection is under way. \<open>Root_Race\<close>: the
    search for roots interleaved with any such calls.
  \<^item> \<open>Collection_Threads\<close>, \<open>Collection_Search\<close>: a collection in steps from the synchronisation with the dropper to the
    release of the warrants (\<open>own_step\<close>: a slot of the list of data, a slot of the list of handles, an access of a worker, a
    warrant), with any calls of other threads between them; an invariant for each phase, the measure that its steps
    decrease, and what it keeps. \<open>Collection_Alone\<close>: without such calls it comes to what \<open>Collect\<close> computes.
  \<^item> \<open>Safety\<close>, \<open>Released\<close>, \<open>Collect_Safety\<close>: the invariant \<open>gc_inv\<close> of the state and of what a client owns, and that every
    operation keeps it. \<open>Client\<close>, \<open>Client_Safety\<close>: a client that makes any sequence of calls, and what it may rely on.

  \<^bold>\<open>What is shown.\<close> The calls of a client, made one after the other and within Rust's ownership rules, never fail, and
  its pointers always lead to live data; a collection keeps what the client can get at and, when nothing
  hides a handle from the scan and the dropper has caught up, nothing else. What it gives up waits in one place for the
  dropper, whose next run frees its block, or leaks it if its own destructor or finalizer panics outside of a box; in every order
  of the dropper's work an access to data of the message panics once the destructors may begin. The locks and the list
  are correct in every interleaving of their accesses. The steps of a collection come to the result of the sequential definition in
  any order; with calls of other threads between them a collection still ends, and keeps what is led to from handles outside of
  locked data that stay in their slots while roots are searched for, all guarded data, and all data it has not locked. The pointers, wrappers and
  references behave as the values behind them and give back what they take, also where they return an error.

  Three things do not hold, and have a counterexample each or a finding. A client with two threads can lose data that it
  still points to: the walk over the handles that looks for roots can be overtaken by a clone into a slot that it has passed,
  followed by a drop of the original in a slot ahead (\<open>Root_Race.raced_collection_loses_data\<close>; handles that stay in
  their slots outside of locked data, new and guarded data are safe, \<open>Collection_Search.raced_collection_keeps\<close>). A clone of an \<open>AtomicGc\<close> shares its handle, and dropping it lets
  the original dangle (\<open>Atomic_Clone\<close>). A tuple whose finalizer panics finalizes fields twice (\<open>Values.tuple_finalized_twice\<close>).

  \<^bold>\<open>Bounds.\<close> Counters are words and wrap where the code's do. The client theorems ask for room: fewer than \<open>2 ^ 64\<close> pieces
  of data and collections, fewer than \<open>2 ^ 64 - 2\<close> warrants of one piece of data; the reader counts of cells and
  locks, which belong to the standard library, are unbounded. No definition uses fuel: \<open>insert\<close> and the
  searches terminate by measures (a list expands once at most; each visit marks one more piece of data), and the
  loops of the interleaved models are single steps, whose termination is a theorem where it holds. \<open>Lockout_Threads\<close> bounds
  the number of threads by the counter's range.

  \<^bold>\<open>What is assumed.\<close> Memory is sequentially consistent. The source asks for \<open>SeqCst\<close> on locks and marks; the head of a chunked
  list is published with \<open>Relaxed\<close>, which weaker memory could show to another thread before the chunk
  is filled. The values a client tracks panic once at most when dropped (a second panic ends the process). The closure of
  a cyclic constructor, methods of values, hashers and formatters are arguments. Standard library locks and cells,
  channels and \<open>Arc\<close>s behave as documented; the reference counts of \<open>Arc\<close>s are not kept, liveness of a \<open>GcData\<close> being
  membership in the lists and messages that hold it.

  \<^bold>\<open>Not modelled.\<close> Derived \<open>Debug\<close> output; the compile-time declarations \<open>StableDeref\<close> and \<open>CoerceUnsized\<close>; the
  derive macros and the \<open>rental\<close> crate, which are not in this repository; thread start-up and the shutdown of
  the process; tests and benchmarks. Between the steps of a collection other threads make whole calls; the accesses inside a
  call are interleaved in the models of the locks and of the list only, and the visit of one slot of the list of data, which takes the
  warrant and flags the handles, is one step. The clean-up that ends a collection is one step. In the steps of the dropper all that
  a destructor does to the collector happens when it finishes, and no other calls come between.
\<close>

end
